(* ===== verification/Prelude.thy ===== *)
theory Prelude
  imports Main "HOL-Library.Word"
begin

text \<open>
  The prelude of the development: how the Go runtime's partial operations (indexing and
  slicing out of range, a nil map write, \<open>log.Fatal\<close>, \<open>panic\<close>) become values, the
  monad that threads them, Go's maps as association lists where their iteration order or
  their size matters, and the generic lemmas on lists, options and machine words the
  component theories share.

  Go's \<open>int\<close> (64 bits) is \<open>int\<close>: the terms, log indices, configuration numbers and counters
  that use it grow by one per event and never reach \<open>2 ^ 63\<close>.  \<open>uint64\<close> version numbers,
  which the code compares for equality and increments, are \<open>64 word\<close>, and the FNV hash is
  \<open>32 word\<close>, because there the wrap-around is part of what the code computes.
\<close>

section \<open>Collections of simplification rules\<close>

named_theorems go_eval \<open>evaluation of the Go primitives\<close>
named_theorems kv_eval \<open>evaluation of the key/value operations\<close>
named_theorems raft_eval \<open>evaluation of the Raft operations\<close>

section \<open>Run-time failures of Go as values\<close>

datatype go_error =
    IndexOutOfRange
  | SliceOutOfRange
  | NilMapWrite
  | SendOnClosedChannel
  | CloseOfClosedChannel
  | DivideByZero
  | TypeAssertion
  | LogFatal string
  | GoPanic string

type_synonym 'a go = "go_error + 'a"

definition go_bind :: "'a go \<Rightarrow> ('a \<Rightarrow> 'b go) \<Rightarrow> 'b go" where
  "go_bind m f = (case m of Inl e \<Rightarrow> Inl e | Inr x \<Rightarrow> f x)"

lemma go_bind_Inl [simp, go_eval]: "go_bind (Inl e) f = Inl e"
  by (simp add: go_bind_def)

lemma go_bind_Inr [simp, go_eval]: "go_bind (Inr x) f = f x"
  by (simp add: go_bind_def)

lemma go_bind_eq_Inr_iff: "go_bind m f = Inr y \<longleftrightarrow> (\<exists>x. m = Inr x \<and> f x = Inr y)"
  by (cases m) simp_all

lemma go_bindE:
  assumes "go_bind m f = Inr y"
  obtains x where "m = Inr x" "f x = Inr y"
  using assms by (auto simp: go_bind_eq_Inr_iff)

lemma go_bind_eq_Inl_iff:
  "go_bind m f = Inl e \<longleftrightarrow> m = Inl e \<or> (\<exists>x. m = Inr x \<and> f x = Inl e)"
  by (cases m) simp_all

section \<open>Slices\<close>

text \<open>\<open>xs[i]\<close>, \<open>xs[i] = v\<close>, \<open>xs[i:]\<close>, \<open>xs[:i]\<close> with Go's bounds checks.\<close>

definition go_nth :: "'a list \<Rightarrow> int \<Rightarrow> 'a go" where
  "go_nth xs i = (if 0 \<le> i \<and> i < int (length xs) then Inr (xs ! nat i) else Inl IndexOutOfRange)"

definition go_update :: "'a list \<Rightarrow> int \<Rightarrow> 'a \<Rightarrow> 'a list go" where
  "go_update xs i v =
     (if 0 \<le> i \<and> i < int (length xs) then Inr (xs[nat i := v]) else Inl IndexOutOfRange)"

definition go_from :: "'a list \<Rightarrow> int \<Rightarrow> 'a list go" where
  "go_from xs i = (if 0 \<le> i \<and> i \<le> int (length xs) then Inr (drop (nat i) xs) else Inl SliceOutOfRange)"

definition go_upto :: "'a list \<Rightarrow> int \<Rightarrow> 'a list go" where
  "go_upto xs i = (if 0 \<le> i \<and> i \<le> int (length xs) then Inr (take (nat i) xs) else Inl SliceOutOfRange)"

text \<open>\<open>len(xs)\<close>\<close>

abbreviation go_len :: "'a list \<Rightarrow> int" where
  "go_len xs \<equiv> int (length xs)"

lemma go_nth_in [simp, go_eval]: "0 \<le> i \<Longrightarrow> i < go_len xs \<Longrightarrow> go_nth xs i = Inr (xs ! nat i)"
  by (simp add: go_nth_def)

lemma go_nth_out: "i < 0 \<or> go_len xs \<le> i \<Longrightarrow> go_nth xs i = Inl IndexOutOfRange"
  by (auto simp: go_nth_def)

lemma go_nth_eq_Inr_iff: "go_nth xs i = Inr x \<longleftrightarrow> 0 \<le> i \<and> i < go_len xs \<and> x = xs ! nat i"
  by (auto simp: go_nth_def)

lemma go_from_in [simp, go_eval]: "0 \<le> i \<Longrightarrow> i \<le> go_len xs \<Longrightarrow> go_from xs i = Inr (drop (nat i) xs)"
  by (simp add: go_from_def)

lemma go_upto_in [simp, go_eval]: "0 \<le> i \<Longrightarrow> i \<le> go_len xs \<Longrightarrow> go_upto xs i = Inr (take (nat i) xs)"
  by (simp add: go_upto_def)

lemma go_update_in [simp, go_eval]:
  "0 \<le> i \<Longrightarrow> i < go_len xs \<Longrightarrow> go_update xs i v = Inr (xs[nat i := v])"
  by (simp add: go_update_def)

lemma go_update_eq_Inr_iff:
  "go_update xs i v = Inr ys \<longleftrightarrow> 0 \<le> i \<and> i < go_len xs \<and> ys = xs[nat i := v]"
  by (auto simp: go_update_def)

section \<open>Lists\<close>

lemma last_eq_nth_length: "xs \<noteq> [] \<Longrightarrow> last xs = xs ! (length xs - 1)"
  by (rule last_conv_nth)

lemma sum_list_map_filter_card:
  "distinct xs \<Longrightarrow> length (filter P xs) = card {x \<in> set xs. P x}"
  by (metis distinct_card distinct_filter set_filter)

lemma take_prefix_eq:
  assumes "take n xs = take n ys" and "m \<le> n"
  shows "take m xs = take m ys"
  using assms by (metis min.absorb1 take_take)

section \<open>Machine words\<close>

text \<open>A version number never equals itself after fewer than \<open>2 ^ 64\<close> increments.\<close>

lemma word_add_of_nat_eq_self_iff:
  fixes v :: "64 word"
  assumes "k < 2 ^ 64"
  shows "v + of_nat k = v \<longleftrightarrow> k = 0"
proof -
  have "v + of_nat k = v \<longleftrightarrow> (of_nat k :: 64 word) = 0"
    by simp
  also have "\<dots> \<longleftrightarrow> 2 ^ 64 dvd k"
    by (simp add: word_of_nat_eq_0_iff)
  finally show ?thesis
    using assms by (auto dest: dvd_imp_le)
qed

section \<open>Decimal numerals\<close>

text \<open>\<open>strconv.Itoa\<close> and the verb \<open>%d\<close> of \<open>fmt.Sprintf\<close>.\<close>

definition digit_char :: "nat \<Rightarrow> char" where
  "digit_char d = char_of (48 + d)"

fun nat_digits :: "nat \<Rightarrow> string" where
  "nat_digits n = (if n < 10 then [digit_char n] else nat_digits (n div 10) @ [digit_char (n mod 10)])"

declare nat_digits.simps [simp del]

definition itoa :: "int \<Rightarrow> string" where
  "itoa i = (if i < 0 then CHR ''-'' # nat_digits (nat (- i)) else nat_digits (nat i))"

definition digits_value :: "string \<Rightarrow> nat" where
  "digits_value cs = foldl (\<lambda>v c. 10 * v + (of_char c - 48)) 0 cs"

lemma of_char_digit [simp]: "d < 10 \<Longrightarrow> of_char (digit_char d) = 48 + d"
  by (simp add: digit_char_def of_char_of)

lemma digits_value_nat_digits [simp]: "digits_value (nat_digits n) = n"
proof (induction n rule: nat_digits.induct)
  case (1 n)
  show ?case
  proof (cases "n < 10")
    case True
    then show ?thesis by (simp add: nat_digits.simps [of n] digits_value_def)
  next
    case False
    then have "digits_value (nat_digits n) = 10 * digits_value (nat_digits (n div 10)) + n mod 10"
      by (simp add: nat_digits.simps [of n] digits_value_def)
    with False "1.IH" show ?thesis by simp
  qed
qed

lemma nat_digits_inj [simp]: "nat_digits m = nat_digits n \<longleftrightarrow> m = n"
  by (metis digits_value_nat_digits)

lemma dash_notin_digit: "d < 10 \<Longrightarrow> digit_char d \<noteq> CHR ''-''"
proof
  assume "d < 10" and "digit_char d = CHR ''-''"
  then have "48 + d = of_char (CHR ''-'')"
    by (metis of_char_digit)
  then show False by simp
qed

lemma dash_notin_nat_digits: "CHR ''-'' \<notin> set (nat_digits n)"
proof (induction n rule: nat_digits.induct)
  case (1 n)
  have "digit_char (n mod 10) \<noteq> CHR ''-''"
    by (rule dash_notin_digit) simp
  with 1 show ?case
    by (cases "n < 10") (auto simp: nat_digits.simps [of n] dest: dash_notin_digit)
qed

lemma itoa_inj [simp]: "itoa i = itoa j \<longleftrightarrow> i = j"
  using dash_notin_nat_digits by (auto simp: itoa_def split: if_splits) (metis list.set_intros(1))+

lemma dash_notin_itoa: "0 \<le> i \<Longrightarrow> CHR ''-'' \<notin> set (itoa i)"
  by (simp add: itoa_def dash_notin_nat_digits)

end
