(* ===== verification/Rpc.thy ===== *)
theory Rpc
  imports Prelude
begin

text \<open>
  The wire types of the key/value services (\<open>src/kvsrv1/rpc/rpc.go\<close>), shared by the single
  server, the Raft-replicated server, the shard groups and every clerk, and the contract the
  three servers have in common: a store of versioned values that a conditional \<open>Put\<close> updates.
  The contract is the locale \<open>versioned_kv\<close>; each server's theory interprets it on its own
  handlers.
\<close>

section \<open>Types of \<open>rpc.go\<close>\<close>

text \<open>\<open>rpc.Err\<close> is a string type; \<open>ErrUnset\<close> is its zero value, the empty string of a fresh reply.\<close>

datatype Err = ErrUnset | OK | ErrNoKey | ErrVersion | ErrMaybe | ErrWrongLeader | ErrWrongGroup

fun Err_string :: "Err \<Rightarrow> string" where
  "Err_string ErrUnset = ''''"
| "Err_string OK = ''OK''"
| "Err_string ErrNoKey = ''ErrNoKey''"
| "Err_string ErrVersion = ''ErrVersion''"
| "Err_string ErrMaybe = ''ErrMaybe''"
| "Err_string ErrWrongLeader = ''ErrWrongLeader''"
| "Err_string ErrWrongGroup = ''ErrWrongGroup''"

type_synonym Tversion = "64 word"

record PutArgs =
  pa_Key :: string
  pa_Value :: string
  pa_Version :: Tversion

record PutReply =
  pr_Err :: Err

record GetArgs =
  ga_Key :: string

record GetReply =
  gr_Value :: string
  gr_Version :: Tversion
  gr_Err :: Err

text \<open>A stored value and its version: \<open>Value\<close> of the single server, \<open>KVEntry\<close> of the replicated ones.\<close>

record KVEntry =
  Value :: string
  Version :: Tversion

lemma Err_string_inj: "Err_string a = Err_string b \<longleftrightarrow> a = b"
  by (cases a; cases b) simp_all

section \<open>Operations and histories of a store\<close>

datatype kvop = OpGet GetArgs | OpPut PutArgs

datatype kvreply = RGet GetReply | RPut PutReply

fun op_key :: "kvop \<Rightarrow> string" where
  "op_key (OpGet a) = ga_Key a"
| "op_key (OpPut a) = pa_Key a"

text \<open>
  A run of a store given by its two handlers: the replies, in order, and the final state.
\<close>

fun kv_run :: "(GetArgs \<Rightarrow> 's \<Rightarrow> GetReply) \<Rightarrow> (PutArgs \<Rightarrow> 's \<Rightarrow> PutReply \<times> 's) \<Rightarrow>
    kvop list \<Rightarrow> 's \<Rightarrow> (kvop \<times> kvreply) list \<times> 's" where
  "kv_run get put [] s = ([], s)"
| "kv_run get put (OpGet a # ops) s =
     (let (h, s') = kv_run get put ops s in ((OpGet a, RGet (get a s)) # h, s'))"
| "kv_run get put (OpPut a # ops) s =
     (let (r, s1) = put a s; (h, s') = kv_run get put ops s1 in ((OpPut a, RPut r) # h, s'))"

text \<open>The number of \<open>Put\<close>s of a history that were performed on \<open>key\<close>.\<close>

fun puts_ok :: "string \<Rightarrow> (kvop \<times> kvreply) list \<Rightarrow> nat" where
  "puts_ok key [] = 0"
| "puts_ok key ((OpPut a, RPut r) # h) =
     (if pa_Key a = key \<and> pr_Err r = OK then Suc (puts_ok key h) else puts_ok key h)"
| "puts_ok key (x # h) = puts_ok key h"

section \<open>The contract of a versioned store\<close>

text \<open>
  \<open>lookup\<close> is the abstraction of a server's state.  The laws are the doc comments of
  \<open>Get\<close> and \<open>Put\<close> in \<open>src/kvsrv1/server.go\<close>: a conditional put on the version, creation at
  version 0, and an unchanged store on every error.
\<close>

locale versioned_kv =
  fixes lookup :: "'s \<Rightarrow> string \<Rightarrow> KVEntry option"
    and get :: "GetArgs \<Rightarrow> 's \<Rightarrow> GetReply"
    and put :: "PutArgs \<Rightarrow> 's \<Rightarrow> PutReply \<times> 's"
    and wf :: "'s \<Rightarrow> bool"
  assumes get_miss: "wf s \<Longrightarrow> lookup s (ga_Key a) = None \<Longrightarrow>
      get a s = \<lparr>gr_Value = '''', gr_Version = 0, gr_Err = ErrNoKey\<rparr>"
    and get_hit: "wf s \<Longrightarrow> lookup s (ga_Key a) = Some e \<Longrightarrow>
      get a s = \<lparr>gr_Value = Value e, gr_Version = Version e, gr_Err = OK\<rparr>"
    and put_create: "wf s \<Longrightarrow> lookup s (pa_Key p) = None \<Longrightarrow> pa_Version p = 0 \<Longrightarrow>
      pr_Err (fst (put p s)) = OK \<and>
      lookup (snd (put p s)) = (lookup s)(pa_Key p \<mapsto> \<lparr>Value = pa_Value p, Version = 1\<rparr>)"
    and put_nokey: "wf s \<Longrightarrow> lookup s (pa_Key p) = None \<Longrightarrow> pa_Version p \<noteq> 0 \<Longrightarrow>
      pr_Err (fst (put p s)) = ErrNoKey \<and> lookup (snd (put p s)) = lookup s"
    and put_stale: "wf s \<Longrightarrow> lookup s (pa_Key p) = Some e \<Longrightarrow> pa_Version p \<noteq> Version e \<Longrightarrow>
      pr_Err (fst (put p s)) = ErrVersion \<and> lookup (snd (put p s)) = lookup s"
    and put_update: "wf s \<Longrightarrow> lookup s (pa_Key p) = Some e \<Longrightarrow> pa_Version p = Version e \<Longrightarrow>
      pr_Err (fst (put p s)) = OK \<and>
      lookup (snd (put p s)) = (lookup s)(pa_Key p \<mapsto> \<lparr>Value = pa_Value p, Version = Version e + 1\<rparr>)"
    and put_wf: "wf s \<Longrightarrow> wf (snd (put p s))"
begin

text \<open>The version a \<open>Put\<close> must name to be performed: 0 for an absent key.\<close>

definition cur_version :: "'s \<Rightarrow> string \<Rightarrow> Tversion" where
  "cur_version s k = (case lookup s k of None \<Rightarrow> 0 | Some e \<Rightarrow> Version e)"

definition cur_value :: "'s \<Rightarrow> string \<Rightarrow> string" where
  "cur_value s k = (case lookup s k of None \<Rightarrow> '''' | Some e \<Rightarrow> Value e)"

lemma put_cases:
  assumes "wf s"
  obtains (performed) "pa_Version p = cur_version s (pa_Key p)" "pr_Err (fst (put p s)) = OK"
      "lookup (snd (put p s)) =
         (lookup s)(pa_Key p \<mapsto> \<lparr>Value = pa_Value p, Version = cur_version s (pa_Key p) + 1\<rparr>)"
  | (refused) "pa_Version p \<noteq> cur_version s (pa_Key p)"
      "pr_Err (fst (put p s)) = (if lookup s (pa_Key p) = None then ErrNoKey else ErrVersion)"
      "lookup (snd (put p s)) = lookup s"
  using assms
proof (cases "lookup s (pa_Key p)")
  case None
  then show ?thesis
    using assms put_create [of s p] put_nokey [of s p] that
    by (cases "pa_Version p = 0") (auto simp: cur_version_def)
next
  case (Some e)
  then show ?thesis
    using assms put_stale [of s p e] put_update [of s p e] that
    by (cases "pa_Version p = Version e") (auto simp: cur_version_def)
qed

lemma put_ok_iff:
  assumes "wf s"
  shows "pr_Err (fst (put p s)) = OK \<longleftrightarrow> pa_Version p = cur_version s (pa_Key p)"
  using assms by (cases rule: put_cases [of s p]) auto

lemma put_error_frame:
  assumes "wf s" and "pr_Err (fst (put p s)) \<noteq> OK"
  shows "lookup (snd (put p s)) = lookup s"
  using assms by (cases rule: put_cases [of s p]) auto

lemma put_other_key:
  assumes "wf s" and "k \<noteq> pa_Key p"
  shows "lookup (snd (put p s)) k = lookup s k"
  using assms by (cases rule: put_cases [of s p]) auto

lemma put_version:
  assumes "wf s"
  shows "cur_version (snd (put p s)) k =
    (if k = pa_Key p \<and> pr_Err (fst (put p s)) = OK then cur_version s k + 1 else cur_version s k)"
  using assms by (cases rule: put_cases [of s p]) (auto simp: cur_version_def)

lemma put_keeps_key:
  assumes "wf s" and "lookup s k \<noteq> None"
  shows "lookup (snd (put p s)) k \<noteq> None"
  using assms by (cases rule: put_cases [of s p]) auto

lemma put_get:
  assumes "wf s" and "pr_Err (fst (put p s)) = OK"
  shows "get \<lparr>ga_Key = pa_Key p\<rparr> (snd (put p s)) =
    \<lparr>gr_Value = pa_Value p, gr_Version = pa_Version p + 1, gr_Err = OK\<rparr>"
  using assms(1)
proof (cases rule: put_cases [of s p])
  case performed
  then show ?thesis
    using get_hit [OF put_wf [OF assms(1)], where a = "\<lparr>ga_Key = pa_Key p\<rparr>"] by simp
next
  case refused
  then show ?thesis using assms(2) by (simp split: if_splits)
qed

text \<open>A performed \<open>Put\<close> cannot be performed again: a duplicate is refused with \<open>ErrVersion\<close>.\<close>

lemma put_twice:
  assumes "wf s" and "pr_Err (fst (put p s)) = OK"
  shows "pr_Err (fst (put p (snd (put p s)))) = ErrVersion"
    and "lookup (snd (put p (snd (put p s)))) = lookup (snd (put p s))"
proof -
  have "cur_version (snd (put p s)) (pa_Key p) = cur_version s (pa_Key p) + 1"
    using put_version [OF assms(1), of p "pa_Key p"] assms(2) by simp
  moreover have "pa_Version p = cur_version s (pa_Key p)"
    using put_ok_iff assms by blast
  ultimately have ne: "pa_Version p \<noteq> cur_version (snd (put p s)) (pa_Key p)"
    by simp
  have hit: "lookup (snd (put p s)) (pa_Key p) \<noteq> None"
    using assms by (cases rule: put_cases [of s p]) (auto split: if_splits)
  from put_wf [OF assms(1), of p] show "pr_Err (fst (put p (snd (put p s)))) = ErrVersion"
    and "lookup (snd (put p (snd (put p s)))) = lookup (snd (put p s))"
    using ne hit by (cases rule: put_cases [of "snd (put p s)" p]; simp)+
qed

lemma run_wf: "wf s \<Longrightarrow> wf (snd (kv_run get put ops s))"
proof (induction ops arbitrary: s)
  case (Cons x ops)
  then show ?case by (cases x) (auto simp: put_wf split_beta Let_def)
qed simp

text \<open>The version of a key counts the puts performed on it.\<close>

lemma run_version:
  "wf s \<Longrightarrow> cur_version (snd (kv_run get put ops s)) k =
     cur_version s k + of_nat (puts_ok k (fst (kv_run get put ops s)))"
proof (induction ops arbitrary: s)
  case Nil
  then show ?case by simp
next
  case (Cons x ops)
  show ?case
  proof (cases x)
    case (OpGet a)
    then show ?thesis using Cons by (simp add: split_beta Let_def)
  next
    case (OpPut a)
    have "cur_version (snd (kv_run get put ops (snd (put a s)))) k =
        cur_version (snd (put a s)) k + of_nat (puts_ok k (fst (kv_run get put ops (snd (put a s)))))"
      by (rule Cons.IH) (rule put_wf [OF Cons.prems])
    then show ?thesis
      using OpPut put_version [OF Cons.prems, of a k] by (auto simp: split_beta Let_def)
  qed
qed

end

end
