(* ===== verification/KvModel.thy ===== *)
theory KvModel
  imports Rpc "HOL-Library.AList" "HOL-Library.List_Lexorder" "HOL-Library.Char_ord"
begin

text \<open>
  The sequential specification the tests check histories against (\<open>src/models1/kv.go\<close>) and the
  recording of operations for it (\<open>src/kvtest1/porcupine.go\<close>).  The model is the abstract
  specification of the key/value services: \<open>run_accepted\<close> shows that every store that satisfies
  \<open>versioned_kv\<close> refines it, except on one kind of reply (\<open>ErrNoKey\<close> to a \<open>Put\<close>) that the
  model rejects.
\<close>

section \<open>\<open>models1/kv.go\<close>\<close>

record KvInput =
  in_Op :: "8 word"
  in_Key :: string
  in_Value :: string
  in_Version :: "64 word"

record KvOutput =
  out_Value :: string
  out_Version :: "64 word"
  out_Err :: string

record KvState =
  st_Value :: string
  st_Version :: "64 word"

text \<open>\<open>porcupine.Operation\<close>, the record of one operation that the model is run on.\<close>

record Operation =
  op_ClientId :: int
  op_Input :: KvInput
  op_Call :: int
  op_Output :: KvOutput
  op_Return :: int

text \<open>The state is an \<open>interface{}\<close>: an unknown operation turns it into a string.\<close>

datatype model_state = MState KvState | MInvalid string

fun partition_add :: "(string \<times> Operation list) list \<Rightarrow> Operation \<Rightarrow> (string \<times> Operation list) list" where
  "partition_add m v =
     (let key = in_Key (op_Input v) in
      AList.update key ((case map_of m key of None \<Rightarrow> [] | Some ops \<Rightarrow> ops) @ [v]) m)"

definition KvModel_Partition :: "Operation list \<Rightarrow> Operation list list" where
  "KvModel_Partition history =
     (let m = foldl partition_add [] history; keys = sort (map fst m)
      in map (\<lambda>k. the (map_of m k)) keys)"

definition KvModel_Init :: KvState where
  "KvModel_Init = \<lparr>st_Value = '''', st_Version = 0\<rparr>"

definition KvModel_Step :: "KvState \<Rightarrow> KvInput \<Rightarrow> KvOutput \<Rightarrow> bool \<times> model_state" where
  "KvModel_Step st inp out =
     (if in_Op inp = 0 then (out_Value out = st_Value st, MState st)
      else if in_Op inp = 1 then
        (if st_Version st = in_Version inp
         then (out_Err out = ''OK'' \<or> out_Err out = ''ErrMaybe'',
               MState \<lparr>st_Value = in_Value inp, st_Version = st_Version st + 1\<rparr>)
         else (out_Err out = ''ErrVersion'' \<or> out_Err out = ''ErrMaybe'', MState st))
      else (False, MInvalid ''<invalid>''))"

definition KvModel_DescribeOperation :: "KvInput \<Rightarrow> KvOutput \<Rightarrow> string" where
  "KvModel_DescribeOperation inp out =
     (if in_Op inp = 0
      then ''get('' @ [CHR 0x27] @ in_Key inp @ [CHR 0x27] @ '') -> ('' @ [CHR 0x27] @ out_Value out @
           [CHR 0x27] @ '', '' @ [CHR 0x27] @ itoa (uint (out_Version out)) @ [CHR 0x27] @ '', '' @
           [CHR 0x27] @ out_Err out @ [CHR 0x27] @ '')''
      else if in_Op inp = 1
      then ''put('' @ [CHR 0x27] @ in_Key inp @ [CHR 0x27] @ '', '' @ [CHR 0x27] @ in_Value inp @
           [CHR 0x27] @ '', '' @ [CHR 0x27] @ itoa (uint (in_Version inp)) @ [CHR 0x27] @ '') -> ('' @
           [CHR 0x27] @ out_Err out @ [CHR 0x27] @ '')''
      else ''<invalid>'')"

text \<open>A sequential history is legal when every step is: what the checker looks for.\<close>

fun model_accepts :: "KvState \<Rightarrow> Operation list \<Rightarrow> bool" where
  "model_accepts st [] = True"
| "model_accepts st (v # vs) =
     (case KvModel_Step st (op_Input v) (op_Output v) of
        (ok, MState st') \<Rightarrow> ok \<and> model_accepts st' vs
      | (ok, MInvalid _) \<Rightarrow> False)"

section \<open>Recording operations: \<open>Get\<close> and \<open>Put\<close> of \<open>kvtest1/porcupine.go\<close>\<close>

type_synonym OpLog = "Operation list"

definition OpLog_Append :: "Operation \<Rightarrow> OpLog \<Rightarrow> OpLog" where
  "OpLog_Append op l = l @ [op]"

definition kvtest_Get_op :: "string \<Rightarrow> GetReply \<Rightarrow> int \<Rightarrow> int \<Rightarrow> int \<Rightarrow> Operation" where
  "kvtest_Get_op key r start fin cli =
     \<lparr>op_ClientId = cli,
      op_Input = \<lparr>in_Op = 0, in_Key = key, in_Value = '''', in_Version = 0\<rparr>,
      op_Call = start,
      op_Output = \<lparr>out_Value = gr_Value r, out_Version = gr_Version r, out_Err = Err_string (gr_Err r)\<rparr>,
      op_Return = fin\<rparr>"

definition kvtest_Put_op :: "string \<Rightarrow> string \<Rightarrow> Tversion \<Rightarrow> Err \<Rightarrow> int \<Rightarrow> int \<Rightarrow> int \<Rightarrow> Operation" where
  "kvtest_Put_op key value version err start fin cli =
     \<lparr>op_ClientId = cli,
      op_Input = \<lparr>in_Op = 1, in_Key = key, in_Value = value, in_Version = version\<rparr>,
      op_Call = start,
      op_Output = \<lparr>out_Value = '''', out_Version = 0, out_Err = Err_string err\<rparr>,
      op_Return = fin\<rparr>"

text \<open>The log of a run of a store: operation \<open>i\<close> starts at \<open>2 * i\<close> and ends at \<open>2 * i + 1\<close>.\<close>

fun record_op :: "int \<Rightarrow> kvop \<times> kvreply \<Rightarrow> Operation" where
  "record_op t (OpGet a, RGet r) = kvtest_Get_op (ga_Key a) r t (t + 1) 0"
| "record_op t (OpPut a, RPut r) =
     kvtest_Put_op (pa_Key a) (pa_Value a) (pa_Version a) (pr_Err r) t (t + 1) 0"
| "record_op t (OpGet a, RPut r) = kvtest_Put_op (ga_Key a) '''' 0 (pr_Err r) t (t + 1) 0"
| "record_op t (OpPut a, RGet r) = kvtest_Get_op (pa_Key a) r t (t + 1) 0"

fun record_run :: "int \<Rightarrow> (kvop \<times> kvreply) list \<Rightarrow> OpLog \<Rightarrow> OpLog" where
  "record_run t [] l = l"
| "record_run t (x # h) l = record_run (t + 2) h (OpLog_Append (record_op t x) l)"

text \<open>A run in which no \<open>Put\<close> was answered with \<open>ErrNoKey\<close>.\<close>

fun no_nokey_put :: "(kvop \<times> kvreply) list \<Rightarrow> bool" where
  "no_nokey_put [] = True"
| "no_nokey_put ((_, RPut r) # h) = (pr_Err r \<noteq> ErrNoKey \<and> no_nokey_put h)"
| "no_nokey_put ((_, RGet _) # h) = no_nokey_put h"

section \<open>Partitioning by key\<close>

abbreviation on_key :: "string \<Rightarrow> Operation \<Rightarrow> bool" where
  "on_key k v \<equiv> in_Key (op_Input v) = k"

lemma partition_add_lookup:
  "map_of (partition_add m v) k =
     (if on_key k v then Some ((case map_of m k of None \<Rightarrow> [] | Some ops \<Rightarrow> ops) @ [v]) else map_of m k)"
  by (auto simp: Let_def update_conv')

lemma partition_fold_lookup:
  "map_of (foldl partition_add m history) k =
     (if \<exists>v \<in> set history. on_key k v
      then Some ((case map_of m k of None \<Rightarrow> [] | Some ops \<Rightarrow> ops) @ filter (on_key k) history)
      else map_of m k)"
proof (induction history arbitrary: m)
  case (Cons v history)
  show ?case
    by (simp only: foldl_Cons Cons.IH partition_add_lookup) (auto split: option.splits)
qed simp

lemma partition_fold_keys:
  "set (map fst (foldl partition_add m history)) =
     set (map fst m) \<union> (\<lambda>v. in_Key (op_Input v)) ` set history"
proof (induction history arbitrary: m)
  case (Cons v history)
  then show ?case
    by (simp del: partition_add.simps) (auto simp: Let_def update_keys dom_update)
qed simp

lemma partition_fold_distinct:
  "distinct (map fst m) \<Longrightarrow> distinct (map fst (foldl partition_add m history))"
  by (induction history arbitrary: m) (auto simp: Let_def distinct_update)

text \<open>
  \<open>Partition\<close> splits a history into its per-key subhistories, in key order, and keeps the
  order of the operations of each key.
\<close>

lemma KvModel_Partition_eq:
  "KvModel_Partition history =
     map (\<lambda>k. filter (on_key k) history)
       (sorted_list_of_set ((\<lambda>v. in_Key (op_Input v)) ` set history))"
proof -
  let ?m = "foldl partition_add [] history" and ?K = "(\<lambda>v. in_Key (op_Input v)) ` set history"
  have "sort (map fst ?m) = sorted_list_of_set (set (map fst ?m))"
    using partition_fold_distinct [of "[]" history]
    by (simp only: sorted_list_of_set_sort_remdups distinct_remdups_id list.map distinct.simps)
  then have keys: "sort (map fst ?m) = sorted_list_of_set ?K"
    using partition_fold_keys [of "[]" history] by simp
  have "the (map_of ?m k) = filter (on_key k) history" if "k \<in> ?K" for k
    using that by (auto simp: partition_fold_lookup)
  then show ?thesis
    by (simp add: KvModel_Partition_def Let_def keys)
qed

section \<open>Every versioned store refines the model\<close>

lemma record_run_append: "record_run t h l = l @ record_run t h []"
proof (induction h arbitrary: t l)
  case (Cons x h)
  show ?case
    by (simp add: OpLog_Append_def Cons.IH [of "t + 2" "l @ [record_op t x]"] Cons.IH [of "t + 2" "[record_op t x]"])
qed simp

lemma record_run_Cons: "record_run t (x # h) [] = record_op t x # record_run (t + 2) h []"
  by (simp add: OpLog_Append_def record_run_append [of "t + 2" h "[record_op t x]"])

context versioned_kv
begin

definition model_of :: "'s \<Rightarrow> string \<Rightarrow> KvState" where
  "model_of s k = \<lparr>st_Value = cur_value s k, st_Version = cur_version s k\<rparr>"

lemma get_accepted:
  assumes "wf s"
  shows "KvModel_Step (model_of s (ga_Key a)) (op_Input (kvtest_Get_op (ga_Key a) (get a s) t u c))
           (op_Output (kvtest_Get_op (ga_Key a) (get a s) t u c)) = (True, MState (model_of s (ga_Key a)))"
  using assms get_miss [of s a] get_hit [of s a]
  by (cases "lookup s (ga_Key a)")
     (auto simp: KvModel_Step_def kvtest_Get_op_def model_of_def cur_value_def)

lemma put_accepted:
  assumes "wf s" and "pr_Err (fst (put a s)) \<noteq> ErrNoKey"
  shows "KvModel_Step (model_of s (pa_Key a))
      (op_Input (kvtest_Put_op (pa_Key a) (pa_Value a) (pa_Version a) (pr_Err (fst (put a s))) t u c))
      (op_Output (kvtest_Put_op (pa_Key a) (pa_Value a) (pa_Version a) (pr_Err (fst (put a s))) t u c)) =
    (True, MState (model_of (snd (put a s)) (pa_Key a)))"
  using assms(1)
proof (cases rule: put_cases [of s a])
  case performed
  then show ?thesis
    by (auto simp: KvModel_Step_def kvtest_Put_op_def model_of_def cur_value_def cur_version_def)
next
  case refused
  then show ?thesis using assms(2)
    by (auto simp: KvModel_Step_def kvtest_Put_op_def model_of_def cur_value_def cur_version_def
        split: if_splits)
qed

text \<open>A \<open>Put\<close> answered with \<open>ErrNoKey\<close>, as the contract says for an absent key, is not legal in the model.\<close>

lemma nokey_rejected:
  assumes "wf s" and "lookup s (pa_Key a) = None" and "pa_Version a \<noteq> 0"
  shows "\<not> fst (KvModel_Step (model_of s (pa_Key a))
      (op_Input (kvtest_Put_op (pa_Key a) (pa_Value a) (pa_Version a) (pr_Err (fst (put a s))) t u c))
      (op_Output (kvtest_Put_op (pa_Key a) (pa_Value a) (pa_Version a) (pr_Err (fst (put a s))) t u c)))"
  using assms put_nokey [of s a]
  by (simp add: KvModel_Step_def kvtest_Put_op_def model_of_def cur_version_def)

lemma model_of_other:
  assumes "wf s" and "k \<noteq> pa_Key a"
  shows "model_of (snd (put a s)) k = model_of s k"
  using put_other_key [OF assms] by (simp add: model_of_def cur_value_def cur_version_def)

lemma run_accepted:
  "wf s \<Longrightarrow> no_nokey_put (fst (kv_run get put ops s)) \<Longrightarrow>
   model_accepts (model_of s k) (filter (on_key k) (record_run t (fst (kv_run get put ops s)) []))"
proof (induction ops arbitrary: s t)
  case (Cons x ops)
  show ?case
  proof (cases x)
    case (OpGet a)
    have "model_accepts (model_of s k)
        (filter (on_key k) (record_run (t + 2) (fst (kv_run get put ops s)) []))"
      using Cons.prems OpGet by (intro Cons.IH) (auto simp: split_beta Let_def)
    then show ?thesis
      using OpGet get_accepted [OF Cons.prems(1), of a]
      by (auto simp: split_beta Let_def record_run_Cons kvtest_Get_op_def simp del: record_run.simps(2))
  next
    case (OpPut a)
    have "model_accepts (model_of (snd (put a s)) k)
        (filter (on_key k) (record_run (t + 2) (fst (kv_run get put ops (snd (put a s)))) []))"
      using Cons.prems OpPut by (intro Cons.IH) (auto simp: split_beta Let_def put_wf)
    moreover have "pr_Err (fst (put a s)) \<noteq> ErrNoKey"
      using Cons.prems OpPut by (auto simp: split_beta Let_def)
    ultimately show ?thesis
      using OpPut put_accepted [OF Cons.prems(1), of a t "t + 1" 0] model_of_other [OF Cons.prems(1), of k a]
      by (cases "pa_Key a = k")
         (auto simp: split_beta Let_def record_run_Cons kvtest_Put_op_def simp del: record_run.simps(2))
  qed
qed simp

lemma run_partition_accepted:
  assumes "wf s" and "\<And>k. lookup s k = None"
    and "no_nokey_put (fst (kv_run get put ops s))"
    and "part \<in> set (KvModel_Partition (record_run t (fst (kv_run get put ops s)) []))"
  shows "model_accepts KvModel_Init part"
proof -
  obtain k where "part = filter (on_key k) (record_run t (fst (kv_run get put ops s)) [])"
    using assms(4) by (auto simp: KvModel_Partition_eq)
  moreover have "model_of s k = KvModel_Init"
    by (simp add: model_of_def KvModel_Init_def cur_value_def cur_version_def assms(2))
  ultimately show ?thesis
    using run_accepted [OF assms(1,3), of k t] by simp
qed

end

end
