(* ===== verification/KVSrv.thy ===== *)
theory KVSrv
  imports KvModel
begin

text \<open>
  The single key/value server (\<open>src/kvsrv1/server.go\<close>) and its clerk over a lossy network
  (\<open>src/kvsrv1/client.go\<close>).

  Both handlers hold \<open>kv.mu\<close> from their first to their last statement, so a concurrent
  execution of handlers is a sequence of them; each is one function on the server's state.
  The clerk's loop runs over the list of its attempts.  An attempt is what the network does with
  one \<open>Call\<close> (\<open>src/labrpc/labrpc.go\<close>, \<open>processReq\<close>: the request is dropped, or the handler ran
  and the reply is dropped, or the reply arrives) together with the \<open>Put\<close>s of other clerks the
  server executed since the previous attempt.  The loop has no bound in the code; the result is
  \<open>None\<close> when the list ends before a reply arrived.
\<close>

section \<open>The server\<close>

record KVSrv =
  data :: "string \<rightharpoonup> KVEntry"

definition MakeKVServer :: KVSrv where
  "MakeKVServer = \<lparr>data = Map.empty\<rparr>"

definition KVServer_Get :: "GetArgs \<Rightarrow> KVSrv \<Rightarrow> GetReply" where
  "KVServer_Get args kv =
     (case data kv (ga_Key args) of
        None \<Rightarrow> \<lparr>gr_Value = '''', gr_Version = 0, gr_Err = ErrNoKey\<rparr>
      | Some val \<Rightarrow> \<lparr>gr_Value = Value val, gr_Version = Version val, gr_Err = OK\<rparr>)"

definition KVServer_Put :: "PutArgs \<Rightarrow> KVSrv \<Rightarrow> PutReply \<times> KVSrv" where
  "KVServer_Put args kv =
     (case data kv (pa_Key args) of
        None \<Rightarrow>
          (if pa_Version args = 0
           then (\<lparr>pr_Err = OK\<rparr>,
                 kv\<lparr>data := (data kv)(pa_Key args \<mapsto> \<lparr>Value = pa_Value args, Version = 1\<rparr>)\<rparr>)
           else (\<lparr>pr_Err = ErrNoKey\<rparr>, kv))
      | Some val \<Rightarrow>
          (if Version val \<noteq> pa_Version args then (\<lparr>pr_Err = ErrVersion\<rparr>, kv)
           else (\<lparr>pr_Err = OK\<rparr>,
                 kv\<lparr>data := (data kv)(pa_Key args \<mapsto>
                      \<lparr>Value = pa_Value args, Version = Version val + 1\<rparr>)\<rparr>)))"

section \<open>The clerk\<close>

datatype delivery = RequestLost | ReplyLost | Delivered

record attempt =
  att_others :: "PutArgs list"
  att_net :: delivery

definition others_run :: "PutArgs list \<Rightarrow> KVSrv \<Rightarrow> KVSrv" where
  "others_run ps kv = fold (\<lambda>p s. snd (KVServer_Put p s)) ps kv"

text \<open>One \<open>ck.clnt.Call(ck.server, "KVServer.Put", args, reply)\<close>: success, the reply struct, the server.\<close>

definition Call_Put :: "delivery \<Rightarrow> PutArgs \<Rightarrow> PutReply \<Rightarrow> KVSrv \<Rightarrow> bool \<times> PutReply \<times> KVSrv" where
  "Call_Put d args reply kv =
     (case d of
        RequestLost \<Rightarrow> (False, reply, kv)
      | ReplyLost \<Rightarrow> (False, reply, snd (KVServer_Put args kv))
      | Delivered \<Rightarrow> (True, fst (KVServer_Put args kv), snd (KVServer_Put args kv)))"

definition Call_Get :: "delivery \<Rightarrow> GetArgs \<Rightarrow> GetReply \<Rightarrow> KVSrv \<Rightarrow> bool \<times> GetReply" where
  "Call_Get d args reply kv =
     (case d of
        RequestLost \<Rightarrow> (False, reply)
      | ReplyLost \<Rightarrow> (False, reply)
      | Delivered \<Rightarrow> (True, KVServer_Get args kv))"

fun Clerk_Get_loop :: "attempt list \<Rightarrow> GetArgs \<Rightarrow> GetReply \<Rightarrow> KVSrv \<Rightarrow>
    ((string \<times> Tversion \<times> Err) \<times> KVSrv) option" where
  "Clerk_Get_loop [] args reply kv = None"
| "Clerk_Get_loop (t # ts) args reply kv =
     (let kv1 = others_run (att_others t) kv; (ok, reply') = Call_Get (att_net t) args reply kv1
      in if ok then Some ((gr_Value reply', gr_Version reply', gr_Err reply'), kv1)
         else Clerk_Get_loop ts args reply' kv1)"

definition Clerk_Get :: "attempt list \<Rightarrow> string \<Rightarrow> KVSrv \<Rightarrow>
    ((string \<times> Tversion \<times> Err) \<times> KVSrv) option" where
  "Clerk_Get ts key kv =
     Clerk_Get_loop ts \<lparr>ga_Key = key\<rparr> \<lparr>gr_Value = '''', gr_Version = 0, gr_Err = ErrUnset\<rparr> kv"

fun Clerk_Put_loop :: "attempt list \<Rightarrow> PutArgs \<Rightarrow> PutReply \<Rightarrow> bool \<Rightarrow> KVSrv \<Rightarrow> (Err \<times> KVSrv) option" where
  "Clerk_Put_loop [] args reply retry kv = None"
| "Clerk_Put_loop (t # ts) args reply retry kv =
     (let kv1 = others_run (att_others t) kv; (ok, reply', kv2) = Call_Put (att_net t) args reply kv1
      in if ok
         then Some (if retry \<and> pr_Err reply' = ErrVersion then ErrMaybe else pr_Err reply', kv2)
         else Clerk_Put_loop ts args reply' True kv2)"

definition Clerk_Put :: "attempt list \<Rightarrow> string \<Rightarrow> string \<Rightarrow> Tversion \<Rightarrow> KVSrv \<Rightarrow> (Err \<times> KVSrv) option" where
  "Clerk_Put ts key value version kv =
     Clerk_Put_loop ts \<lparr>pa_Key = key, pa_Value = value, pa_Version = version\<rparr> \<lparr>pr_Err = ErrUnset\<rparr> False kv"

text \<open>What the clerk's \<open>Put\<close> returns for a delivered reply to an attempt.\<close>

definition clerk_result :: "bool \<Rightarrow> Err \<Rightarrow> Err" where
  "clerk_result retry err = (if retry \<and> err = ErrVersion then ErrMaybe else err)"

text \<open>
  What the clerk's requests did at the server, in order, until the clerk returned: the errors
  the handler computed, whether or not their replies arrived.
\<close>

fun own_execs :: "attempt list \<Rightarrow> PutArgs \<Rightarrow> KVSrv \<Rightarrow> Err list" where
  "own_execs [] args kv = []"
| "own_execs (t # ts) args kv =
     (let kv1 = others_run (att_others t) kv; (r, kv2) = KVServer_Put args kv1 in
      case att_net t of
        RequestLost \<Rightarrow> own_execs ts args kv1
      | ReplyLost \<Rightarrow> pr_Err r # own_execs ts args kv2
      | Delivered \<Rightarrow> [pr_Err r])"

definition n_others :: "attempt list \<Rightarrow> nat" where
  "n_others ts = (\<Sum>t\<leftarrow>ts. length (att_others t))"

section \<open>The server satisfies the contract of a versioned store\<close>

interpretation kvsrv: versioned_kv data KVServer_Get KVServer_Put "\<lambda>_. True"
  by unfold_locales (auto simp: KVServer_Get_def KVServer_Put_def)

lemma MakeKVServer_empty [simp]: "data MakeKVServer k = None"
  by (simp add: MakeKVServer_def)

lemma others_run_Cons: "others_run (p # ps) kv = others_run ps (snd (KVServer_Put p kv))"
  by (simp add: others_run_def)

lemma others_run_Nil [simp]: "others_run [] kv = kv"
  by (simp add: others_run_def)

lemma others_run_keeps: "data kv k \<noteq> None \<Longrightarrow> data (others_run ps kv) k \<noteq> None"
proof (induction ps arbitrary: kv)
  case (Cons p ps)
  then show ?case using kvsrv.put_keeps_key [of kv k p] by (simp add: others_run_Cons)
qed simp

text \<open>Other clerks' \<open>Put\<close>s advance a version by at most their number.\<close>

lemma others_run_version:
  "\<exists>j \<le> length ps. kvsrv.cur_version (others_run ps kv) k = kvsrv.cur_version kv k + of_nat j"
proof (induction ps arbitrary: kv)
  case (Cons p ps)
  obtain j where j: "j \<le> length ps"
    "kvsrv.cur_version (others_run (p # ps) kv) k = kvsrv.cur_version (snd (KVServer_Put p kv)) k + of_nat j"
    using Cons.IH [of "snd (KVServer_Put p kv)"] by (auto simp: others_run_Cons)
  show ?case
  proof (cases "kvsrv.cur_version (snd (KVServer_Put p kv)) k = kvsrv.cur_version kv k")
    case True
    with j show ?thesis by (intro exI [of _ j]) simp
  next
    case False
    then have "kvsrv.cur_version (snd (KVServer_Put p kv)) k = kvsrv.cur_version kv k + 1"
      using kvsrv.put_version [where s = kv and p = p and k = k] by (simp split: if_splits)
    with j show ?thesis by (intro exI [of _ "Suc j"]) simp
  qed
qed simp

section \<open>At most once\<close>

lemma n_others_Cons [simp]: "n_others (t # ts) = length (att_others t) + n_others ts"
  by (simp add: n_others_def)

text \<open>Once the version has moved past the requested one, no request of the clerk is performed.\<close>

lemma own_execs_past_version:
  assumes "kvsrv.cur_version kv (pa_Key args) = pa_Version args + of_nat j"
    and "0 < j" and "j + n_others ts < 2 ^ 64"
  shows "OK \<notin> set (own_execs ts args kv)"
  using assms
proof (induction ts arbitrary: kv j)
  case (Cons t ts)
  let ?kv1 = "others_run (att_others t) kv"
  obtain i where i: "i \<le> length (att_others t)"
    "kvsrv.cur_version ?kv1 (pa_Key args) = kvsrv.cur_version kv (pa_Key args) + of_nat i"
    using others_run_version by blast
  then have v1: "kvsrv.cur_version ?kv1 (pa_Key args) = pa_Version args + of_nat (j + i)"
    using Cons.prems(1) by simp
  have "pa_Version args \<noteq> kvsrv.cur_version ?kv1 (pa_Key args)"
    using v1 word_add_of_nat_eq_self_iff [of "j + i" "pa_Version args"] Cons.prems i by auto
  then have no: "pr_Err (fst (KVServer_Put args ?kv1)) \<noteq> OK"
    using kvsrv.put_ok_iff by blast
  have v2: "kvsrv.cur_version (snd (KVServer_Put args ?kv1)) (pa_Key args) = pa_Version args + of_nat (j + i)"
    using v1 no kvsrv.put_version [where s = ?kv1 and p = args and k = "pa_Key args"] by simp
  have "0 < j + i" "j + i + n_others ts < 2 ^ 64" using Cons.prems i by auto
  then show ?case
    using Cons.IH [OF v1] Cons.IH [OF v2] no
    by (auto simp: Let_def split_beta split: delivery.splits)
qed simp

lemma own_execs_at_most_once:
  assumes "n_others ts < 2 ^ 64 - 1"
  shows "count_list (own_execs ts args kv) OK \<le> 1"
  using assms
proof (induction ts arbitrary: kv)
  case (Cons t ts)
  let ?kv1 = "others_run (att_others t) kv" and ?kv2 = "snd (KVServer_Put args (others_run (att_others t) kv))"
  have IH: "count_list (own_execs ts args s) OK \<le> 1" for s
    using Cons by simp
  show ?case
  proof (cases "pr_Err (fst (KVServer_Put args ?kv1)) = OK")
    case True
    then have "kvsrv.cur_version ?kv2 (pa_Key args) = pa_Version args + of_nat 1"
      using kvsrv.put_ok_iff [where s = ?kv1 and p = args] kvsrv.put_version [where s = ?kv1 and p = args and k = "pa_Key args"] by simp
    then have "OK \<notin> set (own_execs ts args ?kv2)"
      using own_execs_past_version [of ?kv2 args 1 ts] Cons.prems by simp
    then show ?thesis
      using IH by (auto simp: Let_def split_beta count_list_0_iff split: delivery.splits)
  next
    case False
    then show ?thesis using IH by (auto simp: Let_def split_beta split: delivery.splits)
  qed
qed simp

text \<open>A performed \<open>Put\<close> creates the key, and no request answers \<open>ErrNoKey\<close> after it.\<close>

lemma own_execs_present:
  assumes "data kv (pa_Key args) \<noteq> None"
  shows "ErrNoKey \<notin> set (own_execs ts args kv)"
  using assms
proof (induction ts arbitrary: kv)
  case (Cons t ts)
  let ?kv1 = "others_run (att_others t) kv"
  have 1: "data ?kv1 (pa_Key args) \<noteq> None"
    using Cons.prems by (rule others_run_keeps)
  have 2: "data (snd (KVServer_Put args ?kv1)) (pa_Key args) \<noteq> None"
    using kvsrv.put_keeps_key [OF _ 1] by simp
  have "pr_Err (fst (KVServer_Put args ?kv1)) \<noteq> ErrNoKey"
    by (cases rule: kvsrv.put_cases [where s = ?kv1 and p = args]) (use 1 in auto)
  then show ?case using Cons.IH [OF 1] Cons.IH [OF 2]
    by (auto simp: Let_def split_beta split: delivery.splits)
qed simp

text \<open>The reply the clerk returns is that of its last execution, with the retry rule applied.\<close>

lemma Clerk_Put_loop_result:
  assumes "Clerk_Put_loop ts args reply retry kv = Some (e, kv')"
  shows "own_execs ts args kv \<noteq> [] \<and>
    (let l = last (own_execs ts args kv) in
     (e = l \<and> (l = ErrVersion \<longrightarrow> \<not> retry \<and> own_execs ts args kv = [ErrVersion])) \<or>
     (e = ErrMaybe \<and> l = ErrVersion))"
  using assms
proof (induction ts arbitrary: reply retry kv)
  case (Cons t ts)
  note IH = Cons.IH [of _ True] and prems = Cons.prems
  show ?case
  proof (cases "att_net t")
    case RequestLost
    then show ?thesis using prems IH [of reply "others_run (att_others t) kv"]
      by (auto simp: Let_def split_beta Call_Put_def)
  next
    case ReplyLost
    then show ?thesis
      using prems IH [of reply "snd (KVServer_Put args (others_run (att_others t) kv))"]
      by (auto simp: Let_def split_beta Call_Put_def)
  next
    case Delivered
    then show ?thesis using prems by (auto simp: Let_def split_beta Call_Put_def split: if_splits)
  qed
qed simp

lemma own_execs_errors: "set (own_execs ts args kv) \<subseteq> {OK, ErrNoKey, ErrVersion}"
proof (induction ts arbitrary: kv)
  case (Cons t ts)
  have "pr_Err (fst (KVServer_Put args s)) \<in> {OK, ErrNoKey, ErrVersion}" for s
    by (auto simp: KVServer_Put_def split: option.splits)
  with Cons show ?case by (auto simp: Let_def split_beta split: delivery.splits)
qed simp

lemma own_execs_ok_then_no_nokey:
  assumes "own_execs ts args kv = xs @ ErrNoKey # ys"
  shows "OK \<notin> set xs"
  using assms
proof (induction ts arbitrary: kv xs)
  case (Cons t ts)
  let ?kv1 = "others_run (att_others t) kv"
  have pres: "data (snd (KVServer_Put args ?kv1)) (pa_Key args) \<noteq> None"
    if "pr_Err (fst (KVServer_Put args ?kv1)) = OK"
    using that by (auto simp: KVServer_Put_def split: option.splits if_splits)
  have no: "ErrNoKey \<notin> set (own_execs ts args (snd (KVServer_Put args ?kv1)))"
    if "pr_Err (fst (KVServer_Put args ?kv1)) = OK"
    using own_execs_present [OF pres [OF that]] .
  show ?case
  proof (cases "att_net t")
    case RequestLost
    then show ?thesis using Cons.prems Cons.IH by (simp add: Let_def split_beta)
  next
    case ReplyLost
    then have eq: "pr_Err (fst (KVServer_Put args ?kv1)) # own_execs ts args (snd (KVServer_Put args ?kv1)) =
        xs @ ErrNoKey # ys"
      using Cons.prems by (simp add: Let_def split_beta)
    show ?thesis
    proof (cases xs)
      case (Cons x xs')
      with eq have "own_execs ts args (snd (KVServer_Put args ?kv1)) = xs' @ ErrNoKey # ys"
        and "x = pr_Err (fst (KVServer_Put args ?kv1))" by auto
      with no Cons.IH Cons show ?thesis by fastforce
    qed simp
  next
    case Delivered
    then show ?thesis using Cons.prems by (cases xs) (auto simp: Let_def split_beta)
  qed
qed simp

section \<open>Properties\<close>

text \<open>Linearizability of the server against the specification used by the tests: the
  history of any sequence of \<open>Get\<close> and \<open>Put\<close> handlers on a fresh server, recorded and partitioned
  by key as the test framework does, is accepted by \<open>KvModel\<close>, provided no \<open>Put\<close> of the history
  was answered with \<open>ErrNoKey\<close>.\<close>

theorem kvsrv_history_legal:
  assumes "no_nokey_put (fst (kv_run KVServer_Get KVServer_Put ops MakeKVServer))"
    and "part \<in> set (KvModel_Partition (record_run 0 (fst (kv_run KVServer_Get KVServer_Put ops MakeKVServer)) []))"
  shows "model_accepts KvModel_Init part"
  by (rule kvsrv.run_partition_accepted [OF _ _ assms]) simp_all

theorem kvsrv_history_legal_witness:
  "model_accepts KvModel_Init
     [kvtest_Put_op ''x'' ''a'' 0 OK 0 1 0, kvtest_Put_op ''x'' ''b'' 0 ErrVersion 2 3 0]"
proof -
  let ?ops = "[OpPut \<lparr>pa_Key = ''x'', pa_Value = ''a'', pa_Version = 0\<rparr>,
               OpPut \<lparr>pa_Key = ''x'', pa_Value = ''b'', pa_Version = 0\<rparr>]"
  have h: "fst (kv_run KVServer_Get KVServer_Put ?ops MakeKVServer) =
      [(?ops ! 0, RPut \<lparr>pr_Err = OK\<rparr>), (?ops ! 1, RPut \<lparr>pr_Err = ErrVersion\<rparr>)]"
    by (simp add: KVServer_Put_def MakeKVServer_def)
  show ?thesis
    by (rule kvsrv_history_legal [of ?ops, unfolded h])
       (simp_all add: OpLog_Append_def KvModel_Partition_def Let_def kvtest_Put_op_def)
qed

text \<open>A version number counts: after any sequence of handlers on a fresh server, \<open>Get\<close>
  reports as the version of a key the number of \<open>Put\<close>s performed on it, modulo \<open>2 ^ 64\<close>.\<close>

theorem kvsrv_version_counts_puts:
  "gr_Version (KVServer_Get \<lparr>ga_Key = k\<rparr> (snd (kv_run KVServer_Get KVServer_Put ops MakeKVServer))) =
   of_nat (puts_ok k (fst (kv_run KVServer_Get KVServer_Put ops MakeKVServer)))"
proof -
  let ?s = "snd (kv_run KVServer_Get KVServer_Put ops MakeKVServer)"
  have "gr_Version (KVServer_Get \<lparr>ga_Key = k\<rparr> ?s) = kvsrv.cur_version ?s k"
    by (simp add: KVServer_Get_def kvsrv.cur_version_def split: option.splits)
  also have "\<dots> = kvsrv.cur_version MakeKVServer k +
      of_nat (puts_ok k (fst (kv_run KVServer_Get KVServer_Put ops MakeKVServer)))"
    by (rule kvsrv.run_version) simp
  finally show ?thesis by (simp add: kvsrv.cur_version_def)
qed

text \<open>C9: What \<open>Clerk.Put\<close> may conclude from its result, for every behaviour of the network and
  of fewer than \<open>2 ^ 64 - 1\<close> interleaved \<open>Put\<close>s of other clerks: \<open>OK\<close> means that exactly one of
  the requests it sent was performed, \<open>ErrVersion\<close> and \<open>ErrNoKey\<close> that none was, \<open>ErrMaybe\<close> that
  at most one was, and no other result is returned.\<close>

theorem Clerk_Put_exactly_once:
  assumes "Clerk_Put ts key value version kv = Some (e, kv')"
    and "n_others ts < 2 ^ 64 - 1"
  defines "execs \<equiv> own_execs ts \<lparr>pa_Key = key, pa_Value = value, pa_Version = version\<rparr> kv"
  shows "(e = OK \<and> count_list execs OK = 1) \<or>
         (e \<in> {ErrVersion, ErrNoKey} \<and> count_list execs OK = 0) \<or>
         (e = ErrMaybe \<and> count_list execs OK \<le> 1)"
proof -
  have le: "count_list execs OK \<le> 1"
    unfolding execs_def by (rule own_execs_at_most_once) (rule assms(2))
  have res: "execs \<noteq> []"
    "(e = last execs \<and> (last execs = ErrVersion \<longrightarrow> execs = [ErrVersion])) \<or> (e = ErrMaybe \<and> last execs = ErrVersion)"
    using Clerk_Put_loop_result [of ts _ _ False kv e kv'] assms(1)
    by (auto simp: execs_def Clerk_Put_def Let_def)
  have split: "execs = butlast execs @ [last execs]" using res(1) by simp
  have "last execs \<in> {OK, ErrNoKey, ErrVersion}"
    using own_execs_errors res(1) last_in_set unfolding execs_def by blast
  moreover have "count_list execs OK = 0" if "last execs = ErrNoKey"
  proof -
    have "OK \<notin> set (butlast execs)"
      using own_execs_ok_then_no_nokey [of ts _ kv "butlast execs" "[]"] split that
      unfolding execs_def by metis
    with that split show ?thesis by (metis count_list_0_iff count_list_append count_list.simps Err.distinct(13) add.right_neutral)
  qed
  moreover have "count_list execs OK = 1" if "last execs = OK"
    using that le split by (metis count_notin count_list_0_iff last_in_set le_neq_implies_less less_one res(1))
  ultimately show ?thesis using res(2) le by auto
qed

theorem Clerk_Put_exactly_once_witness:
  "Clerk_Put [\<lparr>att_others = [], att_net = ReplyLost\<rparr>, \<lparr>att_others = [], att_net = Delivered\<rparr>]
     ''x'' ''a'' 0 MakeKVServer =
     Some (ErrMaybe, \<lparr>data = [''x'' \<mapsto> \<lparr>Value = ''a'', Version = 1\<rparr>]\<rparr>) \<and>
   count_list (own_execs [\<lparr>att_others = [], att_net = ReplyLost\<rparr>, \<lparr>att_others = [], att_net = Delivered\<rparr>]
     \<lparr>pa_Key = ''x'', pa_Value = ''a'', pa_Version = 0\<rparr> MakeKVServer) OK \<le> 1"
proof -
  let ?ts = "[\<lparr>att_others = [], att_net = ReplyLost\<rparr>, \<lparr>att_others = [], att_net = Delivered\<rparr>]"
  have r: "Clerk_Put ?ts ''x'' ''a'' 0 MakeKVServer =
      Some (ErrMaybe, \<lparr>data = [''x'' \<mapsto> \<lparr>Value = ''a'', Version = 1\<rparr>]\<rparr>)"
    by (simp add: Clerk_Put_def Call_Put_def KVServer_Put_def MakeKVServer_def)
  show ?thesis
    using r Clerk_Put_exactly_once [OF r] by (auto simp: n_others_def)
qed

text \<open>\<open>Clerk.Put\<close> returns as soon as one of its calls gets a reply, whatever was lost before.\<close>

theorem Clerk_Put_returns:
  assumes "\<exists>t \<in> set ts. att_net t = Delivered"
  shows "\<exists>e kv'. Clerk_Put ts key value version kv = Some (e, kv')"
proof -
  have "\<exists>e kv'. Clerk_Put_loop ts args reply retry kv = Some (e, kv')" for args reply retry
    using assms
  proof (induction ts arbitrary: reply retry kv)
    case (Cons t ts)
    then show ?case
      by (cases "att_net t") (auto simp: Let_def split_beta Call_Put_def)
  qed simp
  then show ?thesis by (simp add: Clerk_Put_def)
qed

theorem Clerk_Put_returns_witness:
  "\<exists>e kv'. Clerk_Put [\<lparr>att_others = [], att_net = RequestLost\<rparr>, \<lparr>att_others = [], att_net = Delivered\<rparr>]
     ''x'' ''a'' 0 MakeKVServer = Some (e, kv')"
  by (rule Clerk_Put_returns) simp

text \<open>The test specification and the server disagree on a \<open>Put\<close> with a non-zero version on
  an absent key: the server answers \<open>ErrNoKey\<close>, as its comment says, and \<open>KvModel.Step\<close>
  rejects that history.\<close>

theorem KvModel_rejects_ErrNoKey:
  assumes "data kv (pa_Key a) = None" and "pa_Version a \<noteq> 0"
  shows "pr_Err (fst (KVServer_Put a kv)) = ErrNoKey \<and>
    \<not> model_accepts KvModel_Init
      [kvtest_Put_op (pa_Key a) (pa_Value a) (pa_Version a) (pr_Err (fst (KVServer_Put a kv))) t u c]"
  using assms by (simp add: KVServer_Put_def KvModel_Step_def KvModel_Init_def kvtest_Put_op_def)

theorem KvModel_rejects_ErrNoKey_witness:
  "\<not> model_accepts KvModel_Init [kvtest_Put_op ''x'' ''a'' 1 ErrNoKey 0 1 0]"
  using KvModel_rejects_ErrNoKey [of MakeKVServer "\<lparr>pa_Key = ''x'', pa_Value = ''a'', pa_Version = 1\<rparr>" 0 1 0]
  by (simp add: KVServer_Put_def del: model_accepts.simps)

end
