(* ===== verification/Lock.thy ===== *)
theory Lock
  imports KVSrv
begin

text \<open>
  The distributed lock built on a clerk (\<open>src/kvsrv1/lock/lock.go\<close>) as a state machine of any
  number of clients over one key/value server.

  A client's state is the point where it waits for a clerk call, its field \<open>ver\<close> and the
  clerk's local \<open>retry\<close>.  Each step is one call of \<open>MakeLock\<close>, \<open>Acquire\<close> or \<open>Release\<close>, one
  reply of a \<open>Get\<close>, or one attempt of a clerk \<open>Put\<close> (request lost, reply lost, delivered), so
  every interleaving of the clients and every loss in the network is a run.  The functions
  \<open>resume_get\<close> and \<open>resume_put\<close> are the code between two clerk calls.

  \<open>log.Fatal\<close> is the program counter \<open>PFatal\<close>.  \<open>kvtest.RandValue(8)\<close> draws the identifiers;
  that they are distinct and none is the word \<open>unlocked\<close> is the hypothesis \<open>good_ids\<close>.
\<close>

section \<open>The clients\<close>

datatype lock_pc =
    PStart            \<comment> \<open>\<open>MakeLock\<close> not called\<close>
  | PMkGet            \<comment> \<open>\<open>MakeLock\<close>: the first \<open>Get\<close>\<close>
  | PMkPut            \<comment> \<open>\<open>MakeLock\<close>: \<open>Put(key, "unlocked", 0)\<close>\<close>
  | PMkGet2           \<comment> \<open>\<open>MakeLock\<close>: the \<open>Get\<close> after a failed \<open>Put\<close>\<close>
  | PIdle             \<comment> \<open>between calls, lock not acquired\<close>
  | PAcqGet           \<comment> \<open>\<open>Acquire\<close>: the \<open>Get\<close> at the head of the loop\<close>
  | PAcqPut Tversion  \<comment> \<open>\<open>Acquire\<close>: \<open>Put(key, identifer, version)\<close>\<close>
  | PAcqMaybe         \<comment> \<open>\<open>Acquire\<close>: the \<open>Get\<close> after \<open>ErrMaybe\<close>\<close>
  | PHeld             \<comment> \<open>\<open>Acquire\<close> returned\<close>
  | PRelPut bool      \<comment> \<open>\<open>Release\<close>: \<open>Put(key, "unlocked", ver)\<close>, with \<open>Release\<close>'s \<open>retry\<close>\<close>
  | PFatal

record lock_client =
  lc_pc :: lock_pc
  lc_ver :: Tversion
  lc_retry :: bool

abbreviation unlocked :: string where
  "unlocked \<equiv> ''unlocked''"

definition MakeLock_call :: "lock_client \<Rightarrow> lock_client" where
  "MakeLock_call c = c\<lparr>lc_pc := PMkGet, lc_ver := 0\<rparr>"

definition Acquire_call :: "lock_client \<Rightarrow> lock_client" where
  "Acquire_call c = c\<lparr>lc_pc := PAcqGet\<rparr>"

definition Release_call :: "lock_client \<Rightarrow> lock_client" where
  "Release_call c =
     (if lc_ver c = 0 then c else c\<lparr>lc_pc := PRelPut False, lc_retry := False\<rparr>)"

text \<open>The \<open>Put\<close> a client is waiting for, if it is waiting for one.\<close>

fun pending_put :: "string \<Rightarrow> string \<Rightarrow> lock_client \<Rightarrow> PutArgs option" where
  "pending_put l ident c =
     (case lc_pc c of
        PMkPut \<Rightarrow> Some \<lparr>pa_Key = l, pa_Value = unlocked, pa_Version = 0\<rparr>
      | PAcqPut v \<Rightarrow> Some \<lparr>pa_Key = l, pa_Value = ident, pa_Version = v\<rparr>
      | PRelPut r \<Rightarrow> Some \<lparr>pa_Key = l, pa_Value = unlocked, pa_Version = lc_ver c\<rparr>
      | _ \<Rightarrow> None)"

fun pending_get :: "lock_client \<Rightarrow> bool" where
  "pending_get c = (lc_pc c \<in> {PMkGet, PMkGet2, PAcqGet, PAcqMaybe})"

text \<open>The code that runs when a \<open>Get\<close> returns.\<close>

definition resume_get :: "string \<Rightarrow> GetReply \<Rightarrow> lock_client \<Rightarrow> lock_client" where
  "resume_get ident r c =
     (case lc_pc c of
        PMkGet \<Rightarrow> if gr_Err r = ErrNoKey then c\<lparr>lc_pc := PMkPut, lc_retry := False\<rparr> else c\<lparr>lc_pc := PIdle\<rparr>
      | PMkGet2 \<Rightarrow> if gr_Err r = OK then c\<lparr>lc_pc := PIdle\<rparr> else c\<lparr>lc_pc := PMkPut, lc_retry := False\<rparr>
      | PAcqGet \<Rightarrow>
          (if gr_Err r = ErrNoKey then c\<lparr>lc_pc := PFatal\<rparr>
           else if gr_Err r = OK then
             (if gr_Value r = unlocked then c\<lparr>lc_pc := PAcqPut (gr_Version r), lc_retry := False\<rparr>
              else if gr_Value r = ident then c\<lparr>lc_pc := PHeld\<rparr>
              else c)
           else c)
      | PAcqMaybe \<Rightarrow>
          (if gr_Value r = ident then c\<lparr>lc_pc := PHeld, lc_ver := gr_Version r\<rparr>
           else c\<lparr>lc_pc := PAcqGet\<rparr>)
      | _ \<Rightarrow> c)"

text \<open>The code that runs when a \<open>Put\<close> returns \<open>err\<close>.\<close>

definition resume_put :: "Err \<Rightarrow> lock_client \<Rightarrow> lock_client" where
  "resume_put err c =
     (case lc_pc c of
        PMkPut \<Rightarrow> if err = OK then c\<lparr>lc_pc := PIdle\<rparr> else c\<lparr>lc_pc := PMkGet2\<rparr>
      | PAcqPut v \<Rightarrow>
          (if err = OK then c\<lparr>lc_pc := PHeld, lc_ver := v + 1\<rparr>
           else if err = ErrMaybe then c\<lparr>lc_pc := PAcqMaybe\<rparr>
           else c\<lparr>lc_pc := PAcqGet\<rparr>)
      | PRelPut r \<Rightarrow>
          (if err = OK then c\<lparr>lc_pc := PIdle, lc_ver := 0\<rparr>
           else if err = ErrMaybe then c\<lparr>lc_pc := PRelPut True, lc_retry := False\<rparr>
           else if r then c\<lparr>lc_pc := PIdle, lc_ver := 0\<rparr>
           else c\<lparr>lc_pc := PFatal\<rparr>)
      | _ \<Rightarrow> c)"

section \<open>The system\<close>

text \<open>\<open>nputs\<close> counts the performed \<open>Put\<close>s, to bound the runs in which no version wraps around.\<close>

record lock_sys =
  srv :: KVSrv
  clients :: "nat \<Rightarrow> lock_client"
  nputs :: nat

definition set_client :: "nat \<Rightarrow> lock_client \<Rightarrow> lock_sys \<Rightarrow> lock_sys" where
  "set_client i c s = s\<lparr>clients := (clients s)(i := c)\<rparr>"

definition exec_put :: "PutArgs \<Rightarrow> lock_sys \<Rightarrow> lock_sys" where
  "exec_put a s =
     (let (r, kv) = KVServer_Put a (srv s)
      in s\<lparr>srv := kv, nputs := (if pr_Err r = OK then Suc (nputs s) else nputs s)\<rparr>)"

definition lock_init :: lock_sys where
  "lock_init = \<lparr>srv = MakeKVServer,
     clients = (\<lambda>_. \<lparr>lc_pc = PStart, lc_ver = 0, lc_retry = False\<rparr>), nputs = 0\<rparr>"

inductive lock_step :: "string \<Rightarrow> (nat \<Rightarrow> string) \<Rightarrow> lock_sys \<Rightarrow> lock_sys \<Rightarrow> bool"
  for l :: string and ident :: "nat \<Rightarrow> string" where
  make: "lc_pc (clients s i) = PStart \<Longrightarrow>
     lock_step l ident s (set_client i (MakeLock_call (clients s i)) s)"
| acquire: "lc_pc (clients s i) \<in> {PIdle, PHeld} \<Longrightarrow>
     lock_step l ident s (set_client i (Acquire_call (clients s i)) s)"
| release: "lc_pc (clients s i) \<in> {PIdle, PHeld} \<Longrightarrow>
     lock_step l ident s (set_client i (Release_call (clients s i)) s)"
| get: "pending_get (clients s i) \<Longrightarrow> r = KVServer_Get \<lparr>ga_Key = l\<rparr> (srv s) \<Longrightarrow>
     lock_step l ident s (set_client i (resume_get (ident i) r (clients s i)) s)"
| request_lost: "pending_put l (ident i) (clients s i) = Some a \<Longrightarrow>
     lock_step l ident s (set_client i ((clients s i)\<lparr>lc_retry := True\<rparr>) s)"
| reply_lost: "pending_put l (ident i) (clients s i) = Some a \<Longrightarrow>
     lock_step l ident s (set_client i ((clients s i)\<lparr>lc_retry := True\<rparr>) (exec_put a s))"
| delivered: "pending_put l (ident i) (clients s i) = Some a \<Longrightarrow>
     err = clerk_result (lc_retry (clients s i)) (pr_Err (fst (KVServer_Put a (srv s)))) \<Longrightarrow>
     lock_step l ident s (set_client i (resume_put err (clients s i)) (exec_put a s))"

inductive lock_reachable :: "string \<Rightarrow> (nat \<Rightarrow> string) \<Rightarrow> lock_sys \<Rightarrow> bool"
  for l :: string and ident :: "nat \<Rightarrow> string" where
  init: "lock_reachable l ident lock_init"
| step: "lock_reachable l ident s \<Longrightarrow> lock_step l ident s t \<Longrightarrow> lock_reachable l ident t"

definition good_ids :: "(nat \<Rightarrow> string) \<Rightarrow> bool" where
  "good_ids ident \<longleftrightarrow> inj ident \<and> unlocked \<notin> range ident"

section \<open>The invariant\<close>

text \<open>
  What the lock's entry \<open>x\<close> says about a client with identifier \<open>ident\<close>: a holder's identifier
  and version are those of the entry; a pending \<open>Put\<close> either is out of date or still describes
  the entry it was computed from.
\<close>

fun client_ok :: "string \<Rightarrow> nat \<Rightarrow> KVEntry \<Rightarrow> lock_client \<Rightarrow> bool" where
  "client_ok ident n x c =
     (case lc_pc c of
        PHeld \<Rightarrow> lc_ver c \<noteq> 0 \<and> Value x = ident \<and> Version x = lc_ver c
      | PAcqGet \<Rightarrow> if lc_ver c = 0 then Value x \<noteq> ident else Value x = ident \<and> Version x = lc_ver c
      | PAcqPut v \<Rightarrow> lc_ver c = 0 \<and> unat v \<le> n \<and> (v = Version x \<longrightarrow> Value x = unlocked) \<and>
          (\<not> lc_retry c \<longrightarrow> Value x \<noteq> ident)
      | PAcqMaybe \<Rightarrow> lc_ver c = 0
      | PRelPut r \<Rightarrow> lc_ver c \<noteq> 0 \<and> unat (lc_ver c) \<le> n \<and>
          (lc_ver c = Version x \<longleftrightarrow> Value x = ident) \<and>
          (\<not> r \<and> \<not> lc_retry c \<longrightarrow> lc_ver c = Version x)
      | PFatal \<Rightarrow> False
      | _ \<Rightarrow> lc_ver c = 0 \<and> Value x \<noteq> ident)"

definition before_create :: "lock_client \<Rightarrow> bool" where
  "before_create c \<longleftrightarrow> lc_pc c \<in> {PStart, PMkGet, PMkPut, PMkGet2} \<and> lc_ver c = 0"

definition lock_inv :: "string \<Rightarrow> (nat \<Rightarrow> string) \<Rightarrow> lock_sys \<Rightarrow> bool" where
  "lock_inv l ident s =
     (case data (srv s) l of
        None \<Rightarrow> nputs s = 0 \<and> (\<forall>i. before_create (clients s i))
      | Some x \<Rightarrow> 0 < nputs s \<and> unat (Version x) = nputs s \<and>
          (\<forall>i. client_ok (ident i) (nputs s) x (clients s i)))"

lemma lock_inv_init: "lock_inv l ident lock_init"
  by (simp add: lock_inv_def lock_init_def before_create_def)

lemma unat_Suc_version:
  "unat (v :: Tversion) = n \<Longrightarrow> Suc n < 2 ^ 64 \<Longrightarrow> unat (v + 1) = Suc n"
  by (simp add: unat_word_ariths)

text \<open>Another client's \<open>Put\<close> cannot disturb a client whose identifier is not in the entry.\<close>

lemma client_ok_other:
  assumes "client_ok ident n x c" and "Value x \<noteq> ident" and "Value x' \<noteq> ident"
    and "unat (Version x) = n" and "unat (Version x') = Suc n"
  shows "client_ok ident (Suc n) x' c"
  using assms by (cases "lc_pc c") (auto split: if_splits)

lemma lock_inv_set_client:
  assumes "lock_inv l ident s"
    and "\<And>x. data (srv s) l = Some x \<Longrightarrow> client_ok (ident i) (nputs s) x (clients s i) \<Longrightarrow>
           client_ok (ident i) (nputs s) x c"
    and "data (srv s) l = None \<Longrightarrow> before_create (clients s i) \<Longrightarrow> before_create c"
  shows "lock_inv l ident (set_client i c s)"
  using assms by (auto simp: lock_inv_def set_client_def simp del: client_ok.simps split: option.splits)

section \<open>Every step keeps the invariant\<close>

lemma good_idsD:
  assumes "good_ids ident"
  shows "ident i \<noteq> unlocked" and "i \<noteq> j \<Longrightarrow> ident i \<noteq> ident j"
  using assms by (auto simp: good_ids_def inj_def) (metis rangeI)

lemma resume_get_ok:
  assumes "client_ok ident n x c" and "pending_get c" and "ident \<noteq> unlocked"
    and "unat (Version x) = n" and "0 < n"
  shows "client_ok ident n x
    (resume_get ident \<lparr>gr_Value = Value x, gr_Version = Version x, gr_Err = OK\<rparr> c)"
  using assms by (cases "lc_pc c") (auto simp: resume_get_def split: if_splits)

lemma resume_get_before:
  assumes "before_create c" and "pending_get c"
  shows "before_create (resume_get ident \<lparr>gr_Value = '''', gr_Version = 0, gr_Err = ErrNoKey\<rparr> c)"
  using assms by (cases "lc_pc c") (auto simp: resume_get_def before_create_def)

lemma resume_put_refused:
  assumes "client_ok ident n x c" and "pending_put l ident c = Some a" and "pa_Version a \<noteq> Version x"
  shows "client_ok ident n x (resume_put (clerk_result (lc_retry c) ErrVersion) c)"
  using assms
  by (cases "lc_pc c"; cases "lc_retry c") (auto simp: resume_put_def clerk_result_def split: if_splits)

lemma client_ok_retry:
  assumes "client_ok ident n x c" and "pending_put l ident c = Some a"
  shows "client_ok ident n x (c\<lparr>lc_retry := True\<rparr>)"
  using assms by (cases "lc_pc c") auto

lemma pending_put_key: "pending_put l ident c = Some a \<Longrightarrow> pa_Key a = l"
  by (cases "lc_pc c") auto

lemma exec_put_refused:
  assumes "data (srv s) (pa_Key a) = Some x" and "pa_Version a \<noteq> Version x"
  shows "exec_put a s = s" and "pr_Err (fst (KVServer_Put a (srv s))) = ErrVersion"
  using assms by (auto simp: exec_put_def KVServer_Put_def)

lemma exec_put_performed:
  assumes "data (srv s) (pa_Key a) = Some x" and "pa_Version a = Version x"
  shows "data (srv (exec_put a s)) (pa_Key a) = Some \<lparr>Value = pa_Value a, Version = Version x + 1\<rparr>"
    and "nputs (exec_put a s) = Suc (nputs s)" and "clients (exec_put a s) = clients s"
    and "pr_Err (fst (KVServer_Put a (srv s))) = OK"
  using assms by (auto simp: exec_put_def KVServer_Put_def)

lemma exec_put_create:
  assumes "data (srv s) (pa_Key a) = None" and "pa_Version a = 0"
  shows "data (srv (exec_put a s)) (pa_Key a) = Some \<lparr>Value = pa_Value a, Version = 1\<rparr>"
    and "nputs (exec_put a s) = Suc (nputs s)" and "clients (exec_put a s) = clients s"
    and "pr_Err (fst (KVServer_Put a (srv s))) = OK"
  using assms by (auto simp: exec_put_def KVServer_Put_def)

text \<open>A client whose \<open>Put\<close> is performed: the entry was unlocked or its own, and is now the other.\<close>

lemma pending_put_performed:
  assumes "client_ok ident n x c" and "pending_put l ident c = Some a" and "pa_Version a = Version x"
    and "unat (Version x) = n" and "0 < n" and "ident \<noteq> unlocked"
  shows "(Value x = unlocked \<and> pa_Value a = ident) \<or> (Value x = ident \<and> pa_Value a = unlocked)"
  using assms by (cases "lc_pc c") auto

lemma performed_self_ok:
  assumes "client_ok ident n x c" and "pending_put l ident c = Some a" and "pa_Version a = Version x"
    and "unat (Version x) = n" and "0 < n" and "Suc n < 2 ^ 64" and "ident \<noteq> unlocked"
    and "c' = c\<lparr>lc_retry := True\<rparr> \<or> c' = resume_put OK c"
  shows "client_ok ident (Suc n) \<lparr>Value = pa_Value a, Version = Version x + 1\<rparr> c'"
proof -
  have u: "unat (Version x + 1) = Suc n"
    using assms(4,6) by (rule unat_Suc_version)
  then have "Version x + 1 \<noteq> 0" by (metis nat.distinct(1) unat_0)
  with u assms show ?thesis
    by (cases "lc_pc c") (auto simp: resume_put_def)
qed

lemma lock_inv_exec:
  assumes inv: "lock_inv l ident s" and ids: "good_ids ident"
    and pend: "pending_put l (ident i) (clients s i) = Some a"
    and bound: "nputs (exec_put a s) < 2 ^ 64"
    and c': "c' = (clients s i)\<lparr>lc_retry := True\<rparr> \<or>
      c' = resume_put (clerk_result (lc_retry (clients s i)) (pr_Err (fst (KVServer_Put a (srv s))))) (clients s i)"
  shows "lock_inv l ident (set_client i c' (exec_put a s))"
proof (cases "data (srv s) l")
  case None
  then have all: "nputs s = 0" "\<And>j. before_create (clients s j)"
    using inv by (auto simp: lock_inv_def)
  have a: "pa_Key a = l" "pa_Value a = unlocked" "pa_Version a = 0" and pc: "lc_pc (clients s i) = PMkPut"
    using pend all(2) [of i] by (auto simp: before_create_def split: lock_pc.splits)
  note ex = exec_put_create [of s a, unfolded a, OF None refl]
  have "client_ok (ident j) 1 \<lparr>Value = unlocked, Version = 1\<rparr> (clients s j)" for j
    using all(2) [of j] good_idsD(1) [OF ids, of j] by (auto simp: before_create_def)
  moreover have "client_ok (ident i) 1 \<lparr>Value = unlocked, Version = 1\<rparr> c'"
    using c' all(2) [of i] good_idsD(1) [OF ids, of i] pc ex(4)
    by (auto simp: before_create_def resume_put_def clerk_result_def)
  ultimately show ?thesis
    using ex all(1) by (auto simp: lock_inv_def set_client_def simp del: client_ok.simps)
next
  case (Some x)
  then have n: "0 < nputs s" "unat (Version x) = nputs s"
    and ok: "\<And>j. client_ok (ident j) (nputs s) x (clients s j)"
    using inv by (auto simp: lock_inv_def simp del: client_ok.simps)
  have key: "pa_Key a = l" using pend by (rule pending_put_key)
  note idi = good_idsD(1) [OF ids]
  show ?thesis
  proof (cases "pa_Version a = Version x")
    case False
    note ex = exec_put_refused [of s a, unfolded key, OF Some False]
    have "client_ok (ident i) (nputs s) x c'"
      using c' client_ok_retry [OF ok pend] resume_put_refused [OF ok pend False]
      unfolding ex(2) by blast
    then show ?thesis
      unfolding ex(1) using Some by (intro lock_inv_set_client [OF inv]) simp_all
  next
    case True
    note ex = exec_put_performed [of s a, unfolded key, OF Some True]
    let ?x = "\<lparr>Value = pa_Value a, Version = Version x + 1\<rparr>"
    have lt: "Suc (nputs s) < 2 ^ 64" using bound ex(2) by simp
    have u: "unat (Version ?x) = Suc (nputs s)" using unat_Suc_version [OF n(2) lt] by simp
    have self: "client_ok (ident i) (Suc (nputs s)) ?x c'"
      using c' ex(4) by (intro performed_self_ok [OF ok pend True n(2,1) lt idi]) (auto simp: clerk_result_def)
    have "client_ok (ident j) (Suc (nputs s)) ?x (clients s j)" if "j \<noteq> i" for j
      using pending_put_performed [OF ok pend True n(2,1) idi] idi [of j] good_idsD(2) [OF ids that]
      by (intro client_ok_other [OF ok _ _ n(2) u]) auto
    with self show ?thesis
      using ex u by (auto simp: lock_inv_def set_client_def simp del: client_ok.simps)
  qed
qed

lemma lock_step_nputs: "lock_step l ident s t \<Longrightarrow> nputs s \<le> nputs t"
  by (induction rule: lock_step.induct) (auto simp: set_client_def exec_put_def split_beta Let_def)

lemma nputs_set_client [simp]: "nputs (set_client i c s) = nputs s"
  by (simp add: set_client_def)

lemma lock_step_inv:
  assumes "lock_step l ident s t" and "lock_inv l ident s" and "good_ids ident" and "nputs t < 2 ^ 64"
  shows "lock_inv l ident t"
  using assms
proof (induction rule: lock_step.induct)
  case (make s i)
  then show ?case
    by (intro lock_inv_set_client) (auto simp: MakeLock_call_def before_create_def)
next
  case (acquire s i)
  then show ?case
    by (intro lock_inv_set_client) (auto simp: Acquire_call_def before_create_def)
next
  case (release s i)
  have "unat (Version x) = nputs s" if "data (srv s) l = Some x" for x
    using release.prems(1) that by (simp add: lock_inv_def)
  with release show ?case
    by (intro lock_inv_set_client) (auto simp: Release_call_def before_create_def)
next
  case (get s i r)
  have inv: "lock_inv l ident s" and pg: "pending_get (clients s i)" by fact+
  show ?case
  proof (rule lock_inv_set_client [OF inv])
    fix x
    assume x: "data (srv s) l = Some x" and ok: "client_ok (ident i) (nputs s) x (clients s i)"
    then have "unat (Version x) = nputs s" "0 < nputs s" using inv by (auto simp: lock_inv_def)
    then have "client_ok (ident i) (nputs s) x
        (resume_get (ident i) \<lparr>gr_Value = Value x, gr_Version = Version x, gr_Err = OK\<rparr> (clients s i))"
      by (rule resume_get_ok [OF ok pg good_idsD(1) [OF get.prems(2)]])
    then show "client_ok (ident i) (nputs s) x (resume_get (ident i) r (clients s i))"
      using x get.hyps(2) by (simp add: KVServer_Get_def)
  next
    assume "data (srv s) l = None" and "before_create (clients s i)"
    then show "before_create (resume_get (ident i) r (clients s i))"
      using resume_get_before [OF _ pg] get.hyps(2) by (simp add: KVServer_Get_def)
  qed
next
  case (request_lost i s a)
  then show ?case
    by (intro lock_inv_set_client) (auto simp: before_create_def split: lock_pc.splits)
next
  case (reply_lost i s a)
  then show ?case by (intro lock_inv_exec) auto
next
  case (delivered i s a err)
  then show ?case by (intro lock_inv_exec) auto
qed

lemma lock_reachable_inv:
  "lock_reachable l ident s \<Longrightarrow> good_ids ident \<Longrightarrow> nputs s < 2 ^ 64 \<Longrightarrow> lock_inv l ident s"
proof (induction rule: lock_reachable.induct)
  case init
  show ?case by (rule lock_inv_init)
next
  case (step s t)
  then show ?case using lock_step_nputs lock_step_inv by (meson order_le_less_trans)
qed

section \<open>Properties\<close>

text \<open>C7: Mutual exclusion: over every interleaving of any number of clients and every loss of
  requests and replies, two clients whose \<open>Acquire\<close> has returned and that have not called
  \<open>Release\<close> are the same client.  The identifiers are distinct, and fewer than \<open>2 ^ 64\<close>
  \<open>Put\<close>s have been performed on the lock.\<close>

theorem lock_mutual_exclusion:
  assumes "lock_reachable l ident s" and "good_ids ident" and "nputs s < 2 ^ 64"
    and "lc_pc (clients s i) = PHeld" and "lc_pc (clients s j) = PHeld"
  shows "i = j"
proof -
  have inv: "lock_inv l ident s" using assms(1-3) by (rule lock_reachable_inv)
  then obtain x where "data (srv s) l = Some x"
    using assms(4) by (cases "data (srv s) l") (auto simp: lock_inv_def before_create_def dest: spec [of _ i])
  with inv assms(4,5) have "Value x = ident i" "Value x = ident j"
    by (auto simp: lock_inv_def dest: spec [of _ i] spec [of _ j])
  then show ?thesis using good_idsD(2) [OF assms(2)] by metis
qed

text \<open>No call of \<open>Acquire\<close> or \<open>Release\<close> ever reaches its \<open>log.Fatal\<close>, and a client that is
  outside \<open>Acquire\<close>, \<open>Release\<close> and its critical section does not own the lock's entry: a
  \<open>Release\<close> that returned has released the lock, even when the replies to its \<open>Put\<close>s were lost.\<close>

theorem lock_never_fatal_and_released:
  assumes "lock_reachable l ident s" and "good_ids ident" and "nputs s < 2 ^ 64"
  shows "lc_pc (clients s i) \<noteq> PFatal \<and>
    (lc_pc (clients s i) = PIdle \<longrightarrow>
       (\<exists>x. data (srv s) l = Some x \<and> Value x \<noteq> ident i) \<and> lc_ver (clients s i) = 0)"
proof -
  have "lock_inv l ident s" using assms by (rule lock_reachable_inv)
  then show ?thesis
    by (auto simp: lock_inv_def before_create_def split: option.splits dest: spec [of _ i])
qed

text \<open>A run in which client 0 creates the lock and acquires it, its first \<open>Put\<close> with a lost reply.\<close>

definition demo_id :: "nat \<Rightarrow> string" where
  "demo_id i = replicate i CHR 0x61"

lemma demo_id_good: "good_ids demo_id"
proof -
  have "replicate i CHR 0x61 \<noteq> unlocked" for i :: nat
  proof
    assume eq: "replicate i CHR 0x61 = unlocked"
    have "CHR ''u'' \<in> set unlocked" by simp
    then show False unfolding eq [symmetric] by simp
  qed
  then have "unlocked \<notin> range demo_id" unfolding demo_id_def by (metis imageE)
  moreover have "inj demo_id" unfolding demo_id_def by (rule injI) (metis length_replicate)
  ultimately show ?thesis by (simp add: good_ids_def)
qed

lemma lock_reachable_next:
  "lock_reachable l ident s \<Longrightarrow> lock_step l ident s t \<Longrightarrow> t = t' \<Longrightarrow> lock_reachable l ident t'"
  by (blast intro: lock_reachable.step)

abbreviation demo_state :: "(string \<rightharpoonup> KVEntry) \<Rightarrow> lock_pc \<Rightarrow> Tversion \<Rightarrow> bool \<Rightarrow> nat \<Rightarrow> lock_sys" where
  "demo_state m pc v retry n \<equiv>
     \<lparr>srv = \<lparr>data = m\<rparr>,
      clients = (\<lambda>_. \<lparr>lc_pc = PStart, lc_ver = 0, lc_retry = False\<rparr>)
        (0 := \<lparr>lc_pc = pc, lc_ver = v, lc_retry = retry\<rparr>), nputs = n\<rparr>"

lemmas demo_eval = set_client_def lock_init_def MakeKVServer_def MakeLock_call_def Acquire_call_def
  resume_get_def resume_put_def clerk_result_def exec_put_def KVServer_Get_def KVServer_Put_def
  demo_id_def

lemma demo_run:
  "lock_reachable ''l'' demo_id (demo_state [''l'' \<mapsto> \<lparr>Value = '''', Version = 2\<rparr>] PHeld 2 False 2)"
proof -
  let ?R = "lock_reachable ''l'' demo_id" and ?u = "[''l'' \<mapsto> \<lparr>Value = unlocked, Version = 1\<rparr>]"
  have "?R (demo_state Map.empty PMkGet 0 False 0)"
    by (rule lock_reachable_next [OF lock_reachable.init lock_step.make [of _ 0]])
       (auto simp: demo_eval)
  then have "?R (demo_state Map.empty PMkPut 0 False 0)"
    by (rule lock_reachable_next [OF _ lock_step.get [of _ 0]]) (auto simp: demo_eval)
  then have "?R (demo_state ?u PMkPut 0 True 1)"
    by (rule lock_reachable_next [OF _ lock_step.reply_lost [of _ _ 0]]) (auto simp: demo_eval)
  then have "?R (demo_state ?u PMkGet2 0 True 1)"
    by (rule lock_reachable_next [OF _ lock_step.delivered [of _ _ 0]]) (auto simp: demo_eval)
  then have "?R (demo_state ?u PIdle 0 True 1)"
    by (rule lock_reachable_next [OF _ lock_step.get [of _ 0]]) (auto simp: demo_eval)
  then have "?R (demo_state ?u PAcqGet 0 True 1)"
    by (rule lock_reachable_next [OF _ lock_step.acquire [of _ 0]]) (auto simp: demo_eval)
  then have "?R (demo_state ?u (PAcqPut 1) 0 False 1)"
    by (rule lock_reachable_next [OF _ lock_step.get [of _ 0]]) (auto simp: demo_eval)
  then show ?thesis
    by (rule lock_reachable_next [OF _ lock_step.delivered [of _ _ 0]]) (auto simp: demo_eval)
qed

abbreviation demo_held :: lock_sys where
  "demo_held \<equiv> demo_state [''l'' \<mapsto> \<lparr>Value = '''', Version = 2\<rparr>] PHeld 2 False 2"

theorem lock_mutual_exclusion_witness:
  "lock_reachable ''l'' demo_id demo_held \<and> (\<forall>j. lc_pc (clients demo_held j) = PHeld \<longleftrightarrow> j = 0)"
proof -
  have "j = 0" if "lc_pc (clients demo_held j) = PHeld" for j
    by (rule lock_mutual_exclusion [OF demo_run demo_id_good _ that]) simp_all
  moreover have "lc_pc (clients demo_held 0) = PHeld" by simp
  ultimately show ?thesis using demo_run by blast
qed

theorem lock_never_fatal_and_released_witness:
  "lock_reachable ''l'' demo_id demo_held \<and> lc_pc (clients demo_held 0) \<noteq> PFatal"
proof -
  have "lc_pc (clients demo_held 0) \<noteq> PFatal"
    using lock_never_fatal_and_released [OF demo_run demo_id_good, of 0] by simp
  then show ?thesis using demo_run by simp
qed

end
