(* ===== verification/Persist.thy ===== *)
theory Persist
  imports Prelude
begin

text \<open>
  The persister (\<open>src/tester1/persister.go\<close>), the \<open>ApplyMsg\<close> of \<open>src/raftapi/raftapi.go\<close>, and what
  Raft uses of gob: an encoder appends a typed value to a buffer, a decoder pops the next value
  and fails if the buffer is exhausted or the next value has another type
  (\<open>labgob.NewEncoder\<close>, \<open>NewDecoder\<close>, \<open>src/labgob/labgob.go\<close>, over the standard library's
  \<open>encoding/gob\<close>).

  A buffer is the list of its values; its length in bytes is the parameter \<open>gob_size\<close>.  A nil
  byte slice is \<open>None\<close> where the code tests for nil.  \<open>Command interface{}\<close> is \<open>'c option\<close>,
  \<open>None\<close> the nil command; a snapshot is a list of bytes of type \<open>'b\<close>.
\<close>

section \<open>Log entries and encoded state\<close>

record 'c logEntry =
  Term :: int
  Command :: "'c option"

datatype 'c gob_value = GobInt int | GobLog "'c logEntry list"

type_synonym 'c gob_buffer = "'c gob_value list"

definition EncodeInt :: "int \<Rightarrow> 'c gob_buffer \<Rightarrow> 'c gob_buffer" where
  "EncodeInt x w = w @ [GobInt x]"

definition EncodeLog :: "'c logEntry list \<Rightarrow> 'c gob_buffer \<Rightarrow> 'c gob_buffer" where
  "EncodeLog x w = w @ [GobLog x]"

fun DecodeInt :: "'c gob_buffer \<Rightarrow> (int \<times> 'c gob_buffer) option" where
  "DecodeInt (GobInt x # r) = Some (x, r)"
| "DecodeInt _ = None"

fun DecodeLog :: "'c gob_buffer \<Rightarrow> ('c logEntry list \<times> 'c gob_buffer) option" where
  "DecodeLog (GobLog x # r) = Some (x, r)"
| "DecodeLog _ = None"

section \<open>The persister\<close>

record ('c, 'b) Persister =
  raftstate :: "'c gob_buffer"
  snapshot :: "'b list"

definition MakePersister :: "('c, 'b) Persister" where
  "MakePersister = \<lparr>raftstate = [], snapshot = []\<rparr>"

definition clone :: "'a list \<Rightarrow> 'a list" where
  "clone orig = map (\<lambda>i. orig ! i) [0..<length orig]"

definition Persister_Copy :: "('c, 'b) Persister \<Rightarrow> ('c, 'b) Persister" where
  "Persister_Copy ps = MakePersister\<lparr>raftstate := raftstate ps, snapshot := snapshot ps\<rparr>"

definition ReadRaftState :: "('c, 'b) Persister \<Rightarrow> 'c gob_buffer" where
  "ReadRaftState ps = clone (raftstate ps)"

definition RaftStateSize :: "('c gob_value \<Rightarrow> nat) \<Rightarrow> ('c, 'b) Persister \<Rightarrow> nat" where
  "RaftStateSize gob_size ps = sum_list (map gob_size (raftstate ps))"

definition Persister_Save ::
  "'c gob_buffer \<Rightarrow> 'b list option \<Rightarrow> ('c, 'b) Persister \<Rightarrow> ('c, 'b) Persister" where
  "Persister_Save rs snap ps =
     (let ps = ps\<lparr>raftstate := clone rs\<rparr>
      in case snap of None \<Rightarrow> ps | Some s \<Rightarrow> ps\<lparr>snapshot := clone s\<rparr>)"

definition ReadSnapshot :: "('c, 'b) Persister \<Rightarrow> 'b list" where
  "ReadSnapshot ps = clone (snapshot ps)"

definition SnapshotSize :: "('c, 'b) Persister \<Rightarrow> nat" where
  "SnapshotSize ps = length (snapshot ps)"

lemma clone_id [simp]: "clone xs = xs"
  by (simp add: clone_def map_nth)

lemma Persister_Save_fields [simp]:
  "raftstate (Persister_Save rs snap ps) = rs"
  "snapshot (Persister_Save rs snap ps) = (case snap of None \<Rightarrow> snapshot ps | Some s \<Rightarrow> s)"
  by (simp_all add: Persister_Save_def Let_def split: option.split)

lemma Persister_Copy_id [simp]: "Persister_Copy ps = ps"
  by (simp add: Persister_Copy_def)

section \<open>Messages to the service\<close>

record ('c, 'b) ApplyMsg =
  CommandValid :: bool
  am_Command :: "'c option"
  CommandIndex :: int
  SnapshotValid :: bool
  am_Snapshot :: "'b list"
  SnapshotTerm :: int
  SnapshotIndex :: int

definition command_msg :: "int \<Rightarrow> 'c option \<Rightarrow> ('c, 'b) ApplyMsg" where
  "command_msg i c = \<lparr>CommandValid = True, am_Command = c, CommandIndex = i,
     SnapshotValid = False, am_Snapshot = [], SnapshotTerm = 0, SnapshotIndex = 0\<rparr>"

definition snapshot_msg :: "'b list \<Rightarrow> int \<Rightarrow> int \<Rightarrow> ('c, 'b) ApplyMsg" where
  "snapshot_msg s i t = \<lparr>CommandValid = False, am_Command = None, CommandIndex = 0,
     SnapshotValid = True, am_Snapshot = s, SnapshotTerm = t, SnapshotIndex = i\<rparr>"

end
