(* ===== verification/RaftNode.thy ===== *)
theory RaftNode
  imports Persist
begin

text \<open>
  One Raft peer: \<open>src/raft1/raft.go\<close>, \<open>raft_vote.go\<close>, \<open>raft_append_entries.go\<close> and
  \<open>raft_install_snapshot.go\<close>.  Every region the code runs under \<open>rf.mu\<close> is one function on the
  record \<open>Raft\<close>; a Go run-time panic is an \<open>Inl\<close> result; \<open>go rf.sendX(...)\<close> is a value of
  \<open>raft_call\<close> in the result, and the part of \<open>sendX\<close> that runs when the calls are over is a function
  of the outcomes of these calls.

  The channels \<open>heartbeatCh\<close>, \<open>convertCh\<close>, \<open>winElectCh\<close>, \<open>broadcastCh\<close> are unbuffered and
  \<open>sendToChannel\<close> sends only if a receiver waits: their effect is on the program counter
  \<open>ticker_pc\<close> of the goroutine \<open>ticker\<close>.  \<open>applyCond\<close> and the sends on \<open>applyCh\<close> act on the program
  counter \<open>apply_pc\<close> of the goroutine \<open>applyLogEntry\<close>; \<open>applyCh\<close> is the sequence of messages the
  service has received.  Slices are values: that \<open>Entries: rf.log[logIdx:]\<close> shares its array with
  the log until the request is encoded is not modelled.
\<close>

section \<open>State\<close>

datatype RState = Follower | Candidate | Leader

datatype raft_chan = HeartbeatCh | ConvertCh | WinElectCh | BroadcastCh

datatype ticker_pc =
    TLoop           \<comment> \<open>at the head of the loop\<close>
  | TSelect RState  \<comment> \<open>blocked in the \<open>select\<close> of this state\<close>
  | TCandidate      \<comment> \<open>the election timeout fired: about to call \<open>convertToCandidate\<close>\<close>
  | TLeader         \<comment> \<open>received from \<open>winElectCh\<close>: about to call \<open>convertToLeader\<close>\<close>
  | TBroadcast      \<comment> \<open>about to call \<open>broadcastHeartbeat\<close>\<close>
  | TExit

datatype ('c, 'b) apply_pc =
    ALoop                               \<comment> \<open>at the head of the outer loop\<close>
  | ACheck                              \<comment> \<open>at the condition of the inner loop, lock held\<close>
  | AWaiting                            \<comment> \<open>in \<open>applyCond.Wait\<close>\<close>
  | ASnap                               \<comment> \<open>about to build the snapshot message, unlocked\<close>
  | ASnapBlocked "('c, 'b) ApplyMsg"    \<comment> \<open>sending it\<close>
  | ASnapDone                           \<comment> \<open>sent, about to lock\<close>
  | ASend int                           \<comment> \<open>at the condition of the \<open>for i\<close> loop, unlocked\<close>
  | ABlocked int "('c, 'b) ApplyMsg"    \<comment> \<open>sending the message for \<open>i\<close>\<close>
  | AFinish                             \<comment> \<open>after the loop, about to lock\<close>
  | AClosed

record ('c, 'b) Raft =
  peers :: nat
  persister :: "('c, 'b) Persister"
  me :: int
  dead :: int
  currentTerm :: int
  votedFor :: int
  log :: "'c logEntry list"
  lastSnapshotIndex :: int
  commitIndex :: int
  lastApplied :: int
  nextIndex :: "int list"
  matchIndex :: "int list"
  state :: RState
  applyCh :: "('c, 'b) ApplyMsg list"
  voteCount :: int
  snapshotBuffer :: "'b list option"
  bufferWriteDone :: bool
  ticker_pc :: ticker_pc
  apply_pc :: "('c, 'b) apply_pc"

record RequestVoteArgs =
  rva_Term :: int
  CandidateId :: int
  LastLogIndex :: int
  LastLogTerm :: int

record RequestVoteReply =
  rvr_Term :: int
  VoteGranted :: bool

record 'c AppendEntryArgs =
  aea_Term :: int
  aea_LeaderId :: int
  PrevLogIndex :: int
  PrevLogTerm :: int
  Entries :: "'c logEntry list"
  LeaderCommit :: int

record AppendEntryReply =
  aer_Term :: int
  XIndex :: int
  XTerm :: int
  Success :: bool

record 'b InstallSnapshotArgs =
  isa_Term :: int
  isa_LeaderId :: int
  LastIncludedIndex :: int
  LastIncludedTerm :: int
  Offset :: int
  Data :: "'b list"
  Done :: bool

record InstallSnapshotReply =
  isr_Term :: int

text \<open>The goroutines that make remote calls: the peer called and the arguments.\<close>

datatype ('c, 'b) raft_call =
    CallRequestVote int RequestVoteArgs
  | CallAppendEntries int "'c AppendEntryArgs"
  | CallInstallSnapshot int "'b InstallSnapshotArgs"

abbreviation nilEntry :: "int \<Rightarrow> 'c logEntry" where
  "nilEntry t \<equiv> \<lparr>Term = t, Command = None\<rparr>"

section \<open>Persistence and indices\<close>

definition GetState :: "('c, 'b) Raft \<Rightarrow> int \<times> bool" where
  "GetState rf = (currentTerm rf, state rf = Leader)"

definition persist :: "'b list option \<Rightarrow> ('c, 'b) Raft \<Rightarrow> ('c, 'b) Raft" where
  "persist snap rf =
     (let w = EncodeInt (currentTerm rf) [];
          w = EncodeInt (votedFor rf) w;
          w = EncodeLog (log rf) w;
          w = EncodeInt (lastSnapshotIndex rf) w
      in rf\<lparr>persister := Persister_Save w snap (persister rf)\<rparr>)"

text \<open>The four \<open>Decode\<close>s of \<open>readPersist\<close>, in a chain of \<open>&&\<close>.\<close>

definition decode_state :: "'c gob_buffer \<Rightarrow> (int \<times> int \<times> 'c logEntry list \<times> int) option" where
  "decode_state data =
     Option.bind (DecodeInt data) (\<lambda>(cTerm, r).
     Option.bind (DecodeInt r) (\<lambda>(vtFor, r).
     Option.bind (DecodeLog r) (\<lambda>(logs, r).
     Option.bind (DecodeInt r) (\<lambda>(lIndex, r).
     Some (cTerm, vtFor, logs, lIndex)))))"

definition readPersist :: "'c gob_buffer \<Rightarrow> ('c, 'b) Raft \<Rightarrow> ('c, 'b) Raft" where
  "readPersist data rf =
     (if length data < 1 then rf
      else (let rf = (case decode_state data of
                        Some (cTerm, vtFor, logs, lIndex) \<Rightarrow>
                          rf\<lparr>currentTerm := cTerm, votedFor := vtFor, log := logs,
                             lastSnapshotIndex := lIndex\<rparr>
                      | None \<Rightarrow> rf)
            in if log rf = [] then rf\<lparr>log := [nilEntry 0]\<rparr> else rf))"

definition PersistBytes :: "('c gob_value \<Rightarrow> nat) \<Rightarrow> ('c, 'b) Raft \<Rightarrow> nat" where
  "PersistBytes gob_size rf = RaftStateSize gob_size (persister rf)"

definition GetLastIndex :: "('c, 'b) Raft \<Rightarrow> int" where
  "GetLastIndex rf = lastSnapshotIndex rf + go_len (log rf) - 1"

definition GetLastTerm :: "('c, 'b) Raft \<Rightarrow> int go" where
  "GetLastTerm rf = go_bind (go_nth (log rf) (go_len (log rf) - 1)) (\<lambda>e. Inr (Term e))"

definition ToLogIndex :: "int \<Rightarrow> ('c, 'b) Raft \<Rightarrow> int" where
  "ToLogIndex index rf = (if index < lastSnapshotIndex rf then - 1 else index - lastSnapshotIndex rf)"

definition ToOriginalIndex :: "int \<Rightarrow> ('c, 'b) Raft \<Rightarrow> int" where
  "ToOriginalIndex index rf = (if index < 0 then - 1 else lastSnapshotIndex rf + index)"

text \<open>\<open>rf.log[trimLen:]\<close> copied, then \<open>rf.log[0].Command = nil\<close>.\<close>

definition clear_head :: "'c logEntry list \<Rightarrow> 'c logEntry list go" where
  "clear_head lg = go_bind (go_nth lg 0) (\<lambda>e. go_update lg 0 (e\<lparr>Command := None\<rparr>))"

definition Raft_Snapshot :: "int \<Rightarrow> 'b list option \<Rightarrow> ('c, 'b) Raft \<Rightarrow> ('c, 'b) Raft go" where
  "Raft_Snapshot index snap rf =
     (if index \<le> lastSnapshotIndex rf \<or> index > GetLastIndex rf then Inr rf
      else
        (let trimLen = index - lastSnapshotIndex rf;
             rf = rf\<lparr>lastSnapshotIndex := index\<rparr>
         in go_bind (go_from (log rf) trimLen) (\<lambda>lg.
            go_bind (clear_head lg) (\<lambda>lg.
            Inr (persist snap (rf\<lparr>log := lg\<rparr>))))))"

text \<open>The two timeouts, in milliseconds; \<open>r\<close> is the random number that \<open>rand.Int63()\<close> returns, which is
  not negative.\<close>

definition heartbeatTimeout :: int where
  "heartbeatTimeout = 100"

definition electionTimeout :: "nat \<Rightarrow> int" where
  "electionTimeout r = 300 + int (r mod 200)"

definition isLogUpToDate :: "int \<Rightarrow> int \<Rightarrow> ('c, 'b) Raft \<Rightarrow> bool go" where
  "isLogUpToDate lastLogIndex lastLogTerm rf =
     go_bind (GetLastTerm rf) (\<lambda>t.
       if lastLogTerm > t then Inr True
       else if lastLogTerm = t then Inr (lastLogIndex \<ge> GetLastIndex rf)
       else Inr False)"

section \<open>Signals and role changes\<close>

text \<open>The cases of the three \<open>select\<close> statements of \<open>ticker\<close>: what the goroutine does on a receive.\<close>

fun select_case :: "RState \<Rightarrow> raft_chan \<Rightarrow> ticker_pc option" where
  "select_case Leader ConvertCh = Some TLoop"
| "select_case Leader BroadcastCh = Some TBroadcast"
| "select_case Follower HeartbeatCh = Some TLoop"
| "select_case Candidate ConvertCh = Some TLoop"
| "select_case Candidate WinElectCh = Some TLeader"
| "select_case _ _ = None"

definition sendToChannel :: "raft_chan \<Rightarrow> ('c, 'b) Raft \<Rightarrow> ('c, 'b) Raft" where
  "sendToChannel ch rf =
     (case ticker_pc rf of
        TSelect s \<Rightarrow> (case select_case s ch of Some pc \<Rightarrow> rf\<lparr>ticker_pc := pc\<rparr> | None \<Rightarrow> rf)
      | _ \<Rightarrow> rf)"

text \<open>\<open>rf.applyCond.Signal()\<close>\<close>

definition Signal :: "('c, 'b) Raft \<Rightarrow> ('c, 'b) Raft" where
  "Signal rf = (if apply_pc rf = AWaiting then rf\<lparr>apply_pc := ACheck\<rparr> else rf)"

definition convertToFollower :: "int \<Rightarrow> ('c, 'b) Raft \<Rightarrow> ('c, 'b) Raft" where
  "convertToFollower term rf =
     (let st = state rf;
          rf = rf\<lparr>state := Follower, currentTerm := term, votedFor := - 1, voteCount := 0\<rparr>
      in if st \<noteq> Follower then sendToChannel ConvertCh rf else rf)"

text \<open>\<open>for i := range rf.peers { if i != rf.me { ... } }\<close>\<close>

definition other_peers :: "('c, 'b) Raft \<Rightarrow> int list" where
  "other_peers rf = filter (\<lambda>i. i \<noteq> me rf) (map int [0..<peers rf])"

definition broadcastRequestVote :: "('c, 'b) Raft \<Rightarrow> ('c, 'b) raft_call list go" where
  "broadcastRequestVote rf =
     (if state rf \<noteq> Candidate then Inr []
      else go_bind (GetLastTerm rf) (\<lambda>lastTerm.
        let args = \<lparr>rva_Term = currentTerm rf, CandidateId = me rf,
                    LastLogIndex = GetLastIndex rf, LastLogTerm = lastTerm\<rparr>
        in Inr (map (\<lambda>i. CallRequestVote i args) (other_peers rf))))"

definition convertToCandidate :: "('c, 'b) Raft \<Rightarrow> (('c, 'b) raft_call list \<times> ('c, 'b) Raft) go" where
  "convertToCandidate rf =
     (if state rf = Leader then Inr ([], rf)
      else
        (let rf = rf\<lparr>state := Candidate, currentTerm := currentTerm rf + 1, votedFor := me rf,
                     voteCount := 1\<rparr>;
             rf = persist None rf
         in go_bind (broadcastRequestVote rf) (\<lambda>calls. Inr (calls, rf))))"

text \<open>The body of the loop of \<open>broadcastHeartbeat\<close> for peer \<open>i\<close>.\<close>

definition heartbeat_call :: "('c, 'b) Raft \<Rightarrow> int \<Rightarrow> ('c, 'b) raft_call go" where
  "heartbeat_call rf i =
     go_bind (go_nth (nextIndex rf) i) (\<lambda>next.
       if next \<le> lastSnapshotIndex rf then
         go_bind (go_nth (log rf) 0) (\<lambda>e.
           Inr (CallInstallSnapshot i
             \<lparr>isa_Term = currentTerm rf, isa_LeaderId = me rf,
              LastIncludedIndex = lastSnapshotIndex rf, LastIncludedTerm = Term e,
              Offset = 0, Data = ReadSnapshot (persister rf), Done = True\<rparr>))
       else
         (let logIdx = ToLogIndex next rf
          in go_bind (go_nth (log rf) (logIdx - 1)) (\<lambda>e.
             go_bind (go_from (log rf) logIdx) (\<lambda>es.
               Inr (CallAppendEntries i
                 \<lparr>aea_Term = currentTerm rf, aea_LeaderId = me rf, PrevLogIndex = next - 1,
                  PrevLogTerm = Term e, Entries = es, LeaderCommit = commitIndex rf\<rparr>)))))"

fun heartbeat_loop :: "('c, 'b) Raft \<Rightarrow> int list \<Rightarrow> ('c, 'b) raft_call list go" where
  "heartbeat_loop rf [] = Inr []"
| "heartbeat_loop rf (i # is) =
     go_bind (heartbeat_call rf i) (\<lambda>c. go_bind (heartbeat_loop rf is) (\<lambda>cs. Inr (c # cs)))"

definition broadcastHeartbeat :: "('c, 'b) Raft \<Rightarrow> ('c, 'b) raft_call list go" where
  "broadcastHeartbeat rf = (if state rf \<noteq> Leader then Inr [] else heartbeat_loop rf (other_peers rf))"

definition convertToLeader :: "('c, 'b) Raft \<Rightarrow> (('c, 'b) raft_call list \<times> ('c, 'b) Raft) go" where
  "convertToLeader rf =
     (if state rf \<noteq> Candidate then Inr ([], rf)
      else
        (let lastIndex = GetLastIndex rf + 1;
             rf = rf\<lparr>state := Leader, nextIndex := replicate (peers rf) lastIndex,
                     matchIndex := replicate (peers rf) 0\<rparr>
         in go_bind (broadcastHeartbeat rf) (\<lambda>calls. Inr (calls, rf))))"

definition Start :: "'c option \<Rightarrow> ('c, 'b) Raft \<Rightarrow> (int \<times> int \<times> bool) \<times> ('c, 'b) Raft" where
  "Start command rf =
     (if state rf \<noteq> Leader then ((- 1, - 1, False), rf)
      else
        (let term = currentTerm rf;
             rf = rf\<lparr>log := log rf @ [\<lparr>Term = term, Command = command\<rparr>]\<rparr>;
             rf = persist None rf;
             rf = sendToChannel BroadcastCh rf
         in ((GetLastIndex rf, term, True), rf)))"

definition Kill :: "('c, 'b) Raft \<Rightarrow> ('c, 'b) Raft" where
  "Kill rf = rf\<lparr>dead := 1\<rparr>"

definition killed :: "('c, 'b) Raft \<Rightarrow> bool" where
  "killed rf = (dead rf = 1)"

section \<open>Voting\<close>

text \<open>The deferred \<open>if persistStateChanged { rf.persist(nil) }\<close>\<close>

definition deferred_persist :: "bool \<Rightarrow> ('c, 'b) Raft \<Rightarrow> ('c, 'b) Raft" where
  "deferred_persist changed rf = (if changed then persist None rf else rf)"

definition RequestVote :: "RequestVoteArgs \<Rightarrow> ('c, 'b) Raft \<Rightarrow> (RequestVoteReply \<times> ('c, 'b) Raft) go" where
  "RequestVote args rf =
     (if rva_Term args < currentTerm rf
      then Inr (\<lparr>rvr_Term = currentTerm rf, VoteGranted = False\<rparr>, rf)
      else
        (let (rf, changed) = (if rva_Term args > currentTerm rf
                              then (convertToFollower (rva_Term args) rf, True) else (rf, False));
             term = currentTerm rf;
             no = (\<lparr>rvr_Term = term, VoteGranted = False\<rparr>, deferred_persist changed rf)
         in if votedFor rf = - 1 \<or> votedFor rf = CandidateId args
            then go_bind (isLogUpToDate (LastLogIndex args) (LastLogTerm args) rf) (\<lambda>up.
              if up
              then Inr (\<lparr>rvr_Term = term, VoteGranted = True\<rparr>,
                        deferred_persist True
                          (sendToChannel HeartbeatCh (rf\<lparr>votedFor := CandidateId args\<rparr>)))
              else Inr no)
            else Inr no))"

text \<open>
  \<open>ok := Call(...)\<close> and its retries while \<open>!ok && nTry < 5\<close>: the outcomes of the calls, \<open>None\<close>
  for a call that returned false.
\<close>

fun call_retry :: "nat \<Rightarrow> 'r option list \<Rightarrow> 'r option" where
  "call_retry n [] = None"
| "call_retry n (Some r # rs) = Some r"
| "call_retry 0 (None # rs) = None"
| "call_retry (Suc n) (None # rs) = call_retry n rs"

definition sendRequestVote ::
  "RequestVoteReply option list \<Rightarrow> RequestVoteArgs \<Rightarrow> ('c, 'b) Raft \<Rightarrow> ('c, 'b) Raft" where
  "sendRequestVote outcomes args rf =
     (case call_retry 5 outcomes of
        None \<Rightarrow> rf
      | Some reply \<Rightarrow>
          (if state rf \<noteq> Candidate \<or> rva_Term args \<noteq> currentTerm rf then rf
           else if rvr_Term reply > currentTerm rf
           then persist None (convertToFollower (rvr_Term reply) rf)
           else if VoteGranted reply
           then (let rf = rf\<lparr>voteCount := voteCount rf + 1\<rparr>
                 in if voteCount rf > int (peers rf div 2) then sendToChannel WinElectCh rf else rf)
           else rf))"


section \<open>Replicating the log\<close>

text \<open>\<open>for logIndex > 0 && rf.log[logIndex].Term == cfTerm { logIndex-- }\<close>\<close>

fun back_over :: "'c logEntry list \<Rightarrow> int \<Rightarrow> nat \<Rightarrow> nat" where
  "back_over lg cfTerm 0 = 0"
| "back_over lg cfTerm (Suc n) = (if Term (lg ! Suc n) = cfTerm then back_over lg cfTerm n else Suc n)"

text \<open>The loop over \<open>i, j\<close> that compares the log with the entries.\<close>

function match_loop :: "'c logEntry list \<Rightarrow> 'c logEntry list \<Rightarrow> nat \<Rightarrow> nat \<Rightarrow> nat \<times> nat" where
  "match_loop lg es i j =
     (if i < length lg \<and> j < length es
      then if Term (lg ! i) \<noteq> Term (es ! j) then (i, j) else match_loop lg es (i + 1) (j + 1)
      else (i, j))"
  by pat_completeness auto
termination
  by (relation "measure (\<lambda>(lg, es, i, j). length lg - i)") auto

declare match_loop.simps [simp del]

text \<open>The reply when \<open>args\<close> is rejected: the three early returns after the term check.\<close>

definition AppendEntries_reject :: "'c AppendEntryArgs \<Rightarrow> ('c, 'b) Raft \<Rightarrow> (int \<times> int) option go" where
  "AppendEntries_reject args rf =
     (let lastIndex = GetLastIndex rf
      in if PrevLogIndex args > lastIndex then Inr (Some (lastIndex + 1, - 1))
         else
           (let logIndex = ToLogIndex (PrevLogIndex args) rf
            in if logIndex < 0 then Inr (Some (0, - 1))
               else go_bind (go_nth (log rf) logIndex) (\<lambda>e.
                 let cfTerm = Term e
                 in if cfTerm \<noteq> PrevLogTerm args
                    then if logIndex = 0 then Inr (Some (0, - 1))
                         else Inr (Some (ToOriginalIndex
                                (int (back_over (log rf) cfTerm (nat logIndex)) + 1) rf, cfTerm))
                    else Inr None)))"

definition AppendEntries :: "'c AppendEntryArgs \<Rightarrow> ('c, 'b) Raft \<Rightarrow> (AppendEntryReply \<times> ('c, 'b) Raft) go" where
  "AppendEntries args rf =
     (if aea_Term args < currentTerm rf
      then Inr (\<lparr>aer_Term = currentTerm rf, XIndex = 0, XTerm = 0, Success = False\<rparr>, rf)
      else
        (let (rf, changed) = (if aea_Term args > currentTerm rf
                              then (convertToFollower (aea_Term args) rf, True) else (rf, False));
             term = currentTerm rf;
             rf = sendToChannel HeartbeatCh rf
         in go_bind (AppendEntries_reject args rf) (\<lambda>rej.
            case rej of
              Some (xi, xt) \<Rightarrow>
                Inr (\<lparr>aer_Term = term, XIndex = xi, XTerm = xt, Success = False\<rparr>,
                     deferred_persist changed rf)
            | None \<Rightarrow>
                (let (i, j) = match_loop (log rf) (Entries args)
                                (nat (ToLogIndex (PrevLogIndex args) rf) + 1) 0;
                     changed = (changed \<or> i < length (log rf) \<or> j < length (Entries args));
                     rf = rf\<lparr>log := take i (log rf) @ drop j (Entries args)\<rparr>;
                     xi = ToOriginalIndex (go_len (log rf)) rf;
                     rf = (if LeaderCommit args > commitIndex rf
                           then Signal (rf\<lparr>commitIndex := min (LeaderCommit args) (GetLastIndex rf)\<rparr>)
                           else rf)
                 in Inr (\<lparr>aer_Term = term, XIndex = xi, XTerm = - 1, Success = True\<rparr>,
                         deferred_persist changed rf)))))"

text \<open>\<open>for ; idx > 0 && rf.log[idx].Term != reply.XTerm; idx-- { }\<close>\<close>

fun find_term :: "'c logEntry list \<Rightarrow> int \<Rightarrow> nat \<Rightarrow> nat go" where
  "find_term lg xt 0 = Inr 0"
| "find_term lg xt (Suc n) =
     go_bind (go_nth lg (int (Suc n))) (\<lambda>e. if Term e \<noteq> xt then find_term lg xt n else Inr (Suc n))"

text \<open>The update of \<open>nextIndex\<close> and \<open>matchIndex\<close> from a reply.\<close>

definition update_indices ::
  "int \<Rightarrow> 'c AppendEntryArgs \<Rightarrow> AppendEntryReply \<Rightarrow> ('c, 'b) Raft \<Rightarrow> ('c, 'b) Raft go" where
  "update_indices server args reply rf =
     (if Success reply then
        go_bind (go_update (nextIndex rf) server (XIndex reply)) (\<lambda>ni.
        go_bind (go_update (matchIndex rf) server (XIndex reply - 1)) (\<lambda>mi.
        Inr (rf\<lparr>nextIndex := ni, matchIndex := mi\<rparr>)))
      else if XTerm reply = - 1 then
        go_bind (go_update (nextIndex rf) server (XIndex reply)) (\<lambda>ni. Inr (rf\<lparr>nextIndex := ni\<rparr>))
      else
        (let idx = ToLogIndex (PrevLogIndex args) rf
         in go_bind (if idx > 0 then go_bind (find_term (log rf) (XTerm reply) (nat idx)) (\<lambda>k. Inr (int k))
                     else Inr idx) (\<lambda>idx.
            if idx = 0 \<or> ToOriginalIndex idx rf < XIndex reply
            then go_bind (go_update (nextIndex rf) server (XIndex reply)) (\<lambda>ni. Inr (rf\<lparr>nextIndex := ni\<rparr>))
            else go_bind (go_update (nextIndex rf) server (ToOriginalIndex (idx + 1) rf)) (\<lambda>ni.
                 go_bind (go_update (matchIndex rf) server (ToOriginalIndex idx rf)) (\<lambda>mi.
                 Inr (rf\<lparr>nextIndex := ni, matchIndex := mi\<rparr>))))))"

text \<open>The count of the peers known to have the entry at \<open>idx\<close>, starting at 1 for the leader.\<close>

fun count_match :: "int list \<Rightarrow> int \<Rightarrow> int list \<Rightarrow> int \<Rightarrow> int go" where
  "count_match mi idx [] count = Inr count"
| "count_match mi idx (i # is) count =
     go_bind (go_nth mi i) (\<lambda>m. count_match mi idx is (if m \<ge> idx then count + 1 else count))"

text \<open>The loop over \<open>n\<close> that advances \<open>commitIndex\<close>; its argument is \<open>n + 1\<close>.\<close>

fun commit_loop :: "int \<Rightarrow> nat \<Rightarrow> ('c, 'b) Raft \<Rightarrow> ('c, 'b) Raft go" where
  "commit_loop commitIdx 0 rf = Inr rf"
| "commit_loop commitIdx (Suc n) rf =
     (if \<not> int n > commitIdx then Inr rf
      else if Term (log rf ! n) < currentTerm rf then Inr rf
      else
        (let idx = ToOriginalIndex (int n) rf
         in go_bind (if Term (log rf ! n) = currentTerm rf
                     then count_match (matchIndex rf) idx (other_peers rf) 1 else Inr 1) (\<lambda>count.
            if count > int (peers rf div 2) then Inr (Signal (rf\<lparr>commitIndex := idx\<rparr>))
            else commit_loop commitIdx n rf)))"

definition sendAppendEntries ::
  "AppendEntryReply option list \<Rightarrow> int \<Rightarrow> 'c AppendEntryArgs \<Rightarrow> ('c, 'b) Raft \<Rightarrow> ('c, 'b) Raft go" where
  "sendAppendEntries outcomes server args rf =
     (case call_retry 5 outcomes of
        None \<Rightarrow> Inr rf
      | Some reply \<Rightarrow>
          (if state rf \<noteq> Leader \<or> aea_Term args < currentTerm rf \<or> aer_Term reply < currentTerm rf
           then Inr rf
           else if aer_Term reply > currentTerm rf
           then Inr (persist None (convertToFollower (aer_Term reply) rf))
           else go_bind (update_indices server args reply rf) (\<lambda>rf.
                  commit_loop (ToLogIndex (commitIndex rf) rf) (length (log rf)) rf)))"

section \<open>Installing snapshots\<close>

text \<open>\<open>copy(dst, src)\<close> copies the shorter length; \<open>newSnapshot[offset:]\<close> is bounds-checked.\<close>

definition go_copy :: "'a list \<Rightarrow> 'a list \<Rightarrow> 'a list" where
  "go_copy dst src = take (length dst) src @ drop (length src) dst"

definition WriteSnapshot :: "'b list option \<Rightarrow> 'b list \<Rightarrow> int \<Rightarrow> 'b \<Rightarrow> 'b list go" where
  "WriteSnapshot snap data offset zero =
     (let old = (case snap of None \<Rightarrow> [] | Some s \<Rightarrow> s);
          newLen = max (offset + go_len data) (go_len old);
          new = go_copy (replicate (nat newLen) zero) old
      in go_bind (go_from new offset) (\<lambda>tail. Inr (take (nat offset) new @ go_copy tail data)))"

text \<open>The new log of a follower that installs a snapshot past its own.\<close>

definition install_log :: "'b InstallSnapshotArgs \<Rightarrow> ('c, 'b) Raft \<Rightarrow> 'c logEntry list go" where
  "install_log args rf =
     (let logIdx = ToLogIndex (LastIncludedIndex args) rf
      in if logIdx \<ge> go_len (log rf) then Inr [nilEntry (LastIncludedTerm args)]
         else go_bind (go_nth (log rf) logIdx) (\<lambda>e.
           if Term e \<noteq> LastIncludedIndex args then Inr [nilEntry (LastIncludedTerm args)]
           else go_bind (go_from (log rf) logIdx) clear_head))"

text \<open>The deferred \<open>if shouldPersist { rf.persist(rf.snapshotBuffer) }\<close>\<close>

definition deferred_persist_buffer :: "bool \<Rightarrow> ('c, 'b) Raft \<Rightarrow> ('c, 'b) Raft" where
  "deferred_persist_buffer should rf = (if should then persist (snapshotBuffer rf) rf else rf)"

definition InstallSnapshot ::
  "'b \<Rightarrow> 'b InstallSnapshotArgs \<Rightarrow> ('c, 'b) Raft \<Rightarrow> (InstallSnapshotReply \<times> ('c, 'b) Raft) go" where
  "InstallSnapshot zero args rf =
     (if isa_Term args < currentTerm rf \<or> LastIncludedIndex args < lastSnapshotIndex rf
      then Inr (\<lparr>isr_Term = currentTerm rf\<rparr>, rf)
      else
        (let (rf, should) = (if isa_Term args > currentTerm rf
                             then (convertToFollower (isa_Term args) rf, True) else (rf, False));
             rf = sendToChannel HeartbeatCh rf
         in go_bind (WriteSnapshot (snapshotBuffer rf) (Data args) (Offset args) zero) (\<lambda>buf.
            let rf = rf\<lparr>snapshotBuffer := Some buf\<rparr>
            in go_bind (if \<not> Done args then Inr True
                        else if LastIncludedIndex args \<noteq> lastSnapshotIndex rf then Inr False
                        else go_bind (go_nth (log rf) 0) (\<lambda>e. Inr (Term e = LastIncludedTerm args))) (\<lambda>skip.
               if skip
               then Inr (\<lparr>isr_Term = currentTerm rf\<rparr>, deferred_persist_buffer should rf)
               else
                 (let rf = rf\<lparr>bufferWriteDone := True\<rparr>;
                      reply = \<lparr>isr_Term = currentTerm rf\<rparr>
                  in go_bind (if LastIncludedIndex args > lastSnapshotIndex rf
                              then install_log args rf else Inr (log rf)) (\<lambda>lg.
                     let rf = rf\<lparr>log := lg, lastSnapshotIndex := LastIncludedIndex args,
                                 commitIndex := max (commitIndex rf) (LastIncludedIndex args)\<rparr>
                     in Inr (reply, deferred_persist_buffer True (Signal rf))))))))"

text \<open>
  \<open>ok\<close> is assigned from the first call only, so the outcomes of the retries are dropped.
\<close>

definition sendInstallSnapshot ::
  "InstallSnapshotReply option list \<Rightarrow> int \<Rightarrow> 'b InstallSnapshotArgs \<Rightarrow> ('c, 'b) Raft \<Rightarrow> ('c, 'b) Raft go" where
  "sendInstallSnapshot outcomes server args rf =
     (case call_retry 0 outcomes of
        None \<Rightarrow> Inr rf
      | Some reply \<Rightarrow>
          (if isr_Term reply > currentTerm rf
           then Inr (persist None (convertToFollower (isr_Term reply) rf))
           else if state rf \<noteq> Leader \<or> isa_Term args < currentTerm rf \<or> isr_Term reply < currentTerm rf
           then Inr rf
           else go_bind (go_update (nextIndex rf) server (LastIncludedIndex args + 1)) (\<lambda>ni.
                go_bind (go_update (matchIndex rf) server (LastIncludedIndex args)) (\<lambda>mi.
                Inr (rf\<lparr>nextIndex := ni, matchIndex := mi\<rparr>)))))"

section \<open>The goroutines\<close>

text \<open>
  One step of \<open>ticker\<close>: \<open>timeout\<close> says that the step is the firing of the \<open>time.After\<close> of the
  \<open>select\<close>; a \<open>select\<close> is otherwise left through \<open>sendToChannel\<close>.
\<close>

definition ticker_step :: "bool \<Rightarrow> ('c, 'b) Raft \<Rightarrow> (('c, 'b) raft_call list \<times> ('c, 'b) Raft) go" where
  "ticker_step timeout rf =
     (case ticker_pc rf of
        TLoop \<Rightarrow> Inr ([], if killed rf then rf\<lparr>ticker_pc := TExit\<rparr> else rf\<lparr>ticker_pc := TSelect (state rf)\<rparr>)
      | TSelect s \<Rightarrow>
          if timeout then Inr ([], rf\<lparr>ticker_pc := (if s = Leader then TBroadcast else TCandidate)\<rparr>)
          else Inr ([], rf)
      | TCandidate \<Rightarrow> go_bind (convertToCandidate rf) (\<lambda>(calls, rf). Inr (calls, rf\<lparr>ticker_pc := TLoop\<rparr>))
      | TLeader \<Rightarrow> go_bind (convertToLeader rf) (\<lambda>(calls, rf). Inr (calls, rf\<lparr>ticker_pc := TLoop\<rparr>))
      | TBroadcast \<Rightarrow> go_bind (broadcastHeartbeat rf) (\<lambda>calls. Inr (calls, rf\<lparr>ticker_pc := TLoop\<rparr>))
      | TExit \<Rightarrow> Inr ([], rf))"

text \<open>\<open>rf.log[ToLogIndex(lastApplied+1):ToLogIndex(commitIndex+1)]\<close> and what follows it under the lock.\<close>

definition apply_entries :: "('c, 'b) Raft \<Rightarrow> ('c, 'b) Raft go" where
  "apply_entries rf =
     (if commitIndex rf \<le> lastApplied rf then Inr (rf\<lparr>apply_pc := ALoop\<rparr>)
      else
        (let lo = ToLogIndex (lastApplied rf + 1) rf; hi = ToLogIndex (commitIndex rf + 1) rf
         in if 0 \<le> lo \<and> lo \<le> hi \<and> hi \<le> go_len (log rf)
            then Inr (rf\<lparr>apply_pc := ASend (lastApplied rf + 1)\<rparr>)
            else Inl SliceOutOfRange))"

definition applyLogEntry_step :: "('c, 'b) Raft \<Rightarrow> ('c, 'b) Raft go" where
  "applyLogEntry_step rf =
     (case apply_pc rf of
        ALoop \<Rightarrow> Inr (if killed rf then rf\<lparr>apply_pc := AClosed\<rparr> else rf\<lparr>apply_pc := ACheck\<rparr>)
      | ACheck \<Rightarrow>
          if lastApplied rf \<ge> commitIndex rf \<and> \<not> bufferWriteDone rf then Inr (rf\<lparr>apply_pc := AWaiting\<rparr>)
          else if snapshotBuffer rf \<noteq> None \<and> bufferWriteDone rf then Inr (rf\<lparr>apply_pc := ASnap\<rparr>)
          else apply_entries rf
      | AWaiting \<Rightarrow> Inr rf
      | ASnap \<Rightarrow>
          go_bind (go_nth (log rf) 0) (\<lambda>e.
            Inr (rf\<lparr>apply_pc := ASnapBlocked
              (snapshot_msg (case snapshotBuffer rf of None \<Rightarrow> [] | Some s \<Rightarrow> s) (lastSnapshotIndex rf) (Term e))\<rparr>))
      | ASnapBlocked m \<Rightarrow> Inr (rf\<lparr>applyCh := applyCh rf @ [m], apply_pc := ASnapDone\<rparr>)
      | ASnapDone \<Rightarrow>
          apply_entries (rf\<lparr>snapshotBuffer := None, lastApplied := max (lastApplied rf) (lastSnapshotIndex rf),
                            bufferWriteDone := False\<rparr>)
      | ASend i \<Rightarrow>
          if i \<le> commitIndex rf
          then go_bind (go_nth (log rf) (ToLogIndex i rf)) (\<lambda>e.
                 Inr (rf\<lparr>apply_pc := ABlocked i (command_msg i (Command e))\<rparr>))
          else Inr (rf\<lparr>apply_pc := AFinish\<rparr>)
      | ABlocked i m \<Rightarrow> Inr (rf\<lparr>applyCh := applyCh rf @ [m], apply_pc := ASend (i + 1)\<rparr>)
      | AFinish \<Rightarrow> Inr (rf\<lparr>lastApplied := max (lastApplied rf) (commitIndex rf), apply_pc := ALoop\<rparr>)
      | AClosed \<Rightarrow> Inr rf)"

definition Make :: "nat \<Rightarrow> int \<Rightarrow> ('c, 'b) Persister \<Rightarrow> ('c, 'b) Raft" where
  "Make npeers self ps =
     (let rf = \<lparr>peers = npeers, persister = ps, me = self, dead = 0, currentTerm = 0, votedFor = - 1,
                log = [], lastSnapshotIndex = 0, commitIndex = 0, lastApplied = 0,
                nextIndex = replicate npeers 0, matchIndex = replicate npeers 0, state = Follower,
                applyCh = [], voteCount = 0, snapshotBuffer = Some [], bufferWriteDone = False,
                ticker_pc = TLoop, apply_pc = ALoop\<rparr>;
          rf = rf\<lparr>log := log rf @ [nilEntry 0]\<rparr>;
          rf = readPersist (ReadRaftState ps) rf;
          rf = rf\<lparr>lastApplied := lastSnapshotIndex rf, commitIndex := lastSnapshotIndex rf\<rparr>
      in rf\<lparr>nextIndex := replicate npeers (GetLastIndex rf + 1), matchIndex := replicate npeers 0\<rparr>)"

end
