(* ===== verification/RaftProps.thy ===== *)
theory RaftProps
  imports RaftNode
begin

text \<open>
  Properties of one Raft peer: the persisted state is always the current one and \<open>Make\<close> reads it
  back, the invariant \<open>wf_raft\<close> that every handler and every step of the goroutines keeps, what
  each handler returns, and the rule by which terms and votes change (\<open>vote_le\<close>), on which the
  safety of elections rests.
\<close>

section \<open>What the helpers change\<close>

lemma sendToChannel_fields [simp]:
  "peers (sendToChannel ch rf) = peers rf"
  "persister (sendToChannel ch rf) = persister rf"
  "me (sendToChannel ch rf) = me rf"
  "dead (sendToChannel ch rf) = dead rf"
  "currentTerm (sendToChannel ch rf) = currentTerm rf"
  "votedFor (sendToChannel ch rf) = votedFor rf"
  "log (sendToChannel ch rf) = log rf"
  "lastSnapshotIndex (sendToChannel ch rf) = lastSnapshotIndex rf"
  "commitIndex (sendToChannel ch rf) = commitIndex rf"
  "lastApplied (sendToChannel ch rf) = lastApplied rf"
  "nextIndex (sendToChannel ch rf) = nextIndex rf"
  "matchIndex (sendToChannel ch rf) = matchIndex rf"
  "state (sendToChannel ch rf) = state rf"
  "applyCh (sendToChannel ch rf) = applyCh rf"
  "voteCount (sendToChannel ch rf) = voteCount rf"
  "snapshotBuffer (sendToChannel ch rf) = snapshotBuffer rf"
  "bufferWriteDone (sendToChannel ch rf) = bufferWriteDone rf"
  "apply_pc (sendToChannel ch rf) = apply_pc rf"
  by (simp_all add: sendToChannel_def split: ticker_pc.split option.split)

lemma Signal_fields [simp]:
  "peers (Signal rf) = peers rf"
  "persister (Signal rf) = persister rf"
  "me (Signal rf) = me rf"
  "dead (Signal rf) = dead rf"
  "currentTerm (Signal rf) = currentTerm rf"
  "votedFor (Signal rf) = votedFor rf"
  "log (Signal rf) = log rf"
  "lastSnapshotIndex (Signal rf) = lastSnapshotIndex rf"
  "commitIndex (Signal rf) = commitIndex rf"
  "lastApplied (Signal rf) = lastApplied rf"
  "nextIndex (Signal rf) = nextIndex rf"
  "matchIndex (Signal rf) = matchIndex rf"
  "state (Signal rf) = state rf"
  "applyCh (Signal rf) = applyCh rf"
  "voteCount (Signal rf) = voteCount rf"
  "snapshotBuffer (Signal rf) = snapshotBuffer rf"
  "bufferWriteDone (Signal rf) = bufferWriteDone rf"
  "ticker_pc (Signal rf) = ticker_pc rf"
  by (simp_all add: Signal_def)

lemma persist_fields [simp]:
  "peers (persist snap rf) = peers rf"
  "me (persist snap rf) = me rf"
  "dead (persist snap rf) = dead rf"
  "currentTerm (persist snap rf) = currentTerm rf"
  "votedFor (persist snap rf) = votedFor rf"
  "log (persist snap rf) = log rf"
  "lastSnapshotIndex (persist snap rf) = lastSnapshotIndex rf"
  "commitIndex (persist snap rf) = commitIndex rf"
  "lastApplied (persist snap rf) = lastApplied rf"
  "nextIndex (persist snap rf) = nextIndex rf"
  "matchIndex (persist snap rf) = matchIndex rf"
  "state (persist snap rf) = state rf"
  "applyCh (persist snap rf) = applyCh rf"
  "voteCount (persist snap rf) = voteCount rf"
  "snapshotBuffer (persist snap rf) = snapshotBuffer rf"
  "bufferWriteDone (persist snap rf) = bufferWriteDone rf"
  "ticker_pc (persist snap rf) = ticker_pc rf"
  "apply_pc (persist snap rf) = apply_pc rf"
  "raftstate (persister (persist snap rf)) = [GobInt (currentTerm rf), GobInt (votedFor rf), GobLog (log rf), GobInt (lastSnapshotIndex rf)]"
  "snapshot (persister (persist snap rf)) = (case snap of None \<Rightarrow> snapshot (persister rf) | Some s \<Rightarrow> s)"
  by (simp_all add: persist_def Let_def EncodeInt_def EncodeLog_def)

lemma convertToFollower_fields [simp]:
  "peers (convertToFollower t rf) = peers rf"
  "persister (convertToFollower t rf) = persister rf"
  "me (convertToFollower t rf) = me rf"
  "dead (convertToFollower t rf) = dead rf"
  "log (convertToFollower t rf) = log rf"
  "lastSnapshotIndex (convertToFollower t rf) = lastSnapshotIndex rf"
  "commitIndex (convertToFollower t rf) = commitIndex rf"
  "lastApplied (convertToFollower t rf) = lastApplied rf"
  "nextIndex (convertToFollower t rf) = nextIndex rf"
  "matchIndex (convertToFollower t rf) = matchIndex rf"
  "applyCh (convertToFollower t rf) = applyCh rf"
  "snapshotBuffer (convertToFollower t rf) = snapshotBuffer rf"
  "bufferWriteDone (convertToFollower t rf) = bufferWriteDone rf"
  "apply_pc (convertToFollower t rf) = apply_pc rf"
  "state (convertToFollower t rf) = Follower"
  "currentTerm (convertToFollower t rf) = t"
  "votedFor (convertToFollower t rf) = - 1"
  "voteCount (convertToFollower t rf) = 0"
  by (simp_all add: convertToFollower_def Let_def)

lemma deferred_persist_fields [simp]:
  "peers (deferred_persist c rf) = peers rf"
  "me (deferred_persist c rf) = me rf"
  "dead (deferred_persist c rf) = dead rf"
  "currentTerm (deferred_persist c rf) = currentTerm rf"
  "votedFor (deferred_persist c rf) = votedFor rf"
  "log (deferred_persist c rf) = log rf"
  "lastSnapshotIndex (deferred_persist c rf) = lastSnapshotIndex rf"
  "commitIndex (deferred_persist c rf) = commitIndex rf"
  "lastApplied (deferred_persist c rf) = lastApplied rf"
  "nextIndex (deferred_persist c rf) = nextIndex rf"
  "matchIndex (deferred_persist c rf) = matchIndex rf"
  "state (deferred_persist c rf) = state rf"
  "applyCh (deferred_persist c rf) = applyCh rf"
  "voteCount (deferred_persist c rf) = voteCount rf"
  "snapshotBuffer (deferred_persist c rf) = snapshotBuffer rf"
  "bufferWriteDone (deferred_persist c rf) = bufferWriteDone rf"
  "ticker_pc (deferred_persist c rf) = ticker_pc rf"
  "apply_pc (deferred_persist c rf) = apply_pc rf"
  by (simp_all add: deferred_persist_def)

lemma deferred_persist_buffer_fields [simp]:
  "peers (deferred_persist_buffer c rf) = peers rf"
  "me (deferred_persist_buffer c rf) = me rf"
  "dead (deferred_persist_buffer c rf) = dead rf"
  "currentTerm (deferred_persist_buffer c rf) = currentTerm rf"
  "votedFor (deferred_persist_buffer c rf) = votedFor rf"
  "log (deferred_persist_buffer c rf) = log rf"
  "lastSnapshotIndex (deferred_persist_buffer c rf) = lastSnapshotIndex rf"
  "commitIndex (deferred_persist_buffer c rf) = commitIndex rf"
  "lastApplied (deferred_persist_buffer c rf) = lastApplied rf"
  "nextIndex (deferred_persist_buffer c rf) = nextIndex rf"
  "matchIndex (deferred_persist_buffer c rf) = matchIndex rf"
  "state (deferred_persist_buffer c rf) = state rf"
  "applyCh (deferred_persist_buffer c rf) = applyCh rf"
  "voteCount (deferred_persist_buffer c rf) = voteCount rf"
  "snapshotBuffer (deferred_persist_buffer c rf) = snapshotBuffer rf"
  "bufferWriteDone (deferred_persist_buffer c rf) = bufferWriteDone rf"
  "ticker_pc (deferred_persist_buffer c rf) = ticker_pc rf"
  "apply_pc (deferred_persist_buffer c rf) = apply_pc rf"
  by (simp_all add: deferred_persist_buffer_def)

text \<open>A follower waits for three heartbeats at least before it stands for election.\<close>

lemma electionTimeout_range: "3 * heartbeatTimeout \<le> electionTimeout r" "electionTimeout r < 5 * heartbeatTimeout"
proof -
  have "r mod 200 < 200" by simp
  then show "3 * heartbeatTimeout \<le> electionTimeout r" "electionTimeout r < 5 * heartbeatTimeout"
    by (simp_all add: electionTimeout_def heartbeatTimeout_def)
qed

section \<open>The invariant of a peer\<close>

text \<open>The persister holds the current term, vote, log and snapshot index (nothing before the first
  \<open>persist\<close>, when they still are the initial ones).\<close>

definition persisted_ok :: "('c, 'b) Raft \<Rightarrow> bool" where
  "persisted_ok rf \<longleftrightarrow>
     raftstate (persister rf) = [] \<and> currentTerm rf = 0 \<and> votedFor rf = - 1 \<and>
       log rf = [nilEntry 0] \<and> lastSnapshotIndex rf = 0 \<or>
     raftstate (persister rf) = [GobInt (currentTerm rf), GobInt (votedFor rf), GobLog (log rf),
       GobInt (lastSnapshotIndex rf)]"

text \<open>The peer is the leader, or its ticker has received the signal that it won.\<close>

definition elected :: "('c, 'b) Raft \<Rightarrow> bool" where
  "elected rf \<longleftrightarrow> state rf = Leader \<or> state rf = Candidate \<and> ticker_pc rf = TLeader"

definition wf_raft :: "('c, 'b) Raft \<Rightarrow> bool" where
  "wf_raft rf \<longleftrightarrow>
     log rf \<noteq> [] \<and> 0 \<le> lastSnapshotIndex rf \<and> 0 \<le> me rf \<and>
     length (nextIndex rf) = peers rf \<and> length (matchIndex rf) = peers rf \<and>
     persisted_ok rf \<and>
     (state rf \<noteq> Follower \<longrightarrow> votedFor rf = me rf) \<and>
     (elected rf \<longrightarrow> voteCount rf > int (peers rf div 2)) \<and>
     (apply_pc rf = AWaiting \<longrightarrow> commitIndex rf \<le> lastApplied rf \<and> \<not> bufferWriteDone rf)"

text \<open>How terms and votes change: a vote is withdrawn only by moving to a later term.\<close>

definition vote_le :: "('c, 'b) Raft \<Rightarrow> ('c, 'b) Raft \<Rightarrow> bool" where
  "vote_le rf rf' \<longleftrightarrow> me rf' = me rf \<and> peers rf' = peers rf \<and>
     (currentTerm rf < currentTerm rf' \<or>
      currentTerm rf' = currentTerm rf \<and> (votedFor rf' = votedFor rf \<or> votedFor rf = - 1))"

text \<open>The peer does not become a candidate or the leader, and counts no vote.\<close>

definition no_campaign :: "('c, 'b) Raft \<Rightarrow> ('c, 'b) Raft \<Rightarrow> bool" where
  "no_campaign rf rf' \<longleftrightarrow>
     state rf' = Follower \<or>
     state rf' = state rf \<and> currentTerm rf' = currentTerm rf \<and> voteCount rf' = voteCount rf \<and>
       (ticker_pc rf' = TLeader \<longrightarrow> ticker_pc rf = TLeader)"

lemma vote_le_refl [simp, intro]: "vote_le rf rf"
  by (simp add: vote_le_def)

lemma vote_le_trans: "vote_le rf rf' \<Longrightarrow> vote_le rf' rf'' \<Longrightarrow> vote_le rf rf''"
  unfolding vote_le_def by linarith

lemma no_campaign_refl [simp, intro]: "no_campaign rf rf"
  by (simp add: no_campaign_def)

lemma no_campaign_elected: "no_campaign rf rf' \<Longrightarrow> elected rf' \<Longrightarrow> elected rf \<and> voteCount rf' = voteCount rf"
  by (auto simp: no_campaign_def elected_def)

lemma persisted_ok_persist [simp]: "persisted_ok (persist snap rf)"
  by (simp add: persisted_ok_def)

lemma persisted_ok_Signal [simp]: "persisted_ok (Signal rf) = persisted_ok rf"
  by (simp add: persisted_ok_def)

lemma persisted_ok_send [simp]: "persisted_ok (sendToChannel ch rf) = persisted_ok rf"
  by (simp add: persisted_ok_def)

lemma persisted_ok_deferred [simp]: "persisted_ok (deferred_persist c rf) \<longleftrightarrow> c \<or> persisted_ok rf"
  by (simp add: deferred_persist_def)

lemma persisted_ok_deferred_buffer [simp]:
  "persisted_ok (deferred_persist_buffer c rf) \<longleftrightarrow> c \<or> persisted_ok rf"
  by (simp add: deferred_persist_buffer_def)

lemma persisted_ok_buffer [simp]: "persisted_ok (rf\<lparr>snapshotBuffer := b\<rparr>) = persisted_ok rf"
  by (simp add: persisted_ok_def)

lemma send_pc: "ticker_pc (sendToChannel ch rf) = TLeader \<Longrightarrow> ticker_pc rf = TLeader \<or> ch = WinElectCh"
  by (auto simp: sendToChannel_def split: ticker_pc.splits option.splits elim: select_case.elims)

lemma convertToFollower_pc:
  "ticker_pc (convertToFollower t rf) = TLeader \<Longrightarrow> ticker_pc rf = TLeader"
  using send_pc [of ConvertCh "rf\<lparr>state := Follower, currentTerm := t, votedFor := - 1, voteCount := 0\<rparr>"]
  by (auto simp: convertToFollower_def Let_def split: if_splits)

lemma Signal_pc [simp]: "apply_pc (Signal rf) \<noteq> AWaiting"
  by (simp add: Signal_def)

section \<open>Restarting from the persisted state\<close>

lemma decode_state_persisted:
  "decode_state [GobInt t, GobInt v, GobLog lg, GobInt li] = Some (t, v, lg, li)"
  by (simp add: decode_state_def)

lemma Make_fields:
  assumes "persisted_ok rf" and "log rf \<noteq> []" and "raftstate ps = raftstate (persister rf)"
  shows "currentTerm (Make n self ps) = currentTerm rf" "votedFor (Make n self ps) = votedFor rf"
    "log (Make n self ps) = log rf" "lastSnapshotIndex (Make n self ps) = lastSnapshotIndex rf"
    "commitIndex (Make n self ps) = lastSnapshotIndex rf" "lastApplied (Make n self ps) = lastSnapshotIndex rf"
    "state (Make n self ps) = Follower" "voteCount (Make n self ps) = 0" "me (Make n self ps) = self"
    "peers (Make n self ps) = n" "persister (Make n self ps) = ps" "ticker_pc (Make n self ps) = TLoop"
    "apply_pc (Make n self ps) = ALoop" "length (nextIndex (Make n self ps)) = n"
    "length (matchIndex (Make n self ps)) = n"
  using assms
  by (auto simp: Make_def readPersist_def persisted_ok_def ReadRaftState_def decode_state_persisted Let_def)

lemma Make_fresh:
  "persisted_ok (Make n self MakePersister)" "log (Make n self MakePersister) = [nilEntry 0]"
  "lastSnapshotIndex (Make n self MakePersister) = 0" "state (Make n self MakePersister) = Follower"
  "currentTerm (Make n self MakePersister) = 0" "votedFor (Make n self MakePersister) = - 1"
  "me (Make n self MakePersister) = self" "peers (Make n self MakePersister) = n"
  "ticker_pc (Make n self MakePersister) = TLoop" "apply_pc (Make n self MakePersister) = ALoop"
  "length (nextIndex (Make n self MakePersister)) = n" "length (matchIndex (Make n self MakePersister)) = n"
  by (simp_all add: Make_def readPersist_def persisted_ok_def ReadRaftState_def MakePersister_def Let_def)

lemma wf_raft_fresh: "0 \<le> self \<Longrightarrow> wf_raft (Make n self MakePersister)"
  by (simp add: wf_raft_def Make_fresh elected_def)

lemma wf_raft_restart:
  assumes "wf_raft rf" and "0 \<le> self"
  shows "wf_raft (Make n self (Persister_Copy (persister rf)))"
proof -
  have p: "persisted_ok rf" and l: "log rf \<noteq> []" using assms by (simp_all add: wf_raft_def)
  note f = Make_fields [OF p l, of "Persister_Copy (persister rf)" n self, simplified]
  show ?thesis using assms(1,2) p by (simp add: wf_raft_def f elected_def persisted_ok_def)
qed

section \<open>The handlers, branch by branch\<close>

text \<open>What every handler does first with a request of term \<open>t\<close> that is not out of date.\<close>

definition step_down :: "int \<Rightarrow> ('c, 'b) Raft \<Rightarrow> ('c, 'b) Raft" where
  "step_down t rf = (if t > currentTerm rf then convertToFollower t rf else rf)"

lemma step_down_fields [simp]:
  "peers (step_down t rf) = peers rf" "persister (step_down t rf) = persister rf"
  "me (step_down t rf) = me rf" "dead (step_down t rf) = dead rf"
  "currentTerm (step_down t rf) = max t (currentTerm rf)"
  "votedFor (step_down t rf) = (if t > currentTerm rf then - 1 else votedFor rf)"
  "log (step_down t rf) = log rf" "lastSnapshotIndex (step_down t rf) = lastSnapshotIndex rf"
  "commitIndex (step_down t rf) = commitIndex rf" "lastApplied (step_down t rf) = lastApplied rf"
  "nextIndex (step_down t rf) = nextIndex rf" "matchIndex (step_down t rf) = matchIndex rf"
  "state (step_down t rf) = (if t > currentTerm rf then Follower else state rf)"
  "applyCh (step_down t rf) = applyCh rf"
  "voteCount (step_down t rf) = (if t > currentTerm rf then 0 else voteCount rf)"
  "snapshotBuffer (step_down t rf) = snapshotBuffer rf"
  "bufferWriteDone (step_down t rf) = bufferWriteDone rf"
  "apply_pc (step_down t rf) = apply_pc rf"
  by (auto simp: step_down_def)

lemma step_down_pc: "ticker_pc (step_down t rf) = TLeader \<Longrightarrow> ticker_pc rf = TLeader"
  by (auto simp: step_down_def dest: convertToFollower_pc split: if_splits)

lemma GetLastIndex_cong:
  "log rf = log rf' \<Longrightarrow> lastSnapshotIndex rf = lastSnapshotIndex rf' \<Longrightarrow> GetLastIndex rf = GetLastIndex rf'"
  by (simp add: GetLastIndex_def)

lemma GetLastTerm_ok: "log rf \<noteq> [] \<Longrightarrow> GetLastTerm rf = Inr (Term (last (log rf)))"
  by (simp add: GetLastTerm_def go_nth_def last_conv_nth nat_diff_distrib Suc_leI)

text \<open>\<open>isLogUpToDate\<close> is the lexicographic comparison of the last terms and indices.\<close>

definition up_to_date :: "int \<Rightarrow> int \<Rightarrow> ('c, 'b) Raft \<Rightarrow> bool" where
  "up_to_date li lt rf \<longleftrightarrow>
     lt > Term (last (log rf)) \<or> lt = Term (last (log rf)) \<and> li \<ge> GetLastIndex rf"

lemma isLogUpToDate_ok:
  "log rf \<noteq> [] \<Longrightarrow> isLogUpToDate li lt rf = Inr (up_to_date li lt rf)"
  by (auto simp: isLogUpToDate_def GetLastTerm_ok up_to_date_def)

lemma up_to_date_cong [simp]: "up_to_date li lt (step_down t rf) = up_to_date li lt rf"
  by (simp add: up_to_date_def GetLastIndex_def)

definition grants :: "RequestVoteArgs \<Rightarrow> ('c, 'b) Raft \<Rightarrow> bool" where
  "grants args rf \<longleftrightarrow> rva_Term args \<ge> currentTerm rf \<and>
     (rva_Term args > currentTerm rf \<or> votedFor rf = - 1 \<or> votedFor rf = CandidateId args) \<and>
     up_to_date (LastLogIndex args) (LastLogTerm args) rf"

lemma RequestVote_eq:
  assumes "log rf \<noteq> []"
  shows "RequestVote args rf =
    (if rva_Term args < currentTerm rf
     then Inr (\<lparr>rvr_Term = currentTerm rf, VoteGranted = False\<rparr>, rf)
     else if grants args rf
     then Inr (\<lparr>rvr_Term = rva_Term args, VoteGranted = True\<rparr>,
               persist None (sendToChannel HeartbeatCh
                 ((step_down (rva_Term args) rf)\<lparr>votedFor := CandidateId args\<rparr>)))
     else Inr (\<lparr>rvr_Term = rva_Term args, VoteGranted = False\<rparr>,
               deferred_persist (rva_Term args > currentTerm rf) (step_down (rva_Term args) rf)))"
proof -
  have sd: "(if rva_Term args > currentTerm rf then (convertToFollower (rva_Term args) rf, True) else (rf, False)) =
            (step_down (rva_Term args) rf, rva_Term args > currentTerm rf)"
    by (simp add: step_down_def)
  have lg: "log (step_down (rva_Term args) rf) \<noteq> []" using assms by simp
  show ?thesis
    unfolding RequestVote_def sd
    using isLogUpToDate_ok [OF lg, of "LastLogIndex args" "LastLogTerm args"]
    by (auto simp: grants_def Let_def deferred_persist_def max_def)
qed

lemma AppendEntries_reject_ok:
  assumes "log rf \<noteq> []"
  obtains rej where "AppendEntries_reject args rf = Inr rej"
proof (cases "PrevLogIndex args > GetLastIndex rf \<or> PrevLogIndex args < lastSnapshotIndex rf")
  case True
  then show thesis
    using that by (cases "PrevLogIndex args > GetLastIndex rf") (auto simp: AppendEntries_reject_def ToLogIndex_def)
next
  case False
  then have "0 \<le> ToLogIndex (PrevLogIndex args) rf" "ToLogIndex (PrevLogIndex args) rf < go_len (log rf)"
    by (auto simp: ToLogIndex_def GetLastIndex_def)
  then have "\<exists>rej. AppendEntries_reject args rf = Inr rej"
    using False by (simp add: AppendEntries_reject_def Let_def)
  then show thesis using that by blast
qed

text \<open>The log after a successful \<open>AppendEntries\<close>, the index it commits and the new state.\<close>

definition merge_log :: "'c AppendEntryArgs \<Rightarrow> ('c, 'b) Raft \<Rightarrow> 'c logEntry list" where
  "merge_log args rf =
     (let (i, j) = match_loop (log rf) (Entries args) (nat (PrevLogIndex args - lastSnapshotIndex rf) + 1) 0
      in take i (log rf) @ drop j (Entries args))"

definition merge_changed :: "'c AppendEntryArgs \<Rightarrow> ('c, 'b) Raft \<Rightarrow> bool" where
  "merge_changed args rf =
     (let (i, j) = match_loop (log rf) (Entries args) (nat (PrevLogIndex args - lastSnapshotIndex rf) + 1) 0
      in i < length (log rf) \<or> j < length (Entries args))"

definition accept_state :: "'c AppendEntryArgs \<Rightarrow> ('c, 'b) Raft \<Rightarrow> ('c, 'b) Raft" where
  "accept_state args rf =
     (let rf' = rf\<lparr>log := merge_log args rf\<rparr>
      in if LeaderCommit args > commitIndex rf
         then Signal (rf'\<lparr>commitIndex := min (LeaderCommit args) (GetLastIndex rf')\<rparr>) else rf')"

lemma AppendEntries_reject_None:
  assumes "AppendEntries_reject args rf = Inr None"
  shows "lastSnapshotIndex rf \<le> PrevLogIndex args" "PrevLogIndex args \<le> GetLastIndex rf"
    "Term (log rf ! nat (PrevLogIndex args - lastSnapshotIndex rf)) = PrevLogTerm args"
    "nat (PrevLogIndex args - lastSnapshotIndex rf) < length (log rf)"
  using assms
  by (auto simp: AppendEntries_reject_def ToLogIndex_def Let_def go_bind_eq_Inr_iff go_nth_eq_Inr_iff
      split: if_splits)

lemma AppendEntries_eq:
  fixes args :: "'c AppendEntryArgs" and rf :: "('c, 'b) Raft"
  assumes "aea_Term args \<ge> currentTerm rf"
  defines "rf1 \<equiv> sendToChannel HeartbeatCh (step_down (aea_Term args) rf)"
  shows "AppendEntries args rf =
    go_bind (AppendEntries_reject args rf1) (\<lambda>rej.
      case rej of
        Some (xi, xt) \<Rightarrow>
          Inr (\<lparr>aer_Term = aea_Term args, XIndex = xi, XTerm = xt, Success = False\<rparr>,
               deferred_persist (aea_Term args > currentTerm rf) rf1)
      | None \<Rightarrow>
          Inr (\<lparr>aer_Term = aea_Term args, XIndex = lastSnapshotIndex rf + go_len (merge_log args rf1),
                XTerm = - 1, Success = True\<rparr>,
               deferred_persist (aea_Term args > currentTerm rf \<or> merge_changed args rf1)
                 (accept_state args rf1)))"
proof -
  have sd: "(if aea_Term args > currentTerm rf then (convertToFollower (aea_Term args) rf, True) else (rf, False)) =
            (step_down (aea_Term args) rf, aea_Term args > currentTerm rf)"
    by (simp add: step_down_def)
  have nlt: "\<not> aea_Term args < currentTerm rf" using assms by simp
  note ae = AppendEntries_def [of args rf, unfolded sd] and mx = max.absorb1 [OF assms(1)]
  show ?thesis
  proof (cases "AppendEntries_reject args rf1 = Inr None")
    case True
    note n = AppendEntries_reject_None [OF True]
    obtain i j where ij: "match_loop (log rf1) (Entries args)
        (nat (PrevLogIndex args - lastSnapshotIndex rf1) + 1) 0 = (i, j)" by fastforce
    have "nat (ToLogIndex (PrevLogIndex args) rf1) = nat (PrevLogIndex args - lastSnapshotIndex rf1)"
      using n(1) by (simp add: ToLogIndex_def)
    then show ?thesis
      using True ij nlt unfolding ae rf1_def
      by (simp add: Let_def merge_log_def merge_changed_def accept_state_def ToOriginalIndex_def mx)
  next
    case False
    then show ?thesis
      using nlt unfolding ae
      by (cases "AppendEntries_reject args rf1") (auto simp: Let_def rf1_def mx split: option.splits)
  qed
qed

section \<open>The log after \<open>AppendEntries\<close>\<close>

lemma match_loop_spec:
  assumes "match_loop lg es i j = (i', j')" and "i \<le> length lg" and "j \<le> length es"
  shows "\<exists>k. i' = i + k \<and> j' = j + k \<and> i' \<le> length lg \<and> j' \<le> length es \<and>
    map Term (take k (drop i lg)) = map Term (take k (drop j es)) \<and>
    (i' = length lg \<or> j' = length es \<or> Term (lg ! i') \<noteq> Term (es ! j'))"
  using assms
proof (induction lg es i j rule: match_loop.induct)
  case (1 lg es i j)
  show ?case
  proof (cases "i < length lg \<and> j < length es \<and> Term (lg ! i) = Term (es ! j)")
    case True
    then obtain k where k: "i' = i + 1 + k" "j' = j + 1 + k" "i' \<le> length lg" "j' \<le> length es"
      "map Term (take k (drop (i + 1) lg)) = map Term (take k (drop (j + 1) es))"
      "i' = length lg \<or> j' = length es \<or> Term (lg ! i') \<noteq> Term (es ! j')"
      using 1 by (auto simp: match_loop.simps [of lg es i j])
    have "take (Suc k) (drop i lg) = lg ! i # take k (drop (i + 1) lg)"
      "take (Suc k) (drop j es) = es ! j # take k (drop (j + 1) es)"
      using True by (simp_all add: Cons_nth_drop_Suc [symmetric])
    with k True show ?thesis by (intro exI [of _ "Suc k"]) simp
  next
    case False
    then show ?thesis
      using 1(2-4) by (intro exI [of _ 0]) (auto simp: match_loop.simps [of lg es i j] split: if_splits)
  qed
qed

text \<open>The log after a successful \<open>AppendEntries\<close>: the old one up to and with \<open>PrevLogIndex\<close>, then as
  many entries as the request has, with the terms of the request, of which the first \<open>k\<close> were
  there already and the others are the request's.\<close>

lemma merge_log_spec:
  assumes "AppendEntries_reject args rf = Inr None"
  defines "p \<equiv> nat (PrevLogIndex args - lastSnapshotIndex rf) + 1"
  shows "\<exists>k \<le> length (Entries args). p + k \<le> length (log rf) \<and>
    merge_log args rf = take (p + k) (log rf) @ drop k (Entries args) \<and>
    map Term (take k (drop p (log rf))) = map Term (take k (Entries args)) \<and>
    (p + k < length (log rf) \<longrightarrow> k < length (Entries args) \<longrightarrow> Term (log rf ! (p + k)) \<noteq> Term (Entries args ! k))"
proof -
  obtain i j where ij: "match_loop (log rf) (Entries args) p 0 = (i, j)" by fastforce
  have "p \<le> length (log rf)" using AppendEntries_reject_None(4) [OF assms(1)] by (simp add: p_def)
  from match_loop_spec [OF ij this] obtain k where
    "i = p + k" "j = k" "i \<le> length (log rf)" "j \<le> length (Entries args)"
    "map Term (take k (drop p (log rf))) = map Term (take k (Entries args))"
    "i = length (log rf) \<or> j = length (Entries args) \<or> Term (log rf ! i) \<noteq> Term (Entries args ! j)"
    by auto
  with ij show ?thesis by (intro exI [of _ k]) (auto simp: merge_log_def p_def)
qed

lemma merge_log_terms:
  assumes "AppendEntries_reject args rf = Inr None"
  defines "p \<equiv> nat (PrevLogIndex args - lastSnapshotIndex rf) + 1"
  shows "map Term (merge_log args rf) = map Term (take p (log rf)) @ map Term (Entries args)"
    and "take p (merge_log args rf) = take p (log rf)"
    and "length (merge_log args rf) = p + length (Entries args)"
proof -
  obtain k where k: "k \<le> length (Entries args)" "p + k \<le> length (log rf)"
    "merge_log args rf = take (p + k) (log rf) @ drop k (Entries args)"
    "map Term (take k (drop p (log rf))) = map Term (take k (Entries args))"
    using merge_log_spec [OF assms(1)] by (auto simp: p_def)
  have "map Term (merge_log args rf) =
      map Term (take p (log rf)) @ map Term (take k (drop p (log rf))) @ map Term (drop k (Entries args))"
    by (simp add: k(3) take_add)
  also have "\<dots> = map Term (take p (log rf)) @ map Term (Entries args)"
    by (simp add: k(4) flip: map_append)
  finally show "map Term (merge_log args rf) = map Term (take p (log rf)) @ map Term (Entries args)" .
  show "take p (merge_log args rf) = take p (log rf)" using k(2) by (simp add: k(3))
  show "length (merge_log args rf) = p + length (Entries args)" using k(1,2) by (simp add: k(3))
qed

lemma merge_log_nonempty: "AppendEntries_reject args rf = Inr None \<Longrightarrow> merge_log args rf \<noteq> []"
  using merge_log_terms(3) [of args rf] by auto

lemma AppendEntries_success:
  assumes "AppendEntries args rf = Inr (reply, rf')" and "Success reply"
  obtains rf1 where "rf1 = sendToChannel HeartbeatCh (step_down (aea_Term args) rf)"
    "currentTerm rf \<le> aea_Term args" "AppendEntries_reject args rf1 = Inr None"
    "reply = \<lparr>aer_Term = aea_Term args, XIndex = lastSnapshotIndex rf + go_len (merge_log args rf1),
              XTerm = - 1, Success = True\<rparr>"
    "rf' = deferred_persist (aea_Term args > currentTerm rf \<or> merge_changed args rf1) (accept_state args rf1)"
proof -
  have le: "currentTerm rf \<le> aea_Term args"
    using assms by (auto simp: AppendEntries_def split: if_splits)
  show thesis
    using that [OF refl le] assms unfolding AppendEntries_eq [OF le]
    by (auto simp: go_bind_eq_Inr_iff split: option.splits) (metis option.exhaust surj_pair)
qed

lemma accept_state_fields [simp]:
  "log (accept_state args rf) = merge_log args rf"
  "lastSnapshotIndex (accept_state args rf) = lastSnapshotIndex rf"
  "currentTerm (accept_state args rf) = currentTerm rf" "votedFor (accept_state args rf) = votedFor rf"
  "state (accept_state args rf) = state rf" "voteCount (accept_state args rf) = voteCount rf"
  "me (accept_state args rf) = me rf" "peers (accept_state args rf) = peers rf"
  "nextIndex (accept_state args rf) = nextIndex rf" "matchIndex (accept_state args rf) = matchIndex rf"
  "persister (accept_state args rf) = persister rf" "ticker_pc (accept_state args rf) = ticker_pc rf"
  "lastApplied (accept_state args rf) = lastApplied rf" "bufferWriteDone (accept_state args rf) = bufferWriteDone rf"
  by (simp_all add: accept_state_def Let_def Signal_def)

lemma accept_state_commit:
  "commitIndex (accept_state args rf) =
     (if LeaderCommit args > commitIndex rf
      then min (LeaderCommit args) (lastSnapshotIndex rf + go_len (merge_log args rf) - 1) else commitIndex rf)"
  by (simp add: accept_state_def Let_def GetLastIndex_def)

lemma accept_state_waiting:
  "apply_pc (accept_state args rf) = AWaiting \<Longrightarrow>
   apply_pc rf = AWaiting \<and> commitIndex (accept_state args rf) = commitIndex rf"
  by (auto simp: accept_state_def Let_def split: if_splits)

lemma merge_unchanged:
  assumes "AppendEntries_reject args rf = Inr None" and "\<not> merge_changed args rf"
  shows "merge_log args rf = log rf"
  using assms(2) by (auto simp: merge_log_def merge_changed_def Let_def split: prod.splits)

section \<open>Every operation keeps the invariant\<close>

text \<open>What it takes to keep \<open>wf_raft\<close> without becoming a candidate or the leader.\<close>

lemma wf_raft_keep:
  assumes "wf_raft rf" and "no_campaign rf rf'" and "log rf' \<noteq> []" and "0 \<le> lastSnapshotIndex rf'"
    and "me rf' = me rf" "peers rf' = peers rf" and "persisted_ok rf'"
    and "length (nextIndex rf') = length (nextIndex rf)" "length (matchIndex rf') = length (matchIndex rf)"
    and "state rf' = Follower \<or> votedFor rf' = votedFor rf"
    and "apply_pc rf' = AWaiting \<Longrightarrow> commitIndex rf' \<le> lastApplied rf' \<and> \<not> bufferWriteDone rf'"
  shows "wf_raft rf'"
proof -
  have "state rf' \<noteq> Follower \<longrightarrow> votedFor rf' = me rf'"
    using assms(1,2,5,10) by (auto simp: wf_raft_def no_campaign_def)
  moreover have "elected rf' \<longrightarrow> voteCount rf' > int (peers rf' div 2)"
    using assms(1,6) no_campaign_elected [OF assms(2)] by (auto simp: wf_raft_def)
  ultimately show ?thesis using assms by (simp add: wf_raft_def)
qed

lemma no_campaign_step_down: "no_campaign rf (step_down t rf)"
  using step_down_pc [of t rf] by (auto simp: no_campaign_def)

lemma no_campaign_send:
  "no_campaign rf rf' \<Longrightarrow> ch \<noteq> WinElectCh \<Longrightarrow> no_campaign rf (sendToChannel ch rf')"
  using send_pc [of ch rf'] by (auto simp: no_campaign_def)

lemma no_campaign_cong:
  "state rf'' = state rf' \<Longrightarrow> currentTerm rf'' = currentTerm rf' \<Longrightarrow> voteCount rf'' = voteCount rf' \<Longrightarrow>
   ticker_pc rf'' = ticker_pc rf' \<Longrightarrow> no_campaign rf rf'' = no_campaign rf rf'"
  by (simp add: no_campaign_def)

lemma wf_raftD:
  assumes "wf_raft rf"
  shows "log rf \<noteq> []" "0 \<le> lastSnapshotIndex rf" "0 \<le> me rf" "persisted_ok rf"
    "state rf \<noteq> Follower \<Longrightarrow> votedFor rf = me rf"
    "length (nextIndex rf) = peers rf" "length (matchIndex rf) = peers rf"
    "apply_pc rf = AWaiting \<Longrightarrow> commitIndex rf \<le> lastApplied rf \<and> \<not> bufferWriteDone rf"
    "elected rf \<Longrightarrow> voteCount rf > int (peers rf div 2)"
  using assms by (auto simp: wf_raft_def)

lemma persisted_ok_cong:
  "persister rf' = persister rf \<Longrightarrow> currentTerm rf' = currentTerm rf \<Longrightarrow> votedFor rf' = votedFor rf \<Longrightarrow>
   log rf' = log rf \<Longrightarrow> lastSnapshotIndex rf' = lastSnapshotIndex rf \<Longrightarrow> persisted_ok rf' = persisted_ok rf"
  by (simp add: persisted_ok_def)

lemma persisted_ok_step_down:
  "persisted_ok rf \<Longrightarrow> \<not> currentTerm rf < t \<Longrightarrow> persisted_ok (step_down t rf)"
  by (simp add: step_down_def)

lemma RequestVote_keeps:
  assumes "wf_raft rf" and "RequestVote args rf = Inr (reply, rf')"
  shows "wf_raft rf' \<and> vote_le rf rf' \<and> no_campaign rf rf'"
proof -
  note wf = wf_raftD [OF assms(1)]
  have fol: "state rf = Follower \<or> votedFor rf = me rf" using wf(5) by blast
  let ?sd = "step_down (rva_Term args) rf"
  consider "rf' = rf"
    | "grants args rf" "rf' = persist None (sendToChannel HeartbeatCh (?sd\<lparr>votedFor := CandidateId args\<rparr>))"
    | "\<not> rva_Term args < currentTerm rf" "rf' = deferred_persist (rva_Term args > currentTerm rf) ?sd"
  proof (cases "rva_Term args < currentTerm rf")
    case True
    then show thesis using assms(2) that(1) unfolding RequestVote_eq [OF wf(1)] by simp
  next
    case False
    then show thesis
      using assms(2) that(2,3) unfolding RequestVote_eq [OF wf(1)] by (cases "grants args rf") simp_all
  qed
  then show ?thesis
  proof cases
    case 2
    have nc: "no_campaign rf (sendToChannel HeartbeatCh (?sd\<lparr>votedFor := CandidateId args\<rparr>))"
      by (rule no_campaign_send) (use no_campaign_step_down [of rf "rva_Term args"] in \<open>simp_all add: no_campaign_def\<close>)
    then have nc': "no_campaign rf rf'" by (simp add: 2(2) no_campaign_def)
    have "vote_le rf rf'" using 2(1) by (auto simp: 2(2) vote_le_def grants_def)
    moreover have "wf_raft rf'"
      by (rule wf_raft_keep [OF assms(1) nc'])
        (use 2(1) wf(1,2,3,8) fol in \<open>auto simp: 2(2) grants_def\<close>)
    ultimately show ?thesis using nc' by blast
  next
    case 3
    have nc: "no_campaign rf rf'"
      using no_campaign_step_down [of rf "rva_Term args"] by (simp add: 3(2) no_campaign_def)
    moreover have "vote_le rf rf'" using 3(1) by (auto simp: 3(2) vote_le_def)
    moreover have "persisted_ok rf'"
      using wf(4) persisted_ok_step_down [of rf "rva_Term args"]
      by (cases "currentTerm rf < rva_Term args") (simp_all add: 3)
    moreover have "wf_raft rf'"
      by (rule wf_raft_keep [OF assms(1) nc _ _ _ _ \<open>persisted_ok rf'\<close>])
        (use 3(1) wf(1,2,8) in \<open>auto simp: 3(2)\<close>)
    ultimately show ?thesis by blast
  qed (use assms in auto)
qed

lemma AppendEntries_keeps:
  assumes "wf_raft rf" and "AppendEntries args rf = Inr (reply, rf')"
  shows "wf_raft rf' \<and> vote_le rf rf' \<and> no_campaign rf rf'"
proof (cases "aea_Term args < currentTerm rf")
  case True
  then show ?thesis using assms by (simp add: AppendEntries_def)
next
  case False
  note wf = wf_raftD [OF assms(1)]
  define rf1 where "rf1 = sendToChannel HeartbeatCh (step_down (aea_Term args) rf)"
  have nc1: "no_campaign rf rf1"
    unfolding rf1_def by (rule no_campaign_send [OF no_campaign_step_down]) simp
  have le: "currentTerm rf \<le> aea_Term args" using False by simp
  from assms(2) consider "rf' = deferred_persist (aea_Term args > currentTerm rf) rf1"
    | "AppendEntries_reject args rf1 = Inr None"
      "rf' = deferred_persist (aea_Term args > currentTerm rf \<or> merge_changed args rf1) (accept_state args rf1)"
    unfolding AppendEntries_eq [OF le] rf1_def [symmetric]
    by (auto simp: go_bind_eq_Inr_iff split: option.splits) (metis option.exhaust surj_pair)
  then show ?thesis
  proof cases
    case 1
    have nc: "no_campaign rf rf'" using nc1 by (simp add: 1 no_campaign_def)
    moreover have "vote_le rf rf'" using False by (auto simp: 1 vote_le_def rf1_def)
    moreover have "persisted_ok rf'"
      using wf(4) persisted_ok_step_down [of rf "aea_Term args"]
      by (cases "currentTerm rf < aea_Term args") (simp_all add: 1 rf1_def)
    moreover have "wf_raft rf'"
      by (rule wf_raft_keep [OF assms(1) nc _ _ _ _ \<open>persisted_ok rf'\<close>])
        (use False wf(1,2,8) in \<open>auto simp: 1 rf1_def\<close>)
    ultimately show ?thesis by blast
  next
    case 2
    have nc: "no_campaign rf rf'" using nc1 by (simp add: 2(2) no_campaign_def)
    moreover have "vote_le rf rf'" using False by (auto simp: 2(2) vote_le_def rf1_def)
    moreover have "persisted_ok rf'"
    proof (cases "aea_Term args > currentTerm rf \<or> merge_changed args rf1")
      case False
      then have "log (accept_state args rf1) = log rf1" using merge_unchanged [OF 2(1)] by simp
      with False show ?thesis
        using wf(4) persisted_ok_step_down [of rf "aea_Term args"]
          persisted_ok_cong [of "accept_state args rf1" rf1] by (simp add: 2(2) rf1_def)
    qed (simp add: 2(2))
    moreover have "wf_raft rf'"
      by (rule wf_raft_keep [OF assms(1) nc _ _ _ _ \<open>persisted_ok rf'\<close>])
        (use False wf merge_log_nonempty [OF 2(1)] accept_state_waiting [of args rf1] in
          \<open>auto simp: 2(2) rf1_def\<close>)
    ultimately show ?thesis by blast
  qed
qed

lemma clear_head_Inr:
  "clear_head lg = Inr lg' \<Longrightarrow> lg \<noteq> [] \<and> length lg' = length lg \<and> map Term lg' = map Term lg \<and> tl lg' = tl lg"
  by (cases lg) (auto simp: clear_head_def go_bind_eq_Inr_iff go_nth_eq_Inr_iff go_update_eq_Inr_iff)

lemma clear_head_ok: "lg \<noteq> [] \<Longrightarrow> clear_head lg = Inr (nilEntry (Term (hd lg)) # tl lg)"
  by (cases lg) (simp_all add: clear_head_def)

lemma install_log_nonempty: "install_log args rf = Inr lg \<Longrightarrow> lg \<noteq> []"
  using clear_head_Inr
  by (fastforce simp: install_log_def Let_def go_bind_eq_Inr_iff split: if_splits)

lemma install_log_ok:
  assumes "log rf \<noteq> []" and "lastSnapshotIndex rf \<le> LastIncludedIndex args"
  obtains lg where "install_log args rf = Inr lg"
proof -
  let ?i = "ToLogIndex (LastIncludedIndex args) rf"
  have i: "0 \<le> ?i" using assms(2) by (simp add: ToLogIndex_def)
  have "\<exists>lg. install_log args rf = Inr lg"
  proof (cases "?i < go_len (log rf)")
    case True
    then have "drop (nat ?i) (log rf) \<noteq> []" using i by simp
    then show ?thesis using i True by (simp add: install_log_def Let_def clear_head_ok)
  qed (simp add: install_log_def Let_def)
  then show thesis using that by blast
qed

lemma WriteSnapshot_bytes:
  fixes snap :: "'b list option"
  assumes "0 \<le> offset"
  defines "old \<equiv> (case snap of None \<Rightarrow> [] | Some s \<Rightarrow> s)"
  shows "\<exists>buf. WriteSnapshot snap data offset zero = Inr buf \<and>
    length buf = max (nat offset + length data) (length old) \<and>
    (\<forall>i < length buf. buf ! i =
       (if nat offset \<le> i \<and> i < nat offset + length data then data ! (i - nat offset)
        else if i < length old then old ! i else zero))"
proof -
  obtain k where k: "offset = int k" using assms(1) nonneg_int_cases by blast
  let ?n = "max (k + length data) (length old)"
  have n: "nat (max (int k + go_len data) (go_len old)) = ?n" by (auto simp: max_def nat_int_add)
  define new where "new = old @ replicate (?n - length old) zero"
  have len: "length new = ?n" by (simp add: new_def)
  have nth: "new ! i = (if i < length old then old ! i else zero)" if "i < ?n" for i
    using that by (auto simp: new_def nth_append)
  have cp: "go_copy (replicate ?n zero) old = new" by (simp add: go_copy_def new_def)
  let ?buf = "take k new @ data @ drop (k + length data) new"
  have "WriteSnapshot snap data (int k) zero = Inr ?buf"
    using len unfolding WriteSnapshot_def old_def [symmetric] Let_def n cp
    by (simp add: go_from_def go_copy_def add.commute)
  moreover have lb: "length ?buf = ?n" using len by auto
  moreover have "?buf ! i = (if k \<le> i \<and> i < k + length data then data ! (i - k) else new ! i)"
    if "i < ?n" for i
  proof -
    have "length (take k new) = k" using len by simp
    then show ?thesis using that len by (auto simp: nth_append)
  qed
  ultimately show ?thesis using nth by (intro exI [of _ ?buf]) (simp add: k)
qed

lemma WriteSnapshot_ok: "0 \<le> offset \<Longrightarrow> \<exists>buf. WriteSnapshot snap data offset zero = Inr buf"
  using WriteSnapshot_bytes [of offset snap data zero] by blast

text \<open>The state in which \<open>InstallSnapshot\<close> ends: nothing new, or the snapshot installed.\<close>

definition install_state :: "'b InstallSnapshotArgs \<Rightarrow> 'c logEntry list \<Rightarrow> ('c, 'b) Raft \<Rightarrow> ('c, 'b) Raft" where
  "install_state args lg rf = Signal (rf\<lparr>bufferWriteDone := True, log := lg,
     lastSnapshotIndex := LastIncludedIndex args,
     commitIndex := max (commitIndex rf) (LastIncludedIndex args)\<rparr>)"

lemma InstallSnapshot_cases:
  assumes "InstallSnapshot zero args rf = Inr (reply, rf')"
  obtains (stale) "rf' = rf" "isa_Term args < currentTerm rf \<or> LastIncludedIndex args < lastSnapshotIndex rf"
  | (partial) buf where "currentTerm rf \<le> isa_Term args" "lastSnapshotIndex rf \<le> LastIncludedIndex args"
      "rf' = deferred_persist_buffer (isa_Term args > currentTerm rf)
         ((sendToChannel HeartbeatCh (step_down (isa_Term args) rf))\<lparr>snapshotBuffer := Some buf\<rparr>)"
      "Done args \<Longrightarrow> LastIncludedIndex args = lastSnapshotIndex rf"
  | (install) buf lg where "currentTerm rf \<le> isa_Term args" "lastSnapshotIndex rf \<le> LastIncludedIndex args"
      "rf' = deferred_persist_buffer True (install_state args lg
         ((sendToChannel HeartbeatCh (step_down (isa_Term args) rf))\<lparr>snapshotBuffer := Some buf\<rparr>))"
      "log rf \<noteq> [] \<Longrightarrow> lg \<noteq> []"
      "LastIncludedIndex args = lastSnapshotIndex rf \<and> lg = log rf \<or>
       lastSnapshotIndex rf < LastIncludedIndex args \<and> install_log args rf = Inr lg"
proof (cases "isa_Term args < currentTerm rf \<or> LastIncludedIndex args < lastSnapshotIndex rf")
  case True
  then show thesis using assms stale by (simp add: InstallSnapshot_def)
next
  case False
  then have le: "currentTerm rf \<le> isa_Term args" "lastSnapshotIndex rf \<le> LastIncludedIndex args" by auto
  have sd: "(if isa_Term args > currentTerm rf then (convertToFollower (isa_Term args) rf, True) else (rf, False)) =
            (step_down (isa_Term args) rf, isa_Term args > currentTerm rf)"
    by (simp add: step_down_def)
  note eq = assms [unfolded InstallSnapshot_def sd Let_def, simplified False if_False prod.case]
  let ?rf = "sendToChannel HeartbeatCh (step_down (isa_Term args) rf)"
  obtain buf where buf: "WriteSnapshot (snapshotBuffer rf) (Data args) (Offset args) zero = Inr buf"
    using eq by (auto simp: go_bind_eq_Inr_iff)
  define rf2 where "rf2 = ?rf\<lparr>snapshotBuffer := Some buf\<rparr>"
  have rf2: "log rf2 = log rf" "lastSnapshotIndex rf2 = lastSnapshotIndex rf" by (simp_all add: rf2_def)
  note eq2 = eq [unfolded sendToChannel_fields step_down_fields buf go_bind_Inr, folded rf2_def]
  obtain skip where skip: "(if \<not> Done args then Inr True
      else if LastIncludedIndex args \<noteq> lastSnapshotIndex rf2 then Inr False
      else go_bind (go_nth (log rf2) 0) (\<lambda>e. Inr (Term e = LastIncludedTerm args))) = Inr skip"
    using eq2 by (auto simp only: go_bind_eq_Inr_iff)
  note eq3 = eq2 [unfolded skip go_bind_Inr]
  show thesis
  proof (cases skip)
    case True
    with eq3 skip show thesis by (intro partial [OF le, of buf]) (auto simp: rf2_def split: if_splits)
  next
    case False
    with eq3 obtain lg where
      lg: "(if LastIncludedIndex args > lastSnapshotIndex (rf2\<lparr>bufferWriteDone := True\<rparr>)
            then install_log args (rf2\<lparr>bufferWriteDone := True\<rparr>) else Inr (log (rf2\<lparr>bufferWriteDone := True\<rparr>))) = Inr lg"
      and "rf' = deferred_persist_buffer True (install_state args lg rf2)"
      by (auto simp: go_bind_eq_Inr_iff install_state_def)
    moreover have "log rf \<noteq> [] \<Longrightarrow> lg \<noteq> []"
      using lg rf2 install_log_nonempty [of args "rf2\<lparr>bufferWriteDone := True\<rparr>" lg] by (auto split: if_splits)
    moreover have "LastIncludedIndex args = lastSnapshotIndex rf \<and> lg = log rf \<or>
        lastSnapshotIndex rf < LastIncludedIndex args \<and> install_log args rf = Inr lg"
      using lg rf2 le(2) by (auto simp: install_log_def ToLogIndex_def Let_def split: if_splits)
    ultimately show thesis by (intro install [OF le]) (simp_all add: rf2_def)
  qed
qed

lemma install_state_fields [simp]:
  "log (install_state args lg rf) = lg" "lastSnapshotIndex (install_state args lg rf) = LastIncludedIndex args"
  "currentTerm (install_state args lg rf) = currentTerm rf" "votedFor (install_state args lg rf) = votedFor rf"
  "state (install_state args lg rf) = state rf" "voteCount (install_state args lg rf) = voteCount rf"
  "me (install_state args lg rf) = me rf" "peers (install_state args lg rf) = peers rf"
  "nextIndex (install_state args lg rf) = nextIndex rf" "matchIndex (install_state args lg rf) = matchIndex rf"
  "ticker_pc (install_state args lg rf) = ticker_pc rf" "apply_pc (install_state args lg rf) \<noteq> AWaiting"
  "commitIndex (install_state args lg rf) = max (commitIndex rf) (LastIncludedIndex args)"
  "snapshotBuffer (install_state args lg rf) = snapshotBuffer rf"
  "lastApplied (install_state args lg rf) = lastApplied rf" "bufferWriteDone (install_state args lg rf)"
  by (simp_all add: install_state_def)

lemma InstallSnapshot_keeps:
  assumes "wf_raft rf" and "InstallSnapshot zero args rf = Inr (reply, rf')"
  shows "wf_raft rf' \<and> vote_le rf rf' \<and> no_campaign rf rf'"
proof -
  note wf = wf_raftD [OF assms(1)]
  have nc1: "no_campaign rf (sendToChannel HeartbeatCh (step_down (isa_Term args) rf))"
    by (rule no_campaign_send [OF no_campaign_step_down]) simp
  show ?thesis
    using assms(2)
  proof (cases rule: InstallSnapshot_cases)
    case stale
    then show ?thesis using assms(1) by simp
  next
    case (partial buf)
    have nc: "no_campaign rf rf'" using nc1 by (simp add: partial(3) no_campaign_def)
    moreover have "vote_le rf rf'" using partial(1) by (auto simp: partial(3) vote_le_def)
    moreover have "persisted_ok rf'"
    proof (cases "currentTerm rf < isa_Term args")
      case False
      then have "persisted_ok (step_down (isa_Term args) rf)" using wf(4) by (simp add: step_down_def)
      then show ?thesis by (simp add: partial(3))
    qed (simp add: partial(3))
    moreover have "wf_raft rf'"
      by (rule wf_raft_keep [OF assms(1) nc _ _ _ _ \<open>persisted_ok rf'\<close>])
        (use partial(1) wf(1,2,8) in \<open>auto simp: partial(3)\<close>)
    ultimately show ?thesis by blast
  next
    case (install buf lg)
    have nc: "no_campaign rf rf'" using nc1 by (simp add: install(3) no_campaign_def)
    moreover have "vote_le rf rf'" using install(1) by (auto simp: install(3) vote_le_def)
    moreover have "wf_raft rf'"
      by (rule wf_raft_keep [OF assms(1) nc])
        (use install(1,2,4) wf(1,2) in \<open>auto simp: install(3)\<close>)
    ultimately show ?thesis by blast
  qed
qed

lemma sendRequestVote_cases:
  obtains (idle) "sendRequestVote outcomes args rf = rf"
  | (newer) t where "t > currentTerm rf" "sendRequestVote outcomes args rf = persist None (convertToFollower t rf)"
  | (vote) reply where "call_retry 5 outcomes = Some reply" "VoteGranted reply" "state rf = Candidate"
      "rva_Term args = currentTerm rf" "rvr_Term reply \<le> currentTerm rf"
      "\<not> voteCount rf + 1 > int (peers rf div 2)"
      "sendRequestVote outcomes args rf = rf\<lparr>voteCount := voteCount rf + 1\<rparr>"
  | (win) reply where "call_retry 5 outcomes = Some reply" "VoteGranted reply" "state rf = Candidate"
      "rva_Term args = currentTerm rf" "rvr_Term reply \<le> currentTerm rf"
      "voteCount rf + 1 > int (peers rf div 2)"
      "sendRequestVote outcomes args rf = sendToChannel WinElectCh (rf\<lparr>voteCount := voteCount rf + 1\<rparr>)"
proof (cases "call_retry 5 outcomes")
  case None
  then show thesis using idle by (simp add: sendRequestVote_def)
next
  case (Some reply)
  note eq = sendRequestVote_def [of outcomes args rf, unfolded Some option.case]
  show thesis
  proof (cases "state rf \<noteq> Candidate \<or> rva_Term args \<noteq> currentTerm rf")
    case False
    then have c: "state rf = Candidate" "rva_Term args = currentTerm rf" by auto
    note eq' = eq [unfolded c, simplified c simp_thms if_False]
    consider "rvr_Term reply > currentTerm rf" | "rvr_Term reply \<le> currentTerm rf" "\<not> VoteGranted reply"
      | "rvr_Term reply \<le> currentTerm rf" "VoteGranted reply" by linarith
    then show thesis
    proof cases
      case 1
      then show thesis using eq' newer [of "rvr_Term reply"] by simp
    next
      case 2
      then show thesis using eq' idle by simp
    next
      case 3
      show thesis
      proof (cases "voteCount rf + 1 > int (peers rf div 2)")
        case True
        then show thesis using eq' 3 win [OF Some 3(2) c 3(1)] by (simp add: Let_def)
      next
        case False
        then show thesis using eq' 3 vote [OF Some 3(2) c 3(1)] by (simp add: Let_def)
      qed
    qed
  qed (use eq idle in simp)
qed

lemma convertToFollower_keeps:
  assumes "wf_raft rf" and "t > currentTerm rf" and "rf' = persist None (convertToFollower t rf)"
  shows "wf_raft rf' \<and> vote_le rf rf' \<and> no_campaign rf rf'"
proof -
  have nc: "no_campaign rf rf'" by (simp add: assms(3) no_campaign_def)
  have "wf_raft rf'"
    by (rule wf_raft_keep [OF assms(1) nc]) (use wf_raftD [OF assms(1)] in \<open>auto simp: assms(3)\<close>)
  with nc show ?thesis using assms(2) by (simp add: assms(3) vote_le_def)
qed

lemma sendRequestVote_keeps:
  assumes "wf_raft rf"
  shows "wf_raft (sendRequestVote outcomes args rf) \<and> vote_le rf (sendRequestVote outcomes args rf)"
proof (cases rule: sendRequestVote_cases [of outcomes args rf])
  case idle
  then show ?thesis using assms by simp
next
  case (newer t)
  then show ?thesis using convertToFollower_keeps [OF assms newer] by simp
next
  case (vote reply)
  then show ?thesis
    using assms by (auto simp: wf_raft_def vote_le_def elected_def persisted_ok_def)
next
  case (win reply)
  then show ?thesis
    using assms by (auto simp: wf_raft_def vote_le_def elected_def persisted_ok_def)
qed

text \<open>An operation that touches none of the fields of elections, of the log or of the applier.\<close>

definition same_election :: "('c, 'b) Raft \<Rightarrow> ('c, 'b) Raft \<Rightarrow> bool" where
  "same_election rf rf' \<longleftrightarrow> me rf' = me rf \<and> peers rf' = peers rf \<and> currentTerm rf' = currentTerm rf \<and>
     votedFor rf' = votedFor rf \<and> state rf' = state rf \<and> voteCount rf' = voteCount rf \<and>
     (ticker_pc rf' = TLeader \<longrightarrow> ticker_pc rf = TLeader)"

lemma same_election_keeps: "same_election rf rf' \<Longrightarrow> vote_le rf rf' \<and> no_campaign rf rf'"
  by (auto simp: same_election_def vote_le_def no_campaign_def)

lemma update_both_Inr:
  fixes rf rf' :: "('c, 'b) Raft"
  assumes "go_bind (go_update (nextIndex rf) server x) (\<lambda>ni.
      go_bind (go_update (matchIndex rf) server y) (\<lambda>mi. Inr (rf\<lparr>nextIndex := ni, matchIndex := mi\<rparr>))) = Inr rf'"
  shows "\<exists>ni mi. rf' = rf\<lparr>nextIndex := ni, matchIndex := mi\<rparr> \<and>
    length ni = length (nextIndex rf) \<and> length mi = length (matchIndex rf)"
proof -
  obtain ni mi where "go_update (nextIndex rf) server x = Inr ni" "go_update (matchIndex rf) server y = Inr mi"
    and eq: "Inr (rf\<lparr>nextIndex := ni, matchIndex := mi\<rparr>) = (Inr rf' :: (_, _) Raft go)"
    using assms by (elim go_bindE) blast
  then have "length ni = length (nextIndex rf)" "length mi = length (matchIndex rf)"
    by (simp_all add: go_update_eq_Inr_iff)
  with eq [symmetric] show ?thesis by (intro exI [of _ ni] exI [of _ mi]) (simp only: sum.inject simp_thms)
qed

lemma update_next_Inr:
  fixes rf rf' :: "('c, 'b) Raft"
  assumes "go_bind (go_update (nextIndex rf) server x) (\<lambda>ni. Inr (rf\<lparr>nextIndex := ni\<rparr>)) = Inr rf'"
  shows "\<exists>ni mi. rf' = rf\<lparr>nextIndex := ni, matchIndex := mi\<rparr> \<and>
    length ni = length (nextIndex rf) \<and> length mi = length (matchIndex rf)"
proof -
  obtain ni where "go_update (nextIndex rf) server x = Inr ni"
    and eq: "Inr (rf\<lparr>nextIndex := ni\<rparr>) = (Inr rf' :: (_, _) Raft go)"
    using assms by (elim go_bindE) blast
  moreover have "rf\<lparr>nextIndex := ni\<rparr> = rf\<lparr>nextIndex := ni, matchIndex := matchIndex rf\<rparr>"
    by (cases rf) simp
  ultimately have "rf' = rf\<lparr>nextIndex := ni, matchIndex := matchIndex rf\<rparr>"
    "length ni = length (nextIndex rf)" by (simp_all add: go_update_eq_Inr_iff)
  then show ?thesis by blast
qed

lemma update_indices_Inr:
  assumes "update_indices server args reply rf = Inr rf'"
  shows "\<exists>ni mi. rf' = rf\<lparr>nextIndex := ni, matchIndex := mi\<rparr> \<and>
    length ni = length (nextIndex rf) \<and> length mi = length (matchIndex rf)"
proof (cases "Success reply \<or> XTerm reply = - 1")
  case True
  show ?thesis
  proof (cases "Success reply")
    case True
    with assms show ?thesis unfolding update_indices_def by (intro update_both_Inr) simp
  next
    case False
    with assms True show ?thesis unfolding update_indices_def by (intro update_next_Inr) simp
  qed
next
  case False
  note eq = assms [unfolded update_indices_def Let_def, simplified False if_False de_Morgan_disj simp_thms]
  obtain idx where idx: "(if idx = 0 \<or> ToOriginalIndex idx rf < XIndex reply
      then go_bind (go_update (nextIndex rf) server (XIndex reply)) (\<lambda>ni. Inr (rf\<lparr>nextIndex := ni\<rparr>))
      else go_bind (go_update (nextIndex rf) server (ToOriginalIndex (idx + 1) rf)) (\<lambda>ni.
           go_bind (go_update (matchIndex rf) server (ToOriginalIndex idx rf)) (\<lambda>mi.
           Inr (rf\<lparr>nextIndex := ni, matchIndex := mi\<rparr>)))) = Inr rf'"
    using eq False by (simp only: de_Morgan_disj if_False simp_thms) (elim go_bindE)
  show ?thesis
  proof (cases "idx = 0 \<or> ToOriginalIndex idx rf < XIndex reply")
    case True
    with idx show ?thesis by (intro update_next_Inr) simp
  next
    case False
    with idx show ?thesis by (intro update_both_Inr) simp
  qed
qed

lemma commit_loop_Inr:
  assumes "commit_loop ci n rf = Inr rf'"
  shows "rf' = rf \<or> (\<exists>idx. rf' = Signal (rf\<lparr>commitIndex := idx\<rparr>))"
  using assms
  by (induction ci n rf rule: commit_loop.induct) (auto simp: Let_def go_bind_eq_Inr_iff split: if_splits)

lemma sendAppendEntries_cases:
  assumes "sendAppendEntries outcomes server args rf = Inr rf'"
  obtains (idle) "rf' = rf"
  | (newer) t where "t > currentTerm rf" "rf' = persist None (convertToFollower t rf)"
  | (progress) reply ni mi where "call_retry 5 outcomes = Some reply" "state rf = Leader"
      "aer_Term reply = currentTerm rf" "currentTerm rf \<le> aea_Term args"
      "update_indices server args reply rf = Inr (rf\<lparr>nextIndex := ni, matchIndex := mi\<rparr>)"
      "length ni = length (nextIndex rf)" "length mi = length (matchIndex rf)"
      "commit_loop (ToLogIndex (commitIndex rf) rf) (length (log rf)) (rf\<lparr>nextIndex := ni, matchIndex := mi\<rparr>) = Inr rf'"
proof (cases "call_retry 5 outcomes")
  case None
  then show thesis using idle assms by (simp add: sendAppendEntries_def)
next
  case (Some reply)
  note eq = assms [unfolded sendAppendEntries_def Some option.case]
  consider "state rf \<noteq> Leader \<or> aea_Term args < currentTerm rf \<or> aer_Term reply < currentTerm rf"
    | "state rf = Leader" "currentTerm rf \<le> aea_Term args" "aer_Term reply > currentTerm rf"
    | "state rf = Leader" "currentTerm rf \<le> aea_Term args" "aer_Term reply = currentTerm rf"
    by linarith
  then show thesis
  proof cases
    case 1
    then show thesis using eq idle by simp
  next
    case 2
    then show thesis using eq newer [of "aer_Term reply"] by simp
  next
    case 3
    then obtain rf1 where rf1: "update_indices server args reply rf = Inr rf1"
      and cl: "commit_loop (ToLogIndex (commitIndex rf1) rf1) (length (log rf1)) rf1 = Inr rf'"
      using eq by (auto simp: go_bind_eq_Inr_iff)
    obtain ni mi where rf1': "rf1 = rf\<lparr>nextIndex := ni, matchIndex := mi\<rparr>"
      and len: "length ni = length (nextIndex rf)" "length mi = length (matchIndex rf)"
      using update_indices_Inr [OF rf1] by blast
    have "ToLogIndex (commitIndex rf1) rf1 = ToLogIndex (commitIndex rf) rf" "log rf1 = log rf"
      by (simp_all add: rf1' ToLogIndex_def)
    with cl have "commit_loop (ToLogIndex (commitIndex rf) rf) (length (log rf)) rf1 = Inr rf'" by simp
    then show thesis using progress [OF Some 3(1,3,2) rf1 [unfolded rf1'] len] by (simp add: rf1')
  qed
qed

lemma sendAppendEntries_keeps:
  assumes "wf_raft rf" and "sendAppendEntries outcomes server args rf = Inr rf'"
  shows "wf_raft rf' \<and> vote_le rf rf' \<and> no_campaign rf rf'"
  using assms(2)
proof (cases rule: sendAppendEntries_cases)
  case idle
  then show ?thesis using assms(1) by simp
next
  case (newer t)
  then show ?thesis using convertToFollower_keeps [OF assms(1)] by blast
next
  case (progress reply ni mi)
  let ?rf = "rf\<lparr>nextIndex := ni, matchIndex := mi\<rparr>"
  consider "rf' = ?rf" | idx where "rf' = Signal (?rf\<lparr>commitIndex := idx\<rparr>)"
    using commit_loop_Inr [OF progress(8)] by blast
  then show ?thesis
  proof cases
    case 1
    have "same_election rf rf'" by (simp add: 1 same_election_def)
    moreover have "wf_raft rf'"
      by (rule wf_raft_keep [OF assms(1) same_election_keeps [OF calculation, THEN conjunct2]])
        (use wf_raftD [OF assms(1)] progress(6,7) in \<open>auto simp: 1 persisted_ok_def\<close>)
    ultimately show ?thesis using same_election_keeps by blast
  next
    case 2
    have "same_election rf rf'" by (simp add: 2 same_election_def)
    moreover have "wf_raft rf'"
      by (rule wf_raft_keep [OF assms(1) same_election_keeps [OF calculation, THEN conjunct2]])
        (use wf_raftD [OF assms(1)] progress(6,7) in \<open>auto simp: 2 persisted_ok_def\<close>)
    ultimately show ?thesis using same_election_keeps by blast
  qed
qed

lemma sendInstallSnapshot_cases:
  assumes "sendInstallSnapshot outcomes server args rf = Inr rf'"
  obtains (idle) "rf' = rf"
  | (newer) t where "t > currentTerm rf" "rf' = persist None (convertToFollower t rf)"
  | (progress) ni mi where "rf' = rf\<lparr>nextIndex := ni, matchIndex := mi\<rparr>" "state rf = Leader"
      "length ni = length (nextIndex rf)" "length mi = length (matchIndex rf)"
proof (cases "call_retry 0 outcomes")
  case None
  then show thesis using idle assms by (simp add: sendInstallSnapshot_def)
next
  case (Some reply)
  note eq = assms [unfolded sendInstallSnapshot_def Some option.case]
  consider "isr_Term reply > currentTerm rf"
    | "isr_Term reply \<le> currentTerm rf" "state rf \<noteq> Leader \<or> isa_Term args < currentTerm rf \<or> isr_Term reply < currentTerm rf"
    | "isr_Term reply \<le> currentTerm rf" "\<not> (state rf \<noteq> Leader \<or> isa_Term args < currentTerm rf \<or> isr_Term reply < currentTerm rf)"
    by linarith
  then show thesis
  proof cases
    case 1
    then show thesis using eq newer [of "isr_Term reply"] by simp
  next
    case 2
    then show thesis using eq idle by simp
  next
    case 3
    then have lead: "state rf = Leader"
      and "go_bind (go_update (nextIndex rf) server (LastIncludedIndex args + 1)) (\<lambda>ni.
           go_bind (go_update (matchIndex rf) server (LastIncludedIndex args)) (\<lambda>mi.
           Inr (rf\<lparr>nextIndex := ni, matchIndex := mi\<rparr>))) = Inr rf'"
      using eq by simp_all
    then show thesis using update_both_Inr progress by blast
  qed
qed

lemma sendInstallSnapshot_keeps:
  assumes "wf_raft rf" and "sendInstallSnapshot outcomes server args rf = Inr rf'"
  shows "wf_raft rf' \<and> vote_le rf rf' \<and> no_campaign rf rf'"
  using assms(2)
proof (cases rule: sendInstallSnapshot_cases)
  case idle
  then show ?thesis using assms(1) by simp
next
  case (newer t)
  then show ?thesis using convertToFollower_keeps [OF assms(1)] by blast
next
  case (progress ni mi)
  have "same_election rf rf'" by (simp add: progress(1) same_election_def)
  moreover have "wf_raft rf'"
    by (rule wf_raft_keep [OF assms(1) same_election_keeps [OF calculation, THEN conjunct2]])
      (use wf_raftD [OF assms(1)] progress(3,4) in \<open>auto simp: progress(1) persisted_ok_def\<close>)
  ultimately show ?thesis using same_election_keeps by blast
qed

lemma Start_keeps:
  assumes "wf_raft rf" and "Start c rf = (r, rf')"
  shows "wf_raft rf' \<and> vote_le rf rf' \<and> no_campaign rf rf'"
proof (cases "state rf = Leader")
  case False
  then show ?thesis using assms by (simp add: Start_def)
next
  case True
  let ?rf = "persist None (rf\<lparr>log := log rf @ [\<lparr>Term = currentTerm rf, Command = c\<rparr>]\<rparr>)"
  have rf': "rf' = sendToChannel BroadcastCh ?rf" using assms(2) True by (simp add: Start_def Let_def)
  have "same_election rf rf'" using send_pc [of BroadcastCh ?rf] by (auto simp: rf' same_election_def)
  note se = same_election_keeps [OF this]
  have "wf_raft rf'"
    by (rule wf_raft_keep [OF assms(1) se [THEN conjunct2]]) (use wf_raftD [OF assms(1)] in \<open>auto simp: rf'\<close>)
  with se show ?thesis by blast
qed

lemma Raft_Snapshot_eq:
  assumes "lastSnapshotIndex rf < index" and "index \<le> GetLastIndex rf"
  shows "Raft_Snapshot index snap rf =
    (let lg = drop (nat (index - lastSnapshotIndex rf)) (log rf)
     in Inr (persist snap (rf\<lparr>lastSnapshotIndex := index, log := nilEntry (Term (hd lg)) # tl lg\<rparr>)))"
proof -
  let ?k = "index - lastSnapshotIndex rf"
  have k: "0 \<le> ?k" "?k < go_len (log rf)" using assms by (auto simp: GetLastIndex_def)
  then have ne: "drop (nat ?k) (log rf) \<noteq> []" by simp
  have fr: "go_from (log rf) ?k = Inr (drop (nat ?k) (log rf))" using k by simp
  show ?thesis
    using assms ne by (simp add: Raft_Snapshot_def Let_def fr clear_head_ok)
qed

lemma Raft_Snapshot_keeps:
  assumes "wf_raft rf" and "Raft_Snapshot index snap rf = Inr rf'"
  shows "wf_raft rf' \<and> vote_le rf rf' \<and> no_campaign rf rf'"
proof (cases "index \<le> lastSnapshotIndex rf \<or> index > GetLastIndex rf")
  case True
  then show ?thesis using assms by (simp add: Raft_Snapshot_def)
next
  case False
  then obtain lg where rf': "rf' = persist snap (rf\<lparr>lastSnapshotIndex := index, log := lg\<rparr>)" and "lg \<noteq> []"
    using assms(2) Raft_Snapshot_eq [of rf index snap] by (auto simp: Let_def)
  have "same_election rf rf'" by (simp add: rf' same_election_def)
  note se = same_election_keeps [OF this]
  have "wf_raft rf'"
    by (rule wf_raft_keep [OF assms(1) se [THEN conjunct2]])
      (use wf_raftD [OF assms(1)] \<open>lg \<noteq> []\<close> False in \<open>auto simp: rf'\<close>)
  with se show ?thesis by blast
qed

lemma Kill_keeps:
  assumes "wf_raft rf"
  shows "wf_raft (Kill rf) \<and> vote_le rf (Kill rf) \<and> no_campaign rf (Kill rf)"
proof -
  have "same_election rf (Kill rf)" by (simp add: Kill_def same_election_def)
  note se = same_election_keeps [OF this]
  have "wf_raft (Kill rf)"
    by (rule wf_raft_keep [OF assms se [THEN conjunct2]])
      (use wf_raftD [OF assms] in \<open>auto simp: Kill_def persisted_ok_def\<close>)
  with se show ?thesis by blast
qed

text \<open>\<open>convertToCandidate\<close> and \<open>convertToLeader\<close>, the two ways to campaign.\<close>

lemma convertToCandidate_eq:
  assumes "state rf \<noteq> Leader" and "log rf \<noteq> []"
  defines "args \<equiv> \<lparr>rva_Term = currentTerm rf + 1, CandidateId = me rf, LastLogIndex = GetLastIndex rf,
    LastLogTerm = Term (last (log rf))\<rparr>"
  shows "convertToCandidate rf = Inr (map (\<lambda>i. CallRequestVote i args) (other_peers rf),
    persist None (rf\<lparr>state := Candidate, currentTerm := currentTerm rf + 1, votedFor := me rf, voteCount := 1\<rparr>))"
proof -
  let ?rf = "persist None (rf\<lparr>state := Candidate, currentTerm := currentTerm rf + 1, votedFor := me rf, voteCount := 1\<rparr>)"
  have "GetLastTerm ?rf = Inr (Term (last (log rf)))" using GetLastTerm_ok [of ?rf] assms(2) by simp
  then have "broadcastRequestVote ?rf = Inr (map (\<lambda>i. CallRequestVote i args) (other_peers rf))"
    by (simp add: broadcastRequestVote_def args_def GetLastIndex_def other_peers_def)
  then show ?thesis using assms(1) by (simp add: convertToCandidate_def)
qed

lemma convertToCandidate_keeps:
  assumes "wf_raft rf" and "convertToCandidate rf = Inr (calls, rf')"
  shows "wf_raft (rf'\<lparr>ticker_pc := TLoop\<rparr>) \<and> vote_le rf rf'"
proof (cases "state rf = Leader")
  case True
  then show ?thesis using assms by (auto simp: convertToCandidate_def wf_raft_def elected_def persisted_ok_def)
next
  case False
  note eq = convertToCandidate_eq [OF False wf_raftD(1) [OF assms(1)]]
  have "rf' = persist None (rf\<lparr>state := Candidate, currentTerm := currentTerm rf + 1, votedFor := me rf, voteCount := 1\<rparr>)"
    using assms(2) eq by simp
  then show ?thesis
    using assms(1) by (simp add: wf_raft_def elected_def persisted_ok_def vote_le_def)
qed

lemma convertToLeader_keeps:
  assumes "wf_raft rf" and "convertToLeader rf = Inr (calls, rf')" and "ticker_pc rf = TLeader"
  shows "wf_raft (rf'\<lparr>ticker_pc := TLoop\<rparr>) \<and> vote_le rf rf' \<and> voteCount rf' = voteCount rf \<and>
    currentTerm rf' = currentTerm rf \<and> (state rf' = state rf \<or> state rf = Candidate)"
proof (cases "state rf = Candidate")
  case False
  then show ?thesis using assms by (auto simp: convertToLeader_def wf_raft_def elected_def persisted_ok_def)
next
  case True
  then have "rf' = rf\<lparr>state := Leader, nextIndex := replicate (peers rf) (GetLastIndex rf + 1),
      matchIndex := replicate (peers rf) 0\<rparr>"
    using assms(2) by (auto simp: convertToLeader_def Let_def go_bind_eq_Inr_iff)
  then show ?thesis
    using assms(1,3) True by (auto simp: wf_raft_def elected_def persisted_ok_def vote_le_def)
qed

lemma ticker_step_keeps:
  assumes "wf_raft rf" and "ticker_step timeout rf = Inr (calls, rf')"
  shows "wf_raft rf' \<and> vote_le rf rf'"
proof -
  have pc: "wf_raft (rf\<lparr>ticker_pc := pc\<rparr>) \<and> vote_le rf (rf\<lparr>ticker_pc := pc\<rparr>)" if "pc \<noteq> TLeader" for pc
    using assms(1) that by (auto simp: wf_raft_def elected_def persisted_ok_def vote_le_def)
  have vl: "vote_le rf (r\<lparr>ticker_pc := TLoop\<rparr>) = vote_le rf r" for r :: "('a, 'b) Raft"
    by (simp add: vote_le_def)
  show ?thesis
  proof (cases "ticker_pc rf")
    case TCandidate
    then obtain r where "convertToCandidate rf = Inr (calls, r)" "rf' = r\<lparr>ticker_pc := TLoop\<rparr>"
      using assms(2) by (auto simp: ticker_step_def go_bind_eq_Inr_iff)
    then show ?thesis using convertToCandidate_keeps [OF assms(1)] vl by simp
  next
    case TLeader
    then obtain r where "convertToLeader rf = Inr (calls, r)" "rf' = r\<lparr>ticker_pc := TLoop\<rparr>"
      using assms(2) by (auto simp: ticker_step_def go_bind_eq_Inr_iff)
    then show ?thesis using convertToLeader_keeps [OF assms(1) _ TLeader] vl by simp
  qed (use assms pc in \<open>auto simp: ticker_step_def go_bind_eq_Inr_iff split: if_splits\<close>)
qed

text \<open>The applier changes \<open>lastApplied\<close>, the snapshot buffer, the messages sent and nothing else.\<close>

definition same_but_apply :: "('c, 'b) Raft \<Rightarrow> ('c, 'b) Raft \<Rightarrow> bool" where
  "same_but_apply rf rf' \<longleftrightarrow> same_election rf rf' \<and> persister rf' = persister rf \<and> log rf' = log rf \<and>
     lastSnapshotIndex rf' = lastSnapshotIndex rf \<and> commitIndex rf' = commitIndex rf \<and>
     nextIndex rf' = nextIndex rf \<and> matchIndex rf' = matchIndex rf \<and> ticker_pc rf' = ticker_pc rf \<and>
     dead rf' = dead rf"

lemma apply_entries_same:
  "apply_entries rf = Inr rf' \<Longrightarrow> same_but_apply rf rf' \<and> apply_pc rf' \<noteq> AWaiting"
  by (auto simp: apply_entries_def same_but_apply_def same_election_def Let_def split: if_splits)

lemma applyLogEntry_step_same:
  assumes "applyLogEntry_step rf = Inr rf'"
  shows "same_but_apply rf rf'"
    and "apply_pc rf' = AWaiting \<Longrightarrow>
      apply_pc rf = AWaiting \<and> lastApplied rf' = lastApplied rf \<and> bufferWriteDone rf' = bufferWriteDone rf \<or>
      commitIndex rf \<le> lastApplied rf' \<and> \<not> bufferWriteDone rf'"
proof -
  have refl: "same_but_apply rf rf" by (simp add: same_but_apply_def same_election_def)
  show "same_but_apply rf rf'"
  proof (cases "apply_pc rf")
    case ASnapDone
    then show ?thesis
      using assms apply_entries_same [of "rf\<lparr>snapshotBuffer := None,
        lastApplied := max (lastApplied rf) (lastSnapshotIndex rf), bufferWriteDone := False\<rparr>" rf']
      by (simp add: applyLogEntry_step_def same_but_apply_def same_election_def)
  next
    case ACheck
    then show ?thesis
      using assms apply_entries_same [of rf rf']
      by (auto simp: applyLogEntry_step_def same_but_apply_def same_election_def split: if_splits)
  qed (use assms refl in
      \<open>auto simp: applyLogEntry_step_def same_but_apply_def same_election_def go_bind_eq_Inr_iff split: if_splits\<close>)
  show "apply_pc rf = AWaiting \<and> lastApplied rf' = lastApplied rf \<and> bufferWriteDone rf' = bufferWriteDone rf \<or>
      commitIndex rf \<le> lastApplied rf' \<and> \<not> bufferWriteDone rf'" if wait: "apply_pc rf' = AWaiting"
  proof (cases "apply_pc rf")
    case ACheck
    then show ?thesis
      using assms wait apply_entries_same [of rf rf'] by (auto simp: applyLogEntry_step_def split: if_splits)
  next
    case ASnapDone
    then show ?thesis
      using assms wait apply_entries_same [of _ rf'] by (fastforce simp: applyLogEntry_step_def)
  qed (use assms wait in \<open>auto simp: applyLogEntry_step_def go_bind_eq_Inr_iff split: if_splits\<close>)
qed

lemma applyLogEntry_step_keeps:
  assumes "wf_raft rf" and "applyLogEntry_step rf = Inr rf'"
  shows "wf_raft rf' \<and> vote_le rf rf' \<and> no_campaign rf rf'"
proof -
  note same = applyLogEntry_step_same [OF assms(2)] and wf = wf_raftD [OF assms(1)]
  have f: "same_election rf rf'" "persister rf' = persister rf" "log rf' = log rf"
    "lastSnapshotIndex rf' = lastSnapshotIndex rf" "nextIndex rf' = nextIndex rf" "matchIndex rf' = matchIndex rf"
    "me rf' = me rf" "peers rf' = peers rf" "votedFor rf' = votedFor rf" "currentTerm rf' = currentTerm rf"
    "commitIndex rf' = commitIndex rf"
    using same(1) by (auto simp: same_but_apply_def same_election_def)
  note se = same_election_keeps [OF f(1)]
  have po: "persisted_ok rf'" using wf(4) f by (simp add: persisted_ok_cong [of rf' rf])
  have "wf_raft rf'"
    by (rule wf_raft_keep [OF assms(1) se [THEN conjunct2] _ _ _ _ po])
      (use wf(1,2,8) f same(2) in auto)
  with se show ?thesis by blast
qed

section \<open>A peer in any environment\<close>

text \<open>The peer under requests, replies and calls of the service in any order, with arbitrary
  arguments.\<close>

inductive peer_step :: "'b \<Rightarrow> ('c, 'b) Raft \<Rightarrow> ('c, 'b) Raft \<Rightarrow> bool" for zero :: 'b where
  request_vote: "RequestVote a rf = Inr (r, rf') \<Longrightarrow> peer_step zero rf rf'"
| append_entries: "AppendEntries aa rf = Inr (ar, rf') \<Longrightarrow> peer_step zero rf rf'"
| install_snapshot: "InstallSnapshot zero sa rf = Inr (sr, rf') \<Longrightarrow> peer_step zero rf rf'"
| vote_reply: "sendRequestVote os a rf = rf' \<Longrightarrow> peer_step zero rf rf'"
| append_reply: "sendAppendEntries aos i aa rf = Inr rf' \<Longrightarrow> peer_step zero rf rf'"
| install_reply: "sendInstallSnapshot sos i sa rf = Inr rf' \<Longrightarrow> peer_step zero rf rf'"
| start: "Start c rf = (res, rf') \<Longrightarrow> peer_step zero rf rf'"
| take_snapshot: "Raft_Snapshot i snap rf = Inr rf' \<Longrightarrow> peer_step zero rf rf'"
| kill: "peer_step zero rf (Kill rf)"
| tick: "ticker_step timeout rf = Inr (calls, rf') \<Longrightarrow> peer_step zero rf rf'"
| apply_step: "applyLogEntry_step rf = Inr rf' \<Longrightarrow> peer_step zero rf rf'"

lemma peer_step_keeps:
  assumes "peer_step zero rf rf'" and "wf_raft rf"
  shows "wf_raft rf' \<and> vote_le rf rf'"
  using assms
proof cases
  case (request_vote a r)
  then show ?thesis using RequestVote_keeps [OF assms(2)] by blast
next
  case (append_entries aa ar)
  then show ?thesis using AppendEntries_keeps [OF assms(2)] by blast
next
  case (install_snapshot sa sr)
  then show ?thesis using InstallSnapshot_keeps [OF assms(2)] by blast
next
  case (vote_reply os a)
  then show ?thesis using sendRequestVote_keeps [OF assms(2), of os a] by simp
next
  case (append_reply aos i aa)
  then show ?thesis using sendAppendEntries_keeps [OF assms(2)] by blast
next
  case (install_reply sos i sa)
  then show ?thesis using sendInstallSnapshot_keeps [OF assms(2)] by blast
next
  case (start c res)
  then show ?thesis using Start_keeps [OF assms(2)] by blast
next
  case (take_snapshot i snap)
  then show ?thesis using Raft_Snapshot_keeps [OF assms(2)] by blast
next
  case kill
  then show ?thesis using Kill_keeps [OF assms(2)] by blast
next
  case (tick timeout calls)
  then show ?thesis using ticker_step_keeps [OF assms(2)] by blast
next
  case apply_step
  then show ?thesis using applyLogEntry_step_keeps [OF assms(2)] by blast
qed

text \<open>A life of a peer: started on a fresh persister, then steps and restarts on a copy of its
  persister.\<close>

inductive peer_life :: "'b \<Rightarrow> nat \<Rightarrow> int \<Rightarrow> ('c, 'b) Raft \<Rightarrow> bool" for zero :: 'b and n :: nat and self :: int where
  fresh: "peer_life zero n self (Make n self MakePersister)"
| step: "peer_life zero n self rf \<Longrightarrow> peer_step zero rf rf' \<Longrightarrow> peer_life zero n self rf'"
| restart: "peer_life zero n self rf \<Longrightarrow> peer_life zero n self (Make n self (Persister_Copy (persister rf)))"

lemma peer_life_wf:
  assumes "peer_life zero n self rf" and "0 \<le> self"
  shows "wf_raft rf"
  using assms(1)
proof (induction rule: peer_life.induct)
  case fresh
  show ?case using assms(2) by (rule wf_raft_fresh)
next
  case (step rf rf')
  show ?case using peer_step_keeps [OF step.hyps(2) step.IH] by (rule conjunct1)
next
  case (restart rf)
  show ?case using restart.IH assms(2) by (rule wf_raft_restart)
qed

section \<open>Committing\<close>

lemma count_match_eq:
  assumes "count_match mi idx is c = Inr r"
  shows "r = c + int (length (filter (\<lambda>i. mi ! nat i \<ge> idx) is))"
  using assms
proof (induction mi idx "is" c rule: count_match.induct)
  case (2 mi idx i "is" count)
  then obtain m where m: "go_nth mi i = Inr m"
    "count_match mi idx is (if m \<ge> idx then count + 1 else count) = Inr r"
    by (auto simp: go_bind_eq_Inr_iff)
  then have "m = mi ! nat i" by (simp add: go_nth_eq_Inr_iff)
  with 2(1) [OF m(2)] show ?case by simp
qed simp

text \<open>The peers that have the entry at \<open>idx\<close>, as far as the leader knows.\<close>

definition replicated_on :: "int \<Rightarrow> ('c, 'b) Raft \<Rightarrow> int set" where
  "replicated_on idx rf = {i. 0 \<le> i \<and> i < int (peers rf) \<and> (i = me rf \<or> matchIndex rf ! nat i \<ge> idx)}"

lemma replicated_on_card:
  assumes "0 \<le> me rf" and "me rf < int (peers rf)"
  shows "int (card (replicated_on idx rf)) =
    1 + int (length (filter (\<lambda>i. matchIndex rf ! nat i \<ge> idx) (other_peers rf)))"
proof -
  let ?A = "set (filter (\<lambda>i. matchIndex rf ! nat i \<ge> idx) (other_peers rf))"
  have d: "distinct (filter (\<lambda>i. matchIndex rf ! nat i \<ge> idx) (other_peers rf))"
    by (simp add: other_peers_def distinct_map)
  have "replicated_on idx rf = insert (me rf) ?A"
  proof (intro set_eqI iffI)
    fix i assume "i \<in> replicated_on idx rf"
    then have "0 \<le> i" "i < int (peers rf)" "i = me rf \<or> matchIndex rf ! nat i \<ge> idx"
      by (auto simp: replicated_on_def)
    moreover have "i \<in> int ` {0..<peers rf}" using calculation(1,2) by (intro image_eqI [of _ _ "nat i"]) auto
    ultimately show "i \<in> insert (me rf) ?A" by (auto simp: other_peers_def)
  qed (use assms in \<open>auto simp: replicated_on_def other_peers_def\<close>)
  moreover have "me rf \<notin> ?A" by (auto simp: other_peers_def)
  ultimately show ?thesis using distinct_card [OF d] by simp
qed

lemma commit_loop_majority:
  assumes "commit_loop ci n rf = Inr rf'" and "rf' \<noteq> rf" and "n \<le> length (log rf)"
    and "0 \<le> me rf" "me rf < int (peers rf)"  and "1 < peers rf"
  shows "\<exists>k < n. ci < int k \<and> rf' = Signal (rf\<lparr>commitIndex := lastSnapshotIndex rf + int k\<rparr>) \<and>
    Term (log rf ! k) = currentTerm rf \<and>
    int (card (replicated_on (lastSnapshotIndex rf + int k) rf)) > int (peers rf div 2)"
  using assms
proof (induction ci n rf rule: commit_loop.induct)
  case (2 ci n rf)
  let ?idx = "ToOriginalIndex (int n) rf"
  have idx: "?idx = lastSnapshotIndex rf + int n" by (simp add: ToOriginalIndex_def)
  have go: "ci < int n" "\<not> Term (log rf ! n) < currentTerm rf"
    using "2.prems"(1,2) by (auto split: if_splits)
  then obtain c where
    c: "(if Term (log rf ! n) = currentTerm rf then count_match (matchIndex rf) ?idx (other_peers rf) 1 else Inr 1) = Inr c"
    and rest: "(if c > int (peers rf div 2) then Inr (Signal (rf\<lparr>commitIndex := ?idx\<rparr>)) else commit_loop ci n rf) = Inr rf'"
    using "2.prems"(1) by (auto simp: Let_def go_bind_eq_Inr_iff)
  show ?case
  proof (cases "c > int (peers rf div 2)")
    case True
    have "Term (log rf ! n) = currentTerm rf"
    proof (rule ccontr)
      assume "Term (log rf ! n) \<noteq> currentTerm rf"
      then have "c = 1" using c by simp
      with True "2.prems"(6) show False by simp
    qed
    with c have "int (card (replicated_on ?idx rf)) = c"
      using count_match_eq [of "matchIndex rf" ?idx "other_peers rf" 1 c] replicated_on_card "2.prems"(4,5) by simp
    with True rest idx go \<open>Term (log rf ! n) = currentTerm rf\<close> show ?thesis
      by (intro exI [of _ n]) simp
  next
    case False
    then have "commit_loop ci n rf = Inr rf'" using rest by simp
    then have "\<exists>k < n. ci < int k \<and> rf' = Signal (rf\<lparr>commitIndex := lastSnapshotIndex rf + int k\<rparr>) \<and>
        Term (log rf ! k) = currentTerm rf \<and>
        int (card (replicated_on (lastSnapshotIndex rf + int k) rf)) > int (peers rf div 2)"
      using "2.IH" [OF _ go(2) refl False] go(1) "2.prems" by simp
    then obtain k where "k < n" and "ci < int k \<and> rf' = Signal (rf\<lparr>commitIndex := lastSnapshotIndex rf + int k\<rparr>) \<and>
        Term (log rf ! k) = currentTerm rf \<and>
        int (card (replicated_on (lastSnapshotIndex rf + int k) rf)) > int (peers rf div 2)"
      by blast
    then show ?thesis using less_SucI [of k n] by blast
  qed
qed simp

lemma peer_life_ids:
  assumes "peer_life zero n self rf" and "0 \<le> self"
  shows "me rf = self \<and> peers rf = n"
  using assms(1)
proof (induction rule: peer_life.induct)
  case fresh
  show ?case by (simp add: Make_fresh)
next
  case (step rf rf')
  have "vote_le rf rf'"
    using peer_step_keeps [OF step.hyps(2) peer_life_wf [OF step.hyps(1) assms(2)]] by (rule conjunct2)
  with step.IH show ?case by (simp add: vote_le_def)
next
  case (restart rf)
  note wf = wf_raftD [OF peer_life_wf [OF restart.hyps(1) assms(2)]]
  show ?case using Make_fields(9,10) [OF wf(4,1), of "Persister_Copy (persister rf)"] by simp
qed

section \<open>Applying\<close>

text \<open>\<open>k\<close> steps of the applier with nothing in between.\<close>

fun apply_run :: "nat \<Rightarrow> ('c, 'b) Raft \<Rightarrow> ('c, 'b) Raft go" where
  "apply_run 0 rf = Inr rf"
| "apply_run (Suc k) rf = go_bind (applyLogEntry_step rf) (apply_run k)"

lemma apply_run_add:
  "apply_run (j + k) rf = go_bind (apply_run j rf) (apply_run k)"
proof (induction j arbitrary: rf)
  case (Suc j)
  show ?case by (cases "applyLogEntry_step rf") (simp_all add: Suc)
qed simp

text \<open>The messages for the entries \<open>i + 1\<close> to \<open>i + k\<close>.\<close>

definition entry_msgs :: "('c, 'b) Raft \<Rightarrow> int \<Rightarrow> nat \<Rightarrow> ('c, 'b) ApplyMsg list" where
  "entry_msgs rf i k =
     map (\<lambda>j. command_msg (i + int j) (Command (log rf ! nat (i + int j - lastSnapshotIndex rf)))) [0..<k]"

lemma entry_msgs_Suc:
  "entry_msgs rf i (Suc k) =
   command_msg i (Command (log rf ! nat (i - lastSnapshotIndex rf))) # entry_msgs rf (i + 1) k"
  by (simp add: entry_msgs_def upt_conv_Cons map_Suc_upt [symmetric] ac_simps del: upt_Suc)

lemma apply_send_loop:
  assumes "apply_pc rf = ASend i" and "commitIndex rf = i + int k - 1" and "lastSnapshotIndex rf \<le> i"
    and "commitIndex rf \<le> GetLastIndex rf"
  shows "apply_run (2 * k) rf = Inr (rf\<lparr>applyCh := applyCh rf @ entry_msgs rf i k, apply_pc := ASend (i + int k)\<rparr>)"
  using assms
proof (induction k arbitrary: i rf)
  case 0
  then have "rf = rf\<lparr>applyCh := applyCh rf, apply_pc := ASend i\<rparr>" by (cases rf) simp
  then show ?case by (simp add: entry_msgs_def)
next
  case (Suc k)
  let ?m = "command_msg i (Command (log rf ! nat (i - lastSnapshotIndex rf)))"
  let ?rf = "rf\<lparr>applyCh := applyCh rf @ [?m], apply_pc := ASend (i + 1)\<rparr>"
  have nth: "go_nth (log rf) (ToLogIndex i rf) = Inr (log rf ! nat (i - lastSnapshotIndex rf))"
    using Suc.prems by (simp add: ToLogIndex_def GetLastIndex_def go_nth_def)
  have "apply_run 2 rf = Inr ?rf"
    using Suc.prems nth by (simp add: numeral_2_eq_2 applyLogEntry_step_def)
  moreover have "apply_run (2 * k) ?rf =
      Inr (?rf\<lparr>applyCh := applyCh ?rf @ entry_msgs ?rf (i + 1) k, apply_pc := ASend (i + 1 + int k)\<rparr>)"
    by (rule Suc.IH) (use Suc.prems in \<open>simp_all add: GetLastIndex_def\<close>)
  moreover have "entry_msgs ?rf (i + 1) k = entry_msgs rf (i + 1) k" by (simp add: entry_msgs_def)
  ultimately show ?case
    using apply_run_add [of 2 "2 * k" rf] by (simp add: entry_msgs_Suc ac_simps)
qed

lemma apply_pass:
  assumes "apply_pc rf = ACheck" and "\<not> bufferWriteDone rf" and "lastSnapshotIndex rf \<le> lastApplied rf"
    and "commitIndex rf = lastApplied rf + int k" and "0 < k" and "commitIndex rf \<le> GetLastIndex rf"
  shows "apply_run (2 * k + 3) rf =
    Inr (rf\<lparr>applyCh := applyCh rf @ entry_msgs rf (lastApplied rf + 1) k, lastApplied := commitIndex rf, apply_pc := ALoop\<rparr>)"
proof -
  let ?rf1 = "rf\<lparr>apply_pc := ASend (lastApplied rf + 1)\<rparr>"
  let ?rf2 = "?rf1\<lparr>applyCh := applyCh ?rf1 @ entry_msgs ?rf1 (lastApplied rf + 1) k, apply_pc := ASend (lastApplied rf + 1 + int k)\<rparr>"
  have r1: "apply_run 1 rf = Inr ?rf1"
    using assms by (simp add: applyLogEntry_step_def apply_entries_def ToLogIndex_def GetLastIndex_def Let_def)
  have r2: "apply_run (2 * k) ?rf1 = Inr ?rf2"
    by (rule apply_send_loop) (use assms in \<open>simp_all add: GetLastIndex_def\<close>)
  have r3: "apply_run 2 ?rf2 = Inr (rf\<lparr>applyCh := applyCh rf @ entry_msgs rf (lastApplied rf + 1) k,
      lastApplied := commitIndex rf, apply_pc := ALoop\<rparr>)"
    using assms by (simp add: numeral_2_eq_2 applyLogEntry_step_def entry_msgs_def)
  have "2 * k + 3 = 1 + (2 * k + 2)" by simp
  then show ?thesis by (simp only: apply_run_add r1 r2 r3 go_bind_Inr)
qed

lemma InstallSnapshot_total:
  assumes "log rf \<noteq> []" and "0 \<le> Offset args"
  obtains reply rf' where "InstallSnapshot zero args rf = Inr (reply, rf')"
proof (cases "isa_Term args < currentTerm rf \<or> LastIncludedIndex args < lastSnapshotIndex rf")
  case True
  then show thesis using that by (simp add: InstallSnapshot_def)
next
  case False
  let ?rf = "sendToChannel HeartbeatCh (step_down (isa_Term args) rf)"
  have sd: "(if isa_Term args > currentTerm rf then (convertToFollower (isa_Term args) rf, True) else (rf, False)) =
            (step_down (isa_Term args) rf, isa_Term args > currentTerm rf)"
    by (simp add: step_down_def)
  obtain buf where buf: "WriteSnapshot (snapshotBuffer ?rf) (Data args) (Offset args) zero = Inr buf"
    by (rule exE [OF WriteSnapshot_ok [OF assms(2)]])
  let ?rf2 = "?rf\<lparr>snapshotBuffer := Some buf\<rparr>"
  have nth: "go_nth (log ?rf2) 0 = Inr (hd (log rf))" using assms(1) by (cases "log rf") simp_all
  obtain lg where lg: "install_log args (?rf2\<lparr>bufferWriteDone := True\<rparr>) = Inr lg"
    using install_log_ok [of "?rf2\<lparr>bufferWriteDone := True\<rparr>" args] assms(1) False by auto
  have "\<exists>reply rf'. InstallSnapshot zero args rf = Inr (reply, rf')"
    using False unfolding InstallSnapshot_def sd Let_def prod.case buf go_bind_Inr nth
    by (simp add: lg)
  then show thesis using that by blast
qed

end
