(* ===== verification/RaftPeer.thy ===== *)
theory RaftPeer
  imports RaftProps
begin

text \<open>
  What one peer guarantees, whatever its environment does (\<open>peer_life\<close>: any requests, replies,
  timeouts, calls of the service and restarts, in any order): the theorems about the handlers of
  \<open>src/raft1\<close> that need no other peer.
\<close>

section \<open>Persistence and votes\<close>

text \<open>C24: whenever a peer is stopped, a peer made on a copy of its persister continues with the same
  term, vote, log and snapshot index, as a follower that has applied nothing past its snapshot.\<close>
theorem restart_recovers_state:
  assumes "peer_life zero n self rf" and "0 \<le> self" and "rf' = Make n self (Persister_Copy (persister rf))"
  shows "currentTerm rf' = currentTerm rf \<and> votedFor rf' = votedFor rf \<and> log rf' = log rf \<and>
    lastSnapshotIndex rf' = lastSnapshotIndex rf \<and> GetLastIndex rf' = GetLastIndex rf \<and>
    state rf' = Follower \<and> commitIndex rf' = lastSnapshotIndex rf \<and> lastApplied rf' = lastSnapshotIndex rf \<and>
    ReadSnapshot (persister rf') = ReadSnapshot (persister rf)"
proof -
  note wf = wf_raftD [OF peer_life_wf [OF assms(1,2)]]
  show ?thesis
    using Make_fields [OF wf(4,1), of "Persister_Copy (persister rf)" n self] by (simp add: assms(3) GetLastIndex_def)
qed

theorem restart_recovers_state_witness:
  "\<exists>rf rf'. peer_life (0 :: nat) 3 1 (rf :: (nat, nat) Raft) \<and> currentTerm rf = 1 \<and> votedFor rf = 1 \<and>
     rf' = Make 3 1 (Persister_Copy (persister rf)) \<and> currentTerm rf' = 1 \<and> votedFor rf' = 1 \<and> state rf' = Follower"
proof -
  let ?m = "Make 3 1 MakePersister :: (nat, nat) Raft"
  obtain calls rf where c: "convertToCandidate (?m\<lparr>ticker_pc := TCandidate\<rparr>) = Inr (calls, rf)"
    "currentTerm rf = 1" "votedFor rf = 1"
    using convertToCandidate_eq [of "?m\<lparr>ticker_pc := TCandidate\<rparr>"] by (simp add: Make_fresh)
  have "peer_step (0 :: nat) ?m (?m\<lparr>ticker_pc := TSelect Follower\<rparr>)"
    by (rule peer_step.tick [where timeout = False]) (simp add: ticker_step_def Make_fresh killed_def Make_def readPersist_def ReadRaftState_def MakePersister_def)
  moreover have "peer_step (0 :: nat) (?m\<lparr>ticker_pc := TSelect Follower\<rparr>) (?m\<lparr>ticker_pc := TCandidate\<rparr>)"
    by (rule peer_step.tick [where timeout = True]) (simp add: ticker_step_def)
  moreover have "peer_step (0 :: nat) (?m\<lparr>ticker_pc := TCandidate\<rparr>) (rf\<lparr>ticker_pc := TLoop\<rparr>)"
    by (rule peer_step.tick [where timeout = False]) (simp add: ticker_step_def c)
  ultimately have "peer_life (0 :: nat) 3 1 (rf\<lparr>ticker_pc := TLoop\<rparr>)"
    using peer_life.fresh [of 0 3 1] by (blast intro: peer_life.step)
  then show ?thesis
    using restart_recovers_state [OF _ _ refl, of 0 3 1 "rf\<lparr>ticker_pc := TLoop\<rparr>"] c by fastforce
qed

text \<open>A peer's term never decreases and within a term its vote, once given, is never changed or
  withdrawn, across every operation and across restarts from its persister.\<close>
theorem vote_is_final:
  assumes "peer_life zero n self rf" and "0 \<le> self"
    and "peer_step zero rf rf' \<or> rf' = Make n self (Persister_Copy (persister rf))"
  shows "currentTerm rf \<le> currentTerm rf' \<and>
    (currentTerm rf' = currentTerm rf \<longrightarrow> votedFor rf \<noteq> - 1 \<longrightarrow> votedFor rf' = votedFor rf)"
  using assms(3)
proof
  assume "peer_step zero rf rf'"
  then have "vote_le rf rf'"
    using peer_step_keeps peer_life_wf [OF assms(1,2)] by (metis (no_types))
  then show ?thesis by (auto simp: vote_le_def)
next
  note wf = wf_raftD [OF peer_life_wf [OF assms(1,2)]]
  assume "rf' = Make n self (Persister_Copy (persister rf))"
  then show ?thesis using Make_fields(1,2) [OF wf(4,1), of "Persister_Copy (persister rf)" n self] by simp
qed

theorem vote_is_final_witness:
  "currentTerm (Make 3 1 MakePersister :: (nat, nat) Raft) \<le> currentTerm (Kill (Make 3 1 MakePersister :: (nat, nat) Raft))"
  using vote_is_final [where rf = "Make 3 1 MakePersister :: (nat, nat) Raft",
      OF peer_life.fresh [of "0 :: nat" 3 1] _ disjI1 [OF peer_step.kill]] by simp

text \<open>\<open>RequestVote\<close> grants a vote exactly when the request's term is not older than the peer's,
  the peer has not voted for another candidate in that term, and the candidate's log is at least as
  up to date (last term first, then last index); a granted vote is persisted before the reply.\<close>
theorem RequestVote_grants:
  assumes "peer_life zero n self rf" and "0 \<le> self"
  shows "\<exists>reply rf'. RequestVote args rf = Inr (reply, rf') \<and>
    rvr_Term reply = currentTerm rf' \<and> currentTerm rf' = max (rva_Term args) (currentTerm rf) \<and>
    (VoteGranted reply \<longleftrightarrow> rva_Term args \<ge> currentTerm rf \<and>
       (rva_Term args > currentTerm rf \<or> votedFor rf = - 1 \<or> votedFor rf = CandidateId args) \<and>
       (LastLogTerm args > Term (last (log rf)) \<or>
        LastLogTerm args = Term (last (log rf)) \<and> LastLogIndex args \<ge> GetLastIndex rf)) \<and>
    (VoteGranted reply \<longrightarrow> votedFor rf' = CandidateId args \<and>
       raftstate (persister rf') =
         [GobInt (rva_Term args), GobInt (CandidateId args), GobLog (log rf), GobInt (lastSnapshotIndex rf)])"
proof -
  note wf = wf_raftD [OF peer_life_wf [OF assms]]
  show ?thesis
    using RequestVote_eq [OF wf(1), of args]
    by (cases "rva_Term args < currentTerm rf"; cases "grants args rf")
      (auto simp: grants_def up_to_date_def max_def)
qed

theorem RequestVote_grants_witness:
  "\<exists>reply rf'. RequestVote \<lparr>rva_Term = 1, CandidateId = 2, LastLogIndex = 0, LastLogTerm = 0\<rparr>
      (Make 3 1 MakePersister :: (nat, nat) Raft) = Inr (reply, rf') \<and> VoteGranted reply \<and> votedFor rf' = 2"
  using RequestVote_grants [OF peer_life.fresh [of "0 :: nat" 3 1],
      of "\<lparr>rva_Term = 1, CandidateId = 2, LastLogIndex = 0, LastLogTerm = 0\<rparr>"]
  by (auto simp: Make_fresh GetLastIndex_def)



section \<open>Replication\<close>

text \<open>C26: after a successful \<open>AppendEntries\<close> the follower's log is its old log up to and with
  \<open>PrevLogIndex\<close>, followed by exactly as many entries as the request carries, with the request's
  terms; the term at \<open>PrevLogIndex\<close> is the request's \<open>PrevLogTerm\<close>; the reply names the next index,
  and the commit index never passes the leader's or the end of the log when it moves.\<close>
theorem AppendEntries_log:
  assumes "AppendEntries args rf = Inr (reply, rf')" and "Success reply"
  defines "p \<equiv> nat (PrevLogIndex args - lastSnapshotIndex rf)"
  shows "p < length (log rf) \<and> Term (log rf ! p) = PrevLogTerm args \<and>
    take (p + 1) (log rf') = take (p + 1) (log rf) \<and>
    map Term (log rf') = map Term (take (p + 1) (log rf)) @ map Term (Entries args) \<and>
    XIndex reply = PrevLogIndex args + go_len (Entries args) + 1 \<and> XIndex reply = GetLastIndex rf' + 1 \<and>
    (commitIndex rf' \<noteq> commitIndex rf \<longrightarrow> commitIndex rf' \<le> LeaderCommit args \<and> commitIndex rf' \<le> GetLastIndex rf')"
proof -
  obtain rf1 where rf1: "rf1 = sendToChannel HeartbeatCh (step_down (aea_Term args) rf)"
    and rej: "AppendEntries_reject args rf1 = Inr None"
    and reply: "reply = \<lparr>aer_Term = aea_Term args, XIndex = lastSnapshotIndex rf + go_len (merge_log args rf1),
              XTerm = - 1, Success = True\<rparr>"
    and rf': "rf' = deferred_persist (aea_Term args > currentTerm rf \<or> merge_changed args rf1) (accept_state args rf1)"
    using assms(1,2) by (rule AppendEntries_success)
  have f: "log rf1 = log rf" "lastSnapshotIndex rf1 = lastSnapshotIndex rf" "commitIndex rf1 = commitIndex rf"
    by (simp_all add: rf1)
  note n = AppendEntries_reject_None [OF rej] and m = merge_log_terms [OF rej]
  have "commitIndex rf' \<noteq> commitIndex rf \<longrightarrow> commitIndex rf' \<le> LeaderCommit args \<and> commitIndex rf' \<le> GetLastIndex rf'"
    by (auto simp: rf' accept_state_commit f GetLastIndex_def)
  then show ?thesis
    using n m by (auto simp: f p_def rf' reply GetLastIndex_def)
qed

definition follower_example :: "(nat, nat) Raft" where
  "follower_example = (Make 3 1 MakePersister)\<lparr>log := [nilEntry 0, \<lparr>Term = 1, Command = Some 7\<rparr>], currentTerm := 1\<rparr>"

definition append_example :: "nat AppendEntryArgs" where
  "append_example = \<lparr>aea_Term = 1, aea_LeaderId = 0, PrevLogIndex = 1, PrevLogTerm = 1,
     Entries = [\<lparr>Term = 1, Command = Some 8\<rparr>, \<lparr>Term = 1, Command = Some 9\<rparr>], LeaderCommit = 0\<rparr>"

lemma append_example_accepted:
  "\<exists>reply rf'. AppendEntries append_example follower_example = Inr (reply, rf') \<and> Success reply"
  by (simp add: AppendEntries_def append_example_def follower_example_def AppendEntries_reject_def ToLogIndex_def
      GetLastIndex_def Make_fresh Let_def split: prod.split)

theorem AppendEntries_log_witness:
  "\<exists>reply rf'. AppendEntries append_example follower_example = Inr (reply, rf') \<and> Success reply \<and>
     map Term (log rf') = [0, 1, 1, 1] \<and> XIndex reply = 4"
proof -
  obtain reply rf' where r: "AppendEntries append_example follower_example = Inr (reply, rf')" "Success reply"
    using append_example_accepted by blast
  with AppendEntries_log [OF r] show ?thesis
    by (auto simp: append_example_def follower_example_def Make_fresh)
qed

text \<open>A request that carries fewer entries than one already accepted from the same leader (a
  delayed one) cuts off the entries that the follower had acknowledged: after it, the follower's
  last index is below the index it told the leader it had, although nothing conflicted.\<close>
theorem AppendEntries_forgets_acknowledged:
  assumes "AppendEntries args rf = Inr (reply, rf')" and "Success reply" and "k < length (Entries args)"
  shows "\<exists>reply2 rf2. AppendEntries (args\<lparr>Entries := take k (Entries args)\<rparr>) rf' = Inr (reply2, rf2) \<and>
    Success reply2 \<and> GetLastIndex rf2 = PrevLogIndex args + int k \<and>
    GetLastIndex rf2 < XIndex reply - 1"
proof -
  let ?args = "args\<lparr>Entries := take k (Entries args)\<rparr>"
  obtain rf1 where rf1: "rf1 = sendToChannel HeartbeatCh (step_down (aea_Term args) rf)"
    and le: "currentTerm rf \<le> aea_Term args" and rej: "AppendEntries_reject args rf1 = Inr None"
    and rf': "rf' = deferred_persist (aea_Term args > currentTerm rf \<or> merge_changed args rf1) (accept_state args rf1)"
    using assms(1,2) by (rule AppendEntries_success)
  note log = AppendEntries_log [OF assms(1,2)] and n = AppendEntries_reject_None [OF rej]
  define p where "p = nat (PrevLogIndex args - lastSnapshotIndex rf)"
  have f: "currentTerm rf' = aea_Term args" "lastSnapshotIndex rf' = lastSnapshotIndex rf"
    "lastSnapshotIndex rf1 = lastSnapshotIndex rf" using le by (simp_all add: rf' rf1 max_def)
  let ?rf1 = "sendToChannel HeartbeatCh (step_down (aea_Term ?args) rf')"
  have f1: "log ?rf1 = log rf'" "lastSnapshotIndex ?rf1 = lastSnapshotIndex rf" by (simp_all add: f)
  have len: "length (log rf') = p + 1 + length (Entries args)"
    by (simp add: rf' merge_log_terms(3) [OF rej] f p_def)
  have "log rf' ! p = log rf ! p" using log by (metis p_def less_add_one nth_take)
  then have nth: "Term (log rf' ! p) = PrevLogTerm args" using log by (simp add: p_def)
  have rej2: "AppendEntries_reject ?args ?rf1 = Inr None"
    using n(1) f len nth by (simp add: AppendEntries_reject_def GetLastIndex_def ToLogIndex_def f1 Let_def p_def)
  then obtain reply2 rf2 where ae: "AppendEntries ?args rf' = Inr (reply2, rf2)" "Success reply2"
    using AppendEntries_eq [of rf' ?args] f(1) by simp
  have "XIndex reply2 = PrevLogIndex args + int k + 1" "XIndex reply2 = GetLastIndex rf2 + 1"
    using AppendEntries_log [OF ae] assms(3) by simp_all
  with ae log assms(3) show ?thesis by auto
qed

theorem AppendEntries_forgets_acknowledged_witness:
  "\<exists>reply rf' reply2 rf2. AppendEntries append_example follower_example = Inr (reply, rf') \<and> Success reply \<and>
     AppendEntries (append_example\<lparr>Entries := take 1 (Entries append_example)\<rparr>) rf' = Inr (reply2, rf2) \<and>
     Success reply2 \<and> GetLastIndex rf2 = 2 \<and> GetLastIndex rf2 < XIndex reply - 1"
proof -
  obtain reply rf' where r: "AppendEntries append_example follower_example = Inr (reply, rf')" "Success reply"
    using append_example_accepted by blast
  from AppendEntries_forgets_acknowledged [OF r, of 1] r show ?thesis by (fastforce simp: append_example_def)
qed

text \<open>A leader moves its commit index only forward, to an entry of its own term that a majority
  of the peers is known to hold: it itself and the peers whose \<open>matchIndex\<close> reaches the entry.\<close>
theorem commit_needs_majority:
  assumes "0 \<le> me rf" and "me rf < int (peers rf)" and "1 < peers rf"
    and "lastSnapshotIndex rf \<le> commitIndex rf"
    and "sendAppendEntries outcomes server args rf = Inr rf'" and "commitIndex rf' \<noteq> commitIndex rf"
  shows "state rf = Leader \<and> commitIndex rf < commitIndex rf' \<and> commitIndex rf' \<le> GetLastIndex rf \<and>
    Term (log rf' ! nat (ToLogIndex (commitIndex rf') rf')) = currentTerm rf \<and>
    2 * card (replicated_on (commitIndex rf') rf') > peers rf"
  using assms(5)
proof (cases rule: sendAppendEntries_cases)
  case (progress reply ni mi)
  let ?rf = "rf\<lparr>nextIndex := ni, matchIndex := mi\<rparr>"
  have ne: "rf' \<noteq> ?rf" using assms(6) by auto
  obtain k where k: "k < length (log rf)" "ToLogIndex (commitIndex rf) rf < int k"
    "rf' = Signal (?rf\<lparr>commitIndex := lastSnapshotIndex rf + int k\<rparr>)" "Term (log rf ! k) = currentTerm rf"
    "int (card (replicated_on (lastSnapshotIndex rf + int k) ?rf)) > int (peers rf div 2)"
    using commit_loop_majority [OF progress(8) ne] assms(1-3) by auto
  have "replicated_on (commitIndex rf') rf' = replicated_on (lastSnapshotIndex rf + int k) ?rf"
    by (simp add: k(3) replicated_on_def)
  then show ?thesis
    using k assms(4) progress(2) by (auto simp: ToLogIndex_def GetLastIndex_def)
qed (use assms(6) in auto)

definition leader_example :: "(nat, nat) Raft" where
  "leader_example = (Make 3 0 MakePersister)\<lparr>log := [nilEntry 0, \<lparr>Term = 1, Command = Some 7\<rparr>], currentTerm := 1,
     state := Leader, nextIndex := [2, 1, 1], matchIndex := [0, 0, 0], lastSnapshotIndex := 0, commitIndex := 0\<rparr>"

definition append_reply_example :: AppendEntryReply where
  "append_reply_example = \<lparr>aer_Term = 1, XIndex = 2, XTerm = - 1, Success = True\<rparr>"

theorem commit_needs_majority_witness:
  "\<exists>rf'. sendAppendEntries [None, Some append_reply_example] 1 append_example leader_example = Inr rf' \<and>
     commitIndex rf' = 1 \<and> 2 * card (replicated_on (commitIndex rf') rf') > peers leader_example"
proof -
  let ?rf = "leader_example\<lparr>nextIndex := [2, 2, 1], matchIndex := [0, 1, 0]\<rparr>"
  have others: "other_peers ?rf = [1, 2]"
    by (simp add: other_peers_def leader_example_def Make_fresh upt_rec)
  have "sendAppendEntries [None, Some append_reply_example] 1 append_example leader_example =
      commit_loop (ToLogIndex (commitIndex ?rf) ?rf) (length (log ?rf)) ?rf"
    by (simp add: sendAppendEntries_def update_indices_def append_reply_example_def append_example_def
        leader_example_def Make_fresh numeral_eq_Suc)
  also have "\<dots> = Inr (Signal (?rf\<lparr>commitIndex := 1\<rparr>))"
    using others by (simp add: leader_example_def Make_fresh ToLogIndex_def ToOriginalIndex_def)
  finally have eq: "sendAppendEntries [None, Some append_reply_example] 1 append_example leader_example =
      Inr (Signal (?rf\<lparr>commitIndex := 1\<rparr>))" .
  from commit_needs_majority [OF _ _ _ _ eq] eq show ?thesis
    by (simp add: leader_example_def Make_fresh)
qed

section \<open>Applying\<close>


definition apply_example :: "(nat, nat) Raft" where
  "apply_example = (Make 3 0 MakePersister)\<lparr>log := [nilEntry 0, \<lparr>Term = 1, Command = Some 7\<rparr>, \<lparr>Term = 1, Command = Some 8\<rparr>],
     currentTerm := 1, lastSnapshotIndex := 0, commitIndex := 2, lastApplied := 0, bufferWriteDone := False,
     applyCh := [], apply_pc := ACheck\<rparr>"


text \<open>C37: the applier never sleeps while there is work: if it waits on \<open>applyCond\<close>, everything
  committed is applied and no snapshot is pending (every operation that creates work signals).\<close>
theorem applier_waits_only_when_idle:
  assumes "peer_life zero n self rf" and "0 \<le> self" and "apply_pc rf = AWaiting"
  shows "commitIndex rf \<le> lastApplied rf \<and> \<not> bufferWriteDone rf"
  using wf_raftD(8) [OF peer_life_wf [OF assms(1,2)] assms(3)] .

theorem applier_waits_only_when_idle_witness:
  "\<exists>rf. peer_life (0 :: nat) 3 1 (rf :: (nat, nat) Raft) \<and> apply_pc rf = AWaiting \<and>
     commitIndex rf \<le> lastApplied rf \<and> \<not> bufferWriteDone rf"
proof -
  let ?m = "Make 3 1 MakePersister :: (nat, nat) Raft"
  have f: "killed ?m = False" "lastApplied ?m = 0" "commitIndex ?m = 0" "bufferWriteDone ?m = False"
    by (simp_all add: Make_def readPersist_def ReadRaftState_def MakePersister_def killed_def Let_def)
  have "peer_step (0 :: nat) ?m (?m\<lparr>apply_pc := ACheck\<rparr>)"
    by (rule peer_step.apply_step) (simp add: applyLogEntry_step_def Make_fresh f)
  moreover have "peer_step (0 :: nat) (?m\<lparr>apply_pc := ACheck\<rparr>) (?m\<lparr>apply_pc := AWaiting\<rparr>)"
    by (rule peer_step.apply_step) (simp add: applyLogEntry_step_def f)
  ultimately have "peer_life (0 :: nat) 3 1 (?m\<lparr>apply_pc := AWaiting\<rparr>)"
    using peer_life.fresh [of 0 3 1] by (blast intro: peer_life.step)
  with applier_waits_only_when_idle [OF this] show ?thesis by (intro exI) auto
qed

text \<open>The applier reads the log without the lock: an \<open>InstallSnapshot\<close> that arrives while it
  sends entries moves \<open>lastSnapshotIndex\<close> past the next one, and \<open>rf.log[-1]\<close> panics.\<close>
theorem applier_can_panic:
  "\<exists>(rf :: (nat, nat) Raft) args reply rf1 rf2.
     apply_run 3 rf = Inr rf1 \<and> InstallSnapshot 0 args rf1 = Inr (reply, rf2) \<and>
     apply_run 1 rf2 = Inl IndexOutOfRange"
proof -
  let ?args = "\<lparr>isa_Term = 1, isa_LeaderId = 1, LastIncludedIndex = 5, LastIncludedTerm = 1, Offset = 0,
    Data = [42], Done = True\<rparr>"
  let ?rf1 = "apply_example\<lparr>applyCh := [command_msg 1 (Some 7)], apply_pc := ASend 2\<rparr>"
  have r1: "apply_run 3 apply_example = Inr ?rf1"
    by (simp add: numeral_eq_Suc apply_example_def applyLogEntry_step_def apply_entries_def ToLogIndex_def Let_def)
  have l: "log ?rf1 \<noteq> []" by (simp add: apply_example_def)
  have off: "0 \<le> Offset ?args" by simp
  obtain reply rf2 where ins: "InstallSnapshot 0 ?args ?rf1 = Inr (reply, rf2)"
    by (rule InstallSnapshot_total [OF l off])
  have "lastSnapshotIndex rf2 = 5 \<and> apply_pc rf2 = ASend 2 \<and> commitIndex rf2 = 5"
    using ins by (auto simp: InstallSnapshot_def apply_example_def WriteSnapshot_def go_copy_def install_log_def
        ToLogIndex_def deferred_persist_buffer_def Signal_def go_bind_eq_Inr_iff Let_def split: if_splits)
  then have "apply_run 1 rf2 = Inl IndexOutOfRange"
    by (simp add: applyLogEntry_step_def ToLogIndex_def go_nth_def)
  with r1 ins show ?thesis by blast
qed

text \<open>The applier passes on every snapshot that \<open>InstallSnapshot\<close> accepts, also one that is behind what it
  has already applied, and does not set \<open>lastApplied\<close> back.  The service is restored to the older
  state and the commands in between, which the next one sent comes after, are lost to it.\<close>
theorem snapshot_rewinds_service:
  assumes "InstallSnapshot zero args rf = Inr (reply, rf')" and "log rf \<noteq> []" and "apply_pc rf = AWaiting"
    and "commitIndex rf \<le> lastApplied rf" and "Done args" and "currentTerm rf \<le> isa_Term args"
    and "lastSnapshotIndex rf < LastIncludedIndex args" and "LastIncludedIndex args < lastApplied rf"
  shows "\<exists>data t rf2. apply_run 4 rf' = Inr rf2 \<and> lastApplied rf2 = lastApplied rf \<and>
    applyCh rf2 = applyCh rf @ [snapshot_msg data (LastIncludedIndex args) t]"
proof -
  obtain buf lg where rf': "rf' = deferred_persist_buffer True (install_state args lg
      ((sendToChannel HeartbeatCh (step_down (isa_Term args) rf))\<lparr>snapshotBuffer := Some buf\<rparr>))" "lg \<noteq> []"
    using assms(1) by (cases rule: InstallSnapshot_cases) (use assms in auto)
  then have "log rf' \<noteq> []" "apply_pc rf' = ACheck" "snapshotBuffer rf' = Some buf" "bufferWriteDone rf'"
    "lastSnapshotIndex rf' = LastIncludedIndex args" "commitIndex rf' \<le> lastApplied rf'" "lastApplied rf' = lastApplied rf"
    "applyCh rf' = applyCh rf"
    using assms(3,4,8) by (auto simp: install_state_def) (simp add: Signal_def)
  moreover have "max (lastApplied rf) (LastIncludedIndex args) = lastApplied rf" using assms(8) by simp
  ultimately show ?thesis
    by (simp add: numeral_eq_Suc applyLogEntry_step_def apply_entries_def) blast
qed

theorem snapshot_rewinds_service_witness:
  "\<exists>reply rf' rf2 (data :: nat list) t. InstallSnapshot 0 \<lparr>isa_Term = 1, isa_LeaderId = 1, LastIncludedIndex = 1, LastIncludedTerm = 1,
       Offset = 0, Data = [42], Done = True\<rparr> (apply_example\<lparr>lastApplied := 2, apply_pc := AWaiting\<rparr>) = Inr (reply, rf') \<and>
     apply_run 4 rf' = Inr rf2 \<and> lastApplied rf2 = 2 \<and> applyCh rf2 = [snapshot_msg data 1 t]"
proof -
  let ?args = "\<lparr>isa_Term = 1, isa_LeaderId = 1, LastIncludedIndex = 1, LastIncludedTerm = 1, Offset = 0, Data = [42], Done = True\<rparr>"
  let ?rf = "apply_example\<lparr>lastApplied := 2, apply_pc := AWaiting\<rparr>"
  have f: "log ?rf \<noteq> []" "commitIndex ?rf \<le> 2" "currentTerm ?rf \<le> 1" "lastSnapshotIndex ?rf < 1" "applyCh ?rf = []"
    by (simp_all add: apply_example_def Make_fresh)
  have off: "0 \<le> Offset ?args" by simp
  obtain reply rf' where ins: "InstallSnapshot 0 ?args ?rf = Inr (reply, rf')" by (rule InstallSnapshot_total [OF f(1) off])
  from snapshot_rewinds_service [OF ins f(1)] f ins show ?thesis by fastforce
qed

section \<open>Snapshots\<close>

text \<open>The service's \<open>Snapshot\<close> at an index of the log drops exactly the entries up to that index:
  every later entry is found at the same original index as before, the last index is unchanged, the
  term of the snapshot's last entry is kept in slot 0, and snapshot and log are persisted together.\<close>
theorem Snapshot_trims_prefix:
  assumes "lastSnapshotIndex rf < index" and "index \<le> GetLastIndex rf"
  shows "\<exists>rf'. Raft_Snapshot index (Some snap) rf = Inr rf' \<and> lastSnapshotIndex rf' = index \<and>
    GetLastIndex rf' = GetLastIndex rf \<and> ReadSnapshot (persister rf') = snap \<and> persisted_ok rf' \<and>
    Term (log rf' ! 0) = Term (log rf ! nat (ToLogIndex index rf)) \<and>
    (\<forall>i. index < i \<and> i \<le> GetLastIndex rf \<longrightarrow>
       log rf' ! nat (ToLogIndex i rf') = log rf ! nat (ToLogIndex i rf))"
proof -
  define k where "k = nat (index - lastSnapshotIndex rf)"
  let ?lg = "drop k (log rf)"
  let ?rf' = "persist (Some snap) (rf\<lparr>lastSnapshotIndex := index, log := nilEntry (Term (hd ?lg)) # tl ?lg\<rparr>)"
  have k: "k < length (log rf)" "index = lastSnapshotIndex rf + int k" using assms by (auto simp: k_def GetLastIndex_def)
  have nth: "(nilEntry (Term (hd ?lg)) # tl ?lg) ! nat (i - index) = log rf ! nat (i - lastSnapshotIndex rf)"
    if i: "index < i" "i \<le> GetLastIndex rf" for i
  proof -
    obtain j where j: "i = index + 1 + int j" using i(1) zle_iff_zadd [of "index + 1" i] by auto
    then have "j + 1 + k < length (log rf)" using i(2) k(2) by (simp add: GetLastIndex_def)
    moreover have "nat (i - index) = Suc j" "nat (i - lastSnapshotIndex rf) = Suc j + k" using j k(2) by auto
    ultimately show ?thesis by (simp add: nth_tl add.commute)
  qed
  have "Raft_Snapshot index (Some snap) rf = Inr ?rf'"
    using Raft_Snapshot_eq [OF assms, of "Some snap"] by (simp add: k_def Let_def)
  moreover have "GetLastIndex ?rf' = GetLastIndex rf" using k by (simp add: GetLastIndex_def)
  moreover have "Term (log ?rf' ! 0) = Term (log rf ! nat (ToLogIndex index rf))"
    using k by (simp add: ToLogIndex_def hd_drop_conv_nth)
  moreover have "log ?rf' ! nat (ToLogIndex i ?rf') = log rf ! nat (ToLogIndex i rf)"
    if "index < i" "i \<le> GetLastIndex rf" for i
    using nth [OF that] that assms(1) by (simp add: ToLogIndex_def)
  ultimately show ?thesis by (intro exI [of _ ?rf']) (simp add: ReadSnapshot_def)
qed

theorem Snapshot_trims_prefix_witness:
  "\<exists>rf'. Raft_Snapshot 1 (Some [5]) apply_example = Inr rf' \<and> lastSnapshotIndex rf' = 1 \<and> GetLastIndex rf' = 2 \<and>
     ReadSnapshot (persister rf') = [5]"
proof -
  have f: "lastSnapshotIndex apply_example = 0" "GetLastIndex apply_example = 2"
    by (simp_all add: apply_example_def GetLastIndex_def)
  show ?thesis using Snapshot_trims_prefix [of apply_example 1 "[5]"] by (auto simp: f)
qed



end
