(* ===== verification/Rsm.thy ===== *)
theory Rsm
  imports Persist Rpc
begin

text \<open>
  The replicated state machine of \<open>src/kvraft1/rsm/rsm.go\<close>: the interface \<open>StateMachine\<close>, the
  goroutine \<open>Reader\<close> that applies what Raft delivers, and \<open>Submit\<close>, which starts a command and waits
  for its reply on a channel that \<open>Reader\<close> finds under the command's index.

  The interface is a record of functions, and the laws it promises to \<open>Reader\<close> are the locale
  \<open>state_machine\<close>, which the servers of \<open>kvraft1\<close>, \<open>shardkv1/shardgrp\<close> and \<open>kvraft1/rsm/server.go\<close>
  are shown to satisfy.  \<open>view\<close> is the part of a server that is replicated: identifiers and the
  \<open>dead\<close> flag are not.  A channel is a buffer of capacity one with a \<open>closed\<close> flag, named by a
  number, so that two goroutines may hold the same channel after it left \<open>appliedChs\<close>.
\<close>

section \<open>The interface\<close>

record ('s, 'q, 'p, 'g) StateMachine =
  DoOp :: "'q \<Rightarrow> 's \<Rightarrow> ('p \<times> 's) go"
  Snapshot :: "'s \<Rightarrow> 'g list"
  Restore :: "'g list \<Rightarrow> 's \<Rightarrow> 's go"

text \<open>What a server does with a sequence of requests, and the replies it gives.\<close>

fun do_ops :: "('q \<Rightarrow> 's \<Rightarrow> ('p \<times> 's) go) \<Rightarrow> 'q list \<Rightarrow> 's \<Rightarrow> ('p list \<times> 's) go" where
  "do_ops f [] s = Inr ([], s)"
| "do_ops f (q # qs) s =
     go_bind (f q s) (\<lambda>(p, s). go_bind (do_ops f qs s) (\<lambda>(ps, s). Inr (p # ps, s)))"

lemma do_ops_append:
  "do_ops f (qs @ rs) s =
   go_bind (do_ops f qs s) (\<lambda>(ps, s). go_bind (do_ops f rs s) (\<lambda>(ps', s). Inr (ps @ ps', s)))"
proof (induction qs arbitrary: s)
  case Nil
  then show ?case by (cases "do_ops f rs s") auto
next
  case (Cons q qs)
  show ?case
  proof (cases "f q s")
    case (Inr r)
    then show ?thesis
      by (cases "do_ops f qs (snd r)") (auto simp: Cons split: prod.splits sum.splits simp: go_bind_def)
  qed simp
qed

locale state_machine =
  fixes m :: "('s, 'q, 'p, 'g) StateMachine" and view :: "'s \<Rightarrow> 'v"
  assumes DoOp_view: "view s = view t \<Longrightarrow> DoOp m q s = Inr (p, s') \<Longrightarrow>
      \<exists>t'. DoOp m q t = Inr (p, t') \<and> view t' = view s'"
    and Restore_Snapshot: "\<exists>t'. Restore m (Snapshot m s) t = Inr t' \<and> view t' = view s"
begin

text \<open>Servers with the same replicated state stay equal and give the same replies.\<close>

lemma do_ops_view:
  assumes "view s = view t" and "do_ops (DoOp m) qs s = Inr (ps, s')"
  shows "\<exists>t'. do_ops (DoOp m) qs t = Inr (ps, t') \<and> view t' = view s'"
  using assms
proof (induction qs arbitrary: s t ps)
  case (Cons q qs)
  then obtain p s1 ps1 where 1: "DoOp m q s = Inr (p, s1)" "do_ops (DoOp m) qs s1 = Inr (ps1, s')" "ps = p # ps1"
    by (auto simp: go_bind_eq_Inr_iff)
  obtain t1 where t1: "DoOp m q t = Inr (p, t1)" "view t1 = view s1" using DoOp_view [OF Cons.prems(1) 1(1)] by blast
  obtain t' where "do_ops (DoOp m) qs t1 = Inr (ps1, t')" "view t' = view s'" using Cons.IH [OF t1(2) [symmetric] 1(2)] by blast
  with 1 t1 show ?case by simp
qed simp

text \<open>A server restored from a snapshot of a prefix and given the rest is where the others are.\<close>

lemma snapshot_catches_up:
  assumes "do_ops (DoOp m) qs s = Inr (ps, s1)" and "do_ops (DoOp m) rs s1 = Inr (ps', s2)"
  shows "\<exists>t1 t2. Restore m (Snapshot m s1) t = Inr t1 \<and> do_ops (DoOp m) rs t1 = Inr (ps', t2) \<and> view t2 = view s2"
proof -
  obtain t1 where t1: "Restore m (Snapshot m s1) t = Inr t1" "view t1 = view s1" using Restore_Snapshot by blast
  from do_ops_view [OF t1(2) [symmetric] assms(2)] t1(1) show ?thesis by blast
qed

end

section \<open>Channels\<close>

record 'p rsm_chan =
  buf :: "'p list"
  closed :: bool

record 'q Op =
  Req :: 'q
  SubmitId :: int

datatype 'p reader_pc =
    RNext          \<comment> \<open>at \<open>range rsm.applyCh\<close>\<close>
  | RSend nat 'p   \<comment> \<open>at \<open>ch <- rep\<close>\<close>

record ('s, 'p) RSM =
  rsm_me :: int
  maxraftstate :: int
  sm :: 's
  appliedChs :: "int \<rightharpoonup> nat"
  lastSnapshot :: int
  chans :: "nat \<Rightarrow> 'p rsm_chan"
  nchans :: nat
  reader :: "'p reader_pc"

definition MakeRSM :: "int \<Rightarrow> int \<Rightarrow> 's \<Rightarrow> ('s, 'p) RSM" where
  "MakeRSM self maxrs s = \<lparr>rsm_me = self, maxraftstate = maxrs, sm = s, appliedChs = Map.empty, lastSnapshot = 0,
     chans = (\<lambda>_. \<lparr>buf = [], closed = False\<rparr>), nchans = 0, reader = RNext\<rparr>"

definition getChannel :: "int \<Rightarrow> ('s, 'p) RSM \<Rightarrow> nat \<times> bool \<times> ('s, 'p) RSM" where
  "getChannel index rsm =
     (case appliedChs rsm index of
        Some ch \<Rightarrow> (ch, True, rsm)
      | None \<Rightarrow> (nchans rsm, False,
          rsm\<lparr>appliedChs := (appliedChs rsm)(index \<mapsto> nchans rsm),
              chans := (chans rsm)(nchans rsm := \<lparr>buf = [], closed = False\<rparr>), nchans := nchans rsm + 1\<rparr>))"

text \<open>\<open>close(ch); delete(rsm.appliedChs, index)\<close>\<close>

definition close_delete :: "int \<Rightarrow> nat \<Rightarrow> ('s, 'p) RSM \<Rightarrow> ('s, 'p) RSM go" where
  "close_delete index ch rsm =
     (if closed (chans rsm ch) then Inl CloseOfClosedChannel
      else Inr (rsm\<lparr>chans := (chans rsm)(ch := (chans rsm ch)\<lparr>closed := True\<rparr>),
                    appliedChs := (appliedChs rsm)(index := None)\<rparr>))"

section \<open>The reader\<close>

text \<open>The body of \<open>Reader\<close> for one message, up to the send; the snapshot handed to Raft, if any.\<close>

definition Reader_msg ::
  "('s, 'q, 'p, 'g) StateMachine \<Rightarrow> ('q Op, 'g) ApplyMsg \<Rightarrow> ('s, 'p) RSM \<Rightarrow> ((int \<times> 'g list) option \<times> ('s, 'p) RSM) go" where
  "Reader_msg m msg rsm =
     (if CommandValid msg then
        (case am_Command msg of
           None \<Rightarrow> Inl TypeAssertion
         | Some op \<Rightarrow>
             (let index = CommandIndex msg
              in go_bind (DoOp m (Req op) (sm rsm)) (\<lambda>(rep, s).
                 let rsm = rsm\<lparr>sm := s\<rparr>;
                     (snap, rsm) = (if index - lastSnapshot rsm \<ge> maxraftstate rsm
                                    then (Some (index, Snapshot m s), rsm\<lparr>lastSnapshot := index\<rparr>)
                                    else (None, rsm))
                 in if SubmitId op \<noteq> rsm_me rsm then Inr (snap, rsm)
                    else (let (ch, exists, rsm) = getChannel index rsm
                          in if \<not> exists then go_bind (close_delete index ch rsm) (\<lambda>rsm. Inr (snap, rsm))
                             else Inr (snap, rsm\<lparr>reader := RSend ch rep\<rparr>)))))
      else if SnapshotValid msg then go_bind (Restore m (am_Snapshot msg) (sm rsm)) (\<lambda>s. Inr (None, rsm\<lparr>sm := s\<rparr>))
      else Inl (LogFatal ''InValid apply message''))"

text \<open>\<open>ch <- rep\<close>: blocked while the buffer is full.\<close>

definition Reader_send :: "('s, 'p) RSM \<Rightarrow> ('s, 'p) RSM go" where
  "Reader_send rsm =
     (case reader rsm of
        RNext \<Rightarrow> Inr rsm
      | RSend ch rep \<Rightarrow>
          (if closed (chans rsm ch) then Inl SendOnClosedChannel
           else if length (buf (chans rsm ch)) \<ge> 1 then Inr rsm
           else Inr (rsm\<lparr>chans := (chans rsm)(ch := (chans rsm ch)\<lparr>buf := buf (chans rsm ch) @ [rep]\<rparr>), reader := RNext\<rparr>)))"

section \<open>Submitting\<close>

text \<open>
  \<open>Submit\<close> after \<open>rsm.rf.Start(op)\<close> returned \<open>index\<close> and \<open>isLeader\<close>: the channel it waits on, or an
  immediate \<open>ErrWrongLeader\<close>.
\<close>

definition Submit_op :: "'q \<Rightarrow> ('s, 'p) RSM \<Rightarrow> 'q Op" where
  "Submit_op req rsm = \<lparr>Req = req, SubmitId = rsm_me rsm\<rparr>"

definition Submit_started :: "int \<Rightarrow> bool \<Rightarrow> ('s, 'p) RSM \<Rightarrow> nat option \<times> ('s, 'p) RSM" where
  "Submit_started index isLeader rsm =
     (if isLeader then (let (ch, _, rsm) = getChannel index rsm in (Some ch, rsm)) else (None, rsm))"

text \<open>
  \<open>case rep := <-ch\<close>: the reply, or nil from a closed and drained channel; \<open>None\<close> while the channel is
  empty.  The deferred function then closes the channel and forgets the index.
\<close>

definition Submit_receive :: "int \<Rightarrow> nat \<Rightarrow> ('s, 'p) RSM \<Rightarrow> ((Err \<times> 'p option) \<times> ('s, 'p) RSM) go option" where
  "Submit_receive index ch rsm =
     (case buf (chans rsm ch) of
        rep # rest \<Rightarrow>
          Some (go_bind (close_delete index ch
                  (rsm\<lparr>chans := (chans rsm)(ch := (chans rsm ch)\<lparr>buf := rest\<rparr>)\<rparr>)) (\<lambda>rsm. Inr ((OK, Some rep), rsm)))
      | [] \<Rightarrow>
          if closed (chans rsm ch)
          then Some (go_bind (close_delete index ch rsm) (\<lambda>rsm. Inr ((OK, None), rsm)))
          else None)"

text \<open>The tick every 500 ms that finds the server no longer leader, or the end of the 5 seconds.\<close>

definition Submit_giveup :: "int \<Rightarrow> nat \<Rightarrow> ('s, 'p) RSM \<Rightarrow> ((Err \<times> 'p option) \<times> ('s, 'p) RSM) go" where
  "Submit_giveup index ch rsm = go_bind (close_delete index ch rsm) (\<lambda>rsm. Inr ((ErrWrongLeader, None), rsm))"

section \<open>Submissions in flight\<close>

text \<open>
  The server with the submissions that wait, the commands applied so far with the replies they
  gave, and the results returned.
\<close>

record ('s, 'q, 'p) rsm_sys =
  rsm_of :: "('s, 'p) RSM"
  applied :: "(int \<times> 'q Op \<times> 'p) list"
  waiting :: "(int \<times> nat) list"
  returned :: "(int \<times> Err \<times> 'p option) list"

definition rsm_init :: "int \<Rightarrow> int \<Rightarrow> 's \<Rightarrow> ('s, 'q, 'p) rsm_sys" where
  "rsm_init self maxrs s = \<lparr>rsm_of = MakeRSM self maxrs s, applied = [], waiting = [], returned = []\<rparr>"

inductive rsm_step :: "('s, 'q, 'p, 'g) StateMachine \<Rightarrow> ('s, 'q, 'p) rsm_sys \<Rightarrow> ('s, 'q, 'p) rsm_sys \<Rightarrow> bool"
  for m :: "('s, 'q, 'p, 'g) StateMachine" where
  command: "reader (rsm_of s) = RNext \<Longrightarrow> CommandValid msg \<Longrightarrow> am_Command msg = Some op \<Longrightarrow>
     DoOp m (Req op) (sm (rsm_of s)) = Inr (rep, st) \<Longrightarrow> Reader_msg m msg (rsm_of s) = Inr (snap, r) \<Longrightarrow>
     rsm_step m s (s\<lparr>rsm_of := r, applied := applied s @ [(CommandIndex msg, op, rep)]\<rparr>)"
| snapshot: "reader (rsm_of s) = RNext \<Longrightarrow> \<not> CommandValid msg \<Longrightarrow> Reader_msg m msg (rsm_of s) = Inr (snap, r) \<Longrightarrow>
     rsm_step m s (s\<lparr>rsm_of := r\<rparr>)"
| send: "Reader_send (rsm_of s) = Inr r \<Longrightarrow> rsm_step m s (s\<lparr>rsm_of := r\<rparr>)"
| submit: "Submit_started index True (rsm_of s) = (Some ch, r) \<Longrightarrow>
     rsm_step m s (s\<lparr>rsm_of := r, waiting := (index, ch) # waiting s\<rparr>)"
| receive: "(index, ch) \<in> set (waiting s) \<Longrightarrow> Submit_receive index ch (rsm_of s) = Some (Inr (res, r)) \<Longrightarrow>
     rsm_step m s (s\<lparr>rsm_of := r, waiting := remove1 (index, ch) (waiting s), returned := (index, res) # returned s\<rparr>)"
| giveup: "(index, ch) \<in> set (waiting s) \<Longrightarrow> Submit_giveup index ch (rsm_of s) = Inr (res, r) \<Longrightarrow>
     rsm_step m s (s\<lparr>rsm_of := r, waiting := remove1 (index, ch) (waiting s), returned := (index, res) # returned s\<rparr>)"

inductive rsm_reachable :: "('s, 'q, 'p, 'g) StateMachine \<Rightarrow> int \<Rightarrow> int \<Rightarrow> 's \<Rightarrow> ('s, 'q, 'p) rsm_sys \<Rightarrow> bool"
  for m :: "('s, 'q, 'p, 'g) StateMachine" and self maxrs :: int and s0 :: 's where
  init: "rsm_reachable m self maxrs s0 (rsm_init self maxrs s0)"
| step: "rsm_reachable m self maxrs s0 s \<Longrightarrow> rsm_step m s t \<Longrightarrow> rsm_reachable m self maxrs s0 t"

text \<open>\<open>rep\<close> is what the command at \<open>index\<close>, submitted by this server, gave when it was applied.\<close>

definition answer_of :: "('s, 'q, 'p) rsm_sys \<Rightarrow> int \<Rightarrow> 'p \<Rightarrow> bool" where
  "answer_of s index rep \<longleftrightarrow> (\<exists>op. (index, op, rep) \<in> set (applied s) \<and> SubmitId op = rsm_me (rsm_of s))"

text \<open>Each channel belongs to one index, and holds only answers of that index.\<close>

definition chan_inv :: "int \<Rightarrow> (nat \<Rightarrow> int) \<Rightarrow> ('s, 'q, 'p) rsm_sys \<Rightarrow> bool" where
  "chan_inv self idx s \<longleftrightarrow> rsm_me (rsm_of s) = self \<and>
     (\<forall>i ch. appliedChs (rsm_of s) i = Some ch \<longrightarrow> idx ch = i \<and> ch < nchans (rsm_of s)) \<and>
     (\<forall>i ch. (i, ch) \<in> set (waiting s) \<longrightarrow> idx ch = i \<and> ch < nchans (rsm_of s)) \<and>
     (\<forall>ch rep. rep \<in> set (buf (chans (rsm_of s) ch)) \<longrightarrow> answer_of s (idx ch) rep) \<and>
     (\<forall>ch rep. reader (rsm_of s) = RSend ch rep \<longrightarrow> answer_of s (idx ch) rep \<and> ch < nchans (rsm_of s)) \<and>
     (\<forall>i rep. (i, OK, Some rep) \<in> set (returned s) \<longrightarrow> answer_of s i rep)"

lemma getChannel_new:
  "appliedChs r index = None \<Longrightarrow> getChannel index r = (nchans r, False,
     r\<lparr>appliedChs := (appliedChs r)(index \<mapsto> nchans r),
       chans := (chans r)(nchans r := \<lparr>buf = [], closed = False\<rparr>), nchans := nchans r + 1\<rparr>)"
  by (simp add: getChannel_def)

lemma getChannel_old: "appliedChs r index = Some ch \<Longrightarrow> getChannel index r = (ch, True, r)"
  by (simp add: getChannel_def)

lemma close_delete_Inr:
  "close_delete index ch r = Inr r' \<longleftrightarrow> \<not> closed (chans r ch) \<and>
     r' = r\<lparr>chans := (chans r)(ch := (chans r ch)\<lparr>closed := True\<rparr>), appliedChs := (appliedChs r)(index := None)\<rparr>"
  by (auto simp: close_delete_def)

text \<open>What \<open>Reader\<close> leaves behind after a command: nothing new on the channels, or a pending send
  on the channel of the command's index.\<close>

lemma Reader_command_cases:
  assumes "CommandValid msg" and "am_Command msg = Some op" and "DoOp m (Req op) (sm r) = Inr (rep, st)"
    and "Reader_msg m msg r = Inr (snap, r')"
  obtains (other) ls where "r' = r\<lparr>sm := st, lastSnapshot := ls\<rparr>"
  | (unknown) ls where "r' = r\<lparr>sm := st, lastSnapshot := ls, nchans := nchans r + 1,
        chans := (chans r)(nchans r := \<lparr>buf = [], closed = True\<rparr>), appliedChs := (appliedChs r)(CommandIndex msg := None)\<rparr>"
  | (pending) ls ch where "SubmitId op = rsm_me r" "appliedChs r (CommandIndex msg) = Some ch"
        "r' = r\<lparr>sm := st, lastSnapshot := ls, reader := RSend ch rep\<rparr>"
proof -
  define ls where "ls = (if CommandIndex msg - lastSnapshot r \<ge> maxraftstate r then CommandIndex msg else lastSnapshot r)"
  define sn where "sn = (if CommandIndex msg - lastSnapshot r \<ge> maxraftstate r
    then Some (CommandIndex msg, Snapshot m st) else None)"
  let ?r = "r\<lparr>sm := st, lastSnapshot := ls\<rparr>"
  have keep: "r\<lparr>sm := st\<rparr> = r\<lparr>sm := st, lastSnapshot := lastSnapshot r\<rparr>" by (cases r) simp
  have eq: "Reader_msg m msg r =
     (if SubmitId op \<noteq> rsm_me r then Inr (sn, ?r)
      else (let (ch, exists, rsm) = getChannel (CommandIndex msg) ?r
            in if \<not> exists then go_bind (close_delete (CommandIndex msg) ch rsm) (\<lambda>rsm. Inr (sn, rsm))
               else Inr (sn, rsm\<lparr>reader := RSend ch rep\<rparr>)))"
    using assms(1-3)
    by (cases "CommandIndex msg - lastSnapshot r \<ge> maxraftstate r")
      (simp_all add: Reader_msg_def ls_def sn_def Let_def flip: keep split: prod.split)
  show thesis
  proof (cases "SubmitId op = rsm_me r")
    case False
    then show thesis using assms(4) eq other [of ls] by simp
  next
    case True
    show thesis
    proof (cases "appliedChs r (CommandIndex msg)")
      case (Some ch)
      then have "getChannel (CommandIndex msg) ?r = (ch, True, ?r)" by (simp add: getChannel_old)
      then show thesis using assms(4) eq True pending [OF True Some, of ls] by simp
    next
      case None
      then have "getChannel (CommandIndex msg) ?r = (nchans ?r, False,
          ?r\<lparr>appliedChs := (appliedChs ?r)(CommandIndex msg \<mapsto> nchans ?r),
          chans := (chans ?r)(nchans ?r := \<lparr>buf = [], closed = False\<rparr>), nchans := nchans ?r + 1\<rparr>)"
        by (simp add: getChannel_new)
      then show thesis
        using assms(4) eq True unknown [of ls] by (simp add: go_bind_eq_Inr_iff close_delete_Inr)
    qed
  qed
qed

text \<open>A receive that returns takes the buffered reply (a closed channel would be closed twice).\<close>

lemma Submit_receive_Inr:
  assumes "Submit_receive index ch r = Some (Inr (res, r'))"
  obtains rep rest where "buf (chans r ch) = rep # rest" "res = (OK, Some rep)"
    "r' = r\<lparr>chans := (chans r)(ch := \<lparr>buf = rest, closed = True\<rparr>), appliedChs := (appliedChs r)(index := None)\<rparr>"
proof (cases "buf (chans r ch)")
  case Nil
  then show thesis using assms by (auto simp: Submit_receive_def go_bind_eq_Inr_iff close_delete_Inr split: if_splits)
next
  case (Cons rep rest)
  have "(chans r ch)\<lparr>buf := rest, closed := True\<rparr> = \<lparr>buf = rest, closed = True\<rparr>" by (cases "chans r ch") simp
  note e = this
  show thesis
    using assms Cons by (intro that [OF Cons]) (auto simp: Submit_receive_def go_bind_eq_Inr_iff close_delete_Inr e)
qed

text \<open>A step keeps the answers there are.\<close>

lemma answer_of_mono:
  assumes "answer_of s i rep" and "set (applied s) \<subseteq> set (applied t)" and "rsm_me (rsm_of t) = rsm_me (rsm_of s)"
  shows "answer_of t i rep"
  using assms unfolding answer_of_def by (metis subsetD)

lemma chan_inv_step:
  assumes "rsm_step m s t" and "chan_inv self idx s"
  shows "\<exists>idx'. chan_inv self idx' t"
proof -
  note inv = assms(2) [unfolded chan_inv_def]
  from assms(1) show ?thesis
  proof cases
    case (command msg op rep st snap r)
    have new: "answer_of t (CommandIndex msg) rep" if "SubmitId op = rsm_me (rsm_of s)" "rsm_me r = rsm_me (rsm_of s)"
      using that by (auto simp: command(1) answer_of_def)
    have mono: "answer_of t i q" if "answer_of s i q" "rsm_me r = rsm_me (rsm_of s)" for i q
      by (rule answer_of_mono [OF that(1)]) (use that(2) in \<open>auto simp: command(1)\<close>)
    from command(3-6) show ?thesis
    proof (cases rule: Reader_command_cases)
      case (other ls)
      then show ?thesis
        using inv mono by (intro exI [of _ idx]) (auto simp: chan_inv_def command(1,2))
    next
      case (unknown ls)
      then show ?thesis
        using inv mono by (intro exI [of _ "idx(nchans (rsm_of s) := CommandIndex msg)"])
          (fastforce simp: chan_inv_def command(1,2) less_Suc_eq split: if_splits)
    next
      case (pending ls ch)
      then show ?thesis
        using inv mono new by (intro exI [of _ idx]) (auto simp: chan_inv_def command(1,2))
    qed
  next
    case (snapshot msg snap r)
    then obtain st where "r = (rsm_of s)\<lparr>sm := st\<rparr>"
      by (auto simp: Reader_msg_def go_bind_eq_Inr_iff split: if_splits)
    then show ?thesis
      using inv by (intro exI [of _ idx]) (auto simp: chan_inv_def snapshot(1) answer_of_def)
  next
    case (send r)
    then show ?thesis
      using inv by (intro exI [of _ idx])
        (auto simp: chan_inv_def Reader_send_def answer_of_def split: reader_pc.splits if_splits)
  next
    case (submit index ch r)
    show ?thesis
    proof (cases "appliedChs (rsm_of s) index")
      case (Some c)
      then show ?thesis
        using inv submit by (intro exI [of _ idx])
          (auto simp: chan_inv_def Submit_started_def getChannel_old answer_of_def)
    next
      case None
      then show ?thesis
        using inv submit by (intro exI [of _ "idx(nchans (rsm_of s) := index)"])
          (fastforce simp: chan_inv_def Submit_started_def getChannel_new answer_of_def less_Suc_eq split: if_splits)
    qed
  next
    case (receive index ch res r)
    from receive(3) obtain rep rest where b: "buf (chans (rsm_of s) ch) = rep # rest" "res = (OK, Some rep)"
      and r: "r = (rsm_of s)\<lparr>chans := (chans (rsm_of s))(ch := \<lparr>buf = rest, closed = True\<rparr>),
        appliedChs := (appliedChs (rsm_of s))(index := None)\<rparr>"
      by (rule Submit_receive_Inr)
    have "answer_of s (idx ch) rep" "idx ch = index" using inv b(1) receive(2) by (force, blast)
    then show ?thesis
      using inv b by (intro exI [of _ idx])
        (auto simp: chan_inv_def receive(1) r answer_of_def split: if_splits dest: set_remove1_subset [THEN subsetD])
  next
    case (giveup index ch res r)
    then have "res = (ErrWrongLeader, None)" "r = (rsm_of s)\<lparr>chans := (chans (rsm_of s))(ch := (chans (rsm_of s) ch)\<lparr>closed := True\<rparr>),
        appliedChs := (appliedChs (rsm_of s))(index := None)\<rparr>"
      by (auto simp: Submit_giveup_def go_bind_eq_Inr_iff close_delete_Inr)
    then show ?thesis
      using inv by (intro exI [of _ idx])
        (auto simp: chan_inv_def giveup(1) answer_of_def split: if_splits dest: set_remove1_subset [THEN subsetD])
  qed
qed

lemma chan_inv_reachable:
  assumes "rsm_reachable m self maxrs s0 s"
  shows "\<exists>idx. chan_inv self idx s"
  using assms
proof (induction rule: rsm_reachable.induct)
  case init
  show ?case by (intro exI [of _ "\<lambda>_. 0"]) (simp add: chan_inv_def rsm_init_def MakeRSM_def)
next
  case (step s t)
  then show ?case using chan_inv_step by blast
qed

section \<open>The counter of \<open>kvraft1/rsm/server.go\<close>\<close>

datatype rsm_req = Inc | Null | Dec

datatype rsm_rep = IncRep int | NullRep

record rsmSrv =
  rs_me :: int
  counter :: int

definition rsmSrv_DoOp :: "rsm_req \<Rightarrow> rsmSrv \<Rightarrow> (rsm_rep \<times> rsmSrv) go" where
  "rsmSrv_DoOp req rs =
     (case req of
        Inc \<Rightarrow> (let rs = rs\<lparr>counter := counter rs + 1\<rparr> in Inr (IncRep (counter rs), rs))
      | Null \<Rightarrow> Inr (NullRep, rs)
      | Dec \<Rightarrow> Inl (LogFatal ''DoOp should execute only Inc''))"

definition rsmSrv_Snapshot :: "rsmSrv \<Rightarrow> unit gob_buffer" where
  "rsmSrv_Snapshot rs = EncodeInt (counter rs) []"

definition rsmSrv_Restore :: "unit gob_buffer \<Rightarrow> rsmSrv \<Rightarrow> rsmSrv go" where
  "rsmSrv_Restore data rs =
     (if length data < 1 then Inr rs
      else case DecodeInt data of
             Some (c, r) \<Rightarrow> Inr (rs\<lparr>counter := c\<rparr>)
           | None \<Rightarrow> Inl (LogFatal ''couldn't decode counter''))"

definition rsmSrv_sm :: "(rsmSrv, rsm_req, rsm_rep, unit gob_value) StateMachine" where
  "rsmSrv_sm = \<lparr>DoOp = rsmSrv_DoOp, Snapshot = rsmSrv_Snapshot, Restore = rsmSrv_Restore\<rparr>"

interpretation rsmsrv: state_machine rsmSrv_sm counter
proof unfold_locales
  fix s t :: rsmSrv and q p s'
  assume "counter s = counter t" and "DoOp rsmSrv_sm q s = Inr (p, s')"
  then show "\<exists>t'. DoOp rsmSrv_sm q t = Inr (p, t') \<and> counter t' = counter s'"
    by (cases q) (auto simp: rsmSrv_sm_def rsmSrv_DoOp_def Let_def)
qed (simp add: rsmSrv_sm_def rsmSrv_Snapshot_def rsmSrv_Restore_def EncodeInt_def)

text \<open>The test server with its pointer to the \<open>RSM\<close>, which \<open>Kill\<close> sets to nil; \<open>RSM\<close> and server share the state machine.\<close>

type_synonym rsm_server = "rsmSrv \<times> (rsmSrv, rsm_rep) RSM option"

definition makeRsmSrv :: "int \<Rightarrow> int \<Rightarrow> unit gob_buffer \<Rightarrow> rsm_server go" where
  "makeRsmSrv maxrs srv snap =
     go_bind (rsmSrv_Restore snap \<lparr>rs_me = srv, counter = 0\<rparr>) (\<lambda>s. Inr (s, Some (MakeRSM srv maxrs s)))"

definition rsmSrv_Kill :: "rsm_server \<Rightarrow> rsm_server" where
  "rsmSrv_Kill s = (fst s, None)"

definition rsmSrv_Raft :: "rsm_server \<Rightarrow> (rsmSrv, rsm_rep) RSM go" where
  "rsmSrv_Raft s = (case snd s of None \<Rightarrow> Inl (GoPanic ''nil pointer'') | Some r \<Rightarrow> Inr r)"

text \<open>A server made from the snapshot of another continues with its counter; a stopped one has no Raft.\<close>

lemma makeRsmSrv_restores:
  "\<exists>s r. makeRsmSrv maxrs srv (rsmSrv_Snapshot old) = Inr (s, Some r) \<and> counter s = counter old \<and> sm r = s \<and>
     rsmSrv_Raft (s, Some r) = Inr r \<and> rsmSrv_Raft (rsmSrv_Kill (s, Some r)) = Inl (GoPanic ''nil pointer'')"
  by (simp add: makeRsmSrv_def rsmSrv_Restore_def rsmSrv_Snapshot_def EncodeInt_def MakeRSM_def rsmSrv_Raft_def rsmSrv_Kill_def)

section \<open>Properties\<close>

text \<open>A reply that \<open>Submit\<close> returns with \<open>OK\<close> is the reply that the state machine gave when \<open>Reader\<close>
  applied the command which Raft committed at the index \<open>Start\<close> had assigned, and that command was
  submitted by this server; this holds for any interleaving of the reader, concurrent submissions
  and their timeouts.\<close>
theorem Submit_reply_from_log:
  assumes "rsm_reachable m self maxrs s0 s" and "(index, OK, Some rep) \<in> set (returned s)"
  shows "\<exists>op. (index, op, rep) \<in> set (applied s) \<and> SubmitId op = self"
proof -
  obtain idx where "chan_inv self idx s" using chan_inv_reachable [OF assms(1)] by blast
  then show ?thesis using assms(2) by (auto simp: chan_inv_def answer_of_def)
qed

text \<open>One submission of the counter's \<open>Inc\<close>, from \<open>Start\<close> to the reply.\<close>

lemma submit_demo:
  "\<exists>s. rsm_reachable rsmSrv_sm 0 1000 \<lparr>rs_me = 0, counter = 4\<rparr> s \<and> (7, OK, Some (IncRep 5)) \<in> set (returned s)"
proof -
  let ?s0 = "rsm_init 0 1000 \<lparr>rs_me = 0, counter = 4\<rparr> :: (rsmSrv, rsm_req, rsm_rep) rsm_sys"
  obtain r1 where r1: "Submit_started 7 True (rsm_of ?s0) = (Some 0, r1)" "appliedChs r1 7 = Some 0" "reader r1 = RNext"
    "sm r1 = \<lparr>rs_me = 0, counter = 4\<rparr>" "rsm_me r1 = 0" "chans r1 0 = \<lparr>buf = [], closed = False\<rparr>"
    "lastSnapshot r1 = 0" "maxraftstate r1 = 1000"
    by (simp add: Submit_started_def rsm_init_def MakeRSM_def getChannel_def)
  define s1 where "s1 = ?s0\<lparr>rsm_of := r1, waiting := [(7, 0)]\<rparr>"
  let ?op = "\<lparr>Req = Inc, SubmitId = 0\<rparr>"
  let ?r2 = "r1\<lparr>sm := \<lparr>rs_me = 0, counter = 5\<rparr>, reader := RSend 0 (IncRep 5)\<rparr>"
  have m: "Reader_msg rsmSrv_sm (command_msg 7 (Some ?op)) r1 = Inr (None, ?r2)"
    using r1 by (simp add: Reader_msg_def command_msg_def rsmSrv_sm_def rsmSrv_DoOp_def getChannel_def Let_def)
  define s2 where "s2 = s1\<lparr>rsm_of := ?r2, applied := [(7, ?op, IncRep 5)]\<rparr>"
  let ?r3 = "?r2\<lparr>chans := (chans ?r2)(0 := \<lparr>buf = [IncRep 5], closed = False\<rparr>), reader := RNext\<rparr>"
  define s3 where "s3 = s2\<lparr>rsm_of := ?r3\<rparr>"
  obtain r4 where r4: "Submit_receive 7 0 ?r3 = Some (Inr ((OK, Some (IncRep 5)), r4))"
    by (simp add: Submit_receive_def close_delete_def)
  define s4 where "s4 = s3\<lparr>rsm_of := r4, waiting := [], returned := [(7, OK, Some (IncRep 5))]\<rparr>"
  have "rsm_step rsmSrv_sm ?s0 s1"
    using rsm_step.submit [OF r1(1), of rsmSrv_sm] by (simp add: s1_def rsm_init_def)
  moreover have "rsm_step rsmSrv_sm s1 s2"
    using rsm_step.command [of s1 "command_msg 7 (Some ?op)" ?op rsmSrv_sm "IncRep 5" "\<lparr>rs_me = 0, counter = 5\<rparr>" None ?r2] m r1
    by (simp add: s2_def s1_def rsm_init_def command_msg_def rsmSrv_sm_def rsmSrv_DoOp_def)
  moreover have "rsm_step rsmSrv_sm s2 s3"
    using rsm_step.send [of s2 ?r3 rsmSrv_sm] r1 by (simp add: s3_def s2_def Reader_send_def)
  moreover have "rsm_step rsmSrv_sm s3 s4"
    using rsm_step.receive [of 7 0 s3 "(OK, Some (IncRep 5))" r4 rsmSrv_sm] r4
    by (simp add: s4_def s3_def s2_def s1_def rsm_init_def)
  ultimately have "rsm_reachable rsmSrv_sm 0 1000 \<lparr>rs_me = 0, counter = 4\<rparr> s4"
    by (meson rsm_reachable.intros)
  then show ?thesis by (intro exI [of _ s4]) (simp add: s4_def)
qed

theorem Submit_reply_from_log_witness:
  "\<exists>s op. rsm_reachable rsmSrv_sm 0 1000 \<lparr>rs_me = 0, counter = 4\<rparr> s \<and> (7, op, IncRep 5) \<in> set (applied s) \<and> SubmitId op = 0"
proof -
  obtain s where s: "rsm_reachable rsmSrv_sm 0 1000 \<lparr>rs_me = 0, counter = 4\<rparr> s" "(7, OK, Some (IncRep 5)) \<in> set (returned s)"
    using submit_demo by blast
  with Submit_reply_from_log [OF s] show ?thesis by blast
qed

text \<open>When a server loses and regains leadership and \<open>Start\<close> assigns the same index twice, the two
  submissions wait on one channel: the first may receive the reply of the second's command, and the
  second then panics, because its channel is closed a second time.\<close>
theorem Submits_share_a_channel:
  fixes r0 :: "('s, 'p) RSM" and m :: "('s, 'q, 'p, 'g) StateMachine"
  assumes "r0 = MakeRSM self maxrs s0" and "DoOp m second s0 = Inr (rep, s1)"
    and "Submit_started 1 True r0 = (Some ch, r1)"
  shows "\<exists>r2 snap r3 r4 r5. Submit_started 1 True r1 = (Some ch, r2) \<and>
    Reader_msg m (command_msg 1 (Some (Submit_op second r0))) r2 = Inr (snap, r3) \<and> Reader_send r3 = Inr r4 \<and>
    Submit_receive 1 ch r4 = Some (Inr ((OK, Some rep), r5)) \<and>
    Submit_receive 1 ch r5 = Some (Inl CloseOfClosedChannel)"
proof -
  have r1: "ch = 0" "appliedChs r1 1 = Some 0" "reader r1 = RNext" "sm r1 = s0" "rsm_me r1 = self"
    "chans r1 0 = \<lparr>buf = [], closed = False\<rparr>"
    using assms(1,3) by (auto simp: Submit_started_def MakeRSM_def getChannel_def)
  have s2: "Submit_started 1 True r1 = (Some 0, r1)" by (simp add: Submit_started_def getChannel_def r1)
  obtain snap ls where rd: "Reader_msg m (command_msg 1 (Some (Submit_op second r0))) r1 =
      Inr (snap, r1\<lparr>sm := s1, lastSnapshot := ls, reader := RSend 0 rep\<rparr>)"
  proof (cases "1 - lastSnapshot r1 \<ge> maxraftstate r1")
    case True
    then show thesis using assms(1,2) r1 that
      by (simp add: Reader_msg_def command_msg_def Submit_op_def getChannel_def MakeRSM_def Let_def)
  next
    case False
    have "r1\<lparr>sm := s1\<rparr> = r1\<lparr>sm := s1, lastSnapshot := lastSnapshot r1\<rparr>" by (cases r1) simp
    then show thesis using False assms(1,2) r1 that [of None "lastSnapshot r1"]
      by (simp add: Reader_msg_def command_msg_def Submit_op_def getChannel_def MakeRSM_def Let_def)
  qed
  let ?r3 = "r1\<lparr>sm := s1, lastSnapshot := ls, reader := RSend 0 rep\<rparr>"
  let ?r4 = "?r3\<lparr>chans := (chans r1)(0 := \<lparr>buf = [rep], closed = False\<rparr>), reader := RNext\<rparr>"
  have "Reader_send ?r3 = Inr ?r4" by (simp add: Reader_send_def r1)
  moreover obtain r5 where "Submit_receive 1 0 ?r4 = Some (Inr ((OK, Some rep), r5))" "closed (chans r5 0)" "buf (chans r5 0) = []"
    by (simp add: Submit_receive_def close_delete_def)
  moreover have "Submit_receive 1 0 r5 = Some (Inl CloseOfClosedChannel)"
    using calculation(3,4) by (simp add: Submit_receive_def close_delete_def)
  ultimately show ?thesis using s2 rd r1(1) by blast
qed

theorem Submits_share_a_channel_witness:
  "\<exists>(r1 :: (rsmSrv, rsm_rep) RSM) r2. Submit_started 1 True (MakeRSM 0 10 \<lparr>rs_me = 0, counter = 0\<rparr>) = (Some 0, r1) \<and>
     Submit_started 1 True r1 = (Some 0, r2)"
proof -
  obtain r1 :: "(rsmSrv, rsm_rep) RSM" where r1: "Submit_started 1 True (MakeRSM 0 10 \<lparr>rs_me = 0, counter = 0\<rparr>) = (Some 0, r1)"
    by (simp add: Submit_started_def MakeRSM_def getChannel_def)
  have "DoOp rsmSrv_sm Inc \<lparr>rs_me = 0, counter = 0\<rparr> = Inr (IncRep 1, \<lparr>rs_me = 0, counter = 1\<rparr>)"
    by (simp add: rsmSrv_sm_def rsmSrv_DoOp_def)
  from Submits_share_a_channel [OF refl this r1] r1 show ?thesis by blast
qed

text \<open>A submission that gives up while \<open>Reader\<close> is about to hand it the reply closes the channel, and
  the reader's send panics: the whole server goes down.\<close>
theorem Reader_send_can_panic:
  assumes "reader r = RSend ch rep" and "Submit_giveup index ch r = Inr (res, r')"
  shows "Reader_send r' = Inl SendOnClosedChannel"
  using assms by (auto simp: Submit_giveup_def go_bind_eq_Inr_iff close_delete_Inr Reader_send_def)

theorem Reader_send_can_panic_witness:
  "Reader_send \<lparr>rsm_me = 0, maxraftstate = 1, sm = (), appliedChs = Map.empty, lastSnapshot = 0,
     chans = (\<lambda>_. \<lparr>buf = [], closed = False\<rparr>)(0 := \<lparr>buf = [], closed = True\<rparr>), nchans = 1, reader = RSend 0 (5 :: nat)\<rparr> =
   Inl SendOnClosedChannel"
  by (rule Reader_send_can_panic [where index = 1 and r = "\<lparr>rsm_me = 0, maxraftstate = 1, sm = (), appliedChs = [1 \<mapsto> 0],
        lastSnapshot = 0, chans = (\<lambda>_. \<lparr>buf = [], closed = False\<rparr>), nchans = 1, reader = RSend 0 (5 :: nat)\<rparr>" and ch = 0 and rep = 5])
    (auto simp: Submit_giveup_def close_delete_def fun_eq_iff)

end
