(* ===== verification/Clerks.thy ===== *)
theory Clerks
  imports Rsm
begin

text \<open>
  The calls of the clerks of replicated servers (\<open>src/kvraft1/client.go\<close>, \<open>src/shardkv1/shardgrp/client.go\<close>):
  every method tries the servers of a group in turn, starting at the last known leader, until one
  answers with something else than \<open>ErrWrongLeader\<close>.

  A handler of such a server is what it does before \<open>rsm.Submit\<close> and, if it gets there, what it
  replies with on the result of \<open>Submit\<close>.  The state the handlers see is the contacted replica's own;
  the state that requests are applied to is that of the replicated log.  How the calls go is given
  by a list, one element for each call: what other clients did to the replicated state before it,
  the state of the contacted replica, and how the call ends.  A request may have been applied
  although no reply arrives, or although the server answers \<open>ErrWrongLeader\<close> because its \<open>Submit\<close> gave up.
\<close>

section \<open>Handlers and calls\<close>

datatype ('q, 'p, 'r) handler =
    Early 'r     \<comment> \<open>the handler returns without calling \<open>Submit\<close>\<close>
  | Submits 'q "Err \<times> 'p option \<Rightarrow> 'r go"
      \<comment> \<open>the request it submits, and what it does with the result of \<open>Submit\<close>\<close>

datatype call_end =
    NoReply bool      \<comment> \<open>\<open>Call\<close> returns false; whether the request was applied\<close>
  | GaveUp bool       \<comment> \<open>\<open>Submit\<close> returns \<open>ErrWrongLeader\<close>; whether the request was applied all the same\<close>
  | Answered          \<comment> \<open>the request was applied and the reply arrives\<close>

record ('s, 'q) call =
  call_others :: "'q list"
  call_local :: 's
  call_end :: call_end

text \<open>Applying one request; a server that fails in \<open>DoOp\<close> is down and gives no reply.\<close>

definition do_op :: "('q \<Rightarrow> 's \<Rightarrow> ('p \<times> 's) go) \<Rightarrow> 'q \<Rightarrow> 's \<Rightarrow> 'p option \<times> 's" where
  "do_op f q s = (case f q s of Inr (r, s') \<Rightarrow> (Some r, s') | Inl _ \<Rightarrow> (None, s))"

definition others_do :: "('q \<Rightarrow> 's \<Rightarrow> ('p \<times> 's) go) \<Rightarrow> 'q list \<Rightarrow> 's \<Rightarrow> 's" where
  "others_do f qs s = fold (\<lambda>q s. snd (do_op f q s)) qs s"

definition reply_of :: "'r go \<Rightarrow> 'r option" where
  "reply_of x = (case x of Inr r \<Rightarrow> Some r | Inl _ \<Rightarrow> None)"

text \<open>\<open>ck.clnt.Call(srv, method, &args, &reply)\<close>: the reply that arrives, and the replicated state afterwards.\<close>

definition rpc_call :: "('q \<Rightarrow> 's \<Rightarrow> ('p \<times> 's) go) \<Rightarrow> ('s \<Rightarrow> ('q, 'p, 'r) handler) \<Rightarrow>
    ('s, 'q) call \<Rightarrow> 's \<Rightarrow> 'r option \<times> 's" where
  "rpc_call f h c s =
     (let s = others_do f (call_others c) s
      in case h (call_local c) of
           Early r \<Rightarrow> (case call_end c of NoReply _ \<Rightarrow> (None, s) | _ \<Rightarrow> (Some r, s))
         | Submits q k \<Rightarrow>
             (case call_end c of
                NoReply app \<Rightarrow> (None, if app then snd (do_op f q s) else s)
              | GaveUp app \<Rightarrow> (reply_of (k (ErrWrongLeader, None)), if app then snd (do_op f q s) else s)
              | Answered \<Rightarrow>
                  (case do_op f q s of
                     (Some p, s') \<Rightarrow> (reply_of (k (OK, Some p)), s')
                   | (None, s') \<Rightarrow> (None, s'))))"

section \<open>The loop over the servers\<close>

text \<open>
  \<open>for { for srv := range numServer { ... }; retry = true; time.Sleep(...) }\<close>: \<open>srv\<close> counts the calls of the
  current pass.  The result is the reply, whether a full pass had failed before, the index that
  becomes \<open>lastLeader\<close>, and the replicated state.  With no servers the loop does not end.
\<close>

fun server_loop :: "(('s, 'q) call \<Rightarrow> 's \<Rightarrow> 'r option \<times> 's) \<Rightarrow> ('r \<Rightarrow> Err) \<Rightarrow> nat \<Rightarrow> nat \<Rightarrow> nat \<Rightarrow> bool \<Rightarrow>
    ('s, 'q) call list \<Rightarrow> 's \<Rightarrow> ('r \<times> bool \<times> nat \<times> 's) option" where
  "server_loop send err n ldr srv retry [] s = None"
| "server_loop send err n ldr srv retry (c # cs) s =
     (if n = 0 then None
      else case send c s of
             (None, s') \<Rightarrow>
               if srv + 1 < n then server_loop send err n ldr (srv + 1) retry cs s'
               else server_loop send err n ldr 0 True cs s'
           | (Some reply, s') \<Rightarrow>
               if err reply = ErrWrongLeader
               then (if srv + 1 < n then server_loop send err n ldr (srv + 1) retry cs s'
                     else server_loop send err n ldr 0 True cs s')
               else Some (reply, retry, (srv + ldr) mod n, s'))"

text \<open>A call that gives the clerk its answer.\<close>

definition conclusive :: "('r \<Rightarrow> Err) \<Rightarrow> 'r option \<Rightarrow> bool" where
  "conclusive err r = (case r of None \<Rightarrow> False | Some r \<Rightarrow> err r \<noteq> ErrWrongLeader)"

lemma server_loop_step:
  assumes "0 < n"
  shows "server_loop send err n ldr srv retry (c # cs) s =
    (if conclusive err (fst (send c s)) then Some (the (fst (send c s)), retry, (srv + ldr) mod n, snd (send c s))
     else server_loop send err n ldr (if srv + 1 < n then srv + 1 else 0) (retry \<or> \<not> srv + 1 < n) cs (snd (send c s)))"
  using assms by (cases "send c s") (auto simp: conclusive_def server_loop.simps split: option.split)

declare server_loop.simps(2) [simp del]

lemma server_loop_0 [simp]: "server_loop send err 0 ldr srv retry cs s = None"
  by (cases cs) (simp_all add: server_loop.simps)

text \<open>
  The loop returns the first conclusive reply.  \<open>I\<close> holds before each call, \<open>J\<close> describes the state
  after an inconclusive one: a rule for what is true when a clerk's method returns.
\<close>

lemma server_loop_rule:
  assumes "server_loop send err n ldr srv retry cs s = Some (r, retry', l, s')" and "I s"
    and "\<And>c s. c \<in> set cs \<Longrightarrow> I s \<Longrightarrow> \<not> conclusive err (fst (send c s)) \<Longrightarrow> I (snd (send c s))"
    and "\<And>c s. c \<in> set cs \<Longrightarrow> I s \<Longrightarrow> conclusive err (fst (send c s)) \<Longrightarrow> Q (the (fst (send c s))) (snd (send c s))"
  shows "Q r s'"
  using assms
proof (induction cs arbitrary: srv retry s)
  case (Cons c cs)
  have "0 < n" using Cons.prems(1) by (cases n) simp_all
  show ?case
  proof (cases "conclusive err (fst (send c s))")
    case True
    then show ?thesis using Cons.prems(1) Cons.prems(4) [of c s] Cons.prems(2) by (simp add: server_loop_step [OF \<open>0 < n\<close>])
  next
    case False
    then have "server_loop send err n ldr (if srv + 1 < n then srv + 1 else 0) (retry \<or> \<not> srv + 1 < n) cs (snd (send c s)) =
        Some (r, retry', l, s')"
      using Cons.prems(1) by (simp add: server_loop_step [OF \<open>0 < n\<close>])
    then show ?thesis using Cons.IH Cons.prems False by (meson list.set_intros)
  qed
qed simp

text \<open>Some conclusive call, whatever the state it meets, is enough for the method to return.\<close>

lemma server_loop_returns:
  assumes "0 < n" and "c \<in> set cs" and "\<And>s. conclusive err (fst (send c s))"
  shows "\<exists>x. server_loop send err n ldr srv retry cs s = Some x"
  using assms(2)
proof (induction cs arbitrary: srv retry s)
  case (Cons d cs)
  show ?case
  proof (cases "conclusive err (fst (send d s))")
    case True
    then show ?thesis by (simp only: server_loop_step [OF assms(1)] simp_thms if_True) blast
  next
    case False
    then have "c \<in> set cs" using Cons.prems assms(3) by auto
    then show ?thesis using Cons.IH False by (simp only: server_loop_step [OF assms(1)] simp_thms if_False)
  qed
qed simp

text \<open>The returned index is one of a server.\<close>

lemma server_loop_index:
  "server_loop send err n ldr srv retry cs s = Some (r, retry', l, s') \<Longrightarrow> l < n"
proof (induction cs arbitrary: srv retry s)
  case (Cons c cs)
  then have "0 < n" by (cases n) simp_all
  show ?case using Cons by (auto simp: server_loop_step [OF \<open>0 < n\<close>] \<open>0 < n\<close>  split: if_splits)
qed simp

text \<open>
  Total correctness of a method: if an answering call is always conclusive, and calls that are not
  conclusive keep the invariant \<open>I\<close>, the loop returns and its result satisfies \<open>Q\<close>.
\<close>

lemma server_loop_total:
  assumes "0 < n" and "I s" and "c \<in> set cs" and "call_end c = Answered"
    and "\<And>c s. c \<in> set cs \<Longrightarrow> I s \<Longrightarrow> call_end c = Answered \<Longrightarrow> conclusive err (fst (send c s))"
    and "\<And>c s. c \<in> set cs \<Longrightarrow> I s \<Longrightarrow> \<not> conclusive err (fst (send c s)) \<Longrightarrow> I (snd (send c s))"
    and "\<And>c s. c \<in> set cs \<Longrightarrow> I s \<Longrightarrow> conclusive err (fst (send c s)) \<Longrightarrow> Q (the (fst (send c s))) (snd (send c s))"
  shows "\<exists>r retry' l s'. server_loop send err n ldr srv retry cs s = Some (r, retry', l, s') \<and> Q r s'"
  using assms(2-)
proof (induction cs arbitrary: srv retry s)
  case (Cons d cs)
  show ?case
  proof (cases "conclusive err (fst (send d s))")
    case True
    then show ?thesis using Cons.prems(1) Cons.prems(6) [of d s] by (simp add: server_loop_step [OF assms(1)])
  next
    case False
    then have "c \<in> set cs" "I (snd (send d s))" using Cons.prems by auto
    then show ?thesis using Cons.IH Cons.prems(3-6) False by (simp add: server_loop_step [OF assms(1)])
  qed
qed simp

end
