(* ===== verification/RsmLog.thy ===== *)
theory RsmLog
  imports Rsm
begin

text \<open>
  The replicated state machines of all servers together: \<open>Reader\<close> and \<open>Submit\<close> of \<open>src/kvraft1/rsm/rsm.go\<close>
  on each, fed from one log.

  This is the contract between Raft and its service.  Raft delivers to every server the commands
  of one log, in order from where the server's state stands, or a snapshot that some server has
  handed to its Raft and that is not behind; a server may stop at any moment and start again from a
  snapshot.  Then every reply that a \<open>Submit\<close> returns on any server is the reply of one sequential
  execution of the log.
\<close>

section \<open>Servers that share a log\<close>

record ('s, 'q, 'p, 'g) replicas =
  srv :: "int \<Rightarrow> ('s, 'q, 'p) rsm_sys"
  covers :: "int \<Rightarrow> nat"             \<comment> \<open>the number of commands in the server's state\<close>
  snaps :: "(int \<times> 'g list) set"   \<comment> \<open>the snapshots given to \<open>rf.Snapshot\<close>\<close>

definition replicas_init :: "int \<Rightarrow> (int \<Rightarrow> 's) \<Rightarrow> ('s, 'q, 'p, 'g) replicas" where
  "replicas_init maxrs start = \<lparr>srv = (\<lambda>i. rsm_init i maxrs (start i)), covers = (\<lambda>_. 0), snaps = {}\<rparr>"

text \<open>Server \<open>i\<close> moves to \<open>x\<close>, whose state has \<open>k\<close> commands.\<close>

definition set_replica :: "int \<Rightarrow> ('s, 'q, 'p) rsm_sys \<Rightarrow> nat \<Rightarrow> ('s, 'q, 'p, 'g) replicas \<Rightarrow> ('s, 'q, 'p, 'g) replicas" where
  "set_replica i x k s = s\<lparr>srv := (srv s)(i := x), covers := (covers s)(i := k)\<rparr>"

lemma set_replica_fields [simp]:
  "srv (set_replica i x k s) = (srv s)(i := x)" "covers (set_replica i x k s) = (covers s)(i := k)" "snaps (set_replica i x k s) = snaps s"
  by (simp_all add: set_replica_def)

inductive replica_step ::
  "('s, 'q, 'p, 'g) StateMachine \<Rightarrow> int \<Rightarrow> (int \<Rightarrow> 's) \<Rightarrow> 'q Op list \<Rightarrow> ('s, 'q, 'p, 'g) replicas \<Rightarrow> ('s, 'q, 'p, 'g) replicas \<Rightarrow> bool"
  for m :: "('s, 'q, 'p, 'g) StateMachine" and maxrs :: int and start :: "int \<Rightarrow> 's" and log :: "'q Op list" where
  deliver: "reader (rsm_of (srv s i)) = RNext \<Longrightarrow> covers s i < length log \<Longrightarrow> op = log ! covers s i \<Longrightarrow>
     index = int (covers s i) + 1 \<Longrightarrow> DoOp m (Req op) (sm (rsm_of (srv s i))) = Inr (rep, st) \<Longrightarrow>
     Reader_msg m (command_msg index (Some op)) (rsm_of (srv s i)) = Inr (snap, r) \<Longrightarrow>
     replica_step m maxrs start log s
       ((set_replica i ((srv s i)\<lparr>rsm_of := r, applied := applied (srv s i) @ [(index, op, rep)]\<rparr>) (covers s i + 1) s)
         \<lparr>snaps := snaps s \<union> set_option snap\<rparr>)"
| install: "reader (rsm_of (srv s i)) = RNext \<Longrightarrow> (j, data) \<in> snaps s \<Longrightarrow> int (covers s i) \<le> j \<Longrightarrow>
     Reader_msg m (snapshot_msg data j term) (rsm_of (srv s i)) = Inr (snap, r) \<Longrightarrow>
     replica_step m maxrs start log s (set_replica i ((srv s i)\<lparr>rsm_of := r\<rparr>) (nat j) s)"
| local: "rsm_step m (srv s i) x \<Longrightarrow> applied x = applied (srv s i) \<Longrightarrow> sm (rsm_of x) = sm (rsm_of (srv s i)) \<Longrightarrow>
     replica_step m maxrs start log s (set_replica i x (covers s i) s)"
| restart: "(j, data) \<in> snaps s \<Longrightarrow> Restore m data (start i) = Inr st \<Longrightarrow>
     replica_step m maxrs start log s (set_replica i (rsm_init i maxrs st) (nat j) s)"
| restart_empty: "replica_step m maxrs start log s (set_replica i (rsm_init i maxrs (start i)) 0 s)"

inductive replicas_reachable ::
  "('s, 'q, 'p, 'g) StateMachine \<Rightarrow> int \<Rightarrow> (int \<Rightarrow> 's) \<Rightarrow> 'q Op list \<Rightarrow> ('s, 'q, 'p, 'g) replicas \<Rightarrow> bool"
  for m maxrs start log where
  init: "replicas_reachable m maxrs start log (replicas_init maxrs start)"
| step: "replicas_reachable m maxrs start log s \<Longrightarrow> replica_step m maxrs start log s t \<Longrightarrow> replicas_reachable m maxrs start log t"

text \<open>The sequential execution of the first \<open>k\<close> commands.\<close>

definition replay :: "('s, 'q, 'p, 'g) StateMachine \<Rightarrow> 's \<Rightarrow> 'q Op list \<Rightarrow> nat \<Rightarrow> ('p list \<times> 's) go" where
  "replay m s0 log k = do_ops (DoOp m) (map Req (take k log)) s0"

text \<open>\<open>rep\<close> is the reply of the command at \<open>index\<close>, which is \<open>op\<close>.\<close>

definition log_reply :: "('s, 'q, 'p, 'g) StateMachine \<Rightarrow> 's \<Rightarrow> 'q Op list \<Rightarrow> int \<Rightarrow> 'q Op \<Rightarrow> 'p \<Rightarrow> bool" where
  "log_reply m s0 log index op rep \<longleftrightarrow> 1 \<le> index \<and> index \<le> int (length log) \<and> op = log ! (nat index - 1) \<and>
     (\<exists>ps st. replay m s0 log (nat index) = Inr (ps @ [rep], st))"

lemma replay_0 [simp]: "replay m s0 log 0 = Inr ([], s0)"
  by (simp add: replay_def)

lemma replay_Suc:
  "k < length log \<Longrightarrow> replay m s0 log (Suc k) =
     go_bind (replay m s0 log k) (\<lambda>(ps, s). go_bind (DoOp m (Req (log ! k)) s) (\<lambda>(p, s). Inr (ps @ [p], s)))"
  by (cases "replay m s0 log k")
    (auto simp: replay_def take_Suc_conv_app_nth do_ops_append go_bind_def split: sum.splits)

text \<open>The snapshot that \<open>Reader\<close> hands to Raft is one of the state after the command.\<close>

lemma Reader_command_state:
  assumes "DoOp m (Req op) (sm r) = Inr (rep, st)" and "Reader_msg m (command_msg index (Some op)) r = Inr (snap, r')"
  shows "sm r' = st" and "snap = Some (j, data) \<Longrightarrow> j = index \<and> data = Snapshot m st"
proof -
  have "sm r' = st \<and> (snap = Some (j, data) \<longrightarrow> j = index \<and> data = Snapshot m st)"
    using assms by (auto simp: Reader_msg_def command_msg_def Let_def getChannel_def close_delete_def go_bind_def
        split: if_splits option.splits)
  then show "sm r' = st" and "snap = Some (j, data) \<Longrightarrow> j = index \<and> data = Snapshot m st" by blast+
qed

lemma Reader_snapshot_state:
  assumes "Reader_msg m (snapshot_msg data j term) r = Inr (snap, r')"
  obtains st where "Restore m data (sm r) = Inr st" "r' = r\<lparr>sm := st\<rparr>"
  using assms by (auto simp: Reader_msg_def snapshot_msg_def go_bind_eq_Inr_iff)


section \<open>One sequential execution\<close>

context state_machine
begin

text \<open>A state that reflects the first \<open>k\<close> commands of the log.\<close>

definition reflects :: "'s \<Rightarrow> 'q Op list \<Rightarrow> nat \<Rightarrow> 's \<Rightarrow> bool" where
  "reflects s0 log k s \<longleftrightarrow> k \<le> length log \<and> (\<exists>ps st. replay m s0 log k = Inr (ps, st) \<and> view s = view st)"

lemma reflects_deliver:
  assumes "reflects s0 log k s" and "k < length log" and "DoOp m (Req (log ! k)) s = Inr (rep, s')"
  shows "reflects s0 log (Suc k) s'" and "log_reply m s0 log (int k + 1) (log ! k) rep"
proof -
  obtain ps st where st: "replay m s0 log k = Inr (ps, st)" "view s = view st" using assms(1) by (auto simp: reflects_def)
  obtain st' where st': "DoOp m (Req (log ! k)) st = Inr (rep, st')" "view st' = view s'" using DoOp_view [OF st(2) assms(3)] by blast
  then have "replay m s0 log (Suc k) = Inr (ps @ [rep], st')" using replay_Suc [OF assms(2), of m s0] st(1) by simp
  moreover have "nat (int k + 1) = Suc k" by simp
  ultimately show "reflects s0 log (Suc k) s'" and "log_reply m s0 log (int k + 1) (log ! k) rep"
    using assms(2) st'(2) by (auto simp: reflects_def log_reply_def)
qed

lemma reflects_restore:
  assumes "reflects s0 log k u" and "Restore m (Snapshot m u) s = Inr s'"
  shows "reflects s0 log k s'"
  using assms Restore_Snapshot [of u s] by (auto simp: reflects_def)

definition replica_ok :: "'s \<Rightarrow> 'q Op list \<Rightarrow> int \<Rightarrow> nat \<Rightarrow> ('s, 'q, 'p) rsm_sys \<Rightarrow> bool" where
  "replica_ok s0 log i k x \<longleftrightarrow> (\<exists>idx. chan_inv i idx x) \<and> reflects s0 log k (sm (rsm_of x)) \<and>
     (\<forall>(index, op, rep) \<in> set (applied x). log_reply m s0 log index op rep)"

definition snaps_ok :: "'s \<Rightarrow> 'q Op list \<Rightarrow> (int \<times> 'g list) set \<Rightarrow> bool" where
  "snaps_ok s0 log S \<longleftrightarrow> (\<forall>(j, data) \<in> S. 0 \<le> j \<and> (\<exists>u. data = Snapshot m u \<and> reflects s0 log (nat j) u))"

lemma replica_ok_step:
  assumes "replica_ok s0 log i k x" and "rsm_step m x y" and "reflects s0 log k' (sm (rsm_of y))"
    and "\<And>index op rep. (index, op, rep) \<in> set (applied y) \<Longrightarrow> (index, op, rep) \<notin> set (applied x) \<Longrightarrow> log_reply m s0 log index op rep"
  shows "replica_ok s0 log i k' y"
proof -
  obtain idx where "chan_inv i idx x" using assms(1) by (auto simp: replica_ok_def)
  from chan_inv_step [OF assms(2) this] show ?thesis using assms(1,3,4) by (fastforce simp: replica_ok_def)
qed

lemma replica_ok_init: "reflects s0 log k s \<Longrightarrow> replica_ok s0 log i k (rsm_init i maxrs s)"
  by (auto simp: replica_ok_def rsm_init_def MakeRSM_def chan_inv_def)

lemma replica_step_ok:
  assumes step: "replica_step m maxrs start log s t" and start: "\<And>i. view (start i) = view s0"
    and ok: "\<And>i. replica_ok s0 log i (covers s i) (srv s i)" "snaps_ok s0 log (snaps s)"
  shows "replica_ok s0 log i (covers t i) (srv t i) \<and> snaps_ok s0 log (snaps t)"
proof -
  have upd: "replica_ok s0 log i (covers (set_replica j x k s) i) (srv (set_replica j x k s) i)" if "replica_ok s0 log j k x" for j x k
    using that ok(1) by simp
  have snap: "\<exists>u. data = Snapshot m u \<and> reflects s0 log (nat j) u" if "(j, data) \<in> snaps s" for j data
    using ok(2) that by (auto simp: snaps_ok_def)
  from step show ?thesis
  proof cases
    case (deliver c op index rep st snp r)
    note cur = ok(1) [of c, unfolded replica_ok_def, THEN conjunct2, THEN conjunct1]
    note new = reflects_deliver [OF cur deliver(3) deliver(6) [unfolded deliver(4)]]
    note state = Reader_command_state [OF deliver(6,7)]
    have "rsm_step m (srv s c) ((srv s c)\<lparr>rsm_of := r, applied := applied (srv s c) @ [(index, op, rep)]\<rparr>)"
      using rsm_step.command [of "srv s c" "command_msg index (Some op)" op m rep st snp r] deliver(2,6,7) by (simp add: command_msg_def)
    from replica_ok_step [OF ok(1) [of c] this, of "covers s c + 1"] state(1) new deliver(4,5)
    have "replica_ok s0 log c (covers s c + 1) ((srv s c)\<lparr>rsm_of := r, applied := applied (srv s c) @ [(index, op, rep)]\<rparr>)" by auto
    moreover have "snaps_ok s0 log (snaps s \<union> set_option snp)"
      using ok(2) state(2) new(1) deliver(5) by (cases snp) (auto simp: snaps_ok_def nat_add_distrib)
    ultimately show ?thesis using upd by (simp add: deliver(1))
  next
    case (install c j data trm snp r)
    obtain u where u: "data = Snapshot m u" "reflects s0 log (nat j) u" using snap [OF install(3)] by blast
    obtain st where st: "Restore m data (sm (rsm_of (srv s c))) = Inr st" "r = (rsm_of (srv s c))\<lparr>sm := st\<rparr>"
      using Reader_snapshot_state [OF install(5)] by blast
    have "rsm_step m (srv s c) ((srv s c)\<lparr>rsm_of := r\<rparr>)"
      by (rule rsm_step.snapshot [OF install(2) _ install(5)]) (simp add: snapshot_msg_def)
    from replica_ok_step [OF ok(1) [of c] this, of "nat j"] reflects_restore [OF u(2) st(1) [unfolded u(1)]] st(2)
    show ?thesis using upd ok(2) by (simp add: install(1))
  next
    case (local c x)
    have "reflects s0 log (covers s c) (sm (rsm_of x))" using ok(1) [of c] local(4) by (simp add: replica_ok_def)
    from replica_ok_step [OF ok(1) [of c] local(2) this] local(3) show ?thesis using ok by (simp add: local(1))
  next
    case (restart j data c st)
    obtain u where u: "data = Snapshot m u" "reflects s0 log (nat j) u" using snap [OF restart(2)] by blast
    from replica_ok_init [OF reflects_restore [OF u(2) restart(3) [unfolded u(1)]]] show ?thesis using upd ok(2) by (simp add: restart(1))
  next
    case (restart_empty c)
    have "reflects s0 log 0 (start c)" using start by (simp add: reflects_def)
    from replica_ok_init [OF this] show ?thesis using upd ok(2) by (simp add: restart_empty)
  qed
qed

lemma replicas_ok:
  assumes "replicas_reachable m maxrs start log s" and "\<And>i. view (start i) = view s0"
  shows "(\<forall>i. replica_ok s0 log i (covers s i) (srv s i)) \<and> snaps_ok s0 log (snaps s)"
  using assms(1)
proof induction
  case init
  then show ?case using assms(2) by (auto simp: replicas_init_def snaps_ok_def reflects_def intro!: replica_ok_init)
next
  case (step s t)
  then show ?case using replica_step_ok [OF step(2) assms(2)] by blast
qed

text \<open>Every reply that a \<open>Submit\<close> returns is the one of the sequential execution, to a command that
  was submitted on that server; and the state of a server is the one after the commands it covers.\<close>

lemma replies_sequential:
  assumes "replicas_reachable m maxrs start log s" and "\<And>i. view (start i) = view s0"
    and "(index, OK, Some rep) \<in> set (returned (srv s i))"
  shows "\<exists>op. log_reply m s0 log index op rep \<and> SubmitId op = i"
proof -
  have "replica_ok s0 log i (covers s i) (srv s i)" using replicas_ok [OF assms(1,2)] by blast
  then obtain idx where "chan_inv i idx (srv s i)" "\<forall>(index, op, rep) \<in> set (applied (srv s i)). log_reply m s0 log index op rep"
    by (auto simp: replica_ok_def)
  then show ?thesis using assms(3) by (fastforce simp: chan_inv_def answer_of_def)
qed

end

end
