(* ===== verification/KvRaft.thy ===== *)
theory KvRaft
  imports Clerks RsmLog KvModel
begin

text \<open>
  The key/value service on Raft: the state machine of \<open>src/kvraft1/server.go\<close> and the clerk of
  \<open>src/kvraft1/client.go\<close>.  A snapshot is the gob stream with the map as its one value.
\<close>

section \<open>The state machine\<close>

record KvRaft =
  kvr_me :: int
  kvr_dead :: int
  KV :: "string \<rightharpoonup> KVEntry"

text \<open>\<open>req any\<close>: one of the two argument types, or anything else.\<close>

datatype kvraft_req = KvReq kvop | OtherReq

definition KvRaft_DoOp :: "kvraft_req \<Rightarrow> KvRaft \<Rightarrow> (kvreply \<times> KvRaft) go" where
  "KvRaft_DoOp req kv =
     (case req of
        KvReq (OpGet req) \<Rightarrow>
          (case KV kv (ga_Key req) of
             None \<Rightarrow> Inr (RGet \<lparr>gr_Value = '''', gr_Version = 0, gr_Err = ErrNoKey\<rparr>, kv)
           | Some entry \<Rightarrow> Inr (RGet \<lparr>gr_Value = Value entry, gr_Version = Version entry, gr_Err = OK\<rparr>, kv))
      | KvReq (OpPut req) \<Rightarrow>
          (case KV kv (pa_Key req) of
             None \<Rightarrow>
               if pa_Version req = 0
               then Inr (RPut \<lparr>pr_Err = OK\<rparr>,
                         kv\<lparr>KV := (KV kv)(pa_Key req \<mapsto> \<lparr>Value = pa_Value req, Version = 1\<rparr>)\<rparr>)
               else Inr (RPut \<lparr>pr_Err = ErrNoKey\<rparr>, kv)
           | Some entry \<Rightarrow>
               if pa_Version req \<noteq> Version entry then Inr (RPut \<lparr>pr_Err = ErrVersion\<rparr>, kv)
               else Inr (RPut \<lparr>pr_Err = OK\<rparr>,
                         kv\<lparr>KV := (KV kv)(pa_Key req \<mapsto> \<lparr>Value = pa_Value req, Version = Version entry + 1\<rparr>)\<rparr>))
      | OtherReq \<Rightarrow> Inl (LogFatal ''unknown req type''))"

definition KvRaft_Snapshot :: "KvRaft \<Rightarrow> (string \<rightharpoonup> KVEntry) list" where
  "KvRaft_Snapshot kv = [KV kv]"

definition KvRaft_Restore :: "(string \<rightharpoonup> KVEntry) list \<Rightarrow> KvRaft \<Rightarrow> KvRaft go" where
  "KvRaft_Restore data kv =
     (if length data < 1 then Inr kv else Inr (kv\<lparr>KV := hd data\<rparr>))"

definition kvraft_sm :: "(KvRaft, kvraft_req, kvreply, string \<rightharpoonup> KVEntry) StateMachine" where
  "kvraft_sm = \<lparr>DoOp = KvRaft_DoOp, Snapshot = KvRaft_Snapshot, Restore = KvRaft_Restore\<rparr>"

text \<open>\<open>StartKVServer\<close>: an empty map, then the persisted snapshot.\<close>

definition StartKVServer :: "int \<Rightarrow> (string \<rightharpoonup> KVEntry) list \<Rightarrow> KvRaft go" where
  "StartKVServer self snap = KvRaft_Restore snap \<lparr>kvr_me = self, kvr_dead = 0, KV = Map.empty\<rparr>"

section \<open>The handlers\<close>

text \<open>\<open>Get\<close> and \<open>Put\<close>: \<open>kv.rsm.Submit(*args)\<close>, then the reply from its result, with the type assertion.\<close>

definition KvRaft_Get :: "GetArgs \<Rightarrow> KvRaft \<Rightarrow> (kvraft_req, kvreply, GetReply) handler" where
  "KvRaft_Get args kv =
     Submits (KvReq (OpGet args)) (\<lambda>(err, rep).
       if err = ErrWrongLeader then Inr \<lparr>gr_Value = '''', gr_Version = 0, gr_Err = ErrWrongLeader\<rparr>
       else case rep of Some (RGet r) \<Rightarrow> Inr r | _ \<Rightarrow> Inl TypeAssertion)"

definition KvRaft_Put :: "PutArgs \<Rightarrow> KvRaft \<Rightarrow> (kvraft_req, kvreply, PutReply) handler" where
  "KvRaft_Put args kv =
     Submits (KvReq (OpPut args)) (\<lambda>(err, rep).
       if err = ErrWrongLeader then Inr \<lparr>pr_Err = ErrWrongLeader\<rparr>
       else case rep of Some (RPut r) \<Rightarrow> Inr \<lparr>pr_Err = pr_Err r\<rparr> | _ \<Rightarrow> Inl TypeAssertion)"

definition KvRaft_Kill :: "KvRaft \<Rightarrow> KvRaft" where
  "KvRaft_Kill kv = kv\<lparr>kvr_dead := 1\<rparr>"

definition KvRaft_killed :: "KvRaft \<Rightarrow> bool" where
  "KvRaft_killed kv = (kvr_dead kv = 1)"

section \<open>The clerk\<close>

text \<open>The state of a clerk: how many servers it knows, and the last leader.\<close>

record KvClerk =
  numServer :: nat
  lastLeader :: nat

definition KvClerk_MakeClerk :: "string list \<Rightarrow> KvClerk" where
  "KvClerk_MakeClerk servers = \<lparr>numServer = length servers, lastLeader = 0\<rparr>"

definition KvClerk_Get :: "(KvRaft, kvraft_req) call list \<Rightarrow> string \<Rightarrow> KvClerk \<Rightarrow> KvRaft \<Rightarrow>
    ((string \<times> Tversion \<times> Err) \<times> KvClerk \<times> KvRaft) option" where
  "KvClerk_Get cs key ck kv =
     map_option (\<lambda>(reply, _, idx, kv'). ((gr_Value reply, gr_Version reply, gr_Err reply), ck\<lparr>lastLeader := idx\<rparr>, kv'))
       (server_loop (rpc_call KvRaft_DoOp (KvRaft_Get \<lparr>ga_Key = key\<rparr>)) gr_Err (numServer ck) (lastLeader ck) 0 False cs kv)"

definition KvClerk_Put :: "(KvRaft, kvraft_req) call list \<Rightarrow> string \<Rightarrow> string \<Rightarrow> Tversion \<Rightarrow> KvClerk \<Rightarrow> KvRaft \<Rightarrow>
    (Err \<times> KvClerk \<times> KvRaft) option" where
  "KvClerk_Put cs key value version ck kv =
     map_option (\<lambda>(reply, retry, idx, kv').
         (if pr_Err reply = ErrVersion \<and> retry then ErrMaybe else pr_Err reply, ck\<lparr>lastLeader := idx\<rparr>, kv'))
       (server_loop (rpc_call KvRaft_DoOp (KvRaft_Put \<lparr>pa_Key = key, pa_Value = value, pa_Version = version\<rparr>))
          pr_Err (numServer ck) (lastLeader ck) 0 False cs kv)"

section \<open>The contracts\<close>

interpretation kvraft_rsm: state_machine kvraft_sm KV
proof unfold_locales
  fix s t :: KvRaft and q p s'
  assume eq: "KV s = KV t" and "DoOp kvraft_sm q s = Inr (p, s')"
  then show "\<exists>t'. DoOp kvraft_sm q t = Inr (p, t') \<and> KV t' = KV s'"
    by (cases q) (auto simp: kvraft_sm_def KvRaft_DoOp_def split: kvop.splits option.splits if_splits)
qed (simp add: kvraft_sm_def KvRaft_Snapshot_def KvRaft_Restore_def)

text \<open>\<open>DoOp\<close> on the two request types, as the operations of a versioned store.\<close>

definition kvraft_get :: "GetArgs \<Rightarrow> KvRaft \<Rightarrow> GetReply" where
  "kvraft_get a kv = (case KvRaft_DoOp (KvReq (OpGet a)) kv of
     Inr (RGet r, _) \<Rightarrow> r | _ \<Rightarrow> \<lparr>gr_Value = '''', gr_Version = 0, gr_Err = ErrUnset\<rparr>)"

definition kvraft_put :: "PutArgs \<Rightarrow> KvRaft \<Rightarrow> PutReply \<times> KvRaft" where
  "kvraft_put a kv = (case KvRaft_DoOp (KvReq (OpPut a)) kv of
     Inr (RPut r, kv') \<Rightarrow> (r, kv') | _ \<Rightarrow> (\<lparr>pr_Err = ErrUnset\<rparr>, kv))"

interpretation kvraft: versioned_kv KV kvraft_get kvraft_put "\<lambda>_. True"
  by unfold_locales (auto simp: kvraft_get_def kvraft_put_def KvRaft_DoOp_def)

lemma DoOp_get: "KvRaft_DoOp (KvReq (OpGet a)) kv = Inr (RGet (kvraft_get a kv), kv)"
  by (simp add: kvraft_get_def KvRaft_DoOp_def split: option.split)

lemma DoOp_put: "KvRaft_DoOp (KvReq (OpPut a)) kv = Inr (RPut (fst (kvraft_put a kv)), snd (kvraft_put a kv))"
  by (simp add: kvraft_put_def KvRaft_DoOp_def split: option.split)

text \<open>Replaying a log of requests is a run of the versioned store.\<close>

lemma do_ops_kv_run:
  "do_ops KvRaft_DoOp (map KvReq ops) kv =
   Inr (map snd (fst (kv_run kvraft_get kvraft_put ops kv)), snd (kv_run kvraft_get kvraft_put ops kv))"
proof (induction ops arbitrary: kv)
  case (Cons x ops)
  show ?case by (cases x) (simp_all add: DoOp_get DoOp_put Cons split_beta Let_def)
qed simp

lemma kv_run_ops: "map fst (fst (kv_run g p ops s)) = ops"
proof (induction ops arbitrary: s)
  case (Cons x ops)
  show ?case by (cases x) (simp_all add: Cons split_beta Let_def)
qed simp

section \<open>Properties\<close>

text \<open>C16: the replies that a replica computes along any log of \<open>Get\<close> and \<open>Put\<close> requests, from an empty
  store, form a history that the tests' linearizability model accepts for every key, as long as no
  \<open>Put\<close> is answered with \<open>ErrNoKey\<close>.\<close>
theorem kvraft_log_legal:
  assumes "KV kv = Map.empty" and "do_ops KvRaft_DoOp (map KvReq ops) kv = Inr (reps, kv')"
    and "no_nokey_put (zip ops reps)" and "part \<in> set (KvModel_Partition (record_run t (zip ops reps) []))"
  shows "model_accepts KvModel_Init part"
proof -
  let ?run = "kv_run kvraft_get kvraft_put ops kv"
  have "zip ops reps = fst ?run"
    using assms(2) kv_run_ops [of kvraft_get kvraft_put ops kv] by (simp add: do_ops_kv_run) (metis zip_map_fst_snd)
  then show ?thesis using kvraft.run_partition_accepted [where s = kv and ops = ops] assms by simp
qed

theorem kvraft_log_legal_witness:
  "\<exists>reps kv'. do_ops KvRaft_DoOp (map KvReq [OpPut \<lparr>pa_Key = ''k'', pa_Value = ''a'', pa_Version = 0\<rparr>, OpGet \<lparr>ga_Key = ''k''\<rparr>])
      \<lparr>kvr_me = 0, kvr_dead = 0, KV = Map.empty\<rparr> = Inr (reps, kv') \<and>
    list_all (model_accepts KvModel_Init) (KvModel_Partition (record_run 0
      (zip [OpPut \<lparr>pa_Key = ''k'', pa_Value = ''a'', pa_Version = 0\<rparr>, OpGet \<lparr>ga_Key = ''k''\<rparr>] reps) []))"
proof -
  let ?ops = "[OpPut \<lparr>pa_Key = ''k'', pa_Value = ''a'', pa_Version = 0\<rparr>, OpGet \<lparr>ga_Key = ''k''\<rparr>]"
  let ?kv = "\<lparr>kvr_me = 0, kvr_dead = 0, KV = Map.empty\<rparr> :: KvRaft"
  obtain reps kv' where r: "do_ops KvRaft_DoOp (map KvReq ?ops) ?kv = Inr (reps, kv')" "no_nokey_put (zip ?ops reps)"
    by (simp add: KvRaft_DoOp_def)
  have e: "KV ?kv = Map.empty" by simp
  have "list_all (model_accepts KvModel_Init) (KvModel_Partition (record_run 0 (zip ?ops reps) []))"
    using kvraft_log_legal [OF e r] by (simp only: list_all_iff) blast
  with r(1) show ?thesis by blast
qed

text \<open>Replicas of the key/value service agree: one that was restored from a snapshot taken after any
  prefix of the log and then applied the rest gives the same replies to the rest and ends with the
  same map as one that applied the whole log, whatever its state before the snapshot was.\<close>
theorem kvraft_snapshot_catches_up:
  assumes "do_ops KvRaft_DoOp (map KvReq (pre @ suf)) kv0 = Inr (reps, kv2)"
  shows "\<exists>kv1 kv1' kv2'. do_ops KvRaft_DoOp (map KvReq pre) kv0 = Inr (take (length pre) reps, kv1) \<and>
    KvRaft_Restore (KvRaft_Snapshot kv1) lagging = Inr kv1' \<and>
    do_ops KvRaft_DoOp (map KvReq suf) kv1' = Inr (drop (length pre) reps, kv2') \<and> KV kv2' = KV kv2"
proof -
  let ?r1 = "kv_run kvraft_get kvraft_put pre kv0" and ?r2 = "kv_run kvraft_get kvraft_put suf"
  have 1: "do_ops KvRaft_DoOp (map KvReq pre) kv0 = Inr (map snd (fst ?r1), snd ?r1)" by (rule do_ops_kv_run)
  have 2: "do_ops KvRaft_DoOp (map KvReq suf) (snd ?r1) = Inr (map snd (fst (?r2 (snd ?r1))), snd (?r2 (snd ?r1)))"
    by (rule do_ops_kv_run)
  have reps: "reps = map snd (fst ?r1) @ map snd (fst (?r2 (snd ?r1)))" "kv2 = snd (?r2 (snd ?r1))"
    using assms by (simp_all add: do_ops_append 1 2)
  have len: "length (map snd (fst ?r1)) = length pre"
    using arg_cong [OF kv_run_ops [of kvraft_get kvraft_put pre kv0], of length] by simp
  obtain t1 t2 where "KvRaft_Restore (KvRaft_Snapshot (snd ?r1)) lagging = Inr t1"
    "do_ops KvRaft_DoOp (map KvReq suf) t1 = Inr (map snd (fst (?r2 (snd ?r1))), t2)" "KV t2 = KV kv2"
    using kvraft_rsm.snapshot_catches_up [of "map KvReq pre" kv0 "map snd (fst ?r1)" "snd ?r1" "map KvReq suf"
        "map snd (fst (?r2 (snd ?r1)))" "snd (?r2 (snd ?r1))" lagging] 1 2 reps(2) by (auto simp: kvraft_sm_def)
  with 1 reps(1) len show ?thesis by auto
qed

theorem kvraft_snapshot_catches_up_witness:
  "\<exists>kv1'. KvRaft_Restore (KvRaft_Snapshot \<lparr>kvr_me = 0, kvr_dead = 0, KV = Map.empty\<rparr>)
      \<lparr>kvr_me = 2, kvr_dead = 0, KV = [''x'' \<mapsto> \<lparr>Value = ''old'', Version = 3\<rparr>]\<rparr> = Inr kv1' \<and> KV kv1' ''x'' = None"
proof -
  have "do_ops KvRaft_DoOp (map KvReq ([] @ [OpGet \<lparr>ga_Key = ''x''\<rparr>])) \<lparr>kvr_me = 0, kvr_dead = 0, KV = Map.empty\<rparr> =
      Inr ([RGet \<lparr>gr_Value = '''', gr_Version = 0, gr_Err = ErrNoKey\<rparr>], \<lparr>kvr_me = 0, kvr_dead = 0, KV = Map.empty\<rparr>)"
    by (simp add: KvRaft_DoOp_def)
  from kvraft_snapshot_catches_up [OF this, of "\<lparr>kvr_me = 2, kvr_dead = 0, KV = [''x'' \<mapsto> \<lparr>Value = ''old'', Version = 3\<rparr>]\<rparr>"]
  show ?thesis by (auto simp: KvRaft_DoOp_def split: option.splits)
qed

text \<open>What a call of \<open>Put\<close> does to the map, and the error that arrives.\<close>

lemma put_call:
  "rpc_call KvRaft_DoOp (KvRaft_Put p) \<lparr>call_others = [], call_local = l, call_end = Answered\<rparr> kv =
    (Some \<lparr>pr_Err = pr_Err (fst (kvraft_put p kv))\<rparr>, snd (kvraft_put p kv))"
  "rpc_call KvRaft_DoOp (KvRaft_Put p) \<lparr>call_others = [], call_local = l, call_end = NoReply True\<rparr> kv =
    (None, snd (kvraft_put p kv))"
  by (simp_all add: rpc_call_def others_do_def KvRaft_Put_def do_op_def DoOp_put reply_of_def)

lemma put_performed:
  assumes "kvraft.cur_version kv (pa_Key p) = pa_Version p"
  shows "pr_Err (fst (kvraft_put p kv)) = OK"
    and "KV (snd (kvraft_put p kv)) (pa_Key p) = Some \<lparr>Value = pa_Value p, Version = pa_Version p + 1\<rparr>"
  using kvraft.put_cases [OF TrueI, of p kv] assms by (metis fun_upd_same)+

text \<open>The clerk sets \<open>retry\<close> only after a full pass over the servers.  If the first call applied the
  \<open>Put\<close> but its reply was lost, the next server's \<open>ErrVersion\<close> is returned as it is: the caller is told
  that the \<open>Put\<close> was definitely not performed although it was.\<close>
theorem kvraft_Clerk_Put_denies_performed:
  assumes "2 \<le> numServer ck" and "kvraft.cur_version kv key = version"
  shows "\<exists>ck' kv'. KvClerk_Put [\<lparr>call_others = [], call_local = l1, call_end = NoReply True\<rparr>,
        \<lparr>call_others = [], call_local = l2, call_end = Answered\<rparr>] key value version ck kv = Some (ErrVersion, ck', kv') \<and>
      KV kv' key = Some \<lparr>Value = value, Version = version + 1\<rparr>"
proof -
  let ?a = "\<lparr>pa_Key = key, pa_Value = value, pa_Version = version\<rparr>"
  let ?kv1 = "snd (kvraft_put ?a kv)"
  have ok: "pr_Err (fst (kvraft_put ?a kv)) = OK" "KV ?kv1 key = Some \<lparr>Value = value, Version = version + 1\<rparr>"
    using put_performed [of kv ?a] assms(2) by simp_all
  note twice = kvraft.put_twice [OF TrueI ok(1)]
  have "0 < numServer ck" using assms(1) by simp
  then show ?thesis
    using assms(1) twice ok(2)
    by (simp add: KvClerk_Put_def server_loop_step put_call conclusive_def)
qed

theorem kvraft_Clerk_Put_denies_performed_witness:
  "\<exists>ck' kv'. KvClerk_Put [\<lparr>call_others = [], call_local = \<lparr>kvr_me = 1, kvr_dead = 0, KV = Map.empty\<rparr>, call_end = NoReply True\<rparr>,
        \<lparr>call_others = [], call_local = \<lparr>kvr_me = 2, kvr_dead = 0, KV = Map.empty\<rparr>, call_end = Answered\<rparr>]
      ''k'' ''v'' 0 \<lparr>numServer = 3, lastLeader = 0\<rparr> \<lparr>kvr_me = 0, kvr_dead = 0, KV = Map.empty\<rparr> = Some (ErrVersion, ck', kv') \<and>
      KV kv' ''k'' = Some \<lparr>Value = ''v'', Version = 1\<rparr>"
  using kvraft_Clerk_Put_denies_performed [of "\<lparr>numServer = 3, lastLeader = 0\<rparr>" "\<lparr>kvr_me = 0, kvr_dead = 0, KV = Map.empty\<rparr>" "''k''" 0 "\<lparr>kvr_me = 1, kvr_dead = 0, KV = Map.empty\<rparr>"
      "\<lparr>kvr_me = 2, kvr_dead = 0, KV = Map.empty\<rparr>" "''v''"]
  by (simp add: kvraft.cur_version_def)

text \<open>A call of \<open>Put\<close> either gives no conclusive reply or replies with what the store did.\<close>

lemma put_call_cases:
  fixes c :: "(KvRaft, kvraft_req) call"
  shows "conclusive pr_Err (fst (rpc_call KvRaft_DoOp (KvRaft_Put p) c kv)) \<longleftrightarrow> call_end c = Answered"
    and "call_end c = Answered \<Longrightarrow> rpc_call KvRaft_DoOp (KvRaft_Put p) c kv =
      (Some \<lparr>pr_Err = pr_Err (fst (kvraft_put p (others_do KvRaft_DoOp (call_others c) kv)))\<rparr>,
       snd (kvraft_put p (others_do KvRaft_DoOp (call_others c) kv)))"
proof -
  have "pr_Err (fst (kvraft_put p s)) \<noteq> ErrWrongLeader" for s
    by (cases rule: kvraft.put_cases [OF TrueI, of p s]) simp_all
  then show "conclusive pr_Err (fst (rpc_call KvRaft_DoOp (KvRaft_Put p) c kv)) \<longleftrightarrow> call_end c = Answered"
    by (cases "call_end c") (auto simp: rpc_call_def KvRaft_Put_def do_op_def DoOp_put reply_of_def conclusive_def Let_def)
qed (simp add: rpc_call_def KvRaft_Put_def do_op_def DoOp_put reply_of_def Let_def)




section \<open>The replicated service\<close>

text \<open>C15: the servers of the key/value service behave as one.  Raft delivers to each of them the commands of
  one log in order, or snapshots that one of them took; they submit, time out, stop and start again at
  any moment.  Then a reply that a \<open>Submit\<close> returns with \<open>OK\<close> on any server is to a command of the log
  which that server submitted, and it is the reply that this command gets when the log is executed
  from the start on one store.\<close>
theorem kvraft_replies_sequential:
  assumes "replicas_reachable kvraft_sm maxrs (\<lambda>i. \<lparr>kvr_me = i, kvr_dead = 0, KV = Map.empty\<rparr>) log s"
    and "(index, OK, Some rep) \<in> set (returned (srv s i))"
  shows "1 \<le> index \<and> index \<le> int (length log) \<and> SubmitId (log ! (nat index - 1)) = i \<and>
    (\<exists>reps kv. do_ops KvRaft_DoOp (map Req (take (nat index) log)) \<lparr>kvr_me = 0, kvr_dead = 0, KV = Map.empty\<rparr> =
       Inr (reps @ [rep], kv))"
  using kvraft_rsm.replies_sequential [OF assms(1) _ assms(2), of "\<lparr>kvr_me = 0, kvr_dead = 0, KV = Map.empty\<rparr>"]
  by (auto simp: log_reply_def replay_def kvraft_sm_def)

text \<open>Server 1 submits a \<open>Put\<close>, applies it and returns its reply.\<close>

lemma kvraft_submit_demo:
  fixes p :: PutArgs
  assumes "pa_Version p = 0"
  defines "start \<equiv> \<lambda>i. \<lparr>kvr_me = i, kvr_dead = 0, KV = Map.empty\<rparr>" and "op \<equiv> \<lparr>Req = KvReq (OpPut p), SubmitId = 1\<rparr>"
  shows "\<exists>s. replicas_reachable kvraft_sm 10 start [op] s \<and> (1, OK, Some (RPut \<lparr>pr_Err = OK\<rparr>)) \<in> set (returned (srv s 1))"
proof -
  let ?R = "replicas_reachable kvraft_sm 10 start [op]" and ?rep = "RPut \<lparr>pr_Err = OK\<rparr>"
  let ?st = "\<lparr>kvr_me = 1, kvr_dead = 0, KV = [pa_Key p \<mapsto> \<lparr>Value = pa_Value p, Version = 1\<rparr>]\<rparr>"
  define s0 where "s0 = (replicas_init 10 start :: (KvRaft, kvraft_req, kvreply, string \<rightharpoonup> KVEntry) replicas)"
  obtain r1 where r1: "Submit_started 1 True (rsm_of (srv s0 1)) = (Some 0, r1)" "appliedChs r1 1 = Some 0" "reader r1 = RNext"
    "sm r1 = start 1" "rsm_me r1 = 1" "chans r1 0 = \<lparr>buf = [], closed = False\<rparr>" "lastSnapshot r1 = 0" "maxraftstate r1 = 10"
    by (simp add: s0_def replicas_init_def Submit_started_def rsm_init_def MakeRSM_def getChannel_def)
  define x1 where "x1 = (srv s0 1)\<lparr>rsm_of := r1, waiting := (1, 0) # waiting (srv s0 1)\<rparr>"
  define s1 where "s1 = set_replica 1 x1 (covers s0 1) s0"
  have x1: "rsm_step kvraft_sm (srv s0 1) x1" unfolding x1_def by (rule rsm_step.submit [OF r1(1)])
  have R1: "?R s1"
    unfolding s1_def s0_def
    by (rule replicas_reachable.step [OF replicas_reachable.init replica_step.local [OF x1 [unfolded s0_def]]])
      (simp_all add: x1_def s0_def replicas_init_def rsm_init_def MakeRSM_def r1)
  let ?r2 = "r1\<lparr>sm := ?st, reader := RSend 0 ?rep\<rparr>"
  have do: "DoOp kvraft_sm (Req op) (start 1) = Inr (?rep, ?st)"
    using assms(1) by (simp add: kvraft_sm_def KvRaft_DoOp_def op_def start_def)
  have m: "Reader_msg kvraft_sm (command_msg 1 (Some op)) r1 = Inr (None, ?r2)"
    using r1 do by (simp add: Reader_msg_def command_msg_def getChannel_def Let_def op_def)
  define x2 where "x2 = x1\<lparr>rsm_of := ?r2, applied := [(1, op, ?rep)]\<rparr>"
  define s2 where "s2 = set_replica 1 x2 1 s1"
  have f1: "srv s1 1 = x1" "covers s1 1 = 0" "rsm_of x1 = r1" "applied x1 = []" "waiting x1 = [(1, 0)]"
    by (simp_all add: s1_def x1_def s0_def replicas_init_def rsm_init_def)
  have R2: "?R s2"
    using replicas_reachable.step [OF R1 replica_step.deliver [of s1 1 "[op]" op 1 kvraft_sm ?rep ?st None ?r2]] r1 do m f1
    by (simp add: s2_def x2_def set_replica_def)
  let ?r3 = "?r2\<lparr>chans := (chans r1)(0 := \<lparr>buf = [?rep], closed = False\<rparr>), reader := RNext\<rparr>"
  define x3 where "x3 = x2\<lparr>rsm_of := ?r3\<rparr>"
  define s3 where "s3 = set_replica 1 x3 1 s2"
  have f2: "srv s2 1 = x2" "covers s2 1 = 1" by (simp_all add: s2_def)
  have x3: "rsm_step kvraft_sm x2 x3"
    using rsm_step.send [of x2 ?r3 kvraft_sm] r1 by (simp add: x3_def x2_def Reader_send_def)
  have R3: "?R s3"
    using replicas_reachable.step [OF R2 replica_step.local [of kvraft_sm s2 1 x3]] x3 f2 by (simp add: s3_def x3_def x2_def)
  obtain r4 where r4: "Submit_receive 1 0 ?r3 = Some (Inr ((OK, Some ?rep), r4))" "sm r4 = ?st"
    by (simp add: Submit_receive_def close_delete_def)
  define x4 where "x4 = x3\<lparr>rsm_of := r4, waiting := remove1 (1, 0) (waiting x3), returned := (1, OK, Some ?rep) # returned x3\<rparr>"
  have x4: "rsm_step kvraft_sm x3 x4"
    unfolding x4_def by (rule rsm_step.receive) (use r4 f1 in \<open>simp_all add: x3_def x2_def\<close>)
  have "?R (set_replica 1 x4 1 s3)"
    using replicas_reachable.step [OF R3 replica_step.local [of kvraft_sm s3 1 x4]] x4 r4(2) by (simp add: s3_def x4_def x3_def x2_def)
  then show ?thesis by (rule exI [of _ "set_replica 1 x4 1 s3", OF conjI]) (simp add: x4_def)
qed

theorem kvraft_replies_sequential_witness:
  "\<exists>reps kv. do_ops KvRaft_DoOp [KvReq (OpPut \<lparr>pa_Key = ''k'', pa_Value = ''v'', pa_Version = 0\<rparr>)]
     \<lparr>kvr_me = 0, kvr_dead = 0, KV = Map.empty\<rparr> = Inr (reps @ [RPut \<lparr>pr_Err = OK\<rparr>], kv)"
proof -
  obtain s where s: "replicas_reachable kvraft_sm 10 (\<lambda>i. \<lparr>kvr_me = i, kvr_dead = 0, KV = Map.empty\<rparr>)
      [\<lparr>Req = KvReq (OpPut \<lparr>pa_Key = ''k'', pa_Value = ''v'', pa_Version = 0\<rparr>), SubmitId = 1\<rparr>] s"
    "(1, OK, Some (RPut \<lparr>pr_Err = OK\<rparr>)) \<in> set (returned (srv s 1))"
    using kvraft_submit_demo [of "\<lparr>pa_Key = ''k'', pa_Value = ''v'', pa_Version = 0\<rparr>"] by auto
  from kvraft_replies_sequential [OF s] show ?thesis by simp
qed

end
