(* ===== verification/Fnv.thy ===== *)
theory Fnv
  imports Prelude
begin

text \<open>
  The 32-bit FNV-1a hash of Go's \<open>hash/fnv\<close> (\<open>fnv.New32a\<close>, \<open>Write\<close>, \<open>Sum32\<close>), which the code
  uses to place keys in shards and intermediate keys in reduce tasks.  Multiplication wraps
  around in 32 bits.
\<close>

unbundle bit_operations_syntax

definition fnv_offset32 :: "32 word" where
  "fnv_offset32 = 2166136261"

definition fnv_prime32 :: "32 word" where
  "fnv_prime32 = 16777619"

definition fnv1a_byte :: "32 word \<Rightarrow> 8 word \<Rightarrow> 32 word" where
  "fnv1a_byte h b = (h XOR ucast b) * fnv_prime32"

definition fnv1a :: "8 word list \<Rightarrow> 32 word" where
  "fnv1a bs = foldl fnv1a_byte fnv_offset32 bs"

text \<open>\<open>[]byte(key)\<close>: a Go string is its bytes.\<close>

definition string_bytes :: "string \<Rightarrow> 8 word list" where
  "string_bytes s = map (\<lambda>c. word_of_nat (of_char c)) s"

end
