(* ===== verification/ShardCfg.thy ===== *)
theory ShardCfg
  imports Fnv "HOL-Library.While_Combinator" "HOL-Library.Multiset"
begin

text \<open>
  Shard configurations (\<open>src/shardkv1/shardcfg/shardcfg.go\<close>): the hash of a key to its shard,
  joining and leaving of groups and the rebalancing of shards over groups.

  \<open>Shards\<close> is the array of \<open>NShards\<close> group identifiers.  \<open>Groups\<close>, a Go map, is an association
  list with distinct keys: its length and its keys are used, and its order stands for the
  unspecified order of a \<open>range\<close> over it, so a theorem for all lists holds for every iteration
  order.  \<open>log.Fatalf\<close> and the test's \<open>fatalf\<close> are the error \<open>LogFatal\<close>.  The rebalancing loop has
  no bound in the code and is \<open>while_option\<close>; that it stops is proved.
\<close>

section \<open>Configurations\<close>

type_synonym Tgid = int
type_synonym Tshid = int
type_synonym Tnum = int

definition NShards :: nat where
  "NShards = 12"

definition NumFirst :: Tnum where
  "NumFirst = 1"

definition Gid1 :: Tgid where
  "Gid1 = 1"

definition Key2Shard :: "string \<Rightarrow> Tshid" where
  "Key2Shard key = uint (fnv1a (string_bytes key)) mod int NShards"

record ShardConfig =
  Num :: Tnum
  Shards :: "Tgid list"
  Groups :: "(Tgid \<times> string list) list"

definition MakeShardConfig :: ShardConfig where
  "MakeShardConfig = \<lparr>Num = 0, Shards = replicate NShards 0, Groups = []\<rparr>"

definition ShardConfig_Copy :: "ShardConfig \<Rightarrow> ShardConfig" where
  "ShardConfig_Copy cfg =
     \<lparr>Num = Num cfg, Shards = Shards cfg, Groups = map (\<lambda>(k, srvs). (k, srvs)) (Groups cfg)\<rparr>"

text \<open>\<open>counts[g] += 1\<close> over the shards; a missing key reads as 0.\<close>

definition shard_counts :: "Tgid list \<Rightarrow> Tgid \<Rightarrow> int" where
  "shard_counts shs = foldl (\<lambda>m g. m(g := m g + 1)) (\<lambda>_. 0) shs"

text \<open>The loop of \<open>analyze\<close> over the sorted group identifiers: \<open>(mg, mn, lg, ln)\<close>.\<close>

fun analyze_loop :: "(Tgid \<Rightarrow> int) \<Rightarrow> Tgid list \<Rightarrow> Tgid \<times> int \<times> Tgid \<times> int \<Rightarrow> Tgid \<times> int \<times> Tgid \<times> int" where
  "analyze_loop counts [] acc = acc"
| "analyze_loop counts (g # gs) (mg, mn, lg, ln) =
     (let (lg', ln') = (if counts g < ln then (g, counts g) else (lg, ln));
          (mg', mn') = (if counts g > mn then (g, counts g) else (mg, mn))
      in analyze_loop counts gs (mg', mn', lg', ln'))"

definition analyze :: "ShardConfig \<Rightarrow> Tgid \<times> int \<times> Tgid \<times> int" where
  "analyze c = analyze_loop (shard_counts (Shards c)) (sort (map fst (Groups c))) (- 1, - 1, - 1, 257)"

definition least_group :: "ShardConfig \<Rightarrow> Tgid" where
  "least_group c = (case analyze c of (_, _, lg, _) \<Rightarrow> lg)"

definition has_group :: "ShardConfig \<Rightarrow> Tgid \<Rightarrow> bool" where
  "has_group c g = (map_of (Groups c) g \<noteq> None)"

text \<open>\<open>for s, g := range c.Shards\<close>: assign every shard whose group is gone to the least loaded one.\<close>

fun assign_shards :: "(nat \<times> Tgid) list \<Rightarrow> ShardConfig \<Rightarrow> ShardConfig" where
  "assign_shards [] c = c"
| "assign_shards ((s, g) # sgs) c =
     (if \<not> has_group c g
      then assign_shards sgs (c\<lparr>Shards := (Shards c)[s := least_group c]\<rparr>)
      else assign_shards sgs c)"

text \<open>Move the first shard of \<open>mg\<close> to \<open>lg\<close>.\<close>

fun move_first :: "Tgid \<Rightarrow> Tgid \<Rightarrow> Tgid list \<Rightarrow> Tgid list" where
  "move_first mg lg [] = []"
| "move_first mg lg (g # gs) = (if g = mg then lg # gs else g # move_first mg lg gs)"

definition unbalanced :: "ShardConfig \<Rightarrow> bool" where
  "unbalanced c = (case analyze c of (mg, mn, lg, ln) \<Rightarrow> \<not> mn < ln + 2)"

definition move_shard :: "ShardConfig \<Rightarrow> ShardConfig" where
  "move_shard c = (case analyze c of (mg, mn, lg, ln) \<Rightarrow> c\<lparr>Shards := move_first mg lg (Shards c)\<rparr>)"

definition Rebalance :: "ShardConfig \<Rightarrow> ShardConfig option" where
  "Rebalance c =
     (if length (Groups c) < 1 then Some (c\<lparr>Shards := map (\<lambda>_. 0) (Shards c)\<rparr>)
      else while_option unbalanced move_shard (assign_shards (enumerate 0 (Shards c)) c))"

section \<open>Joining and leaving\<close>

text \<open>Whether a server of the group that joins already serves another group.\<close>

definition server_clash :: "ShardConfig \<Rightarrow> string list \<Rightarrow> bool" where
  "server_clash cfg servers =
     (\<exists>(xgid, xservers) \<in> set (Groups cfg). \<exists>s1 \<in> set xservers. \<exists>s2 \<in> set servers. s1 = s2)"

text \<open>The loop of \<open>Join\<close>: the early \<open>return false\<close> keeps what the earlier iterations did.\<close>

fun Join_loop :: "(Tgid \<times> string list) list \<Rightarrow> bool \<Rightarrow> ShardConfig \<Rightarrow> (bool \<times> ShardConfig) go" where
  "Join_loop [] changed cfg =
     (if \<not> changed then Inl (LogFatal ''Join but no change'')
      else Inr (True, cfg\<lparr>Num := Num cfg + 1\<rparr>))"
| "Join_loop ((gid, servers) # rest) changed cfg =
     (if has_group cfg gid then Inr (False, cfg)
      else if server_clash cfg servers then Inl (LogFatal ''Join puts server in two groups'')
      else Join_loop rest True (cfg\<lparr>Groups := Groups cfg @ [(gid, servers)]\<rparr>))"

definition Join :: "(Tgid \<times> string list) list \<Rightarrow> ShardConfig \<Rightarrow> (bool \<times> ShardConfig) go" where
  "Join servers cfg = Join_loop servers False cfg"

fun Leave_loop :: "Tgid list \<Rightarrow> bool \<Rightarrow> ShardConfig \<Rightarrow> (bool \<times> ShardConfig) go" where
  "Leave_loop [] changed cfg =
     (if \<not> changed then Inl (LogFatal ''Leave but no change'')
      else Inr (True, cfg\<lparr>Num := Num cfg + 1\<rparr>))"
| "Leave_loop (gid # rest) changed cfg =
     (if \<not> has_group cfg gid then Inr (False, cfg)
      else Leave_loop rest True (cfg\<lparr>Groups := filter (\<lambda>(k, v). k \<noteq> gid) (Groups cfg)\<rparr>))"

definition Leave :: "Tgid list \<Rightarrow> ShardConfig \<Rightarrow> (bool \<times> ShardConfig) go" where
  "Leave gids cfg = Leave_loop gids False cfg"

text \<open>\<open>None\<close> in place of a result is a rebalancing loop that does not stop.\<close>

definition JoinBalance :: "(Tgid \<times> string list) list \<Rightarrow> ShardConfig \<Rightarrow> (bool \<times> ShardConfig) go option" where
  "JoinBalance servers cfg =
     (case Join servers cfg of
        Inl e \<Rightarrow> Some (Inl e)
      | Inr (False, cfg') \<Rightarrow> Some (Inr (False, cfg'))
      | Inr (True, cfg') \<Rightarrow> map_option (\<lambda>c. Inr (True, c)) (Rebalance cfg'))"

definition LeaveBalance :: "Tgid list \<Rightarrow> ShardConfig \<Rightarrow> (bool \<times> ShardConfig) go option" where
  "LeaveBalance gids cfg =
     (case Leave gids cfg of
        Inl e \<Rightarrow> Some (Inl e)
      | Inr (False, cfg') \<Rightarrow> Some (Inr (False, cfg'))
      | Inr (True, cfg') \<Rightarrow> map_option (\<lambda>c. Inr (True, c)) (Rebalance cfg'))"

text \<open>\<open>cfg.Shards[sh]\<close> panics outside the array; a missing group reads as nil.\<close>

definition GidServers :: "Tshid \<Rightarrow> ShardConfig \<Rightarrow> (Tgid \<times> string list \<times> bool) go" where
  "GidServers sh cfg =
     go_bind (go_nth (Shards cfg) sh) (\<lambda>gid.
       case map_of (Groups cfg) gid of
         None \<Rightarrow> Inr (gid, [], False)
       | Some srvs \<Rightarrow> Inr (gid, srvs, True))"

fun IsMember_loop :: "Tgid \<Rightarrow> Tgid list \<Rightarrow> bool" where
  "IsMember_loop gid [] = False"
| "IsMember_loop gid (g # gs) = (if g = gid then True else IsMember_loop gid gs)"

definition IsMember :: "Tgid \<Rightarrow> ShardConfig \<Rightarrow> bool" where
  "IsMember gid cfg = IsMember_loop gid (Shards cfg)"

text \<open>The maximum and minimum of \<open>CheckConfig\<close>'s last loop, over the groups in any order.\<close>

fun minmax_loop :: "(Tgid \<Rightarrow> int) \<Rightarrow> Tgid list \<Rightarrow> int \<times> int \<Rightarrow> int \<times> int" where
  "minmax_loop counts [] acc = acc"
| "minmax_loop counts (g # gs) (mx, mn) =
     minmax_loop counts gs
       (if counts g > mx then counts g else mx, if counts g < mn then counts g else mn)"

definition CheckConfig :: "Tgid list \<Rightarrow> ShardConfig \<Rightarrow> unit go" where
  "CheckConfig groups cfg =
     (if length (Groups cfg) \<noteq> length groups then Inl (LogFatal ''wanted groups'')
      else if \<exists>g \<in> set groups. \<not> has_group cfg g then Inl (LogFatal ''missing group'')
      else if groups \<noteq> [] \<and> (\<exists>g \<in> set (Shards cfg). \<not> has_group cfg g)
        then Inl (LogFatal ''invalid group'')
      else (let (mx, mn) = minmax_loop (shard_counts (Shards cfg)) (map fst (Groups cfg)) (0, 257)
            in if mx > mn + 1 then Inl (LogFatal ''max too much larger than min'') else Inr ()))"

section \<open>Counting\<close>

definition wf_cfg :: "ShardConfig \<Rightarrow> bool" where
  "wf_cfg c \<longleftrightarrow> length (Shards c) = NShards \<and> distinct (map fst (Groups c))"

abbreviation gids :: "ShardConfig \<Rightarrow> Tgid set" where
  "gids c \<equiv> fst ` set (Groups c)"

text \<open>Every shard belongs to a group of the configuration.\<close>

definition assigned :: "ShardConfig \<Rightarrow> bool" where
  "assigned c \<longleftrightarrow> set (Shards c) \<subseteq> gids c"

text \<open>No group has two shards more than another.\<close>

definition balanced :: "ShardConfig \<Rightarrow> bool" where
  "balanced c \<longleftrightarrow> (\<forall>g \<in> gids c. \<forall>h \<in> gids c. count_list (Shards c) g \<le> count_list (Shards c) h + 1)"

lemma shard_counts_eq: "shard_counts shs g = int (count_list shs g)"
proof -
  have "foldl (\<lambda>m g. m(g := m g + 1)) f shs g = f g + int (count_list shs g)" for f
    by (induction shs arbitrary: f) auto
  then show ?thesis by (simp add: shard_counts_def)
qed

lemma has_group_iff: "has_group c g \<longleftrightarrow> g \<in> gids c"
  by (simp add: has_group_def map_of_eq_None_iff)

lemma count_list_update:
  "i < length xs \<Longrightarrow>
   count_list (xs[i := y]) z + (if xs ! i = z then 1 else 0) = count_list xs z + (if y = z then 1 else 0)"
proof (induction xs arbitrary: i)
  case (Cons x xs)
  show ?case
  proof (cases i)
    case (Suc n)
    then show ?thesis using Cons.IH [of n] Cons.prems by auto
  qed simp
qed simp

lemma move_first_eq_update:
  "mg \<in> set xs \<Longrightarrow> \<exists>i < length xs. xs ! i = mg \<and> move_first mg lg xs = xs[i := lg]"
proof (induction xs)
  case (Cons g gs)
  show ?case
  proof (cases "g = mg")
    case True
    then show ?thesis by (intro exI [of _ 0]) simp
  next
    case False
    with Cons obtain i where "i < length gs" "gs ! i = mg" "move_first mg lg gs = gs[i := lg]"
      by auto
    with False show ?thesis by (intro exI [of _ "Suc i"]) simp
  qed
qed simp

lemma count_list_move_first:
  assumes "mg \<in> set xs" and "mg \<noteq> lg"
  shows "count_list (move_first mg lg xs) z =
    (if z = mg then count_list xs mg - 1 else if z = lg then count_list xs lg + 1 else count_list xs z)"
proof -
  obtain i where "i < length xs" "xs ! i = mg" "move_first mg lg xs = xs[i := lg]"
    using move_first_eq_update [OF assms(1)] by blast
  then show ?thesis using count_list_update [of i xs lg z] assms by (auto split: if_splits)
qed

lemma length_move_first [simp]: "length (move_first mg lg xs) = length xs"
  by (induction xs) auto

lemma set_move_first: "set (move_first mg lg xs) \<subseteq> insert lg (set xs)"
  by (induction xs) auto

section \<open>The most and the least loaded group\<close>

lemma analyze_loop_max:
  "analyze_loop f gs (mg, mn, lg, ln) = (mg', mn', lg', ln') \<Longrightarrow>
   mn \<le> mn' \<and> (\<forall>g \<in> set gs. f g \<le> mn') \<and> ((mg', mn') = (mg, mn) \<or> mg' \<in> set gs \<and> mn' = f mg')"
proof (induction gs arbitrary: mg mn lg ln)
  case (Cons g gs)
  show ?case
  proof (cases "f g > mn")
    case True
    then obtain lg1 ln1 where "analyze_loop f gs (g, f g, lg1, ln1) = (mg', mn', lg', ln')"
      using Cons.prems by (auto simp: Let_def split: if_splits)
    from Cons.IH [OF this] True show ?thesis by auto
  next
    case False
    then obtain lg1 ln1 where "analyze_loop f gs (mg, mn, lg1, ln1) = (mg', mn', lg', ln')"
      using Cons.prems by (auto simp: Let_def split: if_splits)
    from Cons.IH [OF this] False show ?thesis by auto
  qed
qed simp

lemma analyze_loop_min:
  "analyze_loop f gs (mg, mn, lg, ln) = (mg', mn', lg', ln') \<Longrightarrow>
   ln' \<le> ln \<and> (\<forall>g \<in> set gs. ln' \<le> f g) \<and> ((lg', ln') = (lg, ln) \<or> lg' \<in> set gs \<and> ln' = f lg')"
proof (induction gs arbitrary: mg mn lg ln)
  case (Cons g gs)
  show ?case
  proof (cases "f g < ln")
    case True
    then obtain mg1 mn1 where "analyze_loop f gs (mg1, mn1, g, f g) = (mg', mn', lg', ln')"
      using Cons.prems by (auto simp: Let_def split: if_splits)
    from Cons.IH [OF this] True show ?thesis by auto
  next
    case False
    then obtain mg1 mn1 where "analyze_loop f gs (mg1, mn1, lg, ln) = (mg', mn', lg', ln')"
      using Cons.prems by (auto simp: Let_def split: if_splits)
    from Cons.IH [OF this] False show ?thesis by auto
  qed
qed simp

lemma analyze_spec:
  assumes "length (Shards c) = NShards" and "Groups c \<noteq> []" and "analyze c = (mg, mn, lg, ln)"
  shows "mg \<in> gids c" and "mn = int (count_list (Shards c) mg)"
    and "lg \<in> gids c" and "ln = int (count_list (Shards c) lg)"
    and "g \<in> gids c \<Longrightarrow> int (count_list (Shards c) g) \<le> mn \<and> ln \<le> int (count_list (Shards c) g)"
proof -
  let ?f = "\<lambda>g. int (count_list (Shards c) g)" and ?gs = "sort (map fst (Groups c))"
  have f: "shard_counts (Shards c) = ?f" by (rule ext) (rule shard_counts_eq)
  have set: "set ?gs = gids c" by simp
  obtain g0 where g0: "g0 \<in> gids c" using assms(2) by (cases "Groups c") auto
  have lt: "?f g < 257" for g
    using count_le_length [of "Shards c" g] assms(1) by (simp add: NShards_def)
  have an: "analyze_loop ?f ?gs (- 1, - 1, - 1, 257) = (mg, mn, lg, ln)"
    using assms(3) by (simp add: analyze_def f)
  note mx = analyze_loop_max [OF an, unfolded set] and mi = analyze_loop_min [OF an, unfolded set]
  have "mn \<noteq> - 1" using mx g0 by force
  then show "mg \<in> gids c" "mn = ?f mg" using mx by auto
  have "ln \<noteq> 257" using mi g0 lt [of g0] by force
  then show "lg \<in> gids c" "ln = ?f lg" using mi by auto
  show "g \<in> gids c \<Longrightarrow> ?f g \<le> mn \<and> ln \<le> ?f g" using mx mi by blast
qed

lemma balanced_iff_not_unbalanced:
  assumes "length (Shards c) = NShards" and "Groups c \<noteq> []"
  shows "unbalanced c \<longleftrightarrow> \<not> balanced c"
proof -
  obtain mg mn lg ln where an: "analyze c = (mg, mn, lg, ln)" by (cases "analyze c") auto
  note sp = analyze_spec [OF assms an]
  show ?thesis
  proof
    assume "unbalanced c"
    then have "\<not> mn < ln + 2" by (simp add: unbalanced_def an)
    then show "\<not> balanced c" using sp(1-4) by (fastforce simp: balanced_def)
  next
    assume "\<not> balanced c"
    then obtain g h where "g \<in> gids c" "h \<in> gids c"
      "\<not> count_list (Shards c) g \<le> count_list (Shards c) h + 1"
      by (auto simp: balanced_def)
    with sp(5) [of g] sp(5) [of h] show "unbalanced c" by (simp add: unbalanced_def an)
  qed
qed

section \<open>The rebalancing loop\<close>

text \<open>The sum of the squares of the loads decreases with every move.\<close>

definition load_squares :: "ShardConfig \<Rightarrow> nat" where
  "load_squares c = (\<Sum>g \<in> gids c. (count_list (Shards c) g)\<^sup>2)"

lemma sum_squares_move:
  fixes f f' :: "'a \<Rightarrow> nat"
  assumes "finite G" and "m \<in> G" and "l \<in> G" and "f l + 2 \<le> f m"
    and f': "\<And>g. f' g = (if g = m then f m - 1 else if g = l then f l + 1 else f g)"
  shows "(\<Sum>g \<in> G. (f' g)\<^sup>2) < (\<Sum>g \<in> G. (f g)\<^sup>2)"
proof -
  have ml: "m \<noteq> l" using assms(4) by auto
  let ?R = "G - {m} - {l}"
  have split: "(\<Sum>g \<in> G. h g) = h m + (h l + (\<Sum>g \<in> ?R. h g))" for h :: "'a \<Rightarrow> nat"
    using assms(1-3) ml by (simp add: sum.remove [of G m] sum.remove [of "G - {m}" l])
  have "(\<Sum>g \<in> ?R. (f' g)\<^sup>2) = (\<Sum>g \<in> ?R. (f g)\<^sup>2)"
    by (rule sum.cong) (auto simp: f')
  moreover have "(f m - 1)\<^sup>2 + (f l + 1)\<^sup>2 < (f m)\<^sup>2 + (f l)\<^sup>2"
  proof -
    obtain d where "f m = f l + 2 + d" using assms(4) le_Suc_ex by blast
    then show ?thesis by (simp add: power2_eq_square algebra_simps)
  qed
  ultimately show ?thesis using ml by (simp add: split f')
qed

definition rebalance_inv :: "ShardConfig \<Rightarrow> ShardConfig \<Rightarrow> bool" where
  "rebalance_inv c0 c \<longleftrightarrow> Groups c = Groups c0 \<and> Num c = Num c0 \<and> length (Shards c) = NShards \<and> assigned c"

lemma move_shard_inv:
  assumes "rebalance_inv c0 c" and "Groups c0 \<noteq> []" and "unbalanced c"
  shows "rebalance_inv c0 (move_shard c)" and "load_squares (move_shard c) < load_squares c"
proof -
  obtain mg mn lg ln where an: "analyze c = (mg, mn, lg, ln)" by (cases "analyze c") auto
  have len: "length (Shards c) = NShards" and ne: "Groups c \<noteq> []" and as: "assigned c"
    using assms by (auto simp: rebalance_inv_def)
  note sp = analyze_spec [OF len ne an]
  have ge: "count_list (Shards c) lg + 2 \<le> count_list (Shards c) mg"
    using assms(3) sp(2,4) by (simp add: unbalanced_def an)
  then have mem: "mg \<in> set (Shards c)" and ml: "mg \<noteq> lg"
    using count_notin [of mg "Shards c"] by fastforce+
  have mv: "move_shard c = c\<lparr>Shards := move_first mg lg (Shards c)\<rparr>"
    by (simp add: move_shard_def an)
  have "set (move_first mg lg (Shards c)) \<subseteq> gids c"
    using set_move_first [of mg lg "Shards c"] as sp(3) by (auto simp: assigned_def)
  then show "rebalance_inv c0 (move_shard c)"
    using assms(1) by (simp add: mv rebalance_inv_def assigned_def)
  show "load_squares (move_shard c) < load_squares c"
    using sum_squares_move [OF _ sp(1,3) ge, of "count_list (move_first mg lg (Shards c))"]
      count_list_move_first [OF mem ml] by (simp add: load_squares_def mv)
qed

lemma rebalance_loop:
  assumes "rebalance_inv c0 c" and "Groups c0 \<noteq> []"
  shows "\<exists>c'. while_option unbalanced move_shard c = Some c' \<and> rebalance_inv c0 c' \<and> balanced c'"
proof -
  obtain c' where c': "while_option unbalanced move_shard c = Some c'"
    using measure_while_option_Some [of "rebalance_inv c0" unbalanced move_shard load_squares c]
      move_shard_inv [OF _ assms(2)] assms(1) by blast
  have inv: "rebalance_inv c0 c'"
    using while_option_rule [of "rebalance_inv c0" unbalanced move_shard c c', OF _ c' assms(1)]
      move_shard_inv(1) [OF _ assms(2)] by blast
  have "\<not> unbalanced c'" using c' by (rule while_option_stop)
  then have "balanced c'"
    using inv assms(2) balanced_iff_not_unbalanced [of c'] by (auto simp: rebalance_inv_def)
  with c' inv show ?thesis by blast
qed

text \<open>The first loop leaves no shard unassigned.\<close>

lemma assign_shards_inv:
  assumes "length (Shards c) = NShards" and "Groups c \<noteq> []"
    and "\<And>i. i < k \<Longrightarrow> Shards c ! i \<in> gids c"
    and "\<And>i. k \<le> i \<Longrightarrow> i < NShards \<Longrightarrow> Shards c ! i = xs ! (i - k)" and "k + length xs = NShards"
  shows "rebalance_inv c (assign_shards (enumerate k xs) c)"
  using assms
proof (induction xs arbitrary: c k)
  case Nil
  then show ?case by (auto simp: rebalance_inv_def assigned_def in_set_conv_nth)
next
  case (Cons g gs)
  obtain mg mn lg ln where an: "analyze c = (mg, mn, lg, ln)" by (cases "analyze c") auto
  have least: "least_group c \<in> gids c"
    using analyze_spec(3) [OF Cons.prems(1,2) an] by (simp add: least_group_def an)
  have k: "k < NShards" "k < length (Shards c)" and g: "Shards c ! k = g"
    using Cons.prems(1,4,5) by auto
  let ?c = "if has_group c g then c else c\<lparr>Shards := (Shards c)[k := least_group c]\<rparr>"
  have "rebalance_inv ?c (assign_shards (enumerate (Suc k) gs) ?c)"
  proof (rule Cons.IH)
    show "length (Shards ?c) = NShards" "Groups ?c \<noteq> []" using Cons.prems by auto
    show "Shards ?c ! i \<in> gids ?c" if "i < Suc k" for i
      using that Cons.prems(3) [of i] g k least by (cases "i = k") (auto simp: has_group_iff)
    show "Shards ?c ! i = gs ! (i - Suc k)" if "Suc k \<le> i" "i < NShards" for i
      using that Cons.prems(4) [of i] by (auto simp: nth_Cons')
    show "Suc k + length gs = NShards" using Cons.prems(5) by simp
  qed
  then show ?case by (auto simp: rebalance_inv_def split: if_splits)
qed

lemma assign_shards_inv0:
  assumes "length (Shards c) = NShards" and "Groups c \<noteq> []"
  shows "rebalance_inv c (assign_shards (enumerate 0 (Shards c)) c)"
  by (rule assign_shards_inv) (use assms in auto)

lemma assign_shards_noop:
  "\<forall>(s, g) \<in> set sgs. has_group c g \<Longrightarrow> assign_shards sgs c = c"
  by (induction sgs) auto
section \<open>Joining, leaving and checking\<close>

lemma minmax_loop_bounds:
  assumes "minmax_loop f gs (mx, mn) = (mx', mn')"
    and "\<forall>g \<in> set gs. \<forall>h \<in> set gs. f g \<le> f h + 1"
    and "\<forall>g \<in> set gs. mx \<le> f g + 1" and "\<forall>g \<in> set gs. f g \<le> mn + 1" and "mx \<le> mn + 1"
  shows "mx' \<le> mn' + 1"
  using assms
proof (induction gs arbitrary: mx mn)
  case (Cons g gs)
  show ?case
    using Cons.prems by (intro Cons.IH [OF Cons.prems(1) [unfolded minmax_loop.simps]]) auto
qed simp

lemma CheckConfig_ok:
  assumes "length (Groups c) = length groups" and "set groups \<subseteq> gids c"
    and "groups = [] \<or> assigned c" and "balanced c" and "length (Shards c) = NShards"
  shows "CheckConfig groups c = Inr ()"
proof -
  let ?f = "shard_counts (Shards c)"
  obtain mx mn where mm: "minmax_loop ?f (map fst (Groups c)) (0, 257) = (mx, mn)"
    by (cases "minmax_loop ?f (map fst (Groups c)) (0, 257)") auto
  have le: "count_list (Shards c) g \<le> 12" for g
    using count_le_length [of "Shards c" g] assms(5) by (simp add: NShards_def)
  have "?f g \<le> 258" for g using le [of g] by (simp add: shard_counts_eq)
  moreover have "?f g \<le> ?f h + 1" if "g \<in> gids c" "h \<in> gids c" for g h
  proof -
    have "count_list (Shards c) g \<le> count_list (Shards c) h + 1"
      using assms(4) that unfolding balanced_def by blast
    then show ?thesis by (simp add: shard_counts_eq)
  qed
  ultimately have "mx \<le> mn + 1"
    by (intro minmax_loop_bounds [OF mm]) (auto simp: shard_counts_eq)
  then show ?thesis
    using assms(1-3) by (auto simp: CheckConfig_def has_group_iff mm assigned_def)
qed

lemma Join_loop_True:
  assumes "Join_loop servers changed c = Inr (True, c')"
  shows "Groups c' = Groups c @ servers" and "Num c' = Num c + 1" and "Shards c' = Shards c"
    and "distinct (map fst (Groups c)) \<Longrightarrow> distinct (map fst (Groups c'))"
    and "changed \<or> servers \<noteq> []"
  using assms
proof (induction servers changed c rule: Join_loop.induct)
  case (2 gid servers rest changed cfg)
  {
    case 1 then show ?case using "2.IH"(1) by (auto split: if_splits)
  next
    case 2 then show ?case using "2.IH"(2) by (auto split: if_splits)
  next
    case 3 then show ?case using "2.IH"(3) by (auto split: if_splits)
  next
    case 4 then show ?case using "2.IH"(4) by (auto simp: has_group_iff split: if_splits)
  next
    case 5 then show ?case by simp
  }
qed (auto split: if_splits)

lemma Leave_loop_True:
  assumes "Leave_loop gs changed c = Inr (True, c')"
  shows "Groups c' = filter (\<lambda>(k, v). k \<notin> set gs) (Groups c)"
    and "Num c' = Num c + 1" and "Shards c' = Shards c"
  using assms
proof (induction gs changed c rule: Leave_loop.induct)
  case (2 gid rest changed cfg)
  {
    case 1 then show ?case
      using "2.IH"(1) by (auto split: if_splits intro!: filter_cong)
  next
    case 2 then show ?case using "2.IH"(2) by (auto split: if_splits)
  next
    case 3 then show ?case using "2.IH"(3) by (auto split: if_splits)
  }
qed (auto split: if_splits)

lemma Rebalance_result:
  assumes "length (Shards c) = NShards"
  shows "\<exists>c'. Rebalance c = Some c' \<and> Groups c' = Groups c \<and> Num c' = Num c \<and>
    length (Shards c') = NShards \<and> balanced c' \<and> (Groups c = [] \<or> assigned c')"
proof (cases "Groups c = []")
  case True
  then show ?thesis using assms by (auto simp: Rebalance_def balanced_def)
next
  case False
  then show ?thesis
    using rebalance_loop [OF assign_shards_inv0 [OF assms False] False]
    by (auto simp: Rebalance_def rebalance_inv_def)
qed

section \<open>Independence of the map order\<close>

lemma sort_eq_of_mset: "mset xs = mset ys \<Longrightarrow> sort xs = sort ys"
  by (metis mset_sort properties_for_sort sorted_sort)

lemma analyze_regroup:
  "mset gs = mset (Groups c) \<Longrightarrow> analyze (c\<lparr>Groups := gs\<rparr>) = analyze c"
  using sort_eq_of_mset [of "map fst gs" "map fst (Groups c)"] by (simp add: analyze_def)

lemma has_group_regroup:
  "mset gs = mset (Groups c) \<Longrightarrow> has_group (c\<lparr>Groups := gs\<rparr>) g = has_group c g"
  using mset_eq_setD [of gs "Groups c"] by (simp add: has_group_iff)

lemma assign_shards_regroup:
  "mset gs = mset (Groups c) \<Longrightarrow>
   assign_shards sgs (c\<lparr>Groups := gs\<rparr>) = (assign_shards sgs c)\<lparr>Groups := gs\<rparr>"
proof (induction sgs arbitrary: c)
  case (Cons sg sgs)
  obtain s g where sg: "sg = (s, g)" by (cases sg)
  have "least_group (c\<lparr>Groups := gs\<rparr>) = least_group c"
    using Cons.prems by (simp add: least_group_def analyze_regroup)
  moreover have swap: "c\<lparr>Groups := gs, Shards := S\<rparr> = c\<lparr>Shards := S, Groups := gs\<rparr>" for S
    by simp
  ultimately show ?case
    using Cons.IH [of c] Cons.IH [of "c\<lparr>Shards := (Shards c)[s := least_group c]\<rparr>"] Cons.prems
    by (simp add: sg has_group_regroup swap)
qed simp

lemma move_shard_regroup:
  assumes "mset gs = mset (Groups c)"
  shows "move_shard (c\<lparr>Groups := gs\<rparr>) = (move_shard c)\<lparr>Groups := gs\<rparr>"
    and "unbalanced (c\<lparr>Groups := gs\<rparr>) = unbalanced c"
  using assms by (auto simp: move_shard_def unbalanced_def analyze_regroup split: prod.splits)

lemma Groups_move_shard [simp]: "Groups (move_shard c) = Groups c"
  by (simp add: move_shard_def split: prod.split)

lemma Groups_assign_shards [simp]: "Groups (assign_shards sgs c) = Groups c"
  by (induction sgs c rule: assign_shards.induct) auto

section \<open>Properties\<close>

text \<open>\<open>Rebalance\<close> returns on every configuration of \<open>NShards\<close> shards; it keeps the number and the
  groups, and if there is a group at all, every shard is then served by a group of the
  configuration and no group has two shards more than another.\<close>
theorem Rebalance_balances:
  assumes "length (Shards c) = NShards"
  shows "\<exists>c'. Rebalance c = Some c' \<and> Groups c' = Groups c \<and> Num c' = Num c \<and>
    length (Shards c') = NShards \<and> balanced c' \<and> (Groups c = [] \<or> assigned c')"
  using Rebalance_result [OF assms] .

definition cfg_example :: ShardConfig where
  "cfg_example = \<lparr>Num = 3, Shards = [1, 1, 1, 1, 1, 1, 1, 7, 7, 0, 0, 1],
                  Groups = [(1, [''a'']), (2, [''b'']), (3, [''c''])]\<rparr>"

theorem Rebalance_balances_witness:
  "length (Shards cfg_example) = NShards \<and>
   (\<exists>c'. Rebalance cfg_example = Some c' \<and> Groups c' = Groups cfg_example \<and> Num c' = Num cfg_example \<and>
    length (Shards c') = NShards \<and> balanced c' \<and> (Groups cfg_example = [] \<or> assigned c'))"
proof -
  have "length (Shards cfg_example) = NShards" by (simp add: cfg_example_def NShards_def)
  with Rebalance_balances [OF this] show ?thesis by blast
qed

text \<open>\<open>Rebalance\<close> computes the same assignment whatever the iteration order of the \<open>Groups\<close> map:
  permuting the groups permutes them in the result and changes no shard, so replicas that
  recompute a configuration agree on it.\<close>
theorem Rebalance_order_independent:
  assumes "mset gs = mset (Groups c)"
  shows "Rebalance (c\<lparr>Groups := gs\<rparr>) = map_option (\<lambda>c'. c'\<lparr>Groups := gs\<rparr>) (Rebalance c)"
proof -
  let ?f = "\<lambda>c'. c'\<lparr>Groups := gs\<rparr>" and ?c = "assign_shards (enumerate 0 (Shards c)) c"
  have len: "length gs = length (Groups c)" using assms by (metis size_mset)
  have "map_option ?f (while_option unbalanced move_shard ?c) =
        while_option unbalanced move_shard (?f ?c)"
    by (rule while_option_commute_invariant [where P = "\<lambda>c'. Groups c' = Groups c"])
      (use assms in \<open>auto simp: move_shard_regroup\<close>)
  then show ?thesis
    using assms len by (simp add: Rebalance_def assign_shards_regroup)
qed

theorem Rebalance_order_independent_witness:
  "mset (rev (Groups cfg_example)) = mset (Groups cfg_example) \<and>
   Rebalance (cfg_example\<lparr>Groups := rev (Groups cfg_example)\<rparr>) =
     map_option (\<lambda>c'. c'\<lparr>Groups := rev (Groups cfg_example)\<rparr>) (Rebalance cfg_example)"
  using Rebalance_order_independent [of "rev (Groups cfg_example)" cfg_example] by simp

text \<open>\<open>Rebalance\<close> moves nothing gratuitously: a configuration whose shards are all served and
  balanced is left as it is.\<close>
theorem Rebalance_fixpoint:
  assumes "length (Shards c) = NShards" and "Groups c \<noteq> []" and "assigned c" and "balanced c"
  shows "Rebalance c = Some c"
proof -
  have "\<forall>(s, g) \<in> set (enumerate 0 (Shards c)). has_group c g"
    using assms(3) by (auto simp: has_group_iff assigned_def in_set_enumerate_eq)
  then have "assign_shards (enumerate 0 (Shards c)) c = c" by (rule assign_shards_noop)
  moreover have "\<not> unbalanced c" using assms by (simp add: balanced_iff_not_unbalanced)
  ultimately show ?thesis using assms(2) by (simp add: Rebalance_def while_option_unfold)
qed

theorem Rebalance_fixpoint_witness:
  "Rebalance \<lparr>Num = 1, Shards = [1, 2, 1, 2, 1, 2, 1, 2, 1, 2, 1, 2], Groups = [(1, []), (2, [])]\<rparr> =
   Some \<lparr>Num = 1, Shards = [1, 2, 1, 2, 1, 2, 1, 2, 1, 2, 1, 2], Groups = [(1, []), (2, [])]\<rparr>"
  by (rule Rebalance_fixpoint) (simp_all add: NShards_def assigned_def balanced_def)

text \<open>C20: a successful \<open>JoinBalance\<close> returns a configuration with the next number, the old and the
  new groups, that the tests' \<open>CheckConfig\<close> accepts for exactly these groups.\<close>
theorem JoinBalance_ok:
  assumes "wf_cfg c" and "Join servers c = Inr (True, c1)"
  shows "\<exists>c'. JoinBalance servers c = Some (Inr (True, c')) \<and> wf_cfg c' \<and> Num c' = Num c + 1 \<and>
    Groups c' = Groups c @ servers \<and> CheckConfig (map fst (Groups c')) c' = Inr ()"
proof -
  note J = Join_loop_True [OF assms(2) [unfolded Join_def]]
  have "length (Shards c1) = NShards" using assms(1) J(3) by (simp add: wf_cfg_def)
  from Rebalance_result [OF this] obtain c' where c': "Rebalance c1 = Some c'"
    "Groups c' = Groups c1" "Num c' = Num c1" "length (Shards c') = NShards" "balanced c'"
    "Groups c1 = [] \<or> assigned c'" by blast
  have "CheckConfig (map fst (Groups c')) c' = Inr ()"
    by (rule CheckConfig_ok) (use c' in auto)
  then show ?thesis
    using c' J assms by (auto simp: JoinBalance_def wf_cfg_def)
qed

theorem JoinBalance_ok_witness:
  "wf_cfg MakeShardConfig \<and>
   Join [(1, [''s''])] MakeShardConfig = Inr (True, MakeShardConfig\<lparr>Groups := [(1, [''s''])], Num := 1\<rparr>) \<and>
   (\<exists>c'. JoinBalance [(1, [''s''])] MakeShardConfig = Some (Inr (True, c')) \<and> wf_cfg c' \<and>
      Num c' = Num MakeShardConfig + 1 \<and> Groups c' = Groups MakeShardConfig @ [(1, [''s''])] \<and>
      CheckConfig (map fst (Groups c')) c' = Inr ())"
proof -
  have 1: "wf_cfg MakeShardConfig" by (simp add: wf_cfg_def MakeShardConfig_def)
  have 2: "Join [(1, [''s''])] MakeShardConfig = Inr (True, MakeShardConfig\<lparr>Groups := [(1, [''s''])], Num := 1\<rparr>)"
    by (simp add: Join_def MakeShardConfig_def has_group_def server_clash_def)
  show ?thesis using 1 2 JoinBalance_ok [OF 1 2] by blast
qed

text \<open>A successful \<open>LeaveBalance\<close> removes exactly the groups that leave, takes the next number,
  and leaves a configuration that \<open>CheckConfig\<close> accepts for the remaining groups.\<close>
theorem LeaveBalance_ok:
  assumes "wf_cfg c" and "Leave gs c = Inr (True, c1)"
  shows "\<exists>c'. LeaveBalance gs c = Some (Inr (True, c')) \<and> wf_cfg c' \<and> Num c' = Num c + 1 \<and>
    Groups c' = filter (\<lambda>(g, _). g \<notin> set gs) (Groups c) \<and>
    (Groups c' \<noteq> [] \<longrightarrow> set (Shards c') \<inter> set gs = {}) \<and>
    CheckConfig (map fst (Groups c')) c' = Inr ()"
proof -
  note L = Leave_loop_True [OF assms(2) [unfolded Leave_def]]
  have "length (Shards c1) = NShards" using assms(1) L(3) by (simp add: wf_cfg_def)
  from Rebalance_result [OF this] obtain c' where c': "Rebalance c1 = Some c'"
    "Groups c' = Groups c1" "Num c' = Num c1" "length (Shards c') = NShards" "balanced c'"
    "Groups c1 = [] \<or> assigned c'" by blast
  have chk: "CheckConfig (map fst (Groups c')) c' = Inr ()"
    by (rule CheckConfig_ok) (use c' in auto)
  have "distinct (map fst (Groups c'))"
    using assms(1) c'(2) L(1) by (auto simp: wf_cfg_def distinct_map filter_map inj_on_def)
  moreover have "Groups c' \<noteq> [] \<longrightarrow> set (Shards c') \<inter> set gs = {}"
    using c'(2,6) L(1) by (auto simp: assigned_def)
  ultimately show ?thesis
    using c' L assms(2) chk by (auto simp: LeaveBalance_def wf_cfg_def)
qed

theorem LeaveBalance_ok_witness:
  "wf_cfg cfg_example \<and>
   Leave [2] cfg_example = Inr (True, cfg_example\<lparr>Groups := [(1, [''a'']), (3, [''c''])], Num := 4\<rparr>) \<and>
   (\<exists>c'. LeaveBalance [2] cfg_example = Some (Inr (True, c')) \<and> wf_cfg c' \<and> Num c' = 4 \<and>
      CheckConfig (map fst (Groups c')) c' = Inr ())"
proof -
  have 1: "wf_cfg cfg_example" by (simp add: wf_cfg_def cfg_example_def NShards_def)
  have 2: "Leave [2] cfg_example = Inr (True, cfg_example\<lparr>Groups := [(1, [''a'']), (3, [''c''])], Num := 4\<rparr>)"
    by (simp add: Leave_def cfg_example_def has_group_def)
  have "Num cfg_example = 3" by (simp add: cfg_example_def)
  then show ?thesis using 1 2 LeaveBalance_ok [OF 1 2] by auto
qed

text \<open>After \<open>Rebalance\<close> every key is served: the shard it hashes to is a valid index of
  the configuration and belongs to a group of it.\<close>
theorem every_key_served:
  assumes "length (Shards c) = NShards" and "Groups c \<noteq> []" and "Rebalance c = Some c'"
  shows "\<exists>gid srvs. GidServers (Key2Shard key) c' = Inr (gid, srvs, True) \<and> (gid, srvs) \<in> set (Groups c)"
proof -
  have c': "Groups c' = Groups c" "length (Shards c') = NShards" "assigned c'"
    using Rebalance_result [OF assms(1)] assms(2,3) by auto
  have k: "0 \<le> Key2Shard key" "Key2Shard key < int NShards"
    by (simp_all add: Key2Shard_def NShards_def)
  then have "go_nth (Shards c') (Key2Shard key) = Inr (Shards c' ! nat (Key2Shard key))"
    using c'(2) by (simp add: go_nth_def)
  moreover have "Shards c' ! nat (Key2Shard key) \<in> gids c'"
    using c'(2,3) k by (auto simp: assigned_def subset_iff)
  then obtain srvs where "map_of (Groups c') (Shards c' ! nat (Key2Shard key)) = Some srvs"
    by (metis map_of_eq_None_iff not_None_eq)
  ultimately show ?thesis
    using c'(1) map_of_SomeD by (fastforce simp: GidServers_def)
qed

theorem every_key_served_witness:
  "\<exists>c' gid srvs. Rebalance cfg_example = Some c' \<and>
     GidServers (Key2Shard ''k'') c' = Inr (gid, srvs, True) \<and> (gid, srvs) \<in> set (Groups cfg_example)"
proof -
  have 1: "length (Shards cfg_example) = NShards" "Groups cfg_example \<noteq> []"
    by (simp_all add: cfg_example_def NShards_def)
  obtain c' where "Rebalance cfg_example = Some c'" using Rebalance_result [OF 1(1)] by blast
  with every_key_served [OF 1 this, of "''k''"] show ?thesis by blast
qed

end
