(* ===== verification/ShardGrp.thy ===== *)
theory ShardGrp
  imports Clerks RsmLog ShardCfg
begin

text \<open>
  A shard group: the state machine of \<open>src/shardkv1/shardgrp/server.go\<close> and \<open>executecmd.go\<close>, its
  handlers, and its clerk (\<open>client.go\<close>), with the wire types of \<open>shardrpc/shardrpc.go\<close>.  The gob stream of a
  snapshot is the array of shards followed by \<open>maxNum\<close>; the stream that \<open>FreezeShard\<close> returns and
  \<open>InstallShard\<close> takes has the map of one shard as its only value.
\<close>

section \<open>Wire types and state\<close>

type_synonym shard_map = "string \<rightharpoonup> KVEntry"

record FreezeShardArgs =
  fa_Shard :: Tshid
  fa_Num :: Tnum

record FreezeShardReply =
  fr_State :: "shard_map list"
  fr_Num :: Tnum
  fr_Err :: Err

record InstallShardArgs =
  ia_Shard :: Tshid
  ia_State :: "shard_map list"
  ia_Num :: Tnum

record InstallShardReply =
  ir_Err :: Err

record DeleteShardArgs =
  da_Shard :: Tshid
  da_Num :: Tnum

record DeleteShardReply =
  dr_Err :: Err

record Shard =
  shKV :: shard_map
  Freezed :: bool

record ShardSrv =
  ss_me :: int
  ss_dead :: int
  ss_gid :: Tgid
  Shards_of :: "Shard list"
  maxNum :: Tnum

datatype sg_req =
    SGet GetArgs | SPut PutArgs | SFreeze FreezeShardArgs | SInstall InstallShardArgs | SDelete DeleteShardArgs | SOther

datatype sg_rep =
    RepGet GetReply | RepPut PutReply | RepFreeze FreezeShardReply | RepInstall InstallShardReply | RepDelete DeleteShardReply

datatype sg_val = ShardsVal "Shard list" | NumVal Tnum

section \<open>The commands\<close>

definition ExecuteGetCmd :: "GetArgs \<Rightarrow> ShardSrv \<Rightarrow> (GetReply \<times> ShardSrv) go" where
  "ExecuteGetCmd req kv =
     go_bind (go_nth (Shards_of kv) (Key2Shard (ga_Key req))) (\<lambda>shard.
       case shKV shard (ga_Key req) of
         None \<Rightarrow> Inr (\<lparr>gr_Value = '''', gr_Version = 0, gr_Err = ErrNoKey\<rparr>, kv)
       | Some entry \<Rightarrow> Inr (\<lparr>gr_Value = Value entry, gr_Version = Version entry, gr_Err = OK\<rparr>, kv))"

text \<open>\<open>shard.KV[key] = e\<close>: the local copy \<open>shard\<close> shares its map with the array element.\<close>

definition set_entry :: "Tshid \<Rightarrow> string \<Rightarrow> KVEntry \<Rightarrow> ShardSrv \<Rightarrow> ShardSrv" where
  "set_entry sh key e kv =
     kv\<lparr>Shards_of := (Shards_of kv)[nat sh := (Shards_of kv ! nat sh)\<lparr>shKV := (shKV (Shards_of kv ! nat sh))(key \<mapsto> e)\<rparr>]\<rparr>"

definition ExecutePutCmd :: "PutArgs \<Rightarrow> ShardSrv \<Rightarrow> (PutReply \<times> ShardSrv) go" where
  "ExecutePutCmd req kv =
     (let sh = Key2Shard (pa_Key req) in
      go_bind (go_nth (Shards_of kv) sh) (\<lambda>shard.
        case shKV shard (pa_Key req) of
          None \<Rightarrow>
            if pa_Version req = 0
            then Inr (\<lparr>pr_Err = OK\<rparr>, set_entry sh (pa_Key req) \<lparr>Value = pa_Value req, Version = 1\<rparr> kv)
            else Inr (\<lparr>pr_Err = ErrNoKey\<rparr>, kv)
        | Some entry \<Rightarrow>
            if pa_Version req \<noteq> Version entry then Inr (\<lparr>pr_Err = ErrVersion\<rparr>, kv)
            else Inr (\<lparr>pr_Err = OK\<rparr>, set_entry sh (pa_Key req) \<lparr>Value = pa_Value req, Version = Version entry + 1\<rparr> kv)))"

definition ExecuteFreezeCmd :: "FreezeShardArgs \<Rightarrow> ShardSrv \<Rightarrow> (FreezeShardReply \<times> ShardSrv) go" where
  "ExecuteFreezeCmd req kv =
     (if fa_Num req < maxNum kv then Inr (\<lparr>fr_State = [], fr_Num = maxNum kv, fr_Err = ErrVersion\<rparr>, kv)
      else
        let (num, kv) = (if fa_Num req > maxNum kv then (fa_Num req, kv\<lparr>maxNum := fa_Num req\<rparr>) else (0, kv))
        in go_bind (go_nth (Shards_of kv) (fa_Shard req)) (\<lambda>shard.
             Inr (\<lparr>fr_State = [shKV shard], fr_Num = num, fr_Err = OK\<rparr>,
                  kv\<lparr>Shards_of := (Shards_of kv)[nat (fa_Shard req) := shard\<lparr>Freezed := True\<rparr>]\<rparr>)))"

definition ExecuteInstallCmd :: "InstallShardArgs \<Rightarrow> ShardSrv \<Rightarrow> (InstallShardReply \<times> ShardSrv) go" where
  "ExecuteInstallCmd req kv =
     (if ia_Num req < maxNum kv then Inr (\<lparr>ir_Err = ErrVersion\<rparr>, kv)
      else
        let kv = (if ia_Num req > maxNum kv then kv\<lparr>maxNum := ia_Num req\<rparr> else kv)
        in go_bind (go_nth (Shards_of kv) (ia_Shard req)) (\<lambda>shard.
             case ia_State req of
               [] \<Rightarrow> Inl (GoPanic ''Failed to Decode InstallShard state'')
             | kvpairs # _ \<Rightarrow>
                 Inr (\<lparr>ir_Err = OK\<rparr>,
                      kv\<lparr>Shards_of := (Shards_of kv)[nat (ia_Shard req) := shard\<lparr>shKV := shKV shard ++ kvpairs, Freezed := False\<rparr>]\<rparr>)))"

definition ExecuteDeleteCmd :: "DeleteShardArgs \<Rightarrow> ShardSrv \<Rightarrow> (DeleteShardReply \<times> ShardSrv) go" where
  "ExecuteDeleteCmd req kv =
     (if da_Num req < maxNum kv then Inr (\<lparr>dr_Err = ErrVersion\<rparr>, kv)
      else
        let kv = (if da_Num req > maxNum kv then kv\<lparr>maxNum := da_Num req\<rparr> else kv)
        in go_bind (go_nth (Shards_of kv) (da_Shard req)) (\<lambda>shard.
             if \<not> Freezed shard then Inl (GoPanic ''DeleteShard Error: shard not freezed'')
             else Inr (\<lparr>dr_Err = OK\<rparr>,
                       kv\<lparr>Shards_of := (Shards_of kv)[nat (da_Shard req) := shard\<lparr>shKV := Map.empty\<rparr>]\<rparr>)))"

definition wrap :: "('a \<Rightarrow> sg_rep) \<Rightarrow> ('a \<times> ShardSrv) go \<Rightarrow> (sg_rep \<times> ShardSrv) go" where
  "wrap f x = go_bind x (\<lambda>(r, kv). Inr (f r, kv))"

definition ShardSrv_DoOp :: "sg_req \<Rightarrow> ShardSrv \<Rightarrow> (sg_rep \<times> ShardSrv) go" where
  "ShardSrv_DoOp req kv =
     (case req of
        SGet req \<Rightarrow> wrap RepGet (ExecuteGetCmd req kv)
      | SPut req \<Rightarrow> wrap RepPut (ExecutePutCmd req kv)
      | SFreeze req \<Rightarrow> wrap RepFreeze (ExecuteFreezeCmd req kv)
      | SInstall req \<Rightarrow> wrap RepInstall (ExecuteInstallCmd req kv)
      | SDelete req \<Rightarrow> wrap RepDelete (ExecuteDeleteCmd req kv)
      | SOther \<Rightarrow> Inl (LogFatal ''unknown req type''))"

definition ShardSrv_Snapshot :: "ShardSrv \<Rightarrow> sg_val list" where
  "ShardSrv_Snapshot kv = [ShardsVal (Shards_of kv), NumVal (maxNum kv)]"

definition ShardSrv_Restore :: "sg_val list \<Rightarrow> ShardSrv \<Rightarrow> ShardSrv go" where
  "ShardSrv_Restore data kv =
     (if length data < 1 then Inr kv
      else case data of
             ShardsVal shs # NumVal maxnum # _ \<Rightarrow> Inr (kv\<lparr>Shards_of := shs, maxNum := maxnum\<rparr>)
           | _ \<Rightarrow> Inl (LogFatal ''Failed to restore state machine from snapshot''))"

definition shardgrp_sm :: "(ShardSrv, sg_req, sg_rep, sg_val) StateMachine" where
  "shardgrp_sm = \<lparr>DoOp = ShardSrv_DoOp, Snapshot = ShardSrv_Snapshot, Restore = ShardSrv_Restore\<rparr>"

definition StartServerShardGrp :: "Tgid \<Rightarrow> int \<Rightarrow> sg_val list \<Rightarrow> ShardSrv go" where
  "StartServerShardGrp gid self snap =
     ShardSrv_Restore snap \<lparr>ss_me = self, ss_dead = 0, ss_gid = gid,
       Shards_of = replicate NShards \<lparr>shKV = Map.empty, Freezed = False\<rparr>, maxNum = 0\<rparr>"

definition ShardSrv_Kill :: "ShardSrv \<Rightarrow> ShardSrv" where
  "ShardSrv_Kill kv = kv\<lparr>ss_dead := 1\<rparr>"

definition ShardSrv_killed :: "ShardSrv \<Rightarrow> bool" where
  "ShardSrv_killed kv = (ss_dead kv = 1)"

section \<open>The handlers\<close>

text \<open>\<open>kv\<close> is the state of the replica the request reached.\<close>

definition frozen_here :: "string \<Rightarrow> ShardSrv \<Rightarrow> bool" where
  "frozen_here key kv = Freezed (Shards_of kv ! nat (Key2Shard key))"

definition ShardSrv_Get :: "GetArgs \<Rightarrow> ShardSrv \<Rightarrow> (sg_req, sg_rep, GetReply) handler" where
  "ShardSrv_Get args kv =
     (if frozen_here (ga_Key args) kv then Early \<lparr>gr_Value = '''', gr_Version = 0, gr_Err = ErrWrongGroup\<rparr>
      else Submits (SGet args) (\<lambda>(err, rep).
        if err = ErrWrongLeader then Inr \<lparr>gr_Value = '''', gr_Version = 0, gr_Err = ErrWrongLeader\<rparr>
        else case rep of Some (RepGet r) \<Rightarrow> Inr r | _ \<Rightarrow> Inl TypeAssertion))"

definition ShardSrv_Put :: "PutArgs \<Rightarrow> ShardSrv \<Rightarrow> (sg_req, sg_rep, PutReply) handler" where
  "ShardSrv_Put args kv =
     (if frozen_here (pa_Key args) kv then Early \<lparr>pr_Err = ErrWrongGroup\<rparr>
      else Submits (SPut args) (\<lambda>(err, rep).
        if err = ErrWrongLeader then Inr \<lparr>pr_Err = ErrWrongLeader\<rparr>
        else case rep of Some (RepPut r) \<Rightarrow> Inr \<lparr>pr_Err = pr_Err r\<rparr> | _ \<Rightarrow> Inl TypeAssertion))"

definition ShardSrv_FreezeShard :: "FreezeShardArgs \<Rightarrow> ShardSrv \<Rightarrow> (sg_req, sg_rep, FreezeShardReply) handler" where
  "ShardSrv_FreezeShard args kv =
     Submits (SFreeze args) (\<lambda>(err, rep).
       if err = ErrWrongLeader then Inr \<lparr>fr_State = [], fr_Num = 0, fr_Err = ErrWrongLeader\<rparr>
       else case rep of Some (RepFreeze r) \<Rightarrow> Inr r | _ \<Rightarrow> Inl TypeAssertion)"

definition ShardSrv_InstallShard :: "InstallShardArgs \<Rightarrow> ShardSrv \<Rightarrow> (sg_req, sg_rep, InstallShardReply) handler" where
  "ShardSrv_InstallShard args kv =
     Submits (SInstall args) (\<lambda>(err, rep).
       if err = ErrWrongLeader then Inr \<lparr>ir_Err = ErrWrongLeader\<rparr>
       else case rep of Some (RepInstall r) \<Rightarrow> Inr r | _ \<Rightarrow> Inl TypeAssertion)"

definition ShardSrv_DeleteShard :: "DeleteShardArgs \<Rightarrow> ShardSrv \<Rightarrow> (sg_req, sg_rep, DeleteShardReply) handler" where
  "ShardSrv_DeleteShard args kv =
     Submits (SDelete args) (\<lambda>(err, rep).
       if err = ErrWrongLeader then Inr \<lparr>dr_Err = ErrWrongLeader\<rparr>
       else case rep of Some (RepDelete r) \<Rightarrow> Inr r | _ \<Rightarrow> Inl TypeAssertion)"

section \<open>The clerk\<close>

type_synonym sg_call = "(ShardSrv, sg_req) call"

record GrpClerk =
  gc_servers :: "string list"
  gc_lastLeader :: nat

definition GrpClerk_MakeClerk :: "string list \<Rightarrow> GrpClerk" where
  "GrpClerk_MakeClerk servers = \<lparr>gc_servers = servers, gc_lastLeader = 0\<rparr>"

text \<open>The loop every method shares: \<open>h\<close> is the handler that is called, \<open>err\<close> the error of its reply.\<close>

definition grp_loop :: "(ShardSrv \<Rightarrow> (sg_req, sg_rep, 'r) handler) \<Rightarrow> ('r \<Rightarrow> Err) \<Rightarrow> sg_call list \<Rightarrow> GrpClerk \<Rightarrow> ShardSrv \<Rightarrow>
    ('r \<times> bool \<times> GrpClerk \<times> ShardSrv) option" where
  "grp_loop h err cs ck kv =
     map_option (\<lambda>(reply, retry, idx, kv'). (reply, retry, ck\<lparr>gc_lastLeader := idx\<rparr>, kv'))
       (server_loop (rpc_call ShardSrv_DoOp h) err (length (gc_servers ck)) (gc_lastLeader ck) 0 False cs kv)"

definition GrpClerk_Get :: "sg_call list \<Rightarrow> string \<Rightarrow> GrpClerk \<Rightarrow> ShardSrv \<Rightarrow>
    ((string \<times> Tversion \<times> Err) \<times> GrpClerk \<times> ShardSrv) option" where
  "GrpClerk_Get cs key ck kv =
     map_option (\<lambda>(reply, _, ck', kv'). ((gr_Value reply, gr_Version reply, gr_Err reply), ck', kv'))
       (grp_loop (ShardSrv_Get \<lparr>ga_Key = key\<rparr>) gr_Err cs ck kv)"

definition GrpClerk_Put :: "sg_call list \<Rightarrow> string \<Rightarrow> string \<Rightarrow> Tversion \<Rightarrow> GrpClerk \<Rightarrow> ShardSrv \<Rightarrow>
    (Err \<times> GrpClerk \<times> ShardSrv) option" where
  "GrpClerk_Put cs key value version ck kv =
     map_option (\<lambda>(reply, retry, ck', kv').
         (if pr_Err reply = ErrVersion \<and> retry then ErrMaybe else pr_Err reply, ck', kv'))
       (grp_loop (ShardSrv_Put \<lparr>pa_Key = key, pa_Value = value, pa_Version = version\<rparr>) pr_Err cs ck kv)"

definition GrpClerk_FreezeShard :: "sg_call list \<Rightarrow> Tshid \<Rightarrow> Tnum \<Rightarrow> GrpClerk \<Rightarrow> ShardSrv \<Rightarrow>
    ((shard_map list \<times> Err) \<times> GrpClerk \<times> ShardSrv) option" where
  "GrpClerk_FreezeShard cs s num ck kv =
     map_option (\<lambda>(reply, _, ck', kv'). ((fr_State reply, fr_Err reply), ck', kv'))
       (grp_loop (ShardSrv_FreezeShard \<lparr>fa_Shard = s, fa_Num = num\<rparr>) fr_Err cs ck kv)"

definition GrpClerk_InstallShard :: "sg_call list \<Rightarrow> Tshid \<Rightarrow> shard_map list \<Rightarrow> Tnum \<Rightarrow> GrpClerk \<Rightarrow> ShardSrv \<Rightarrow>
    (Err \<times> GrpClerk \<times> ShardSrv) option" where
  "GrpClerk_InstallShard cs s st num ck kv =
     map_option (\<lambda>(reply, _, ck', kv'). (ir_Err reply, ck', kv'))
       (grp_loop (ShardSrv_InstallShard \<lparr>ia_Shard = s, ia_State = st, ia_Num = num\<rparr>) ir_Err cs ck kv)"

definition GrpClerk_DeleteShard :: "sg_call list \<Rightarrow> Tshid \<Rightarrow> Tnum \<Rightarrow> GrpClerk \<Rightarrow> ShardSrv \<Rightarrow>
    (Err \<times> GrpClerk \<times> ShardSrv) option" where
  "GrpClerk_DeleteShard cs s num ck kv =
     map_option (\<lambda>(reply, _, ck', kv'). (dr_Err reply, ck', kv'))
       (grp_loop (ShardSrv_DeleteShard \<lparr>da_Shard = s, da_Num = num\<rparr>) dr_Err cs ck kv)"

section \<open>The group as a replicated state machine\<close>

definition sg_view :: "ShardSrv \<Rightarrow> Shard list \<times> Tnum" where
  "sg_view kv = (Shards_of kv, maxNum kv)"

lemmas execute_defs = ExecuteGetCmd_def ExecutePutCmd_def ExecuteFreezeCmd_def ExecuteInstallCmd_def ExecuteDeleteCmd_def

lemma DoOp_view_eq:
  assumes "sg_view s = sg_view t" and "ShardSrv_DoOp q s = Inr (p, s')"
  shows "\<exists>t'. ShardSrv_DoOp q t = Inr (p, t') \<and> sg_view t' = sg_view s'"
proof (cases q)
  case (SGet a)
  then show ?thesis using assms
    by (cases "go_nth (Shards_of t) (Key2Shard (ga_Key a))")
      (auto simp: ShardSrv_DoOp_def wrap_def sg_view_def ExecuteGetCmd_def split: option.splits)
next
  case (SPut a)
  then show ?thesis using assms
    by (cases "go_nth (Shards_of t) (Key2Shard (pa_Key a))")
      (auto simp: ShardSrv_DoOp_def wrap_def sg_view_def ExecutePutCmd_def set_entry_def Let_def split: option.splits if_splits)
next
  case (SFreeze a)
  then show ?thesis using assms
    by (cases "go_nth (Shards_of t) (fa_Shard a)")
      (auto simp: ShardSrv_DoOp_def wrap_def sg_view_def ExecuteFreezeCmd_def Let_def split: if_splits)
next
  case (SInstall a)
  then show ?thesis using assms
    by (cases "go_nth (Shards_of t) (ia_Shard a)")
      (auto simp: ShardSrv_DoOp_def wrap_def sg_view_def ExecuteInstallCmd_def Let_def
        split: if_splits list.splits)
next
  case (SDelete a)
  then show ?thesis using assms
    by (cases "go_nth (Shards_of t) (da_Shard a)")
      (auto simp: ShardSrv_DoOp_def wrap_def sg_view_def ExecuteDeleteCmd_def Let_def split: if_splits)
next
  case SOther
  then show ?thesis using assms by (simp add: ShardSrv_DoOp_def)
qed

interpretation shardgrp_rsm: state_machine shardgrp_sm sg_view
proof unfold_locales
  fix s t :: ShardSrv and q p s'
  assume "sg_view s = sg_view t" and "DoOp shardgrp_sm q s = Inr (p, s')"
  then show "\<exists>t'. DoOp shardgrp_sm q t = Inr (p, t') \<and> sg_view t' = sg_view s'"
    using DoOp_view_eq [of s t q p s'] by (simp add: shardgrp_sm_def)
qed (simp add: shardgrp_sm_def ShardSrv_Snapshot_def ShardSrv_Restore_def sg_view_def)

text \<open>The servers of a group behave as one: what a \<open>Submit\<close> returns with \<open>OK\<close> on any of them, also for the
  commands that move shards, is the reply of one sequential execution of the log.\<close>
theorem shardgrp_replies_sequential:
  assumes "replicas_reachable shardgrp_sm maxrs start log s" and "\<And>i. StartServerShardGrp gid i [] = Inr (start i)"
    and "(index, OK, Some rep) \<in> set (returned (srv s i))"
  shows "\<exists>op. log_reply shardgrp_sm (start 0) log index op rep \<and> SubmitId op = i"
proof -
  have "start i = \<lparr>ss_me = i, ss_dead = 0, ss_gid = gid, Shards_of = replicate NShards \<lparr>shKV = Map.empty, Freezed = False\<rparr>, maxNum = 0\<rparr>" for i
    using assms(2) [of i] by (simp add: StartServerShardGrp_def ShardSrv_Restore_def)
  then have "sg_view (start i) = sg_view (start 0)" for i by (simp add: sg_view_def)
  from shardgrp_rsm.replies_sequential [OF assms(1) this assms(3)] show ?thesis .
qed

section \<open>The group as a versioned store\<close>

definition wf_srv :: "ShardSrv \<Rightarrow> bool" where
  "wf_srv kv = (length (Shards_of kv) = NShards)"

definition sg_lookup :: "ShardSrv \<Rightarrow> string \<Rightarrow> KVEntry option" where
  "sg_lookup kv key = shKV (Shards_of kv ! nat (Key2Shard key)) key"

lemma Key2Shard_range: "0 \<le> Key2Shard key" "Key2Shard key < int NShards" "nat (Key2Shard key) < NShards"
  by (simp_all add: Key2Shard_def NShards_def nat_less_iff)

lemma nth_key_shard [simp]:
  "wf_srv kv \<Longrightarrow> go_nth (Shards_of kv) (Key2Shard key) = Inr (Shards_of kv ! nat (Key2Shard key))"
  using Key2Shard_range [of key] by (simp add: wf_srv_def)

lemma nat_Key2Shard_eq [simp]: "nat (Key2Shard k) = nat (Key2Shard k') \<longleftrightarrow> Key2Shard k = Key2Shard k'"
  using Key2Shard_range(1) [of k] Key2Shard_range(1) [of k'] by auto

lemma wf_set_entry [simp]: "wf_srv (set_entry sh key e kv) = wf_srv kv"
  by (simp add: wf_srv_def set_entry_def)

lemma sg_lookup_set_entry [simp]:
  assumes "wf_srv kv"
  shows "sg_lookup (set_entry (Key2Shard key) key e kv) = (sg_lookup kv)(key \<mapsto> e)"
proof
  fix k
  show "sg_lookup (set_entry (Key2Shard key) key e kv) k = ((sg_lookup kv)(key \<mapsto> e)) k"
    using assms Key2Shard_range [of key] by (auto simp: sg_lookup_def set_entry_def wf_srv_def nth_list_update)
qed

definition sg_get :: "GetArgs \<Rightarrow> ShardSrv \<Rightarrow> GetReply" where
  "sg_get a kv = (case ExecuteGetCmd a kv of Inr (r, _) \<Rightarrow> r | Inl _ \<Rightarrow> \<lparr>gr_Value = '''', gr_Version = 0, gr_Err = ErrUnset\<rparr>)"

definition sg_put :: "PutArgs \<Rightarrow> ShardSrv \<Rightarrow> PutReply \<times> ShardSrv" where
  "sg_put a kv = (case ExecutePutCmd a kv of Inr x \<Rightarrow> x | Inl _ \<Rightarrow> (\<lparr>pr_Err = ErrUnset\<rparr>, kv))"

lemma Execute_total:
  assumes "wf_srv kv"
  shows "ExecuteGetCmd a kv = Inr (sg_get a kv, kv)" and "ExecutePutCmd p kv = Inr (sg_put p kv)"
  using assms by (simp_all add: sg_get_def sg_put_def ExecuteGetCmd_def ExecutePutCmd_def Let_def split: option.split)

interpretation shardgrp: versioned_kv sg_lookup sg_get sg_put wf_srv
  by unfold_locales
    (auto simp: sg_get_def sg_put_def ExecuteGetCmd_def ExecutePutCmd_def Let_def sg_lookup_def [symmetric] split: option.splits)

section \<open>What the configuration commands do\<close>

text \<open>All three raise \<open>maxNum\<close> to the request's number and change one shard.\<close>

definition upd_shard :: "Tshid \<Rightarrow> (Shard \<Rightarrow> Shard) \<Rightarrow> Tnum \<Rightarrow> ShardSrv \<Rightarrow> ShardSrv" where
  "upd_shard s f num kv = kv\<lparr>maxNum := num, Shards_of := (Shards_of kv)[nat s := f (Shards_of kv ! nat s)]\<rparr>"

definition shard_id :: "Tshid \<Rightarrow> bool" where
  "shard_id s \<longleftrightarrow> 0 \<le> s \<and> s < int NShards"

lemma shard_id_Key2Shard [simp]: "shard_id (Key2Shard key)"
  by (simp add: shard_id_def Key2Shard_range)

lemma nth_shard [simp]: "wf_srv kv \<Longrightarrow> shard_id s \<Longrightarrow> go_nth (Shards_of kv) s = Inr (Shards_of kv ! nat s)"
  by (simp add: wf_srv_def shard_id_def)

lemma maxNum_same: "kv\<lparr>maxNum := maxNum kv, Shards_of := x\<rparr> = kv\<lparr>Shards_of := x\<rparr>" for kv :: ShardSrv
  by (cases kv) simp

lemma upd_shard_simps [simp]:
  "wf_srv (upd_shard s f num kv) = wf_srv kv"
  "maxNum (upd_shard s f num kv) = num"
  "wf_srv kv \<Longrightarrow> shard_id s \<Longrightarrow> shard_id s' \<Longrightarrow>
     Shards_of (upd_shard s f num kv) ! nat s' = (if s' = s then f (Shards_of kv ! nat s) else Shards_of kv ! nat s')"
  by (auto simp: wf_srv_def upd_shard_def shard_id_def nth_list_update)

lemma upd_shard_twice [simp]:
  assumes "wf_srv kv" and "shard_id s"
  shows "upd_shard s g num' (upd_shard s f num kv) = upd_shard s (\<lambda>x. g (f x)) num' kv"
proof -
  have "nat s < length (Shards_of kv)" using assms by (auto simp: shard_id_def wf_srv_def)
  then show ?thesis by (simp add: upd_shard_def)
qed

lemma config_commands:
  assumes "wf_srv kv" and "shard_id s" and "maxNum kv \<le> num"
  shows "\<exists>n. ExecuteFreezeCmd \<lparr>fa_Shard = s, fa_Num = num\<rparr> kv =
      Inr (\<lparr>fr_State = [shKV (Shards_of kv ! nat s)], fr_Num = n, fr_Err = OK\<rparr>, upd_shard s (Freezed_update (\<lambda>_. True)) num kv)"
    and "ExecuteInstallCmd \<lparr>ia_Shard = s, ia_State = [d], ia_Num = num\<rparr> kv =
      Inr (\<lparr>ir_Err = OK\<rparr>, upd_shard s (\<lambda>x. x\<lparr>shKV := shKV x ++ d, Freezed := False\<rparr>) num kv)"
    and "Freezed (Shards_of kv ! nat s) \<Longrightarrow> ExecuteDeleteCmd \<lparr>da_Shard = s, da_Num = num\<rparr> kv =
      Inr (\<lparr>dr_Err = OK\<rparr>, upd_shard s (shKV_update (\<lambda>_. Map.empty)) num kv)"
proof -
  have nth: "go_nth (Shards_of kv) s = Inr (Shards_of kv ! nat s)" using assms by simp
  show "\<exists>n. ExecuteFreezeCmd \<lparr>fa_Shard = s, fa_Num = num\<rparr> kv =
      Inr (\<lparr>fr_State = [shKV (Shards_of kv ! nat s)], fr_Num = n, fr_Err = OK\<rparr>, upd_shard s (Freezed_update (\<lambda>_. True)) num kv)"
    and "ExecuteInstallCmd \<lparr>ia_Shard = s, ia_State = [d], ia_Num = num\<rparr> kv =
      Inr (\<lparr>ir_Err = OK\<rparr>, upd_shard s (\<lambda>x. x\<lparr>shKV := shKV x ++ d, Freezed := False\<rparr>) num kv)"
    and "Freezed (Shards_of kv ! nat s) \<Longrightarrow> ExecuteDeleteCmd \<lparr>da_Shard = s, da_Num = num\<rparr> kv =
      Inr (\<lparr>dr_Err = OK\<rparr>, upd_shard s (shKV_update (\<lambda>_. Map.empty)) num kv)"
    using assms(3) nth maxNum_same
    by (cases "num = maxNum kv";
        simp add: ExecuteFreezeCmd_def ExecuteInstallCmd_def ExecuteDeleteCmd_def upd_shard_def Let_def)+
qed

text \<open>The number of a configuration command, and the error of a reply.\<close>

fun req_num :: "sg_req \<Rightarrow> Tnum option" where
  "req_num (SFreeze a) = Some (fa_Num a)"
| "req_num (SInstall a) = Some (ia_Num a)"
| "req_num (SDelete a) = Some (da_Num a)"
| "req_num _ = None"

fun rep_err :: "sg_rep \<Rightarrow> Err" where
  "rep_err (RepGet r) = gr_Err r"
| "rep_err (RepPut r) = pr_Err r"
| "rep_err (RepFreeze r) = fr_Err r"
| "rep_err (RepInstall r) = ir_Err r"
| "rep_err (RepDelete r) = dr_Err r"

lemma DoOp_stale:
  assumes "req_num q = Some n" and "n < maxNum kv"
  shows "\<exists>rep. ShardSrv_DoOp q kv = Inr (rep, kv) \<and> rep_err rep = ErrVersion"
  using assms by (cases q) (auto simp: ShardSrv_DoOp_def wrap_def execute_defs)

lemma set_entry_maxNum [simp]: "maxNum (set_entry sh key e kv) = maxNum kv"
  by (simp add: set_entry_def)

text \<open>Every command keeps the number of shards and never lowers \<open>maxNum\<close>.\<close>

lemma DoOp_frame:
  assumes "ShardSrv_DoOp q kv = Inr (rep, kv')"
  shows "maxNum kv \<le> maxNum kv' \<and> length (Shards_of kv') = length (Shards_of kv) \<and>
    (\<forall>n. req_num q = Some n \<longrightarrow> rep_err rep = OK \<longrightarrow> maxNum kv' = n)"
proof (cases q)
  case (SInstall a)
  then show ?thesis using assms
    by (cases "ia_State a") (auto simp: ShardSrv_DoOp_def wrap_def ExecuteInstallCmd_def Let_def go_bind_eq_Inr_iff split: if_splits)
qed (use assms in \<open>auto simp: ShardSrv_DoOp_def wrap_def execute_defs Let_def go_bind_eq_Inr_iff set_entry_def
      split: option.splits if_splits\<close>)

lemma do_ops_frame:
  assumes "do_ops ShardSrv_DoOp qs kv = Inr (reps, kv')"
  shows "maxNum kv \<le> maxNum kv' \<and> length (Shards_of kv') = length (Shards_of kv)"
  using assms
proof (induction qs arbitrary: kv reps)
  case (Cons q qs)
  then obtain p kv1 ps where 1: "ShardSrv_DoOp q kv = Inr (p, kv1)" "do_ops ShardSrv_DoOp qs kv1 = Inr (ps, kv')"
    by (auto simp: go_bind_eq_Inr_iff)
  show ?case using DoOp_frame [OF 1(1)] Cons.IH [OF 1(2)] by linarith
qed simp

section \<open>Properties\<close>

text \<open>Moving a shard by \<open>FreezeShard\<close> at the old group, \<open>InstallShard\<close> at a group whose copy of the shard is
  empty and \<open>DeleteShard\<close> at the old group succeeds whenever neither group has seen a newer
  configuration; the new group then serves exactly the old group's keys, values and versions, the old
  group's copy is empty and frozen, and no other shard of either group changes.\<close>
theorem shard_move:
  assumes "wf_srv src" and "wf_srv dst" and "shard_id s" and "maxNum src \<le> num" and "maxNum dst \<le> num"
    and "shKV (Shards_of dst ! nat s) = Map.empty"
  shows "\<exists>r src1 dst1 src2.
    ExecuteFreezeCmd \<lparr>fa_Shard = s, fa_Num = num\<rparr> src = Inr (r, src1) \<and> fr_Err r = OK \<and>
    ExecuteInstallCmd \<lparr>ia_Shard = s, ia_State = fr_State r, ia_Num = num\<rparr> dst = Inr (\<lparr>ir_Err = OK\<rparr>, dst1) \<and>
    ExecuteDeleteCmd \<lparr>da_Shard = s, da_Num = num\<rparr> src1 = Inr (\<lparr>dr_Err = OK\<rparr>, src2) \<and>
    Shards_of dst1 ! nat s = \<lparr>shKV = shKV (Shards_of src ! nat s), Freezed = False\<rparr> \<and>
    Shards_of src2 ! nat s = \<lparr>shKV = Map.empty, Freezed = True\<rparr> \<and>
    (\<forall>s'. shard_id s' \<longrightarrow> s' \<noteq> s \<longrightarrow> Shards_of dst1 ! nat s' = Shards_of dst ! nat s' \<and> Shards_of src2 ! nat s' = Shards_of src ! nat s')"
proof -
  obtain n where f: "ExecuteFreezeCmd \<lparr>fa_Shard = s, fa_Num = num\<rparr> src =
      Inr (\<lparr>fr_State = [shKV (Shards_of src ! nat s)], fr_Num = n, fr_Err = OK\<rparr>, upd_shard s (Freezed_update (\<lambda>_. True)) num src)"
    using config_commands(1) [OF assms(1,3,4)] by blast
  let ?src1 = "upd_shard s (Freezed_update (\<lambda>_. True)) num src"
  note i = config_commands(2) [OF assms(2,3,5), of "shKV (Shards_of src ! nat s)"]
  have d: "ExecuteDeleteCmd \<lparr>da_Shard = s, da_Num = num\<rparr> ?src1 =
      Inr (\<lparr>dr_Err = OK\<rparr>, upd_shard s (\<lambda>x. \<lparr>shKV = Map.empty, Freezed = True\<rparr>) num src)"
  proof -
    have "(\<lambda>x. x\<lparr>Freezed := True, shKV := Map.empty\<rparr>) = (\<lambda>x :: Shard. \<lparr>shKV = Map.empty, Freezed = True\<rparr>)"
      by (rule ext, case_tac x) simp
    then show ?thesis using config_commands(3) [of ?src1 s num] assms by simp
  qed
  show ?thesis
  proof (intro exI conjI)
    show "ExecuteDeleteCmd \<lparr>da_Shard = s, da_Num = num\<rparr> ?src1 =
        Inr (\<lparr>dr_Err = OK\<rparr>, upd_shard s (\<lambda>x. \<lparr>shKV = Map.empty, Freezed = True\<rparr>) num src)" by (rule d)
    show "ExecuteInstallCmd \<lparr>ia_Shard = s, ia_State = fr_State \<lparr>fr_State = [shKV (Shards_of src ! nat s)], fr_Num = n, fr_Err = OK\<rparr>, ia_Num = num\<rparr> dst =
        Inr (\<lparr>ir_Err = OK\<rparr>, upd_shard s (\<lambda>x. x\<lparr>shKV := shKV x ++ shKV (Shards_of src ! nat s), Freezed := False\<rparr>) num dst)"
      using i by simp
  qed (use f d assms in \<open>simp_all\<close>)
qed

definition srv_example :: "Tgid \<Rightarrow> shard_map \<Rightarrow> ShardSrv" where
  "srv_example gid m = \<lparr>ss_me = 0, ss_dead = 0, ss_gid = gid,
     Shards_of = \<lparr>shKV = m, Freezed = False\<rparr> # replicate (NShards - 1) \<lparr>shKV = Map.empty, Freezed = False\<rparr>, maxNum = 1\<rparr>"

lemma wf_srv_example [simp]: "wf_srv (srv_example gid m)"
  by (simp add: wf_srv_def srv_example_def NShards_def)

theorem shard_move_witness:
  "\<exists>dst1. ExecuteInstallCmd \<lparr>ia_Shard = 0, ia_State = [[''k'' \<mapsto> \<lparr>Value = ''v'', Version = 3\<rparr>]], ia_Num = 2\<rparr> (srv_example 2 Map.empty) =
      Inr (\<lparr>ir_Err = OK\<rparr>, dst1) \<and> Shards_of dst1 ! 0 = \<lparr>shKV = [''k'' \<mapsto> \<lparr>Value = ''v'', Version = 3\<rparr>], Freezed = False\<rparr>"
proof -
  let ?src = "srv_example 1 [''k'' \<mapsto> \<lparr>Value = ''v'', Version = 3\<rparr>]"
  have id: "shard_id 0" by (simp add: shard_id_def NShards_def)
  obtain r src1 dst1 where 1: "ExecuteFreezeCmd \<lparr>fa_Shard = 0, fa_Num = 2\<rparr> ?src = Inr (r, src1)"
    "ExecuteInstallCmd \<lparr>ia_Shard = 0, ia_State = fr_State r, ia_Num = 2\<rparr> (srv_example 2 Map.empty) = Inr (\<lparr>ir_Err = OK\<rparr>, dst1)"
    "Shards_of dst1 ! nat 0 = \<lparr>shKV = shKV (Shards_of ?src ! nat 0), Freezed = False\<rparr>"
    using shard_move [of ?src "srv_example 2 Map.empty" 0 2] id by (auto simp: srv_example_def wf_srv_def NShards_def)
  have "fr_State r = [[''k'' \<mapsto> \<lparr>Value = ''v'', Version = 3\<rparr>]]"
    using 1(1) by (auto simp: srv_example_def ExecuteFreezeCmd_def)
  with 1 show ?thesis by (simp add: srv_example_def)
qed

text \<open>C18: once a group has performed a configuration command of number \<open>n\<close>, it refuses every later one with a
  smaller number by \<open>ErrVersion\<close> and without any change of state, whatever requests it applies in between:
  a controller that has been superseded cannot undo what the new one did.\<close>
theorem superseded_config_refused:
  assumes "ShardSrv_DoOp q kv = Inr (rep, kv1)" and "req_num q = Some n" and "rep_err rep = OK"
    and "do_ops ShardSrv_DoOp qs kv1 = Inr (reps, kv2)" and "req_num q' = Some n'" and "n' < n"
  shows "\<exists>rep'. ShardSrv_DoOp q' kv2 = Inr (rep', kv2) \<and> rep_err rep' = ErrVersion"
proof (rule DoOp_stale [OF assms(5)])
  have "maxNum kv1 = n" using DoOp_frame [OF assms(1)] assms(2,3) by blast
  then show "n' < maxNum kv2" using do_ops_frame [OF assms(4)] assms(6) by linarith
qed

theorem superseded_config_refused_witness:
  "\<exists>kv1 rep'. ShardSrv_DoOp (SFreeze \<lparr>fa_Shard = 0, fa_Num = 5\<rparr>) (srv_example 1 Map.empty) = Inr (RepFreeze \<lparr>fr_State = [Map.empty], fr_Num = 5, fr_Err = OK\<rparr>, kv1) \<and>
     ShardSrv_DoOp (SInstall \<lparr>ia_Shard = 0, ia_State = [], ia_Num = 4\<rparr>) kv1 = Inr (rep', kv1) \<and> rep_err rep' = ErrVersion"
proof -
  obtain kv1 where 1: "ShardSrv_DoOp (SFreeze \<lparr>fa_Shard = 0, fa_Num = 5\<rparr>) (srv_example 1 Map.empty) =
      Inr (RepFreeze \<lparr>fr_State = [Map.empty], fr_Num = 5, fr_Err = OK\<rparr>, kv1)"
    by (simp add: ShardSrv_DoOp_def wrap_def ExecuteFreezeCmd_def srv_example_def)
  have "do_ops ShardSrv_DoOp [] kv1 = Inr ([], kv1)" by simp
  from superseded_config_refused [OF 1 _ _ this, of 5 "SInstall \<lparr>ia_Shard = 0, ia_State = [], ia_Num = 4\<rparr>" 4] 1 show ?thesis by auto
qed

text \<open>C34: a handler checks \<open>Freezed\<close> only before it submits: a \<open>Put\<close> that passes the check and is ordered after
  the \<open>FreezeShard\<close> in the log is performed and acknowledged with \<open>OK\<close>, although the state that was handed
  to the new group does not contain it.  The acknowledged write is lost.\<close>
theorem Put_after_Freeze_is_lost:
  assumes "wf_srv kv" and "maxNum kv \<le> num" and "\<not> frozen_here key local"
    and "shardgrp.cur_version kv key = version"
  shows "\<exists>n kv1 kv2. ExecuteFreezeCmd \<lparr>fa_Shard = Key2Shard key, fa_Num = num\<rparr> kv =
      Inr (\<lparr>fr_State = [shKV (Shards_of kv ! nat (Key2Shard key))], fr_Num = n, fr_Err = OK\<rparr>, kv1) \<and>
    rpc_call ShardSrv_DoOp (ShardSrv_Put \<lparr>pa_Key = key, pa_Value = value, pa_Version = version\<rparr>)
      \<lparr>call_others = [], call_local = local, call_end = Answered\<rparr> kv1 = (Some \<lparr>pr_Err = OK\<rparr>, kv2) \<and>
    sg_lookup kv2 key = Some \<lparr>Value = value, Version = version + 1\<rparr>"
proof -
  let ?p = "\<lparr>pa_Key = key, pa_Value = value, pa_Version = version\<rparr>"
  let ?kv1 = "upd_shard (Key2Shard key) (Freezed_update (\<lambda>_. True)) num kv"
  have wf: "wf_srv ?kv1" using assms(1) by simp
  have "sg_lookup ?kv1 key = sg_lookup kv key" using assms(1) by (simp add: sg_lookup_def)
  then have v: "shardgrp.cur_version ?kv1 key = version" using assms(4) by (simp add: shardgrp.cur_version_def)
  have ok: "pr_Err (fst (sg_put ?p ?kv1)) = OK" using shardgrp.put_ok_iff [OF wf, of ?p] v by simp
  have lk: "sg_lookup (snd (sg_put ?p ?kv1)) key = Some \<lparr>Value = value, Version = version + 1\<rparr>"
    using wf
  proof (cases rule: shardgrp.put_cases [of ?kv1 ?p])
    case performed
    then show ?thesis using v by simp
  next
    case refused
    then show ?thesis using v by simp
  qed
  have "rpc_call ShardSrv_DoOp (ShardSrv_Put ?p) \<lparr>call_others = [], call_local = local, call_end = Answered\<rparr> ?kv1 =
      (Some \<lparr>pr_Err = OK\<rparr>, snd (sg_put ?p ?kv1))"
    using assms(3) ok Execute_total(2) [OF wf, of ?p]
    by (cases "sg_put ?p ?kv1") (simp add: rpc_call_def others_do_def ShardSrv_Put_def do_op_def ShardSrv_DoOp_def wrap_def reply_of_def)
  then show ?thesis using config_commands(1) [OF assms(1) shard_id_Key2Shard assms(2), of key] lk by blast
qed

theorem Put_after_Freeze_is_lost_witness:
  "\<exists>kv1 kv2. rpc_call ShardSrv_DoOp (ShardSrv_Put \<lparr>pa_Key = ''k'', pa_Value = ''v'', pa_Version = 0\<rparr>)
      \<lparr>call_others = [], call_local = srv_example 1 Map.empty, call_end = Answered\<rparr> kv1 = (Some \<lparr>pr_Err = OK\<rparr>, kv2) \<and>
    sg_lookup kv2 ''k'' = Some \<lparr>Value = ''v'', Version = 1\<rparr>"
proof -
  have e: "Shards_of (srv_example 1 Map.empty) = replicate NShards \<lparr>shKV = Map.empty, Freezed = False\<rparr>"
    by (simp add: srv_example_def NShards_def eval_nat_numeral)
  have "\<not> frozen_here ''k'' (srv_example 1 Map.empty)" "shardgrp.cur_version (srv_example 1 Map.empty) ''k'' = 0"
    by (simp_all add: frozen_here_def shardgrp.cur_version_def sg_lookup_def e Key2Shard_range(3))
  from Put_after_Freeze_is_lost [OF wf_srv_example _ this, of 2 "''v''"] show ?thesis by (auto simp: srv_example_def)
qed

section \<open>Idempotent commands\<close>

text \<open>
  A clerk's method for a command that gives the same state and an equivalent reply when it is applied
  again: however often the retries apply it, it takes effect once, and the method returns if one call
  is answered.
\<close>

definition quiet :: "sg_call list \<Rightarrow> bool" where
  "quiet cs \<longleftrightarrow> (\<forall>c \<in> set cs. call_others c = []) \<and> (\<exists>c \<in> set cs. call_end c = Answered)"

lemma grp_loop_idem:
  assumes "gc_servers ck \<noteq> []" and "quiet cs" and "\<And>l. h l = Submits q k"
    and "\<exists>r. k (ErrWrongLeader, None) = Inr r \<and> err r = ErrWrongLeader"
    and "\<And>s. s = kv \<or> s = kv1 \<Longrightarrow>
      \<exists>p r. ShardSrv_DoOp q s = Inr (p, kv1) \<and> k (OK, Some p) = Inr r \<and> err r \<noteq> ErrWrongLeader \<and> R r"
  shows "\<exists>r retry ck'. grp_loop h err cs ck kv = Some (r, retry, ck', kv1) \<and> R r \<and> gc_servers ck' = gc_servers ck"
proof -
  let ?send = "rpc_call ShardSrv_DoOp h"
  have call: "(call_end c = Answered \<longrightarrow> conclusive err (fst (?send c s)) \<and> R (the (fst (?send c s))) \<and> snd (?send c s) = kv1) \<and>
      (call_end c \<noteq> Answered \<longrightarrow> \<not> conclusive err (fst (?send c s)) \<and> (snd (?send c s) = kv \<or> snd (?send c s) = kv1))"
    if c: "c \<in> set cs" and s: "s = kv \<or> s = kv1" for c s
  proof -
    obtain p r where pr: "ShardSrv_DoOp q s = Inr (p, kv1)" "k (OK, Some p) = Inr r" "err r \<noteq> ErrWrongLeader" "R r"
      using assms(5) [OF s] by blast
    have "call_others c = []" using c assms(2) by (simp add: quiet_def)
    then show ?thesis using pr s assms(3,4)
      by (cases "call_end c") (auto simp: rpc_call_def others_do_def do_op_def reply_of_def conclusive_def Let_def)
  qed
  obtain c where c: "c \<in> set cs" "call_end c = Answered" using assms(2) by (auto simp: quiet_def)
  have "\<exists>r retry' l s'. server_loop ?send err (length (gc_servers ck)) (gc_lastLeader ck) 0 False cs kv = Some (r, retry', l, s') \<and> (R r \<and> s' = kv1)"
  proof (rule server_loop_total [where I = "\<lambda>s. s = kv \<or> s = kv1", OF _ _ c])
    show "0 < length (gc_servers ck)" using assms(1) by simp
  qed (use call in \<open>blast+\<close>)
  then show ?thesis by (fastforce simp: grp_loop_def)
qed

lemma map_add_twice [simp]: "m ++ d ++ d = m ++ d"
  by (rule ext) (simp add: map_add_def split: option.split)

lemma Freeze_clerk:
  assumes "wf_srv kv" and "shard_id s" and "maxNum kv \<le> num" and "gc_servers ck \<noteq> []" and "quiet cs"
  shows "\<exists>ck'. GrpClerk_FreezeShard cs s num ck kv =
    Some (([shKV (Shards_of kv ! nat s)], OK), ck', upd_shard s (Freezed_update (\<lambda>_. True)) num kv) \<and> gc_servers ck' = gc_servers ck"
proof -
  let ?a = "\<lparr>fa_Shard = s, fa_Num = num\<rparr>" and ?kv1 = "upd_shard s (Freezed_update (\<lambda>_. True)) num kv"
  have "\<exists>r retry ck'. grp_loop (ShardSrv_FreezeShard ?a) fr_Err cs ck kv = Some (r, retry, ck', ?kv1) \<and>
      (fr_State r = [shKV (Shards_of kv ! nat s)] \<and> fr_Err r = OK) \<and> gc_servers ck' = gc_servers ck"
  proof (rule grp_loop_idem [OF assms(4,5) ShardSrv_FreezeShard_def])
    fix x
    assume x: "x = kv \<or> x = ?kv1"
    then have "wf_srv x" "maxNum x \<le> num" "shKV (Shards_of x ! nat s) = shKV (Shards_of kv ! nat s)"
      "upd_shard s (Freezed_update (\<lambda>_. True)) num x = ?kv1"
      using assms by auto
    then show "\<exists>p r. ShardSrv_DoOp (SFreeze ?a) x = Inr (p, ?kv1) \<and> (case (OK, Some p) of (err, rep) \<Rightarrow>
        if err = ErrWrongLeader then Inr \<lparr>fr_State = [], fr_Num = 0, fr_Err = ErrWrongLeader\<rparr>
        else case rep of Some (RepFreeze r) \<Rightarrow> Inr r | _ \<Rightarrow> Inl TypeAssertion) = Inr r \<and> fr_Err r \<noteq> ErrWrongLeader \<and>
        (fr_State r = [shKV (Shards_of kv ! nat s)] \<and> fr_Err r = OK)"
      using config_commands(1) [of x s num] assms(2) by (auto simp: ShardSrv_DoOp_def wrap_def)
  qed simp_all
  then show ?thesis by (auto simp: GrpClerk_FreezeShard_def)
qed

lemma Install_clerk:
  assumes "wf_srv kv" and "shard_id s" and "maxNum kv \<le> num" and "gc_servers ck \<noteq> []" and "quiet cs"
  shows "\<exists>ck'. GrpClerk_InstallShard cs s [d] num ck kv =
    Some (OK, ck', upd_shard s (\<lambda>x. x\<lparr>shKV := shKV x ++ d, Freezed := False\<rparr>) num kv) \<and> gc_servers ck' = gc_servers ck"
proof -
  let ?a = "\<lparr>ia_Shard = s, ia_State = [d], ia_Num = num\<rparr>" and ?f = "\<lambda>x :: Shard. x\<lparr>shKV := shKV x ++ d, Freezed := False\<rparr>"
  let ?kv1 = "upd_shard s ?f num kv"
  have "\<exists>r retry ck'. grp_loop (ShardSrv_InstallShard ?a) ir_Err cs ck kv = Some (r, retry, ck', ?kv1) \<and>
      ir_Err r = OK \<and> gc_servers ck' = gc_servers ck"
  proof (rule grp_loop_idem [OF assms(4,5) ShardSrv_InstallShard_def])
    fix x
    assume x: "x = kv \<or> x = ?kv1"
    then have "wf_srv x" "maxNum x \<le> num" "upd_shard s ?f num x = ?kv1" using assms by auto
    then show "\<exists>p r. ShardSrv_DoOp (SInstall ?a) x = Inr (p, ?kv1) \<and> (case (OK, Some p) of (err, rep) \<Rightarrow>
        if err = ErrWrongLeader then Inr \<lparr>ir_Err = ErrWrongLeader\<rparr>
        else case rep of Some (RepInstall r) \<Rightarrow> Inr r | _ \<Rightarrow> Inl TypeAssertion) = Inr r \<and> ir_Err r \<noteq> ErrWrongLeader \<and> ir_Err r = OK"
      using config_commands(2) [of x s num d] assms(2) by (auto simp: ShardSrv_DoOp_def wrap_def)
  qed simp_all
  then show ?thesis by (auto simp: GrpClerk_InstallShard_def)
qed

lemma Delete_clerk:
  assumes "wf_srv kv" and "shard_id s" and "maxNum kv \<le> num" and "gc_servers ck \<noteq> []" and "quiet cs"
    and "Freezed (Shards_of kv ! nat s)"
  shows "\<exists>ck'. GrpClerk_DeleteShard cs s num ck kv =
    Some (OK, ck', upd_shard s (shKV_update (\<lambda>_. Map.empty)) num kv) \<and> gc_servers ck' = gc_servers ck"
proof -
  let ?a = "\<lparr>da_Shard = s, da_Num = num\<rparr>" and ?f = "shKV_update (\<lambda>_. Map.empty) :: Shard \<Rightarrow> Shard"
  let ?kv1 = "upd_shard s ?f num kv"
  have "\<exists>r retry ck'. grp_loop (ShardSrv_DeleteShard ?a) dr_Err cs ck kv = Some (r, retry, ck', ?kv1) \<and>
      dr_Err r = OK \<and> gc_servers ck' = gc_servers ck"
  proof (rule grp_loop_idem [OF assms(4,5) ShardSrv_DeleteShard_def])
    fix x
    assume x: "x = kv \<or> x = ?kv1"
    then have "wf_srv x" "maxNum x \<le> num" "Freezed (Shards_of x ! nat s)" "upd_shard s ?f num x = ?kv1" using assms by auto
    then show "\<exists>p r. ShardSrv_DoOp (SDelete ?a) x = Inr (p, ?kv1) \<and> (case (OK, Some p) of (err, rep) \<Rightarrow>
        if err = ErrWrongLeader then Inr \<lparr>dr_Err = ErrWrongLeader\<rparr>
        else case rep of Some (RepDelete r) \<Rightarrow> Inr r | _ \<Rightarrow> Inl TypeAssertion) = Inr r \<and> dr_Err r \<noteq> ErrWrongLeader \<and> dr_Err r = OK"
      using config_commands(3) [of x s num] assms(2) by (auto simp: ShardSrv_DoOp_def wrap_def)
  qed simp_all
  then show ?thesis by (auto simp: GrpClerk_DeleteShard_def)
qed

end
