(* ===== verification/Json.thy ===== *)
theory Json
  imports Prelude "HOL-Library.Char_ord" "HOL-Library.List_Lexorder"
begin

text \<open>
  The part of Go's \<open>encoding/json\<close> that the repository uses, as text: \<open>Marshal\<close> and \<open>Unmarshal\<close> for integers,
  ASCII strings, arrays and objects.  Values with fractions or exponents and the escapes of code points above
  127 are rejected: no type of the repository that is stored as JSON has them.
\<close>

section \<open>Decimal numbers\<close>

definition is_digit :: "char \<Rightarrow> bool" where
  "is_digit c \<longleftrightarrow> 48 \<le> (of_char c :: nat) \<and> (of_char c :: nat) \<le> 57"

text \<open>An optional minus sign, then digits without a superfluous leading zero.\<close>

definition p_nat :: "string \<Rightarrow> (nat \<times> string) option" where
  "p_nat s =
     (let ds = takeWhile is_digit s
      in if ds = [] \<or> (hd ds = CHR ''0'' \<and> tl ds \<noteq> []) then None else Some (digits_value ds, dropWhile is_digit s))"

definition p_int :: "string \<Rightarrow> (int \<times> string) option" where
  "p_int s =
     (case s of
        CHR ''-'' # s' \<Rightarrow> map_option (\<lambda>(n, r). (- int n, r)) (p_nat s')
      | _ \<Rightarrow> map_option (\<lambda>(n, r). (int n, r)) (p_nat s))"

lemma is_digit_digit [simp]: "d < 10 \<Longrightarrow> is_digit (digit_char d)"
  by (simp add: is_digit_def)

lemma dec_nat_digits: "c \<in> set (nat_digits n) \<Longrightarrow> is_digit c"
  by (induction n rule: nat_digits.induct) (subst (asm) (2) nat_digits.simps, auto split: if_splits)

lemma dec_nat_nonempty [simp]: "nat_digits n \<noteq> []"
  by (subst nat_digits.simps) simp

text \<open>Only zero starts with the digit \<open>0\<close>.\<close>

lemma digit_char_0: "d < 10 \<Longrightarrow> digit_char d = CHR ''0'' \<longleftrightarrow> d = 0"
proof -
  assume "d < 10"
  have "digit_char d = CHR ''0'' \<longleftrightarrow> (of_char (digit_char d) :: nat) = of_char CHR ''0''"
    by (simp only: of_char_eq_iff)
  with \<open>d < 10\<close> show ?thesis by simp
qed

lemma dec_nat_hd: "0 < n \<Longrightarrow> hd (nat_digits n) \<noteq> CHR ''0''"
proof (induction n rule: nat_digits.induct)
  case (1 n)
  then show ?case by (subst nat_digits.simps) (auto simp: digit_char_0)
qed

text \<open>What follows a number must not continue it.\<close>

definition stops :: "string \<Rightarrow> bool" where
  "stops r \<longleftrightarrow> (case r of [] \<Rightarrow> True | c # _ \<Rightarrow> \<not> is_digit c)"

lemma span_digits:
  assumes "\<forall>c \<in> set ds. is_digit c" and "stops r"
  shows "takeWhile is_digit (ds @ r) = ds" and "dropWhile is_digit (ds @ r) = r"
proof -
  have "takeWhile is_digit r = []" "dropWhile is_digit r = r" using assms(2) by (cases r; simp add: stops_def)+
  then show "takeWhile is_digit (ds @ r) = ds" and "dropWhile is_digit (ds @ r) = r" using assms(1) by simp_all
qed

lemma p_nat_dec: "stops r \<Longrightarrow> p_nat (nat_digits n @ r) = Some (n, r)"
proof -
  assume r: "stops r"
  have sp: "takeWhile is_digit (nat_digits n @ r) = nat_digits n" "dropWhile is_digit (nat_digits n @ r) = r"
    using span_digits [of "nat_digits n" r] r dec_nat_digits by blast+
  have "hd (nat_digits n) = CHR ''0'' \<Longrightarrow> tl (nat_digits n) = []"
    using dec_nat_hd [of n] by (cases n) (simp_all add: nat_digits.simps [of 0])
  then show ?thesis unfolding p_nat_def Let_def sp by (auto simp: digits_value_nat_digits)
qed

lemma dec_nat_no_minus: "nat_digits n = c # s \<Longrightarrow> c \<noteq> CHR ''-''"
  using dec_nat_digits [of c n] by (auto simp: is_digit_def)

lemma p_int_dec: "stops r \<Longrightarrow> p_int (itoa i @ r) = Some (i, r)"
proof (cases "i < 0")
  case True
  assume "stops r"
  with True show ?thesis by (simp add: itoa_def p_int_def p_nat_dec)
next
  case False
  assume r: "stops r"
  obtain c s where cs: "nat_digits (nat i) = c # s" by (cases "nat_digits (nat i)") simp_all
  have "p_int (nat_digits (nat i) @ r) = map_option (\<lambda>(n, r). (int n, r)) (p_nat (nat_digits (nat i) @ r))"
    using dec_nat_no_minus [OF cs] by (auto simp: p_int_def cs split: list.split char.split bool.split)
  with False r show ?thesis by (simp add: itoa_def p_nat_dec)
qed

section \<open>Strings\<close>

text \<open>
  \<open>Marshal\<close> escapes the quote, the backslash, control characters and the three characters that are special
  in HTML.
\<close>

definition hex_char :: "nat \<Rightarrow> char" where
  "hex_char d = (if d < 10 then char_of (48 + d) else char_of (87 + d))"

definition hex_value :: "char \<Rightarrow> nat option" where
  "hex_value c =
     (let n = of_char c :: nat
      in if 48 \<le> n \<and> n \<le> 57 then Some (n - 48)
         else if 97 \<le> n \<and> n \<le> 102 then Some (n - 87)
         else if 65 \<le> n \<and> n \<le> 70 then Some (n - 55)
         else None)"

definition escape :: "char \<Rightarrow> string" where
  "escape c =
     (let n = of_char c :: nat
      in if n = 34 then [CHR 0x5C, CHR 0x22]
         else if n = 92 then [CHR 0x5C, CHR 0x5C]
         else if n = 8 then [CHR 0x5C, CHR ''b'']
         else if n = 12 then [CHR 0x5C, CHR ''f'']
         else if n = 10 then [CHR 0x5C, CHR ''n'']
         else if n = 13 then [CHR 0x5C, CHR ''r'']
         else if n = 9 then [CHR 0x5C, CHR ''t'']
         else if n < 32 \<or> n = 60 \<or> n = 62 \<or> n = 38
         then [CHR 0x5C, CHR ''u'', CHR ''0'', CHR ''0'', hex_char (n div 16), hex_char (n mod 16)]
         else [c])"

definition pr_str :: "string \<Rightarrow> string" where
  "pr_str s = CHR 0x22 # concat (map escape s) @ [CHR 0x22]"

text \<open>The character an escape of one letter stands for.\<close>

definition unescape :: "char \<Rightarrow> char option" where
  "unescape e =
     (if e = CHR 0x22 \<or> e = CHR 0x5C \<or> e = CHR ''/'' then Some e
      else if e = CHR ''b'' then Some (char_of (8 :: nat))
      else if e = CHR ''f'' then Some (char_of (12 :: nat))
      else if e = CHR ''n'' then Some (char_of (10 :: nat))
      else if e = CHR ''r'' then Some (char_of (13 :: nat))
      else if e = CHR ''t'' then Some (char_of (9 :: nat))
      else None)"

definition hex4 :: "char \<Rightarrow> char \<Rightarrow> char \<Rightarrow> char \<Rightarrow> char option" where
  "hex4 a b c d =
     (case (hex_value a, hex_value b, hex_value c, hex_value d) of
        (Some a, Some b, Some c, Some d) \<Rightarrow>
          let n = ((a * 16 + b) * 16 + c) * 16 + d in if n < 128 then Some (char_of n) else None
      | _ \<Rightarrow> None)"

definition push :: "char \<Rightarrow> (string \<times> string) option \<Rightarrow> (string \<times> string) option" where
  "push c = map_option (\<lambda>(s, r). (c # s, r))"

text \<open>The rest of a string literal, after the opening quote.\<close>

fun p_str :: "string \<Rightarrow> (string \<times> string) option" where
  "p_str [] = None"
| "p_str (c # s) =
     (if c = CHR 0x22 then Some ([], s)
      else if c = CHR 0x5C then
        (case s of
           [] \<Rightarrow> None
         | e # s1 \<Rightarrow>
             if e = CHR ''u''
             then (case s1 of
                     h1 # h2 # h3 # h4 # s2 \<Rightarrow>
                       (case hex4 h1 h2 h3 h4 of None \<Rightarrow> None | Some x \<Rightarrow> push x (p_str s2))
                   | _ \<Rightarrow> None)
             else (case unescape e of None \<Rightarrow> None | Some x \<Rightarrow> push x (p_str s1)))
      else if (of_char c :: nat) < 32 then None
      else push c (p_str s))"

declare p_str.simps(2) [simp del]

definition ascii :: "string \<Rightarrow> bool" where
  "ascii s \<longleftrightarrow> (\<forall>c \<in> set s. (of_char c :: nat) < 128)"

lemma push_Some [simp]: "push c (Some (s, r)) = Some (c # s, r)"
  by (simp add: push_def)

lemma hex_value_char: "d < 16 \<Longrightarrow> hex_value (hex_char d) = Some d"
  by (auto simp: hex_value_def hex_char_def Let_def)

lemma hex4_low: "n < 128 \<Longrightarrow> hex4 CHR ''0'' CHR ''0'' (hex_char (n div 16)) (hex_char (n mod 16)) = Some (char_of n)"
  by (simp add: hex4_def hex_value_char Let_def) (simp add: hex_value_def Let_def)

lemma char_of_code: "(of_char c :: nat) = n \<Longrightarrow> c = char_of n"
  using char_of_char [of c, where ?'a = nat] by simp

lemma p_str_escape:
  assumes "(of_char c :: nat) < 128"
  shows "p_str (escape c @ r) = push c (p_str r)"
proof -
  let ?n = "of_char c :: nat"
  consider (q) "?n = 34" | (b) "?n = 92" | (short) "?n \<in> {8, 12, 10, 13, 9}"
    | (hex) "?n < 32 \<or> ?n = 60 \<or> ?n = 62 \<or> ?n = 38" "?n \<notin> {8, 12, 10, 13, 9}"
    | (plain) "\<not> ?n < 32" "?n \<notin> {34, 92, 60, 62, 38}" by auto
  then show ?thesis
  proof cases
    case q
    then have c: "c = CHR 0x22" by (intro of_char_eqI [where ?'a = nat]) simp
    show ?thesis by (simp add: c escape_def p_str.simps(2) unescape_def)
  next
    case b
    then have c: "c = CHR 0x5C" by (intro of_char_eqI [where ?'a = nat]) simp
    show ?thesis by (simp add: c escape_def p_str.simps(2) unescape_def)
  next
    case short
    then show ?thesis by (auto simp: escape_def Let_def p_str.simps(2) unescape_def dest: char_of_code)
  next
    case hex
    then have "escape c = [CHR 0x5C, CHR ''u'', CHR ''0'', CHR ''0'', hex_char (?n div 16), hex_char (?n mod 16)]"
      by (auto simp: escape_def Let_def)
    then show ?thesis using assms by (simp add: p_str.simps(2) hex4_low)
  next
    case plain
    then have "escape c = [c]" "c \<noteq> CHR 0x22" "c \<noteq> CHR 0x5C" by (auto simp: escape_def Let_def)
    with plain show ?thesis by (simp add: p_str.simps(2))
  qed
qed

lemma p_str_pr: "ascii s \<Longrightarrow> p_str (concat (map escape s) @ CHR 0x22 # r) = Some (s, r)"
proof (induction s)
  case Nil
  show ?case by (simp add: p_str.simps(2))
next
  case (Cons c s)
  then show ?case by (simp add: p_str_escape ascii_def)
qed

section \<open>Values\<close>

datatype json = JInt int | JStr string | JArr "json list" | JObj "(string \<times> json) list"

fun commas :: "string list \<Rightarrow> string" where
  "commas [] = []"
| "commas [x] = x"
| "commas (x # y # zs) = x @ CHR '','' # commas (y # zs)"

fun pr_json :: "json \<Rightarrow> string" where
  "pr_json (JInt i) = itoa i"
| "pr_json (JStr s) = pr_str s"
| "pr_json (JArr vs) = CHR ''['' # commas (map pr_json vs) @ '']''"
| "pr_json (JObj kvs) = CHR ''{'' # commas (map (\<lambda>(k, v). pr_str k @ CHR '':'' # pr_json v) kvs) @ ''}''"

definition is_ws :: "char \<Rightarrow> bool" where
  "is_ws c \<longleftrightarrow> (of_char c :: nat) \<in> {32, 9, 10, 13}"

text \<open>One character after white space, or failure.\<close>

definition eat :: "char \<Rightarrow> string \<Rightarrow> string option" where
  "eat c s = (case dropWhile is_ws s of [] \<Rightarrow> None | d # r \<Rightarrow> if d = c then Some r else None)"

text \<open>
  The parser; its first argument bounds the depth of the recursion, and the length of the text is enough.
\<close>

fun p_val :: "nat \<Rightarrow> string \<Rightarrow> (json \<times> string) option"
  and p_elems :: "nat \<Rightarrow> string \<Rightarrow> (json list \<times> string) option"
  and p_members :: "nat \<Rightarrow> string \<Rightarrow> ((string \<times> json) list \<times> string) option" where
  "p_val 0 s = None"
| "p_val (Suc n) s =
     (case eat CHR ''['' s of
        Some s1 \<Rightarrow>
          (case eat CHR '']'' s1 of
             Some r \<Rightarrow> Some (JArr [], r)
           | None \<Rightarrow> map_option (\<lambda>(vs, r). (JArr vs, r)) (p_elems n s1))
      | None \<Rightarrow>
          (case eat CHR ''{'' s of
             Some s1 \<Rightarrow>
               (case eat CHR ''}'' s1 of
                  Some r \<Rightarrow> Some (JObj [], r)
                | None \<Rightarrow> map_option (\<lambda>(kvs, r). (JObj kvs, r)) (p_members n s1))
           | None \<Rightarrow>
               (case eat CHR 0x22 s of
                  Some s1 \<Rightarrow> map_option (\<lambda>(x, r). (JStr x, r)) (p_str s1)
                | None \<Rightarrow> map_option (\<lambda>(i, r). (JInt i, r)) (p_int (dropWhile is_ws s)))))"
| "p_elems 0 s = None"
| "p_elems (Suc n) s =
     (case p_val n s of
        None \<Rightarrow> None
      | Some (v, s1) \<Rightarrow>
          (case eat CHR '','' s1 of
             Some s2 \<Rightarrow> map_option (\<lambda>(vs, r). (v # vs, r)) (p_elems n s2)
           | None \<Rightarrow> map_option (\<lambda>r. ([v], r)) (eat CHR '']'' s1)))"
| "p_members 0 s = None"
| "p_members (Suc n) s =
     (case Option.bind (eat CHR 0x22 s) p_str of
        None \<Rightarrow> None
      | Some (k, s1) \<Rightarrow>
          (case Option.bind (eat CHR '':'' s1) (p_val n) of
             None \<Rightarrow> None
           | Some (v, s2) \<Rightarrow>
               (case eat CHR '','' s2 of
                  Some s3 \<Rightarrow> map_option (\<lambda>(kvs, r). ((k, v) # kvs, r)) (p_members n s3)
                | None \<Rightarrow> map_option (\<lambda>r. ([(k, v)], r)) (eat CHR ''}'' s2))))"

definition p_json :: "string \<Rightarrow> json option" where
  "p_json s =
     (case p_val (Suc (length s)) s of
        Some (v, r) \<Rightarrow> if dropWhile is_ws r = [] then Some v else None
      | None \<Rightarrow> None)"

text \<open>The depth a value needs, and the strings the printer can be inverted on.\<close>

fun jfuel :: "json \<Rightarrow> nat" where
  "jfuel (JInt i) = 1"
| "jfuel (JStr s) = 1"
| "jfuel (JArr vs) = Suc (\<Sum>v\<leftarrow>vs. Suc (jfuel v))"
| "jfuel (JObj kvs) = Suc (\<Sum>(k, v)\<leftarrow>kvs. Suc (jfuel v))"

fun jascii :: "json \<Rightarrow> bool" where
  "jascii (JInt i) = True"
| "jascii (JStr s) = ascii s"
| "jascii (JArr vs) = (\<forall>v \<in> set vs. jascii v)"
| "jascii (JObj kvs) = (\<forall>(k, v) \<in> set kvs. ascii k \<and> jascii v)"

lemma eat_Cons [simp]: "\<not> is_ws d \<Longrightarrow> eat c (d # r) = (if d = c then Some r else None)"
  by (simp add: eat_def)

lemma not_ws [simp]:
  "\<not> is_ws CHR ''[''" "\<not> is_ws CHR '']''" "\<not> is_ws CHR ''{''" "\<not> is_ws CHR ''}''" "\<not> is_ws CHR '',''"
  "\<not> is_ws CHR '':''" "\<not> is_ws CHR 0x22" "\<not> is_ws CHR ''-''"
  by (simp_all add: is_ws_def)

lemma digit_not_ws: "is_digit c \<Longrightarrow> \<not> is_ws c"
  by (auto simp: is_digit_def is_ws_def)

lemma stops_punct [simp]: "stops (CHR '','' # r)" "stops (CHR '']'' # r)" "stops (CHR ''}'' # r)" "stops []"
  by (simp_all add: stops_def is_digit_def)

text \<open>The first character of a printed value.\<close>

lemma dec_int_hd: "\<exists>c s. itoa i = c # s \<and> (is_digit c \<or> c = CHR ''-'')"
proof (cases "i < 0")
  case False
  then show ?thesis using dec_nat_digits [of "hd (nat_digits (nat i))" "nat i"]
    by (intro exI [of _ "hd (nat_digits (nat i))"] exI [of _ "tl (nat_digits (nat i))"]) (simp add: itoa_def)
qed (simp add: itoa_def)

lemma p_val_int: "stops r \<Longrightarrow> p_val (Suc n) (itoa i @ r) = Some (JInt i, r)"
proof -
  assume r: "stops r"
  obtain c s where c: "itoa i = c # s" "is_digit c \<or> c = CHR ''-''" using dec_int_hd by blast
  then have "\<not> is_ws c" "c \<notin> {CHR ''['', CHR ''{'', CHR 0x22}" by (auto simp: is_digit_def is_ws_def)
  then show ?thesis using p_int_dec [OF r, of i] c(1) by simp
qed

lemma pr_json_hd: "\<exists>c s. pr_json v = c # s \<and> \<not> is_ws c \<and> c \<noteq> CHR '']'' \<and> c \<noteq> CHR ''}''"
proof (cases v)
  case (JInt i)
  then show ?thesis using dec_int_hd [of i] by (auto simp: is_digit_def is_ws_def)
qed (auto simp: pr_str_def)

section \<open>Printing and parsing\<close>

lemma p_elems_pr:
  assumes "vs \<noteq> []" and "\<And>v n r. v \<in> set vs \<Longrightarrow> jfuel v \<le> n \<Longrightarrow> stops r \<Longrightarrow> p_val n (pr_json v @ r) = Some (v, r)"
    and "(\<Sum>v\<leftarrow>vs. Suc (jfuel v)) \<le> n"
  shows "p_elems n (commas (map pr_json vs) @ CHR '']'' # r) = Some (vs, r)"
  using assms
proof (induction vs arbitrary: n)
  case (Cons v vs)
  then obtain m where n: "n = Suc m" by (cases n) auto
  show ?case
  proof (cases vs)
    case Nil
    then show ?thesis using Cons.prems(2) [of v m "CHR '']'' # r"] Cons.prems(3) n by simp
  next
    case (Cons w ws)
    have v: "p_val m (pr_json v @ CHR '','' # x) = Some (v, CHR '','' # x)" for x
      using Cons.prems(2) [of v m] Cons.prems(3) n by simp
    have "p_elems m (commas (map pr_json vs) @ CHR '']'' # r) = Some (vs, r)"
      using Cons.IH [of m] Cons.prems Cons n by simp
    then show ?thesis using v n Cons by simp
  qed
qed simp

lemma p_members_pr:
  assumes "kvs \<noteq> []" and "\<And>k v n r. (k, v) \<in> set kvs \<Longrightarrow> jfuel v \<le> n \<Longrightarrow> stops r \<Longrightarrow> p_val n (pr_json v @ r) = Some (v, r)"
    and "(\<Sum>(k, v)\<leftarrow>kvs. Suc (jfuel v)) \<le> n" and "\<forall>(k, v) \<in> set kvs. ascii k"
  shows "p_members n (commas (map (\<lambda>(k, v). pr_str k @ CHR '':'' # pr_json v) kvs) @ CHR ''}'' # r) = Some (kvs, r)"
  using assms
proof (induction kvs arbitrary: n)
  case (Cons kv kvs)
  obtain k v where kv: "kv = (k, v)" by fastforce
  from Cons.prems obtain m where n: "n = Suc m" by (cases n) auto
  have k: "p_str (concat (map escape k) @ CHR 0x22 # x) = Some (k, x)" for x
    using Cons.prems(4) kv by (intro p_str_pr) simp
  show ?case
  proof (cases kvs)
    case Nil
    then show ?thesis using Cons.prems(2) [of k v m "CHR ''}'' # r"] Cons.prems(3) n k by (simp add: kv pr_str_def)
  next
    case (Cons w ws)
    have v: "p_val m (pr_json v @ CHR '','' # x) = Some (v, CHR '','' # x)" for x
      using Cons.prems(2) [of k v m] Cons.prems(3) n by (simp add: kv)
    have "p_members m (commas (map (\<lambda>(k, v). pr_str k @ CHR '':'' # pr_json v) kvs) @ CHR ''}'' # r) = Some (kvs, r)"
    proof (rule Cons.IH)
      show "\<And>k v n r. (k, v) \<in> set kvs \<Longrightarrow> jfuel v \<le> n \<Longrightarrow> stops r \<Longrightarrow> p_val n (pr_json v @ r) = Some (v, r)"
        using Cons.prems(2) by (meson list.set_intros(2))
    qed (use Cons.prems Cons n in \<open>auto simp: kv\<close>)
    then show ?thesis using v n k Cons by (simp add: kv pr_str_def)
  qed
qed simp

lemma p_val_pr: "jascii v \<Longrightarrow> jfuel v \<le> n \<Longrightarrow> stops r \<Longrightarrow> p_val n (pr_json v @ r) = Some (v, r)"
proof (induction v arbitrary: n r)
  case (JInt i)
  then show ?case by (cases n) (simp_all add: p_val_int del: p_val.simps(2))
next
  case (JStr s)
  then show ?case by (cases n) (simp_all add: pr_str_def p_str_pr)
next
  case (JArr vs)
  then obtain m where n: "n = Suc m" by (cases n) auto
  show ?case
  proof (cases vs)
    case Nil
    then show ?thesis by (simp add: n)
  next
    case (Cons v ws)
    obtain c s where c: "pr_json v = c # s" "\<not> is_ws c" "c \<noteq> CHR '']''" using pr_json_hd by blast
    have el: "p_elems m (commas (map pr_json vs) @ CHR '']'' # r) = Some (vs, r)"
      using JArr Cons n by (intro p_elems_pr) auto
    have "\<exists>x. commas (map pr_json vs) = c # x" using c Cons by (cases ws) simp_all
    then obtain x where x: "commas (map pr_json vs) = c # x" ..
    show ?thesis using el c by (simp add: n x)
  qed
next
  case (JObj kvs)
  then obtain m where n: "n = Suc m" by (cases n) auto
  show ?case
  proof (cases kvs)
    case Nil
    then show ?thesis by (simp add: n)
  next
    case (Cons kv ws)
    let ?mem = "commas (map (\<lambda>(k, v). pr_str k @ CHR '':'' # pr_json v) kvs)"
    have el: "p_members m (?mem @ CHR ''}'' # r) = Some (kvs, r)"
    proof (rule p_members_pr)
      show "\<And>k v n r. (k, v) \<in> set kvs \<Longrightarrow> jfuel v \<le> n \<Longrightarrow> stops r \<Longrightarrow> p_val n (pr_json v @ r) = Some (v, r)"
        using JObj by (metis case_prodD jascii.simps(4) snds.intros snd_conv)
    qed (use JObj Cons n in auto)
    have "\<exists>x. ?mem = CHR 0x22 # x" using Cons by (cases ws; cases kv) (simp_all add: pr_str_def)
    then obtain x where x: "?mem = CHR 0x22 # x" ..
    show ?thesis using el by (simp add: n x)
  qed
qed

lemma commas_length: "length (commas xs) + 1 \<ge> (\<Sum>x\<leftarrow>xs. Suc (length x))"
  by (induction xs rule: commas.induct) auto

lemma jfuel_length: "jfuel v \<le> length (pr_json v)"
proof (induction v)
  case (JInt i)
  then show ?case using dec_int_hd [of i] by auto
next
  case (JArr vs)
  have "(\<Sum>v\<leftarrow>vs. Suc (jfuel v)) \<le> (\<Sum>v\<leftarrow>vs. Suc (length (pr_json v)))" using JArr by (intro sum_list_mono) simp
  also have "\<dots> \<le> length (commas (map pr_json vs)) + 1" using commas_length [of "map pr_json vs"] by (simp add: comp_def)
  finally show ?case by simp
next
  case (JObj kvs)
  let ?f = "\<lambda>(k, v). pr_str k @ CHR '':'' # pr_json v"
  have "(\<Sum>(k, v)\<leftarrow>kvs. Suc (jfuel v)) \<le> (\<Sum>kv\<leftarrow>kvs. Suc (length (?f kv)))"
    using JObj by (intro sum_list_mono) (fastforce simp: snds.simps)
  also have "\<dots> \<le> length (commas (map ?f kvs)) + 1" using commas_length [of "map ?f kvs"] by (simp add: comp_def)
  finally show ?case by simp
qed (simp add: pr_str_def)

lemma p_json_pr: "jascii v \<Longrightarrow> p_json (pr_json v) = Some v"
  using p_val_pr [of v "Suc (length (pr_json v))" "[]"] jfuel_length [of v]
  by (simp add: p_json_def del: p_val.simps)

end
