(* ===== verification/CfgString.thy ===== *)
theory CfgString
  imports Json ShardCfg
begin

text \<open>
  \<open>String\<close> and \<open>FromString\<close> of \<open>src/shardkv1/shardcfg/shardcfg.go\<close>: the JSON text under which the controller keeps a
  configuration in its key/value server.  \<open>Marshal\<close> writes the groups in the order of their keys as strings;
  \<open>Unmarshal\<close> fills a zero configuration field by field.
\<close>

section \<open>The two functions\<close>

definition sorted_groups :: "(Tgid \<times> string list) list \<Rightarrow> (Tgid \<times> string list) list" where
  "sorted_groups gs = sort_key (itoa \<circ> fst) gs"

definition cfg_json :: "ShardConfig \<Rightarrow> json" where
  "cfg_json cfg =
     JObj [(''Num'', JInt (Num cfg)),
           (''Shards'', JArr (map JInt (Shards cfg))),
           (''Groups'', JObj (map (\<lambda>(gid, srvs). (itoa gid, JArr (map JStr srvs))) (sorted_groups (Groups cfg))))]"

definition ShardConfig_String :: "ShardConfig \<Rightarrow> string" where
  "ShardConfig_String cfg = pr_json (cfg_json cfg)"

fun as_ints :: "json list \<Rightarrow> int list option" where
  "as_ints [] = Some []"
| "as_ints (JInt i # vs) = map_option (\<lambda>is. i # is) (as_ints vs)"
| "as_ints (_ # vs) = None"

fun as_strings :: "json list \<Rightarrow> string list option" where
  "as_strings [] = Some []"
| "as_strings (JStr s # vs) = map_option (\<lambda>ss. s # ss) (as_strings vs)"
| "as_strings (_ # vs) = None"

text \<open>An array of fixed length: missing elements are zero, additional ones are dropped.\<close>

definition to_array :: "int list \<Rightarrow> int list" where
  "to_array is = take NShards (is @ replicate NShards 0)"

text \<open>The entries of an object into a map with integer keys.\<close>

fun as_groups :: "(string \<times> json) list \<Rightarrow> (Tgid \<times> string list) list \<Rightarrow> (Tgid \<times> string list) list option" where
  "as_groups [] m = Some m"
| "as_groups ((k, JArr vs) # kvs) m =
     (case (p_int k, as_strings vs) of
        (Some (gid, []), Some srvs) \<Rightarrow> as_groups kvs (filter (\<lambda>(g, _). g \<noteq> gid) m @ [(gid, srvs)])
      | _ \<Rightarrow> None)"
| "as_groups (_ # kvs) m = None"

definition set_field :: "string \<Rightarrow> json \<Rightarrow> ShardConfig \<Rightarrow> ShardConfig option" where
  "set_field k v cfg =
     (if k = ''Num'' then (case v of JInt i \<Rightarrow> Some (cfg\<lparr>Num := i\<rparr>) | _ \<Rightarrow> None)
      else if k = ''Shards'' then
        (case v of JArr vs \<Rightarrow> map_option (\<lambda>is. cfg\<lparr>Shards := to_array is\<rparr>) (as_ints vs) | _ \<Rightarrow> None)
      else if k = ''Groups'' then
        (case v of JObj kvs \<Rightarrow> map_option (\<lambda>m. cfg\<lparr>Groups := m\<rparr>) (as_groups kvs (Groups cfg)) | _ \<Rightarrow> None)
      else Some cfg)"

fun set_fields :: "(string \<times> json) list \<Rightarrow> ShardConfig \<Rightarrow> ShardConfig option" where
  "set_fields [] cfg = Some cfg"
| "set_fields ((k, v) # kvs) cfg = Option.bind (set_field k v cfg) (set_fields kvs)"

definition FromString :: "string \<Rightarrow> ShardConfig go" where
  "FromString s =
     (case p_json s of
        Some (JObj kvs) \<Rightarrow>
          (case set_fields kvs \<lparr>Num = 0, Shards = replicate NShards 0, Groups = []\<rparr> of
             Some scfg \<Rightarrow> Inr scfg
           | None \<Rightarrow> Inl (LogFatal ''Unmarshall err''))
      | _ \<Rightarrow> Inl (LogFatal ''Unmarshall err''))"

section \<open>The round trip\<close>

definition cfg_codable :: "ShardConfig \<Rightarrow> bool" where
  "cfg_codable cfg \<longleftrightarrow> distinct (map fst (Groups cfg)) \<and> length (Shards cfg) = NShards \<and>
     (\<forall>(g, srvs) \<in> set (Groups cfg). \<forall>s \<in> set srvs. ascii s)"

text \<open>What a configuration says: its number, its assignment and its groups as a map.\<close>

definition cfg_same :: "ShardConfig \<Rightarrow> ShardConfig \<Rightarrow> bool" where
  "cfg_same c d \<longleftrightarrow> Num c = Num d \<and> Shards c = Shards d \<and> map_of (Groups c) = map_of (Groups d)"

lemma p_int_dec_int [simp]: "p_int (itoa i) = Some (i, [])"
  using p_int_dec [of "[]" i] by simp

lemma ascii_dec_int: "ascii (itoa i)"
proof -
  have "(of_char c :: nat) < 128" if "c \<in> set (nat_digits n)" for c n
    using dec_nat_digits [OF that] by (simp add: is_digit_def)
  then show ?thesis by (auto simp: ascii_def itoa_def)
qed

lemma as_ints_map [simp]: "as_ints (map JInt is) = Some is"
  by (induction "is") simp_all

lemma as_strings_map [simp]: "as_strings (map JStr ss) = Some ss"
  by (induction ss) simp_all

lemma to_array_id [simp]: "length is = NShards \<Longrightarrow> to_array is = is"
  by (simp add: to_array_def)

lemma as_groups_map:
  "distinct (map fst (m @ gs)) \<Longrightarrow>
   as_groups (map (\<lambda>(gid, srvs). (itoa gid, JArr (map JStr srvs))) gs) m = Some (m @ gs)"
proof (induction gs arbitrary: m)
  case (Cons g gs)
  obtain gid srvs where g: "g = (gid, srvs)" by fastforce
  have "filter (\<lambda>(g, _). g \<noteq> gid) m = m" using Cons.prems g by (force simp: filter_id_conv)
  then show ?case using Cons.IH [of "m @ [g]"] Cons.prems g by simp
qed simp

lemma sorted_groups_simps [simp]:
  "set (sorted_groups gs) = set gs" "distinct (map fst (sorted_groups gs)) = distinct (map fst gs)"
  by (simp_all add: sorted_groups_def distinct_map)

lemma sorted_groups_idem [simp]: "sorted_groups (sorted_groups gs) = sorted_groups gs"
  by (simp add: sorted_groups_def sort_key_id_if_sorted)

lemma map_of_sorted_groups: "distinct (map fst gs) \<Longrightarrow> map_of (sorted_groups gs) = map_of gs"
  by (rule map_of_inject_set [THEN iffD2]) simp_all

lemma jascii_cfg: "cfg_codable cfg \<Longrightarrow> jascii (cfg_json cfg)"
  by (auto simp: cfg_json_def cfg_codable_def ascii_dec_int) (auto simp: ascii_def)

lemma FromString_String:
  assumes "cfg_codable cfg"
  shows "FromString (ShardConfig_String cfg) = Inr (cfg\<lparr>Groups := sorted_groups (Groups cfg)\<rparr>)"
  using assms p_json_pr [OF jascii_cfg [OF assms]] as_groups_map [of "[]" "sorted_groups (Groups cfg)"]
  by (simp add: FromString_def ShardConfig_String_def cfg_json_def set_field_def cfg_codable_def)

text \<open>C31: \<open>FromString\<close> inverts \<open>String\<close>: the configuration read back from the JSON text has the same number, the same
  assignment of shards and the same groups with the same servers.\<close>
theorem config_String_roundtrip:
  assumes "cfg_codable cfg"
  shows "\<exists>cfg'. FromString (ShardConfig_String cfg) = Inr cfg' \<and> cfg_codable cfg' \<and> cfg_same cfg' cfg"
  using assms by (auto simp: FromString_String cfg_codable_def cfg_same_def map_of_sorted_groups)

theorem config_String_roundtrip_witness:
  "\<exists>cfg'. FromString (ShardConfig_String \<lparr>Num = 1, Shards = replicate NShards 7, Groups = [(7, [''a'', ''b'']), (10, [''<c>''])]\<rparr>) = Inr cfg' \<and>
     Num cfg' = 1 \<and> map_of (Groups cfg') 10 = Some [''<c>'']"
  using config_String_roundtrip [of "\<lparr>Num = 1, Shards = replicate NShards 7, Groups = [(7, [''a'', ''b'']), (10, [''<c>''])]\<rparr>"]
  by (auto simp: cfg_codable_def ascii_def cfg_same_def)

end
