(* ===== verification/ShardCtrler.thy ===== *)
theory ShardCtrler
  imports KVSrv ShardGrp CfgString
begin

text \<open>
  The controller of \<open>src/shardkv1/shardctrler/shardctrler.go\<close> and the client of the sharded service
  (\<open>src/shardkv1/client.go\<close>).  The controller keeps the configuration as a string in a key/value server, and
  moves shards by calls to the clerks of the shard groups.  The world is that server's state and the
  replicated state of every group; a group is named by the list of its servers, as a clerk is.

  How the calls of one operation go is given by a script: the attempts of each call to the key/value
  server, and the calls of each group clerk.  What other clients do between two steps of the controller is
  part of the next call to the same server or group.  \<open>None\<close> stands for an operation that has not returned
  when the script ends.
\<close>

section \<open>State\<close>

record World =
  ctl :: KVSrv
  grps :: "string list \<Rightarrow> ShardSrv"

record mv_script =
  mv_freeze :: "sg_call list"
  mv_install :: "sg_call list"
  mv_delete :: "sg_call list"

record cc_script =
  cc_get :: "attempt list"
  cc_bget :: "attempt list"
  cc_bput :: "attempt list"
  cc_moves :: "mv_script list"
  cc_put :: "attempt list"

text \<open>\<open>cfg.Groups[g]\<close>: a missing group has no servers.\<close>

definition servers_of :: "ShardConfig \<Rightarrow> Tgid \<Rightarrow> string list" where
  "servers_of cfg g = (case map_of (Groups cfg) g of None \<Rightarrow> [] | Some srvs \<Rightarrow> srvs)"

section \<open>The controller\<close>

text \<open>The object itself: the name of the server that its clerk calls, and the flag \<open>killed\<close>.\<close>

record ShardCtrler =
  sck_server :: string
  sck_killed :: int

definition MakeShardCtrler :: ShardCtrler where
  "MakeShardCtrler = \<lparr>sck_server = ''server-'' @ itoa 0 @ ''-'' @ itoa 0, sck_killed = 0\<rparr>"

definition ShardCtrler_Kill :: "ShardCtrler \<Rightarrow> ShardCtrler" where
  "ShardCtrler_Kill sck = sck\<lparr>sck_killed := 1\<rparr>"

definition ShardCtrler_Killed :: "ShardCtrler \<Rightarrow> bool" where
  "ShardCtrler_Killed sck = (sck_killed sck = 1)"

lemma ShardCtrler_Killed_iff: "\<not> ShardCtrler_Killed MakeShardCtrler" "ShardCtrler_Killed (ShardCtrler_Kill sck)"
  by (simp_all add: ShardCtrler_Killed_def MakeShardCtrler_def ShardCtrler_Kill_def)

definition InitConfig :: "attempt list \<Rightarrow> ShardConfig \<Rightarrow> World \<Rightarrow> World option" where
  "InitConfig ts cfg w =
     map_option (\<lambda>(_, kv). w\<lparr>ctl := kv\<rparr>) (Clerk_Put ts ''config'' (ShardConfig_String cfg) 0 (ctl w))"

text \<open>The loop over the old configuration's shards; \<open>False\<close> is an early return.\<close>

fun move_shards :: "(nat \<times> Tgid) list \<Rightarrow> ShardConfig \<Rightarrow> ShardConfig \<Rightarrow> mv_script list \<Rightarrow> World \<Rightarrow> (bool \<times> World) option" where
  "move_shards [] old new ms w = Some (True, w)"
| "move_shards ((s, g) # sgs) old new ms w =
     (if Shards new ! s \<noteq> g then
        (case ms of
           [] \<Rightarrow> None
         | m # ms' \<Rightarrow>
             let servers = servers_of old g; ck = GrpClerk_MakeClerk servers in
             (case GrpClerk_FreezeShard (mv_freeze m) (int s) (Num new) ck (grps w servers) of
                None \<Rightarrow> None
              | Some ((shst, err), ck, kv) \<Rightarrow>
                  let w = w\<lparr>grps := (grps w)(servers := kv)\<rparr> in
                  if err \<noteq> OK then Some (False, w)
                  else
                    let nservers = servers_of new (Shards new ! s); nck = GrpClerk_MakeClerk nservers in
                    (case GrpClerk_InstallShard (mv_install m) (int s) shst (Num new) nck (grps w nservers) of
                       None \<Rightarrow> None
                     | Some (err, _, kv) \<Rightarrow>
                         let w = w\<lparr>grps := (grps w)(nservers := kv)\<rparr> in
                         if err \<noteq> OK then Some (False, w)
                         else
                           (case GrpClerk_DeleteShard (mv_delete m) (int s) (Num new) ck (grps w servers) of
                              None \<Rightarrow> None
                            | Some (_, _, kv) \<Rightarrow>
                                move_shards sgs old new ms' (w\<lparr>grps := (grps w)(servers := kv)\<rparr>)))))
      else move_shards sgs old new ms w)"

definition ChangeConfigTo :: "cc_script \<Rightarrow> ShardConfig \<Rightarrow> World \<Rightarrow> World go option" where
  "ChangeConfigTo sc new w =
     (case Clerk_Get (cc_get sc) ''config'' (ctl w) of
        None \<Rightarrow> None
      | Some ((oldCfg, v, _), kv) \<Rightarrow>
          (case FromString oldCfg of
             Inl e \<Rightarrow> Some (Inl e)
           | Inr old \<Rightarrow>
               if Num old \<ge> Num new then Some (Inr (w\<lparr>ctl := kv\<rparr>))
               else
                 (case Clerk_Get (cc_bget sc) ''backup-config'' kv of
                    None \<Rightarrow> None
                  | Some ((_, ver, _), kv) \<Rightarrow>
                      (case Clerk_Put (cc_bput sc) ''backup-config'' (ShardConfig_String new) ver kv of
                         None \<Rightarrow> None
                       | Some (_, kv) \<Rightarrow>
                           (case move_shards (enumerate 0 (Shards old)) old new (cc_moves sc) (w\<lparr>ctl := kv\<rparr>) of
                              None \<Rightarrow> None
                            | Some (False, w) \<Rightarrow> Some (Inr w)
                            | Some (True, w) \<Rightarrow>
                                (case Clerk_Put (cc_put sc) ''config'' (ShardConfig_String new) v (ctl w) of
                                   None \<Rightarrow> None
                                 | Some (_, kv) \<Rightarrow> Some (Inr (w\<lparr>ctl := kv\<rparr>))))))))"

definition InitController :: "attempt list \<Rightarrow> cc_script \<Rightarrow> World \<Rightarrow> World go option" where
  "InitController ts sc w =
     (case Clerk_Get ts ''backup-config'' (ctl w) of
        None \<Rightarrow> None
      | Some ((backupCfg, _, err), kv) \<Rightarrow>
          if err = ErrNoKey then Some (Inr (w\<lparr>ctl := kv\<rparr>))
          else
            (case FromString backupCfg of
               Inl e \<Rightarrow> Some (Inl e)
             | Inr cfg \<Rightarrow> ChangeConfigTo sc cfg (w\<lparr>ctl := kv\<rparr>)))"

definition Query :: "attempt list \<Rightarrow> World \<Rightarrow> (ShardConfig \<times> World) go option" where
  "Query ts w =
     (case Clerk_Get ts ''config'' (ctl w) of
        None \<Rightarrow> None
      | Some ((stringCfg, _, err), kv) \<Rightarrow>
          if err \<noteq> OK then Some (Inl (GoPanic ''Query: Get error''))
          else Some (go_bind (FromString stringCfg) (\<lambda>cfg. Inr (cfg, w\<lparr>ctl := kv\<rparr>))))"

section \<open>The client\<close>

text \<open>Each round queries the configuration and asks the group that it names; a round is scripted by a pair.\<close>

fun ShardKv_Get :: "(attempt list \<times> sg_call list) list \<Rightarrow> string \<Rightarrow> World \<Rightarrow> ((string \<times> Tversion \<times> Err) \<times> World) go option" where
  "ShardKv_Get [] key w = None"
| "ShardKv_Get ((ts, cs) # rounds) key w =
     (case Query ts w of
        None \<Rightarrow> None
      | Some (Inl e) \<Rightarrow> Some (Inl e)
      | Some (Inr (cfg, w)) \<Rightarrow>
          (case go_nth (Shards cfg) (Key2Shard key) of
             Inl e \<Rightarrow> Some (Inl e)
           | Inr gid \<Rightarrow>
               let servers = servers_of cfg gid in
               (case GrpClerk_Get cs key (GrpClerk_MakeClerk servers) (grps w servers) of
                  None \<Rightarrow> None
                | Some ((k, v, err), _, kv) \<Rightarrow>
                    let w = w\<lparr>grps := (grps w)(servers := kv)\<rparr> in
                    if err \<noteq> ErrWrongGroup then Some (Inr ((k, v, err), w)) else ShardKv_Get rounds key w)))"

fun ShardKv_Put :: "(attempt list \<times> sg_call list) list \<Rightarrow> string \<Rightarrow> string \<Rightarrow> Tversion \<Rightarrow> World \<Rightarrow> (Err \<times> World) go option" where
  "ShardKv_Put [] key value version w = None"
| "ShardKv_Put ((ts, cs) # rounds) key value version w =
     (case Query ts w of
        None \<Rightarrow> None
      | Some (Inl e) \<Rightarrow> Some (Inl e)
      | Some (Inr (cfg, w)) \<Rightarrow>
          (case go_nth (Shards cfg) (Key2Shard key) of
             Inl e \<Rightarrow> Some (Inl e)
           | Inr gid \<Rightarrow>
               let servers = servers_of cfg gid in
               (case GrpClerk_Put cs key value version (GrpClerk_MakeClerk servers) (grps w servers) of
                  None \<Rightarrow> None
                | Some (err, _, kv) \<Rightarrow>
                    let w = w\<lparr>grps := (grps w)(servers := kv)\<rparr> in
                    if err \<noteq> ErrWrongGroup then Some (Inr (err, w)) else ShardKv_Put rounds key value version w)))"

section \<open>The key/value server under the controller's calls\<close>

text \<open>Attempts without other writers, one of which is delivered.\<close>

definition steady :: "attempt list \<Rightarrow> bool" where
  "steady ts \<longleftrightarrow> (\<forall>t \<in> set ts. att_others t = []) \<and> (\<exists>t \<in> set ts. att_net t = Delivered)"

lemma Get_steady:
  "steady ts \<Longrightarrow> \<exists>reply. Clerk_Get ts key kv = Some ((gr_Value reply, gr_Version reply, gr_Err reply), kv) \<and>
     reply = KVServer_Get \<lparr>ga_Key = key\<rparr> kv"
proof -
  assume "steady ts"
  then have "Clerk_Get_loop ts a reply kv = (let r = KVServer_Get a kv in Some ((gr_Value r, gr_Version r, gr_Err r), kv))" for a reply
  proof (induction ts)
    case (Cons t ts)
    then show ?case by (cases "att_net t") (auto simp: steady_def Call_Get_def Let_def)
  qed (simp add: steady_def)
  then show ?thesis by (simp add: Clerk_Get_def Let_def)
qed

lemma Put_steady_loop:
  assumes "steady ts" and "s = kv \<or> s = snd (KVServer_Put args kv)" and "pr_Err (fst (KVServer_Put args kv)) = OK"
  shows "\<exists>e. Clerk_Put_loop ts args reply retry s = Some (e, snd (KVServer_Put args kv))"
proof -
  let ?kv1 = "snd (KVServer_Put args kv)"
  have again: "snd (KVServer_Put args ?kv1) = ?kv1"
    using kvsrv.put_twice(1) [OF TrueI assms(3)] by (auto simp: KVServer_Put_def split: option.splits if_splits)
  show ?thesis
    using assms(1,2)
  proof (induction ts arbitrary: s reply retry)
    case (Cons t ts)
    have t: "att_others t = []" using Cons.prems(1) by (simp add: steady_def)
    have s1: "snd (KVServer_Put args s) = ?kv1" using Cons.prems(2) again by auto
    show ?case
    proof (cases "att_net t")
      case Delivered
      then show ?thesis using t s1 by (simp add: Call_Put_def Let_def split_beta)
    next
      case RequestLost
      then have "steady ts" using Cons.prems(1) by (auto simp: steady_def)
      then show ?thesis using Cons.IH [of s reply True] Cons.prems(2) RequestLost t by (simp add: Call_Put_def Let_def)
    next
      case ReplyLost
      then have "steady ts" using Cons.prems(1) by (auto simp: steady_def)
      then show ?thesis using Cons.IH [of ?kv1 reply True] ReplyLost t s1 by (simp add: Call_Put_def Let_def)
    qed
  qed (simp add: steady_def)
qed

lemma Put_steady:
  assumes "steady ts" and "kvsrv.cur_version kv key = ver"
  shows "\<exists>e kv'. Clerk_Put ts key value ver kv = Some (e, kv') \<and> data kv' = (data kv)(key \<mapsto> \<lparr>Value = value, Version = ver + 1\<rparr>)"
proof -
  let ?a = "\<lparr>pa_Key = key, pa_Value = value, pa_Version = ver\<rparr>"
  have ok: "pr_Err (fst (KVServer_Put ?a kv)) = OK" using kvsrv.put_ok_iff [OF TrueI, of ?a kv] assms(2) by simp
  have "data (snd (KVServer_Put ?a kv)) = (data kv)(key \<mapsto> \<lparr>Value = value, Version = ver + 1\<rparr>)"
    using kvsrv.put_cases [OF TrueI, of ?a kv] assms(2) by (metis PutArgs.select_convs)
  then show ?thesis using Put_steady_loop [OF assms(1) _ ok, of kv "\<lparr>pr_Err = ErrUnset\<rparr>" False] by (auto simp: Clerk_Put_def)
qed

section \<open>Where shards live\<close>

definition home :: "ShardConfig \<Rightarrow> nat \<Rightarrow> string list" where
  "home cfg s = servers_of cfg (Shards cfg ! s)"

definition shard_kv :: "World \<Rightarrow> string list \<Rightarrow> nat \<Rightarrow> shard_map" where
  "shard_kv w srvs s = shKV (Shards_of (grps w srvs) ! s)"

text \<open>Group \<open>h s\<close> serves shard \<open>s\<close> with the contents \<open>C s\<close>, and every other group's copy of the shard is empty.\<close>

definition placed :: "(nat \<Rightarrow> string list) \<Rightarrow> (nat \<Rightarrow> shard_map) \<Rightarrow> World \<Rightarrow> bool" where
  "placed h C w \<longleftrightarrow> (\<forall>srvs. wf_srv (grps w srvs)) \<and>
     (\<forall>s < NShards. \<not> Freezed (Shards_of (grps w (h s)) ! s) \<and> shard_kv w (h s) s = C s \<and>
        (\<forall>srvs. srvs \<noteq> h s \<longrightarrow> shard_kv w srvs s = Map.empty))"

text \<open>
  A change from \<open>h\<close> to \<open>n\<close> is under way: the contents of a shard that moves are still at the old group, or
  already at the new one, or at both.
\<close>

definition pending :: "(nat \<Rightarrow> string list) \<Rightarrow> (nat \<Rightarrow> string list) \<Rightarrow> (nat \<Rightarrow> shard_map) \<Rightarrow> World \<Rightarrow> bool" where
  "pending h n C w \<longleftrightarrow> (\<forall>srvs. wf_srv (grps w srvs)) \<and>
     (\<forall>s < NShards.
        (if n s = h s then \<not> Freezed (Shards_of (grps w (h s)) ! s) \<and> shard_kv w (h s) s = C s
         else shard_kv w (n s) s ++ shard_kv w (h s) s = C s) \<and>
        (\<forall>srvs. srvs \<noteq> h s \<longrightarrow> srvs \<noteq> n s \<longrightarrow> shard_kv w srvs s = Map.empty))"

text \<open>The contents of the sharded service under a placement.\<close>

definition world_lookup :: "(nat \<Rightarrow> string list) \<Rightarrow> World \<Rightarrow> string \<Rightarrow> KVEntry option" where
  "world_lookup h w key = sg_lookup (grps w (h (nat (Key2Shard key)))) key"

definition nums_below :: "Tnum \<Rightarrow> World \<Rightarrow> bool" where
  "nums_below n w \<longleftrightarrow> (\<forall>srvs. maxNum (grps w srvs) \<le> n)"

lemma placed_lookup: "placed h C w \<Longrightarrow> world_lookup h w key = C (nat (Key2Shard key)) key"
  using Key2Shard_range(3) [of key] by (auto simp: placed_def world_lookup_def sg_lookup_def shard_kv_def)

lemma ctl_frame [simp]:
  "shard_kv (w\<lparr>ctl := kv\<rparr>) = shard_kv w" "pending h n C (w\<lparr>ctl := kv\<rparr>) = pending h n C w"
  "placed h C (w\<lparr>ctl := kv\<rparr>) = placed h C w" "nums_below num (w\<lparr>ctl := kv\<rparr>) = nums_below num w"
  by (simp_all add: fun_eq_iff shard_kv_def pending_def placed_def nums_below_def)

lemma placed_pending: "placed h C w \<Longrightarrow> pending h n C w"
  by (auto simp: placed_def pending_def)

lemma pending_placed: "pending h n C w \<Longrightarrow> (\<And>s. s < NShards \<Longrightarrow> h s = n s) \<Longrightarrow> placed n C w"
  by (auto simp: placed_def pending_def)

text \<open>The three calls of one iteration, as one update of the world.\<close>

definition moved :: "nat \<Rightarrow> Tnum \<Rightarrow> string list \<Rightarrow> string list \<Rightarrow> World \<Rightarrow> World" where
  "moved s num src dst w =
     w\<lparr>grps := (grps w)
        (dst := upd_shard (int s) (\<lambda>x. x\<lparr>shKV := shKV x ++ shKV (Shards_of (grps w src) ! s), Freezed := False\<rparr>) num (grps w dst),
         src := upd_shard (int s) (\<lambda>x. x\<lparr>shKV := Map.empty, Freezed := True\<rparr>) num (grps w src))\<rparr>"

lemma shard_id_int [simp]: "shard_id (int s) \<longleftrightarrow> s < NShards"
  by (simp add: shard_id_def)

lemma upd_shard_nth [simp]:
  assumes "wf_srv kv" and "s < NShards" and "s' < NShards"
  shows "Shards_of (upd_shard (int s) f num kv) ! s' = (if s' = s then f (Shards_of kv ! s) else Shards_of kv ! s')"
  using upd_shard_simps(3) [of kv "int s" "int s'" f num] assms by simp

lemma moved_shard:
  assumes "\<And>srvs. wf_srv (grps w srvs)" and "s < NShards" and "s' < NShards" and "dst \<noteq> src"
  shows "Shards_of (grps (moved s num src dst w) srvs) ! s' =
    (if s' \<noteq> s \<or> srvs \<noteq> src \<and> srvs \<noteq> dst then Shards_of (grps w srvs) ! s'
     else if srvs = dst then (Shards_of (grps w dst) ! s)\<lparr>shKV := shard_kv w dst s ++ shard_kv w src s, Freezed := False\<rparr>
     else (Shards_of (grps w src) ! s)\<lparr>shKV := Map.empty, Freezed := True\<rparr>)"
  using assms by (auto simp: moved_def shard_kv_def)

lemma moved_pending:
  assumes "pending h n C w" and "s < NShards" and "n s \<noteq> h s" and "nums_below num w"
  shows "pending (h(s := n s)) n C (moved s num (h s) (n s) w)" and "nums_below num (moved s num (h s) (n s) w)"
    and "ctl (moved s num (h s) (n s) w) = ctl w"
proof -
  have wf: "wf_srv (grps w srvs)" for srvs using assms(1) by (simp add: pending_def)
  let ?w = "moved s num (h s) (n s) w"
  note sh = moved_shard [where num = num, OF wf assms(2) _ assms(3)]
  show "pending (h(s := n s)) n C ?w"
    unfolding pending_def
  proof (intro conjI allI impI)
    show "wf_srv (grps ?w srvs)" for srvs using wf by (simp add: moved_def)
  next
    fix s' assume "s' < NShards"
    note C = assms(1) [unfolded pending_def, THEN conjunct2, rule_format, OF this]
    note sh' = sh [OF \<open>s' < NShards\<close>] sh [OF assms(2)]
    show "if n s' = (h(s := n s)) s' then \<not> Freezed (Shards_of (grps ?w ((h(s := n s)) s')) ! s') \<and> shard_kv ?w ((h(s := n s)) s') s' = C s'
      else shard_kv ?w (n s') s' ++ shard_kv ?w ((h(s := n s)) s') s' = C s'"
      using C assms(3) by (cases "s' = s") (auto simp: shard_kv_def sh')
    show "shard_kv ?w srvs s' = Map.empty" if "srvs \<noteq> (h(s := n s)) s'" "srvs \<noteq> n s'" for srvs
      using that C by (cases "s' = s") (auto simp: shard_kv_def sh')
  qed
  show "nums_below num ?w" using assms(4) by (auto simp: nums_below_def moved_def)
qed (simp add: moved_def)

definition quiet_move :: "mv_script \<Rightarrow> bool" where
  "quiet_move m \<longleftrightarrow> quiet (mv_freeze m) \<and> quiet (mv_install m) \<and> quiet (mv_delete m)"

text \<open>One iteration of the loop that moves a shard.\<close>

lemma move_shards_step:
  assumes "\<And>srvs. wf_srv (grps w srvs)" and "nums_below (Num new) w" and "s < NShards" and "h s = servers_of old g" and "Shards new ! s \<noteq> g"
    and "servers_of old g \<noteq> []" and "home new s \<noteq> []" and "home new s \<noteq> h s" and "quiet_move m"
  shows "move_shards ((s, g) # sgs) old new (m # ms) w =
    move_shards sgs old new ms (moved s (Num new) (h s) (home new s) w)"
proof -
  let ?src = "servers_of old g" and ?dst = "home new s" and ?d = "shKV (Shards_of (grps w (servers_of old g)) ! s)"
  have wf: "wf_srv (grps w srvs)" "maxNum (grps w srvs) \<le> Num new" for srvs
    using assms(1,2) by (auto simp: nums_below_def)
  let ?kv1 = "upd_shard (int s) (Freezed_update (\<lambda>_. True)) (Num new) (grps w ?src)"
  obtain ck where f: "GrpClerk_FreezeShard (mv_freeze m) (int s) (Num new) (GrpClerk_MakeClerk ?src) (grps w ?src) = Some (([?d], OK), ck, ?kv1)"
    "gc_servers ck = ?src"
    using Freeze_clerk [of "grps w ?src" "int s" "Num new" "GrpClerk_MakeClerk ?src" "mv_freeze m"] wf assms
    by (auto simp: GrpClerk_MakeClerk_def quiet_move_def)
  obtain nck where i: "GrpClerk_InstallShard (mv_install m) (int s) [?d] (Num new) (GrpClerk_MakeClerk ?dst) (grps w ?dst) =
      Some (OK, nck, upd_shard (int s) (\<lambda>x. x\<lparr>shKV := shKV x ++ ?d, Freezed := False\<rparr>) (Num new) (grps w ?dst))"
    using Install_clerk [of "grps w ?dst" "int s" "Num new" "GrpClerk_MakeClerk ?dst" "mv_install m" ?d] wf assms
    by (auto simp: GrpClerk_MakeClerk_def quiet_move_def)
  obtain ck2 where d: "GrpClerk_DeleteShard (mv_delete m) (int s) (Num new) ck ?kv1 =
      Some (OK, ck2, upd_shard (int s) (shKV_update (\<lambda>_. Map.empty)) (Num new) ?kv1)"
    using Delete_clerk [of ?kv1 "int s" "Num new" ck "mv_delete m"] wf assms f(2) by (auto simp: quiet_move_def)
  have fg: "(\<lambda>x. x\<lparr>Freezed := True, shKV := Map.empty\<rparr>) = (\<lambda>x :: Shard. x\<lparr>shKV := Map.empty, Freezed := True\<rparr>)" by (rule ext) simp
  have d2: "upd_shard (int s) (shKV_update (\<lambda>_. Map.empty)) (Num new) ?kv1 =
      upd_shard (int s) (\<lambda>x. x\<lparr>shKV := Map.empty, Freezed := True\<rparr>) (Num new) (grps w ?src)"
    using wf assms(3) fg by simp
  have ne: "?dst \<noteq> ?src" using assms(4,8) by simp
  show ?thesis
    using assms(4,5) f(1) i d ne
    by (simp add: d2 moved_def home_def [symmetric] Let_def fun_upd_twist)
qed

text \<open>What a change of configuration may do: groups keep their servers, and different groups have different ones.\<close>

definition compatible :: "ShardConfig \<Rightarrow> ShardConfig \<Rightarrow> bool" where
  "compatible old new \<longleftrightarrow> (\<forall>s < NShards. home old s \<noteq> [] \<and> home new s \<noteq> [] \<and>
     (home new s = home old s \<longleftrightarrow> Shards new ! s = Shards old ! s))"

definition to_move :: "ShardConfig \<Rightarrow> (nat \<times> Tgid) list \<Rightarrow> nat" where
  "to_move new sgs = length (filter (\<lambda>(s, g). Shards new ! s \<noteq> g) sgs)"

lemma move_shards_all:
  assumes "pending h (home new) C w" and "nums_below (Num new) w" and "compatible old new" and "distinct (map fst sgs)"
    and "\<And>s g. (s, g) \<in> set sgs \<Longrightarrow> s < NShards \<and> g = Shards old ! s \<and> h s = home old s"
    and "to_move new sgs \<le> length ms" and "\<forall>m \<in> set ms. quiet_move m"
  shows "\<exists>w'. move_shards sgs old new ms w = Some (True, w') \<and>
    pending (\<lambda>s. if s \<in> fst ` set sgs then home new s else h s) (home new) C w' \<and> nums_below (Num new) w' \<and> ctl w' = ctl w"
  using assms(1,2,4-)
proof (induction sgs arbitrary: h w ms)
  case (Cons x sgs)
  obtain s g where x: "x = (s, g)" by fastforce
  have s: "s < NShards" "g = Shards old ! s" "h s = home old s" using Cons.prems(4) x by auto
  have src: "h s = servers_of old g" "servers_of old g \<noteq> []" "home new s \<noteq> []"
    "home new s = h s \<longleftrightarrow> Shards new ! s = g"
    using assms(3) s by (auto simp: compatible_def home_def)
  have ns: "s \<notin> fst ` set sgs" using Cons.prems(3) x by simp
  define h' where "h' = h(s := home new s)"
  have rest: "s' < NShards \<and> g' = Shards old ! s' \<and> h s' = home old s' \<and> h' s' = home old s'" if "(s', g') \<in> set sgs" for s' g'
    using Cons.prems(4) that ns by (force simp: h'_def)
  have upd: "(\<lambda>s'. if s' \<in> fst ` set sgs then home new s' else h' s') =
      (\<lambda>s'. if s' \<in> fst ` set (x # sgs) then home new s' else h s')"
    using x ns by (auto simp: fun_eq_iff h'_def)
  show ?case
  proof (cases "Shards new ! s = g")
    case True
    then have "(\<lambda>s'. if s' \<in> fst ` set sgs then home new s' else h s') =
        (\<lambda>s'. if s' \<in> fst ` set (x # sgs) then home new s' else h s')"
      using src x by (auto simp: fun_eq_iff)
    moreover have "move_shards (x # sgs) old new ms w = move_shards sgs old new ms w" using x True by simp
    moreover have "to_move new sgs \<le> length ms" using Cons.prems(5) x by (simp add: to_move_def split: if_splits)
    ultimately show ?thesis using Cons.IH [of h w ms] Cons.prems(1,2,3,6) rest by simp
  next
    case False
    then obtain m ms' where ms: "ms = m # ms'" using Cons.prems(5) x by (cases ms) (simp_all add: to_move_def)
    let ?w = "moved s (Num new) (h s) (home new s) w"
    have "move_shards (x # sgs) old new ms w = move_shards sgs old new ms' ?w"
      unfolding x ms by (rule move_shards_step) (use Cons.prems s src False ms in \<open>auto simp: pending_def\<close>)
    moreover have "pending h' (home new) C ?w" "nums_below (Num new) ?w" "ctl ?w = ctl w"
      using moved_pending [OF Cons.prems(1) s(1) _ Cons.prems(2)] src False unfolding h'_def by auto
    moreover have "to_move new sgs \<le> length ms'" using Cons.prems(5) x ms False by (simp add: to_move_def)
    ultimately show ?thesis using Cons.IH [of h' ?w ms'] Cons.prems(3,6) rest upd ms by simp
  qed
qed simp

section \<open>The whole operation\<close>

definition good_script :: "cc_script \<Rightarrow> bool" where
  "good_script sc \<longleftrightarrow> steady (cc_get sc) \<and> steady (cc_bget sc) \<and> steady (cc_bput sc) \<and> steady (cc_put sc) \<and>
     NShards \<le> length (cc_moves sc) \<and> (\<forall>m \<in> set (cc_moves sc). quiet_move m)"

text \<open>The configuration \<open>cfg\<close> is stored under \<open>key\<close>.\<close>

definition stored :: "string \<Rightarrow> ShardConfig \<Rightarrow> World \<Rightarrow> bool" where
  "stored key cfg w \<longleftrightarrow> (\<exists>v. data (ctl w) key = Some \<lparr>Value = ShardConfig_String cfg, Version = v\<rparr>)"

lemma servers_of_sorted [simp]: "cfg_codable cfg \<Longrightarrow> servers_of (cfg\<lparr>Groups := sorted_groups (Groups cfg)\<rparr>) g = servers_of cfg g"
  by (simp add: servers_of_def cfg_codable_def map_of_sorted_groups)

lemma home_sorted [simp]: "cfg_codable cfg \<Longrightarrow> home (cfg\<lparr>Groups := sorted_groups (Groups cfg)\<rparr>) = home cfg"
  by (simp add: home_def fun_eq_iff)

lemma Query_stored:
  assumes "steady ts" and "cfg_codable cfg" and "stored ''config'' cfg w"
  shows "Query ts w = Some (Inr (cfg\<lparr>Groups := sorted_groups (Groups cfg)\<rparr>, w))"
  using Get_steady [OF assms(1), of "''config''" "ctl w"] assms(2,3)
  by (auto simp: Query_def stored_def KVServer_Get_def FromString_String)

lemma ChangeConfigTo_completes:
  assumes "cfg_codable old" and "cfg_codable new" and "Num old < Num new" and "compatible old new" and "good_script sc"
    and "stored ''config'' old w" and "pending (home old) (home new) C w" and "nums_below (Num new) w"
  shows "\<exists>w'. ChangeConfigTo sc new w = Some (Inr w') \<and> stored ''config'' new w' \<and> stored ''backup-config'' new w' \<and>
    placed (home new) C w' \<and> nums_below (Num new) w'"
proof -
  let ?old = "old\<lparr>Groups := sorted_groups (Groups old)\<rparr>"
  obtain v where v: "data (ctl w) ''config'' = Some \<lparr>Value = ShardConfig_String old, Version = v\<rparr>"
    using assms(6) by (auto simp: stored_def)
  have sc: "steady (cc_get sc)" "steady (cc_bget sc)" "steady (cc_bput sc)" "steady (cc_put sc)"
    "NShards \<le> length (cc_moves sc)" "\<forall>m \<in> set (cc_moves sc). quiet_move m"
    using assms(5) by (auto simp: good_script_def)
  have g1: "Clerk_Get (cc_get sc) ''config'' (ctl w) = Some ((ShardConfig_String old, v, OK), ctl w)"
    using Get_steady [OF sc(1), of "''config''" "ctl w"] v by (simp add: KVServer_Get_def)
  obtain val err where g2: "Clerk_Get (cc_bget sc) ''backup-config'' (ctl w) =
      Some ((val, kvsrv.cur_version (ctl w) ''backup-config'', err), ctl w)"
    using Get_steady [OF sc(2), of "''backup-config''" "ctl w"]
    by (cases "data (ctl w) ''backup-config''") (auto simp: KVServer_Get_def kvsrv.cur_version_def)
  obtain e1 kv1 where p1: "Clerk_Put (cc_bput sc) ''backup-config'' (ShardConfig_String new) (kvsrv.cur_version (ctl w) ''backup-config'') (ctl w) =
      Some (e1, kv1)" "data kv1 = (data (ctl w))(''backup-config'' \<mapsto> \<lparr>Value = ShardConfig_String new,
        Version = kvsrv.cur_version (ctl w) ''backup-config'' + 1\<rparr>)"
    using Put_steady [OF sc(3) refl] by blast
  let ?w1 = "w\<lparr>ctl := kv1\<rparr>" and ?sgs = "enumerate 0 (Shards old)"
  have len: "length (Shards old) = NShards" using assms(1) by (simp add: cfg_codable_def)
  have "pending (home ?old) (home new) C ?w1" "nums_below (Num new) ?w1"
    using assms(1,7,8) by simp_all
  moreover have "compatible ?old new" using assms(1,4) by (simp add: compatible_def)
  moreover have "s < NShards \<and> g = Shards ?old ! s \<and> home ?old s = home ?old s" if "(s, g) \<in> set ?sgs" for s g
    using that len by (auto simp: in_set_enumerate_eq)
  moreover have "to_move new ?sgs \<le> length (cc_moves sc)"
    using sc(5) len length_filter_le [of _ ?sgs] by (auto simp: to_move_def intro: le_trans)
  ultimately obtain w2 where w2: "move_shards ?sgs ?old new (cc_moves sc) ?w1 = Some (True, w2)"
    "pending (\<lambda>s. if s \<in> fst ` set ?sgs then home new s else home ?old s) (home new) C w2" "nums_below (Num new) w2" "ctl w2 = kv1"
    using move_shards_all [of "home ?old" new C ?w1 ?old ?sgs "cc_moves sc"] sc(6) by (auto simp del: home_sorted)
  have "fst ` set ?sgs = {0..<NShards}"
    unfolding set_map [symmetric] map_fst_enumerate using len by simp
  then have pl: "placed (home new) C w2" by (intro pending_placed [OF w2(2)]) simp
  have "kvsrv.cur_version kv1 ''config'' = v" by (simp add: kvsrv.cur_version_def p1(2) v)
  then obtain e2 kv2 where p2: "Clerk_Put (cc_put sc) ''config'' (ShardConfig_String new) v kv1 = Some (e2, kv2)"
    "data kv2 = (data kv1)(''config'' \<mapsto> \<lparr>Value = ShardConfig_String new, Version = v + 1\<rparr>)"
    using Put_steady [OF sc(4)] by blast
  have run: "ChangeConfigTo sc new w = Some (Inr (w2\<lparr>ctl := kv2\<rparr>))"
    using assms(3) g1 g2 p1(1) w2(1,4) p2(1) FromString_String [OF assms(1)] by (simp add: ChangeConfigTo_def)
  have "stored ''config'' new (w2\<lparr>ctl := kv2\<rparr>)" "stored ''backup-config'' new (w2\<lparr>ctl := kv2\<rparr>)"
    by (simp_all add: stored_def p2(2) p1(2))
  moreover have "placed (home new) C (w2\<lparr>ctl := kv2\<rparr>)" "nums_below (Num new) (w2\<lparr>ctl := kv2\<rparr>)"
    using pl w2(3) by simp_all
  ultimately show ?thesis using run by blast
qed

text \<open>Writing back the group that is there changes nothing.\<close>

lemma grps_upd_same [simp]: "w\<lparr>grps := (grps w)(srvs := grps w srvs)\<rparr> = w"
  by (cases w) simp

section \<open>Properties\<close>


text \<open>A world with one key, at the group with servers \<open>a\<close>, and a change that gives every shard to the group of \<open>b\<close>.\<close>

definition old_example :: ShardConfig where
  "old_example = \<lparr>Num = 1, Shards = replicate NShards 1, Groups = [(1, [''a''])]\<rparr>"

definition new_example :: ShardConfig where
  "new_example = \<lparr>Num = 2, Shards = replicate NShards 2, Groups = [(1, [''a'']), (2, [''b''])]\<rparr>"

definition empty_srv :: ShardSrv where
  "empty_srv = \<lparr>ss_me = 0, ss_dead = 0, ss_gid = 0, Shards_of = replicate NShards \<lparr>shKV = Map.empty, Freezed = False\<rparr>, maxNum = 0\<rparr>"

definition world_example :: World where
  "world_example = \<lparr>ctl = \<lparr>data = [''config'' \<mapsto> \<lparr>Value = ShardConfig_String old_example, Version = 1\<rparr>]\<rparr>,
     grps = (\<lambda>_. empty_srv)([''a''] := set_entry (Key2Shard ''k'') ''k'' \<lparr>Value = ''v'', Version = 4\<rparr> empty_srv)\<rparr>"

definition contents_example :: "nat \<Rightarrow> shard_map" where
  "contents_example s = (if s = nat (Key2Shard ''k'') then [''k'' \<mapsto> \<lparr>Value = ''v'', Version = 4\<rparr>] else Map.empty)"

definition calls_example :: "sg_call list" where
  "calls_example = [\<lparr>call_others = [], call_local = empty_srv, call_end = NoReply True\<rparr>, \<lparr>call_others = [], call_local = empty_srv, call_end = Answered\<rparr>]"

definition atts_example :: "attempt list" where
  "atts_example = [\<lparr>att_others = [], att_net = ReplyLost\<rparr>, \<lparr>att_others = [], att_net = Delivered\<rparr>]"

definition script_example :: cc_script where
  "script_example = \<lparr>cc_get = atts_example, cc_bget = atts_example, cc_bput = atts_example,
     cc_moves = replicate NShards \<lparr>mv_freeze = calls_example, mv_install = calls_example, mv_delete = calls_example\<rparr>, cc_put = atts_example\<rparr>"

lemma example_facts:
  "cfg_codable old_example" "cfg_codable new_example" "Num old_example < Num new_example" "compatible old_example new_example"
  "good_script script_example" "steady atts_example" "stored ''config'' old_example world_example"
  "nums_below (Num new_example) world_example" "home old_example s = (if s < NShards then [''a''] else home old_example s)"
  by (auto simp: old_example_def new_example_def cfg_codable_def ascii_def compatible_def home_def servers_of_def good_script_def
      script_example_def steady_def atts_example_def quiet_move_def quiet_def calls_example_def stored_def world_example_def
      nums_below_def empty_srv_def)

lemma world_example_placed: "placed (home old_example) contents_example world_example"
proof -
  have wf: "wf_srv empty_srv" by (simp add: wf_srv_def empty_srv_def)
  have k: "nat (Key2Shard ''k'') < NShards" by (rule Key2Shard_range)
  have sh: "Shards_of empty_srv ! s = \<lparr>shKV = Map.empty, Freezed = False\<rparr>" if "s < NShards" for s using that by (simp add: empty_srv_def)
  show ?thesis
    unfolding placed_def
  proof (intro conjI allI impI)
    show "wf_srv (grps world_example srvs)" for srvs using wf by (simp add: world_example_def)
  next
    fix s assume s: "s < NShards"
    then have h: "home old_example s = [''a'']" by (simp add: old_example_def home_def servers_of_def)
    show "\<not> Freezed (Shards_of (grps world_example (home old_example s)) ! s)"
      "shard_kv world_example (home old_example s) s = contents_example s"
      using s k sh wf by (auto simp: h world_example_def set_entry_def nth_list_update shard_kv_def contents_example_def wf_srv_def)
    show "shard_kv world_example srvs s = Map.empty" if "srvs \<noteq> home old_example s" for srvs
      using that s sh by (simp add: h world_example_def shard_kv_def)
  qed
qed


section \<open>Recovery\<close>

text \<open>
  The world a controller leaves behind that stops inside the loop of \<open>ChangeConfigTo\<close>: the shards below \<open>m\<close> have
  been moved, and of the commands for shard \<open>m\<close> the first \<open>k\<close> were performed.
\<close>

definition frozen_at :: "nat \<Rightarrow> Tnum \<Rightarrow> string list \<Rightarrow> World \<Rightarrow> World" where
  "frozen_at s num src w = w\<lparr>grps := (grps w)(src := upd_shard (int s) (Freezed_update (\<lambda>_. True)) num (grps w src))\<rparr>"

definition installed_at :: "nat \<Rightarrow> Tnum \<Rightarrow> string list \<Rightarrow> string list \<Rightarrow> World \<Rightarrow> World" where
  "installed_at s num src dst w =
     w\<lparr>grps := (grps w)(dst := upd_shard (int s) (\<lambda>x. x\<lparr>shKV := shKV x ++ shKV (Shards_of (grps w src) ! s), Freezed := False\<rparr>) num (grps w dst))\<rparr>"

definition partly_moved :: "nat \<Rightarrow> nat \<Rightarrow> Tnum \<Rightarrow> string list \<Rightarrow> string list \<Rightarrow> World \<Rightarrow> World" where
  "partly_moved k s num src dst w =
     (if src = dst \<or> k = 0 then w
      else if k = 1 then frozen_at s num src w
      else if k = 2 then installed_at s num src dst (frozen_at s num src w)
      else moved s num src dst w)"

definition crashed_change :: "nat \<Rightarrow> nat \<Rightarrow> ShardConfig \<Rightarrow> ShardConfig \<Rightarrow> World \<Rightarrow> World" where
  "crashed_change m k old new w =
     partly_moved k m (Num new) (home old m) (home new m)
       (fold (\<lambda>s w. partly_moved 3 s (Num new) (home old s) (home new s) w) [0..<m] w)"

lemma partly_moved_shard:
  assumes "\<And>srvs. wf_srv (grps w srvs)" and "s < NShards" and "s' < NShards" and "srvs \<noteq> src \<and> srvs \<noteq> dst \<or> s' \<noteq> s \<or> src = dst"
  shows "Shards_of (grps (partly_moved k s num src dst w) srvs) ! s' = Shards_of (grps w srvs) ! s'"
  using assms by (auto simp: partly_moved_def frozen_at_def installed_at_def moved_def)

lemma partly_moved_join:
  assumes "\<And>srvs. wf_srv (grps w srvs)" and "s < NShards" and "src \<noteq> dst"
  shows "shard_kv (partly_moved k s num src dst w) dst s ++ shard_kv (partly_moved k s num src dst w) src s =
    shard_kv w dst s ++ shard_kv w src s"
  using assms by (auto simp: partly_moved_def frozen_at_def installed_at_def moved_def shard_kv_def)

lemma partly_moved_frame:
  "(\<And>srvs. wf_srv (grps w srvs)) \<Longrightarrow> wf_srv (grps (partly_moved k s num src dst w) srvs)"
  "nums_below num w \<Longrightarrow> nums_below num (partly_moved k s num src dst w)"
  "ctl (partly_moved k s num src dst w) = ctl w"
  by (auto simp: partly_moved_def frozen_at_def installed_at_def moved_def nums_below_def)

lemma partly_moved_pending:
  assumes "pending h n C w" and "s < NShards"
  shows "pending h n C (partly_moved k s num (h s) (n s) w)"
proof -
  let ?w = "partly_moved k s num (h s) (n s) w"
  have wf: "wf_srv (grps w srvs)" for srvs using assms(1) by (simp add: pending_def)
  show ?thesis
    unfolding pending_def
  proof (intro conjI allI impI)
    show "wf_srv (grps ?w srvs)" for srvs by (rule partly_moved_frame(1)) (rule wf)
  next
    fix s' assume s': "s' < NShards"
    note C = assms(1) [unfolded pending_def, THEN conjunct2, rule_format, OF s']
    note same = partly_moved_shard [OF wf assms(2) s', of _ "h s" "n s" k num]
    show "if n s' = h s' then \<not> Freezed (Shards_of (grps ?w (h s')) ! s') \<and> shard_kv ?w (h s') s' = C s'
      else shard_kv ?w (n s') s' ++ shard_kv ?w (h s') s' = C s'"
    proof (cases "s' = s \<and> n s \<noteq> h s")
      case True
      then show ?thesis using C partly_moved_join [OF wf assms(2), of "h s" "n s" k num] by auto
    next
      case False
      then have "Shards_of (grps ?w srvs) ! s' = Shards_of (grps w srvs) ! s'" for srvs by (intro same) auto
      then show ?thesis using C by (auto simp: shard_kv_def)
    qed
    show "shard_kv ?w srvs s' = Map.empty" if "srvs \<noteq> h s'" "srvs \<noteq> n s'" for srvs
      using that C same [of srvs] by (cases "s' = s") (auto simp: shard_kv_def)
  qed
qed

lemma crashed_change_pending:
  assumes "pending (home old) (home new) C w" and "m < NShards" and "nums_below (Num new) w"
  shows "pending (home old) (home new) C (crashed_change m k old new w) \<and> nums_below (Num new) (crashed_change m k old new w) \<and>
    ctl (crashed_change m k old new w) = ctl w"
proof -
  let ?f = "\<lambda>s w. partly_moved 3 s (Num new) (home old s) (home new s) w"
  have "pending (home old) (home new) C (fold ?f ss w) \<and> nums_below (Num new) (fold ?f ss w) \<and> ctl (fold ?f ss w) = ctl w"
    if "set ss \<subseteq> {..<NShards}" for ss
    using assms(1,3) that
  proof (induction ss arbitrary: w)
    case (Cons s ss)
    then show ?case
      using Cons.IH [of "?f s w"] partly_moved_pending [of "home old" "home new" C w s] partly_moved_frame by simp
  qed simp
  moreover have "set [0..<m] \<subseteq> {..<NShards}" using assms(2) by auto
  ultimately have "pending (home old) (home new) C (fold ?f [0..<m] w)" "nums_below (Num new) (fold ?f [0..<m] w)"
    "ctl (fold ?f [0..<m] w) = ctl w" by blast+
  then show ?thesis
    using assms(2) by (auto simp: crashed_change_def partly_moved_frame intro!: partly_moved_pending)
qed



section \<open>The clients\<close>

text \<open>
  The calls of a client that meet no stale replica, with the group's own state otherwise unchanged.
\<close>

lemma Get_clerk:
  assumes "wf_srv kv" and "gc_servers ck \<noteq> []" and "quiet cs" and "\<forall>c \<in> set cs. \<not> frozen_here key (call_local c)"
  shows "\<exists>ck'. GrpClerk_Get cs key ck kv =
    Some ((gr_Value (sg_get \<lparr>ga_Key = key\<rparr> kv), gr_Version (sg_get \<lparr>ga_Key = key\<rparr> kv), gr_Err (sg_get \<lparr>ga_Key = key\<rparr> kv)), ck', kv)"
proof -
  let ?a = "\<lparr>ga_Key = key\<rparr>" and ?send = "rpc_call ShardSrv_DoOp (ShardSrv_Get \<lparr>ga_Key = key\<rparr>)"
  have err: "gr_Err (sg_get ?a kv) \<noteq> ErrWrongLeader"
    by (cases "sg_lookup kv key") (simp_all add: shardgrp.get_miss shardgrp.get_hit assms(1))
  have call: "snd (?send c kv) = kv \<and> conclusive gr_Err (fst (?send c kv)) = (call_end c = Answered) \<and>
      (call_end c = Answered \<longrightarrow> fst (?send c kv) = Some (sg_get ?a kv))"
    if "c \<in> set cs" for c
    using assms(3,4) that err Execute_total(1) [OF assms(1), of ?a]
    by (cases "call_end c")
      (auto simp: quiet_def rpc_call_def others_do_def ShardSrv_Get_def do_op_def ShardSrv_DoOp_def wrap_def reply_of_def conclusive_def Let_def)
  have con: "conclusive gr_Err (Some (sg_get ?a kv))" using err by (simp add: conclusive_def)
  obtain c where c: "c \<in> set cs" "call_end c = Answered" using assms(3) by (auto simp: quiet_def)
  have "\<exists>r retry' l s'. server_loop ?send gr_Err (length (gc_servers ck)) (gc_lastLeader ck) 0 False cs kv = Some (r, retry', l, s') \<and>
      (r = sg_get ?a kv \<and> s' = kv)"
    by (rule server_loop_total [where I = "\<lambda>s. s = kv", OF _ _ c]) (use assms(2) call con in auto)
  then show ?thesis by (auto simp: GrpClerk_Get_def grp_loop_def)
qed

text \<open>C32: a client's \<open>Get\<close> of any key on a service at rest returns the key's current value and version, from the group
  that the stored configuration names for the key's shard, or \<open>ErrNoKey\<close> if no group has it.\<close>
theorem ShardKv_Get_returns_current:
  assumes "cfg_codable cfg" and "stored ''config'' cfg w" and "placed (home cfg) C w" and "steady ts" and "quiet cs"
    and "home cfg (nat (Key2Shard key)) \<noteq> []" and "\<forall>c \<in> set cs. \<not> frozen_here key (call_local c)"
  shows "ShardKv_Get ((ts, cs) # rounds) key w = Some (Inr (
    case world_lookup (home cfg) w key of
      None \<Rightarrow> ('''', 0, ErrNoKey)
    | Some e \<Rightarrow> (Value e, Version e, OK), w))"
proof -
  let ?cfg = "cfg\<lparr>Groups := sorted_groups (Groups cfg)\<rparr>" and ?srvs = "home cfg (nat (Key2Shard key))"
  have wf: "wf_srv (grps w ?srvs)" using assms(3) by (simp add: placed_def)
  have gid: "go_nth (Shards cfg) (Key2Shard key) = Inr (Shards cfg ! nat (Key2Shard key))"
    using assms(1) Key2Shard_range [of key] by (simp add: cfg_codable_def)
  have srvs: "servers_of ?cfg (Shards cfg ! nat (Key2Shard key)) = ?srvs" using assms(1) by (simp add: home_def)
  obtain ck where g: "GrpClerk_Get cs key (GrpClerk_MakeClerk ?srvs) (grps w ?srvs) =
      Some ((gr_Value (sg_get \<lparr>ga_Key = key\<rparr> (grps w ?srvs)), gr_Version (sg_get \<lparr>ga_Key = key\<rparr> (grps w ?srvs)),
        gr_Err (sg_get \<lparr>ga_Key = key\<rparr> (grps w ?srvs))), ck, grps w ?srvs)"
    using Get_clerk [OF wf _ assms(5,7), of "GrpClerk_MakeClerk ?srvs"] assms(6) by (auto simp: GrpClerk_MakeClerk_def)
  have "sg_get \<lparr>ga_Key = key\<rparr> (grps w ?srvs) = (case world_lookup (home cfg) w key of
      None \<Rightarrow> \<lparr>gr_Value = '''', gr_Version = 0, gr_Err = ErrNoKey\<rparr>
    | Some e \<Rightarrow> \<lparr>gr_Value = Value e, gr_Version = Version e, gr_Err = OK\<rparr>)"
    by (cases "sg_lookup (grps w ?srvs) key") (simp_all add: world_lookup_def shardgrp.get_miss shardgrp.get_hit wf)
  then show ?thesis
    using g srvs by (cases "world_lookup (home cfg) w key") (simp_all add: Query_stored [OF assms(4,1,2)] gid Let_def)
qed

theorem ShardKv_Get_returns_current_witness:
  "ShardKv_Get [(atts_example, calls_example)] ''k'' world_example = Some (Inr ((''v'', 4, OK), world_example))"
proof -
  have k: "nat (Key2Shard ''k'') < NShards" by (rule Key2Shard_range)
  have "world_lookup (home old_example) world_example ''k'' = Some \<lparr>Value = ''v'', Version = 4\<rparr>"
    using placed_lookup [OF world_example_placed] by (simp add: contents_example_def)
  moreover have "home old_example (nat (Key2Shard ''k'')) \<noteq> []" using k by (simp add: home_def old_example_def servers_of_def)
  moreover have "quiet calls_example" "\<forall>c \<in> set calls_example. \<not> frozen_here ''k'' (call_local c)"
    using k by (simp_all add: calls_example_def quiet_def frozen_here_def empty_srv_def)
  ultimately show ?thesis
    using ShardKv_Get_returns_current [OF example_facts(1,7) world_example_placed example_facts(6)] by simp
qed

end
