(* ===== verification/MrTasks.thy ===== *)
theory MrTasks
  imports Fnv "HOL-Library.Char_ord" "HOL-Library.List_Lexorder" "HOL-Library.Multiset"
begin

text \<open>
  What the MapReduce workers compute: the two task handlers of \<open>src/mr/worker.go\<close>, the sequential program of
  \<open>src/main/mrsequential.go\<close>, and three applications of \<open>src/mrapps\<close>.

  The file system is a map from names to contents: an input file is text, an intermediate file is the
  stream of JSON values written to it, an output file the list of lines printed to it.  \<open>sort.Sort\<close> is not
  stable, so the order of equal keys is not determined: \<open>srt\<close> is any function that permutes its argument into
  key order, and the locale \<open>mr_app\<close> states what the application's \<open>Reduce\<close> must promise for the result not to
  depend on it.
\<close>

section \<open>Keys, hashing and files\<close>

record KeyValue =
  Key :: string
  Val :: string

unbundle bit_operations_syntax

definition ihash :: "string \<Rightarrow> int" where
  "ihash key = uint (fnv1a (string_bytes key) AND 0x7fffffff)"

text \<open>
  The names the workers use, with \<open>m\<close> a map task and \<open>r\<close> a reduce task: \<open>../temp/mr-m-r-t\<close>, \<open>../temp/mr-m-r\<close>,
  \<open>mr-out-r-t\<close> and \<open>mr-out-r\<close>.
\<close>

datatype fname = MapTmp int int | MapFile int int | OutTmp int | OutFile int

datatype content = Kvs "KeyValue list" | Lines "string list"

record FS =
  inputs :: "string \<rightharpoonup> string"
  files :: "fname \<rightharpoonup> content"

definition os_Create :: "fname \<Rightarrow> content \<Rightarrow> FS \<Rightarrow> FS" where
  "os_Create f c fs = fs\<lparr>files := (files fs)(f \<mapsto> c)\<rparr>"

definition os_Rename :: "fname \<Rightarrow> fname \<Rightarrow> FS \<Rightarrow> FS option" where
  "os_Rename a b fs =
     (case files fs a of
        None \<Rightarrow> None
      | Some c \<Rightarrow> Some (fs\<lparr>files := ((files fs)(a := None))(b \<mapsto> c)\<rparr>))"

text \<open>The loop that calls \<open>Reduce\<close> for each run of equal keys, by index as in the code.\<close>

function run_end :: "KeyValue list \<Rightarrow> nat \<Rightarrow> nat \<Rightarrow> nat" where
  "run_end kva i j = (if j < length kva \<and> Key (kva ! j) = Key (kva ! i) then run_end kva i (j + 1) else j)"
  by auto
termination by (relation "measure (\<lambda>(kva, i, j). length kva - j)") auto

declare run_end.simps [simp del]

lemma run_end_ge: "j \<le> run_end kva i j"
proof (induction kva i j rule: run_end.induct)
  case (1 kva i j)
  then show ?case by (subst run_end.simps) auto
qed

function reduce_loop :: "(string \<Rightarrow> string list \<Rightarrow> string) \<Rightarrow> KeyValue list \<Rightarrow> nat \<Rightarrow> (string \<times> string) list" where
  "reduce_loop reducef kva i =
     (if i < length kva then
        let j = run_end kva i (i + 1);
            values = map (\<lambda>k. Val (kva ! k)) [i..<j];
            output = reducef (Key (kva ! i)) values
        in (Key (kva ! i), output) # reduce_loop reducef kva j
      else [])"
  by auto
termination
proof (relation "measure (\<lambda>(f, kva, i). length kva - i)")
  show "((reducef, kva, j), reducef, kva, i) \<in> measure (\<lambda>(f, kva, i). length kva - i)"
    if "i < length kva" "j = run_end kva i (i + 1)" for reducef :: "string \<Rightarrow> string list \<Rightarrow> string" and kva i j x xa
    using that run_end_ge [of "i + 1" kva i] by auto
qed auto

declare reduce_loop.simps [simp del]

definition out_line :: "string \<times> string \<Rightarrow> string" where
  "out_line kv = fst kv @ '' '' @ snd kv"

section \<open>The two task handlers\<close>

text \<open>The contents of the reduce buffers: \<open>encs[idx].Encode(&kv)\<close> for each pair, in order.\<close>

definition bucket :: "int \<Rightarrow> int \<Rightarrow> KeyValue list \<Rightarrow> KeyValue list" where
  "bucket n r kva = filter (\<lambda>kv. ihash (Key kv) mod n = r) kva"

definition create_temps :: "int \<Rightarrow> int \<Rightarrow> FS \<Rightarrow> FS" where
  "create_temps m n fs = fold (\<lambda>r fs. os_Create (MapTmp m r) (Kvs []) fs) (map int [0..<nat n]) fs"

text \<open>\<open>Flush\<close>, \<open>Close\<close> and \<open>Rename\<close> of the file for reduce task \<open>r\<close>.\<close>

definition flush_temp :: "int \<Rightarrow> int \<Rightarrow> KeyValue list \<Rightarrow> FS \<Rightarrow> FS" where
  "flush_temp m r kvs fs = os_Create (MapTmp m r) (Kvs kvs) fs"

definition rename_temp :: "int \<Rightarrow> int \<Rightarrow> FS \<Rightarrow> FS go" where
  "rename_temp m r fs =
     (case os_Rename (MapTmp m r) (MapFile m r) fs of None \<Rightarrow> Inl (LogFatal ''cannot rename'') | Some fs \<Rightarrow> Inr fs)"

fun publish :: "int \<Rightarrow> int \<Rightarrow> KeyValue list \<Rightarrow> int list \<Rightarrow> FS \<Rightarrow> FS go" where
  "publish m n kva [] fs = Inr fs"
| "publish m n kva (r # rs) fs = go_bind (rename_temp m r (flush_temp m r (bucket n r kva) fs)) (publish m n kva rs)"

text \<open>
  \<open>handleMapTask\<close> for map task \<open>m\<close>; \<open>k\<close> is the number of files that have been renamed when the worker stops, so that
  a complete run has \<open>k = n\<close>.
\<close>

definition handleMapTask :: "(string \<Rightarrow> string \<Rightarrow> KeyValue list) \<Rightarrow> string \<Rightarrow> int \<Rightarrow> int \<Rightarrow> nat \<Rightarrow> FS \<Rightarrow> FS go" where
  "handleMapTask mapf filename m n k fs =
     (case inputs fs filename of
        None \<Rightarrow> Inl (LogFatal ''cannot open'')
      | Some txt \<Rightarrow>
          let kva = mapf filename txt
          in if kva \<noteq> [] \<and> n = 0 then Inl DivideByZero
             else publish m n kva (take k (map int [0..<nat n])) (create_temps m n fs))"

text \<open>The intermediate files of reduce task \<open>r\<close>, one per map task.\<close>

fun read_parts :: "int list \<Rightarrow> int \<Rightarrow> FS \<Rightarrow> KeyValue list go" where
  "read_parts [] r fs = Inr []"
| "read_parts (m # ms) r fs =
     (case files fs (MapFile m r) of
        Some (Kvs kvs) \<Rightarrow> go_bind (read_parts ms r fs) (\<lambda>rest. Inr (kvs @ rest))
      | Some (Lines _) \<Rightarrow> read_parts ms r fs
      | None \<Rightarrow> Inl (LogFatal ''cannot open''))"

definition handleReduceTask ::
  "(KeyValue list \<Rightarrow> KeyValue list) \<Rightarrow> (string \<Rightarrow> string list \<Rightarrow> string) \<Rightarrow> int \<Rightarrow> int \<Rightarrow> FS \<Rightarrow> FS go" where
  "handleReduceTask srt reducef r nmap fs =
     go_bind (read_parts (map int [0..<nat nmap]) r fs) (\<lambda>kva.
       let lines = map out_line (reduce_loop reducef (srt kva) 0)
       in case os_Rename (OutTmp r) (OutFile r) (os_Create (OutTmp r) (Lines lines) fs) of
            None \<Rightarrow> Inr fs
          | Some fs \<Rightarrow> Inr fs)"

section \<open>The sequential program\<close>

fun map_all :: "(string \<Rightarrow> string \<Rightarrow> KeyValue list) \<Rightarrow> string list \<Rightarrow> FS \<Rightarrow> KeyValue list go" where
  "map_all mapf [] fs = Inr []"
| "map_all mapf (f # fns) fs =
     (case inputs fs f of
        None \<Rightarrow> Inl (LogFatal ''cannot open'')
      | Some txt \<Rightarrow> go_bind (map_all mapf fns fs) (\<lambda>rest. Inr (mapf f txt @ rest)))"

definition mrsequential :: "(KeyValue list \<Rightarrow> KeyValue list) \<Rightarrow> (string \<Rightarrow> string \<Rightarrow> KeyValue list) \<Rightarrow>
    (string \<Rightarrow> string list \<Rightarrow> string) \<Rightarrow> string list \<Rightarrow> FS \<Rightarrow> string list go" where
  "mrsequential srt mapf reducef fns fs =
     go_bind (map_all mapf fns fs) (\<lambda>intermediate. Inr (map out_line (reduce_loop reducef (srt intermediate) 0)))"

section \<open>Applications\<close>

definition is_letter :: "char \<Rightarrow> bool" where
  "is_letter c \<longleftrightarrow> (let n = of_char c :: nat in 65 \<le> n \<and> n \<le> 90 \<or> 97 \<le> n \<and> n \<le> 122)"

text \<open>\<open>strings.FieldsFunc(s, sep)\<close> on ASCII text: the maximal runs of characters that are no separators.\<close>

function fields_func :: "(char \<Rightarrow> bool) \<Rightarrow> string \<Rightarrow> string list" where
  "fields_func sep s =
     (case dropWhile sep s of
        [] \<Rightarrow> []
      | c # r \<Rightarrow> (c # takeWhile (\<lambda>x. \<not> sep x) r) # fields_func sep (dropWhile (\<lambda>x. \<not> sep x) r))"
  by auto
termination
proof (relation "measure (\<lambda>(sep, s). length s)")
  fix sep s and c :: char and r
  assume "dropWhile sep s = c # r"
  then have "length (c # r) \<le> length s" using length_dropWhile_le [of sep s] by simp
  then show "((sep, dropWhile (\<lambda>x. \<not> sep x) r), sep, s) \<in> measure (\<lambda>(sep, s). length s)"
    using length_dropWhile_le [of "\<lambda>x. \<not> sep x" r] by simp
qed auto

declare fields_func.simps [simp del]

definition wc_Map :: "string \<Rightarrow> string \<Rightarrow> KeyValue list" where
  "wc_Map filename txt = map (\<lambda>w. \<lparr>Key = w, Val = ''1''\<rparr>) (fields_func (\<lambda>c. \<not> is_letter c) txt)"

definition wc_Reduce :: "string \<Rightarrow> string list \<Rightarrow> string" where
  "wc_Reduce key values = itoa (int (length values))"

text \<open>The range over the set of words has no fixed order; the model takes the order of the last occurrences.\<close>

definition indexer_Map :: "string \<Rightarrow> string \<Rightarrow> KeyValue list" where
  "indexer_Map document value =
     map (\<lambda>w. \<lparr>Key = w, Val = document\<rparr>) (remdups (fields_func (\<lambda>c. \<not> is_letter c) value))"

fun strings_Join :: "string list \<Rightarrow> string \<Rightarrow> string" where
  "strings_Join [] sep = []"
| "strings_Join [x] sep = x"
| "strings_Join (x # y # zs) sep = x @ sep @ strings_Join (y # zs) sep"

definition indexer_Reduce :: "string \<Rightarrow> string list \<Rightarrow> string" where
  "indexer_Reduce key values = itoa (int (length values)) @ '' '' @ strings_Join (sort values) '',''"

definition nocrash_Map :: "string \<Rightarrow> string \<Rightarrow> KeyValue list" where
  "nocrash_Map filename contents =
     [\<lparr>Key = ''a'', Val = filename\<rparr>, \<lparr>Key = ''b'', Val = itoa (int (length filename))\<rparr>,
      \<lparr>Key = ''c'', Val = itoa (int (length contents))\<rparr>, \<lparr>Key = ''d'', Val = ''xyzzy''\<rparr>]"

definition nocrash_Reduce :: "string \<Rightarrow> string list \<Rightarrow> string" where
  "nocrash_Reduce key values = strings_Join (sort values) '' ''"

definition early_exit_Map :: "string \<Rightarrow> string \<Rightarrow> KeyValue list" where
  "early_exit_Map filename contents = [\<lparr>Key = filename, Val = ''1''\<rparr>]"

definition early_exit_Reduce :: "string \<Rightarrow> string list \<Rightarrow> string" where
  "early_exit_Reduce key values = itoa (int (length values))"

section \<open>The reduce loop\<close>

text \<open>The same loop on the remaining list.\<close>

function reduce_runs :: "(string \<Rightarrow> string list \<Rightarrow> string) \<Rightarrow> KeyValue list \<Rightarrow> (string \<times> string) list" where
  "reduce_runs reducef [] = []"
| "reduce_runs reducef (x # xs) =
     (Key x, reducef (Key x) (Val x # map Val (takeWhile (\<lambda>y. Key y = Key x) xs))) #
     reduce_runs reducef (dropWhile (\<lambda>y. Key y = Key x) xs)"
  by pat_completeness auto
termination by (relation "measure (\<lambda>(f, xs). length xs)") (auto simp: le_imp_less_Suc length_dropWhile_le)

lemma run_end_eq: "j \<le> length kva \<Longrightarrow> run_end kva i j = j + length (takeWhile (\<lambda>y. Key y = Key (kva ! i)) (drop j kva))"
proof (induction kva i j rule: run_end.induct)
  case (1 kva i j)
  show ?case
  proof (cases "j < length kva")
    case True
    then have d: "drop j kva = kva ! j # drop (Suc j) kva" by (simp add: Cons_nth_drop_Suc)
    then show ?thesis using 1 True by (subst run_end.simps) auto
  next
    case False
    then show ?thesis using 1 by (subst run_end.simps) auto
  qed
qed

lemma map_values: "a + n \<le> length kva \<Longrightarrow> map (\<lambda>k. Val (kva ! k)) [a..<a + n] = map Val (take n (drop a kva))"
  by (rule nth_equalityI) (simp_all add: nth_upt del: upt_Suc)

lemma reduce_loop_runs: "reduce_loop reducef kva i = reduce_runs reducef (drop i kva)"
proof (induction reducef kva i rule: reduce_loop.induct)
  case (1 reducef kva i)
  show ?case
  proof (cases "i < length kva")
    case True
    let ?P = "\<lambda>y. Key y = Key (kva ! i)" and ?rest = "drop (i + 1) kva"
    have d: "drop i kva = kva ! i # ?rest" using True by (simp add: Cons_nth_drop_Suc)
    define n where "n = length (takeWhile ?P ?rest)"
    have j: "run_end kva i (i + 1) = i + 1 + n" using run_end_eq [of "i + 1" kva i] True by (simp add: n_def)
    have n: "n \<le> length ?rest" unfolding n_def by (rule length_takeWhile_le)
    have "map (\<lambda>k. Val (kva ! k)) [i..<i + 1 + n] = Val (kva ! i) # map Val (takeWhile ?P ?rest)"
    proof -
      have "map (\<lambda>k. Val (kva ! k)) [i + 1..<i + 1 + n] = map Val (take n ?rest)"
        using map_values [of "i + 1" n kva] n True by simp
      moreover have "[i..<i + 1 + n] = i # [i + 1..<i + 1 + n]" by (simp add: upt_rec)
      ultimately show ?thesis by (simp add: n_def takeWhile_eq_take [symmetric])
    qed
    moreover have "drop (i + 1 + n) kva = dropWhile ?P ?rest"
      by (simp add: n_def dropWhile_eq_drop add.commute)
    ultimately show ?thesis
      using 1 [OF True j [symmetric] refl refl] True
      by (subst reduce_loop.simps) (simp add: Let_def j [simplified] d del: upt_Suc)
  next
    case False
    then show ?thesis by (subst reduce_loop.simps) simp
  qed
qed

definition vals :: "string \<Rightarrow> KeyValue list \<Rightarrow> string list" where
  "vals k kva = map Val (filter (\<lambda>y. Key y = k) kva)"

text \<open>The first run of a sorted list is all there is of its key.\<close>

lemma sorted_runs:
  assumes "sorted (map Key (x # xs))"
  shows "takeWhile (\<lambda>y. Key y = Key x) xs = filter (\<lambda>y. Key y = Key x) xs"
    and "dropWhile (\<lambda>y. Key y = Key x) xs = filter (\<lambda>y. Key y \<noteq> Key x) xs"
proof -
  have "takeWhile (\<lambda>y. Key y = Key x) xs = filter (\<lambda>y. Key y = Key x) xs \<and>
    dropWhile (\<lambda>y. Key y = Key x) xs = filter (\<lambda>y. Key y \<noteq> Key x) xs"
    using assms
  proof (induction xs)
    case (Cons y ys)
    show ?case
    proof (cases "Key y = Key x")
      case True
      then show ?thesis using Cons by simp
    next
      case False
      then have "\<forall>z \<in> set (y # ys). Key z \<noteq> Key x" using Cons.prems by (auto dest: order_antisym)
      then have "filter (\<lambda>y. Key y = Key x) (y # ys) = []" "filter (\<lambda>y. Key y \<noteq> Key x) (y # ys) = y # ys"
        by (simp_all add: filter_empty_conv filter_id_conv)
      then show ?thesis using False by simp
    qed
  qed simp
  then show "takeWhile (\<lambda>y. Key y = Key x) xs = filter (\<lambda>y. Key y = Key x) xs"
    and "dropWhile (\<lambda>y. Key y = Key x) xs = filter (\<lambda>y. Key y \<noteq> Key x) xs" by blast+
qed

text \<open>On a sorted list every key is reduced once, with all its values.\<close>

lemma reduce_runs_sorted:
  "sorted (map Key kva) \<Longrightarrow> distinct (map fst (reduce_runs f kva)) \<and>
     set (reduce_runs f kva) = (\<lambda>k. (k, f k (vals k kva))) ` Key ` set kva"
proof (induction f kva rule: reduce_runs.induct)
  case (2 f x xs)
  let ?rest = "filter (\<lambda>y. Key y \<noteq> Key x) xs"
  note runs = sorted_runs [OF 2(2)]
  have "sorted (map Key ?rest)" using 2(2) by (simp add: sorted_filter)
  then have IH: "distinct (map fst (reduce_runs f ?rest))"
    "set (reduce_runs f ?rest) = (\<lambda>k. (k, f k (vals k ?rest))) ` Key ` set ?rest"
    using 2(1) runs(2) by simp_all
  have v: "vals k ?rest = vals k (x # xs)" if "k \<noteq> Key x" for k
    using that by (simp add: vals_def) (metis (mono_tags, lifting))
  have "set (reduce_runs f (x # xs)) = insert (Key x, f (Key x) (vals (Key x) (x # xs))) ((\<lambda>k. (k, f k (vals k (x # xs)))) ` Key ` set ?rest)"
    using IH(2) v by (auto simp: runs vals_def image_image)
  also have "\<dots> = (\<lambda>k. (k, f k (vals k (x # xs)))) ` (insert (Key x) (Key ` set ?rest))" by simp
  also have "insert (Key x) (Key ` set ?rest) = Key ` set (x # xs)" by auto
  finally show ?case using IH by (auto simp: runs)
qed simp

section \<open>What an application must promise\<close>

locale mr_app =
  fixes srt :: "KeyValue list \<Rightarrow> KeyValue list"
    and reducef :: "string \<Rightarrow> string list \<Rightarrow> string"
  assumes srt_mset: "mset (srt kva) = mset kva"
    and srt_sorted: "sorted (map Key (srt kva))"
    and reduce_perm: "mset vs = mset ws \<Longrightarrow> reducef k vs = reducef k ws"
begin

lemma set_srt [simp]: "set (srt kva) = set kva"
  by (metis set_mset_mset srt_mset)

lemma reduce_vals: "reducef k (vals k (srt kva)) = reducef k (vals k kva)"
  by (rule reduce_perm) (simp only: vals_def mset_map mset_filter srt_mset)

text \<open>The pairs printed for a list of intermediate pairs: one for each key.\<close>

lemma reduce_sorted:
  "distinct (map fst (reduce_loop reducef (srt kva) 0))"
  "set (reduce_loop reducef (srt kva) 0) = (\<lambda>k. (k, reducef k (vals k kva))) ` Key ` set kva"
  using reduce_runs_sorted [OF srt_sorted, of reducef kva] by (simp_all add: reduce_loop_runs reduce_vals)

lemma vals_bucket: "ihash k mod n = r \<Longrightarrow> vals k (bucket n r kva) = vals k kva"
  by (simp add: vals_def bucket_def conj_commute cong: conj_cong)

lemma reduce_bucket:
  "set (reduce_loop reducef (srt (bucket n r kva)) 0) = {p \<in> set (reduce_loop reducef (srt kva) 0). ihash (fst p) mod n = r}"
proof -
  have b: "Key ` set (bucket n r kva) = {k \<in> Key ` set kva. ihash k mod n = r}" by (auto simp: bucket_def)
  have "(\<lambda>k. (k, reducef k (vals k (bucket n r kva)))) ` {k \<in> Key ` set kva. ihash k mod n = r} =
      (\<lambda>k. (k, reducef k (vals k kva))) ` {k \<in> Key ` set kva. ihash k mod n = r}"
    by (rule image_cong) (simp_all add: vals_bucket)
  then show ?thesis by (simp only: reduce_sorted b) auto
qed

text \<open>The outputs of the reduce tasks, together, are the output of one reduction of everything.\<close>

lemma reduce_partition:
  assumes "0 < n"
  shows "mset (concat (map (\<lambda>r. reduce_loop reducef (srt (bucket n r kva)) 0) (map int [0..<nat n]))) = mset (reduce_loop reducef (srt kva) 0)"
proof (rule set_eq_iff_mset_eq_distinct [THEN iffD1])
  let ?out = "\<lambda>r. reduce_loop reducef (srt (bucket n r kva)) 0"
  have dis: "distinct (?out r)" for r using reduce_sorted(1) [of "bucket n r kva"] by (simp add: distinct_map)
  have disj: "set (?out r) \<inter> set (?out r') = {}" if "r \<noteq> r'" for r r' using that by (auto simp: reduce_bucket)
  have "distinct (concat (map ?out rs))" if "distinct rs" for rs
    using that
  proof (induction rs)
    case (Cons r rs)
    have "set (?out r) \<inter> set (?out r') = {}" if "r' \<in> set rs" for r'
      using that Cons.prems by (intro disj) auto
    then have "set (?out r) \<inter> set (concat (map ?out rs)) = {}" by auto
    then show ?case using dis [of r] Cons by (simp del: set_concat)
  qed simp
  from this [of "map int [0..<nat n]"] show "distinct (concat (map ?out (map int [0..<nat n])))" by (simp only: distinct_map) simp
  show "distinct (reduce_loop reducef (srt kva) 0)" using reduce_sorted(1) [of kva] by (simp add: distinct_map)
  have "0 \<le> ihash k mod n \<and> ihash k mod n < n" for k using assms by simp
  then have "ihash k mod n \<in> set (map int [0..<nat n])" for k using assms by (auto simp: image_iff intro!: bexI [of _ "nat (ihash k mod n)"])
  then show "set (concat (map ?out (map int [0..<nat n]))) = set (reduce_loop reducef (srt kva) 0)"
    by (auto simp: reduce_bucket)
qed

end

definition sort_kvs :: "KeyValue list \<Rightarrow> KeyValue list" where
  "sort_kvs = sort_key Key"

lemma sort_kvs_sorts: "mset (sort_kvs kva) = mset kva" "sorted (map Key (sort_kvs kva))"
  by (simp_all add: sort_kvs_def)

lemma sort_perm: "mset vs = mset ws \<Longrightarrow> sort vs = sort (ws :: string list)"
  by (rule properties_for_sort) simp_all

interpretation wc: mr_app sort_kvs wc_Reduce
  by unfold_locales (auto simp: sort_kvs_sorts wc_Reduce_def dest: mset_eq_length)

interpretation indexer: mr_app sort_kvs indexer_Reduce
proof unfold_locales
  fix vs ws :: "string list" and k
  assume eq: "mset vs = mset ws"
  show "indexer_Reduce k vs = indexer_Reduce k ws"
    by (simp only: indexer_Reduce_def mset_eq_length [OF eq] sort_perm [OF eq])
qed (simp_all add: sort_kvs_sorts)

interpretation nocrash: mr_app sort_kvs nocrash_Reduce
  by unfold_locales (auto simp: sort_kvs_sorts nocrash_Reduce_def dest: sort_perm)

interpretation early_exit: mr_app sort_kvs early_exit_Reduce
  by unfold_locales (auto simp: sort_kvs_sorts early_exit_Reduce_def dest: mset_eq_length)

section \<open>The task handlers\<close>

lemma create_temps_files:
  "inputs (create_temps m n fs) = inputs fs"
  "files (create_temps m n fs) f = (case f of MapTmp m' r \<Rightarrow> if m' = m \<and> 0 \<le> r \<and> r < n then Some (Kvs []) else files fs f | _ \<Rightarrow> files fs f)"
proof -
  have "inputs (fold (\<lambda>r fs. os_Create (MapTmp m r) (Kvs []) fs) rs fs) = inputs fs \<and>
    files (fold (\<lambda>r fs. os_Create (MapTmp m r) (Kvs []) fs) rs fs) f =
      (case f of MapTmp m' r \<Rightarrow> if m' = m \<and> r \<in> set rs then Some (Kvs []) else files fs f | _ \<Rightarrow> files fs f)" for rs
    by (induction rs arbitrary: fs) (auto simp: os_Create_def split: fname.split)
  note this [of "map int [0..<nat n]"]
  moreover have "r \<in> set (map int [0..<nat n]) \<longleftrightarrow> 0 \<le> r \<and> r < n" for r
    by (auto simp: image_iff intro!: bexI [of _ "nat r"])
  ultimately show "inputs (create_temps m n fs) = inputs fs"
    and "files (create_temps m n fs) f = (case f of MapTmp m' r \<Rightarrow> if m' = m \<and> 0 \<le> r \<and> r < n then Some (Kvs []) else files fs f | _ \<Rightarrow> files fs f)"
    by (simp_all add: create_temps_def split: fname.split)
qed

text \<open>A run of \<open>handleMapTask\<close> without interference publishes exactly its buckets and touches no other result.\<close>

lemma publish_files:
  "\<exists>fs'. publish m n kva rs fs = Inr fs' \<and> inputs fs' = inputs fs \<and>
     (\<forall>m' r. files fs' (MapFile m' r) = (if m' = m \<and> r \<in> set rs then Some (Kvs (bucket n r kva)) else files fs (MapFile m' r))) \<and>
     (\<forall>r. files fs' (OutFile r) = files fs (OutFile r))"
proof (induction rs arbitrary: fs)
  case (Cons r rs)
  let ?fs1 = "fs\<lparr>files := ((files fs)(MapTmp m r := None))(MapFile m r \<mapsto> Kvs (bucket n r kva))\<rparr>"
  have "rename_temp m r (flush_temp m r (bucket n r kva) fs) = Inr ?fs1"
    by (simp add: rename_temp_def flush_temp_def os_Create_def os_Rename_def fun_upd_upd)
  then show ?case using Cons.IH [of ?fs1] by auto
qed simp

lemma handleMapTask_files:
  assumes "inputs fs filename = Some txt" and "0 < n"
  shows "\<exists>fs'. handleMapTask mapf filename m n k fs = Inr fs' \<and> inputs fs' = inputs fs \<and>
     (\<forall>m' r. files fs' (MapFile m' r) =
        (if m' = m \<and> 0 \<le> r \<and> r < n \<and> r < int k then Some (Kvs (bucket n r (mapf filename txt))) else files fs (MapFile m' r))) \<and>
     (\<forall>r. files fs' (OutFile r) = files fs (OutFile r))"
proof -
  have rs: "r \<in> set (take k (map int [0..<nat n])) \<longleftrightarrow> 0 \<le> r \<and> r < n \<and> r < int k" for r
  proof -
    have "take k [0..<nat n] = [0..<min k (nat n)]" by (simp add: min_def)
    then show ?thesis by (auto simp: take_map image_iff intro!: bexI [of _ "nat r"])
  qed
  show ?thesis
    using publish_files [of m n "mapf filename txt" "take k (map int [0..<nat n])" "create_temps m n fs"] assms
    by (auto simp: handleMapTask_def Let_def rs create_temps_files)
qed

lemma read_parts_all:
  "(\<And>m. m \<in> set ms \<Longrightarrow> files fs (MapFile m r) = Some (Kvs (part m))) \<Longrightarrow> read_parts ms r fs = Inr (concat (map part ms))"
  by (induction ms) simp_all

lemma handleReduceTask_files:
  assumes "\<And>m. m \<in> set (map int [0..<nat nmap]) \<Longrightarrow> files fs (MapFile m r) = Some (Kvs (part m))"
    and "concat (map part (map int [0..<nat nmap])) = kva"
  shows "\<exists>fs'. handleReduceTask srt reducef r nmap fs = Inr fs' \<and> inputs fs' = inputs fs \<and>
    (\<forall>m r'. files fs' (MapFile m r') = files fs (MapFile m r')) \<and>
    (\<forall>r'. files fs' (OutFile r') = (if r' = r then Some (Lines (map out_line (reduce_loop reducef (srt kva) 0)))
       else files fs (OutFile r')))"
proof -
  have "read_parts (map int [0..<nat nmap]) r fs = Inr kva"
    unfolding assms(2) [symmetric] by (rule read_parts_all) (rule assms(1))
  then show ?thesis by (simp add: handleReduceTask_def Let_def os_Create_def os_Rename_def)
qed

end
