(* ===== verification/MrCoord.thy ===== *)
theory MrCoord
  imports MrTasks
begin

text \<open>
  The coordinator of \<open>src/mr/coordinator.go\<close> with any number of workers (\<open>src/mr/worker.go\<close>), the types of
  \<open>src/mr/rpc.go\<close>, and the composition of the two.

  \<open>GetTask\<close> reads the task table and the counters without the lock and takes it only to claim a task, so
  concurrent calls interleave: it is a machine with one step for each unlocked read and one for each critical
  section.  Timers, calls, replies that workers hold and completions on their way are multisets; a worker
  executes a task in one step and may stop before it, in the middle of it, or after it.
\<close>

section \<open>The coordinator\<close>

text \<open>The states are the strings \<open>pending\<close>, \<open>in-progress\<close> and \<open>done\<close>.\<close>

datatype task_state = Pending | InProgress | TaskDone

record mapTask =
  mt_Filename :: string
  mt_state :: task_state
  mt_jobId :: int

record reduceTask =
  rt_state :: task_state
  rt_jobId :: int

record Coordinator =
  maptasks :: "mapTask list"
  reducetasks :: "reduceTask list"
  nReduce :: int
  done1 :: int
  done2 :: int

datatype TaskType = TMap | TReduce | TNone

record DoneArgs =
  dn_TaskType :: TaskType
  dn_TaskID :: int

record Reply =
  rp_Id :: int
  rp_NMap :: int
  rp_NReduce :: int
  rp_Filename :: string
  rp_TaskType :: TaskType

definition MakeCoordinator :: "string list \<Rightarrow> int \<Rightarrow> Coordinator" where
  "MakeCoordinator fns n =
     \<lparr>maptasks = map (\<lambda>(i, file). \<lparr>mt_Filename = file, mt_state = Pending, mt_jobId = int i\<rparr>) (enumerate 0 fns),
      reducetasks = map (\<lambda>i. \<lparr>rt_state = Pending, rt_jobId = int i\<rparr>) [0..<nat n],
      nReduce = n, done1 = 0, done2 = 0\<rparr>"

text \<open>Where a call of \<open>GetTask\<close> is: at a loop condition, before an unlocked read of task \<open>i\<close>, or before the lock for it.\<close>

datatype gt_pc = LoopMap | ScanMap nat | ClaimMap nat | LoopReduce | ScanReduce nat | ClaimReduce nat | Replied Reply

text \<open>One step of a call, with the timer it starts.\<close>

fun GetTask_step :: "gt_pc \<Rightarrow> Coordinator \<Rightarrow> gt_pc \<times> Coordinator \<times> (TaskType \<times> int) option" where
  "GetTask_step LoopMap c = (if done1 c < int (length (maptasks c)) then ScanMap 0 else LoopReduce, c, None)"
| "GetTask_step (ScanMap i) c =
     (if i < length (maptasks c)
      then (if mt_state (maptasks c ! i) = Pending then ClaimMap i else ScanMap (i + 1))
      else LoopMap, c, None)"
| "GetTask_step (ClaimMap i) c =
     (let t = maptasks c ! i in
      if mt_state t \<noteq> Pending then (ScanMap (i + 1), c, None)
      else (Replied \<lparr>rp_Id = mt_jobId t, rp_NMap = 0, rp_NReduce = nReduce c, rp_Filename = mt_Filename t, rp_TaskType = TMap\<rparr>,
            c\<lparr>maptasks := (maptasks c)[i := t\<lparr>mt_state := InProgress\<rparr>]\<rparr>, Some (TMap, mt_jobId t)))"
| "GetTask_step LoopReduce c =
     (if done2 c < nReduce c then ScanReduce 0
      else Replied \<lparr>rp_Id = - 1, rp_NMap = 0, rp_NReduce = nReduce c, rp_Filename = '''', rp_TaskType = TNone\<rparr>, c, None)"
| "GetTask_step (ScanReduce i) c =
     (if i < length (reducetasks c)
      then (if rt_state (reducetasks c ! i) = Pending then ClaimReduce i else ScanReduce (i + 1))
      else LoopReduce, c, None)"
| "GetTask_step (ClaimReduce i) c =
     (let t = reducetasks c ! i in
      if rt_state t \<noteq> Pending then (ScanReduce (i + 1), c, None)
      else (Replied \<lparr>rp_Id = rt_jobId t, rp_NMap = int (length (maptasks c)), rp_NReduce = 0, rp_Filename = '''', rp_TaskType = TReduce\<rparr>,
            c\<lparr>reducetasks := (reducetasks c)[i := t\<lparr>rt_state := InProgress\<rparr>]\<rparr>, Some (TReduce, rt_jobId t)))"
| "GetTask_step (Replied r) c = (Replied r, c, None)"

definition CompleteTask :: "DoneArgs \<Rightarrow> Coordinator \<Rightarrow> Coordinator go" where
  "CompleteTask args c =
     (case dn_TaskType args of
        TMap \<Rightarrow>
          if dn_TaskID args < int (length (maptasks c)) then
            go_bind (go_nth (maptasks c) (dn_TaskID args)) (\<lambda>t.
              if mt_state t = InProgress
              then Inr (c\<lparr>maptasks := (maptasks c)[nat (dn_TaskID args) := t\<lparr>mt_state := TaskDone\<rparr>], done1 := done1 c + 1\<rparr>)
              else Inr c)
          else Inr c
      | TReduce \<Rightarrow>
          if dn_TaskID args < int (length (reducetasks c)) then
            go_bind (go_nth (reducetasks c) (dn_TaskID args)) (\<lambda>t.
              if rt_state t = InProgress
              then Inr (c\<lparr>reducetasks := (reducetasks c)[nat (dn_TaskID args) := t\<lparr>rt_state := TaskDone\<rparr>], done2 := done2 c + 1\<rparr>)
              else Inr c)
          else Inr c
      | TNone \<Rightarrow> Inr c)"

text \<open>What \<open>startTimer\<close> does when its ten seconds are over.\<close>

definition startTimer :: "TaskType \<Rightarrow> int \<Rightarrow> Coordinator \<Rightarrow> Coordinator go" where
  "startTimer taskType jobId c =
     (case taskType of
        TMap \<Rightarrow>
          go_bind (go_nth (maptasks c) jobId) (\<lambda>t.
            if mt_state t = InProgress
            then Inr (c\<lparr>maptasks := (maptasks c)[nat jobId := t\<lparr>mt_state := Pending\<rparr>]\<rparr>) else Inr c)
      | TReduce \<Rightarrow>
          go_bind (go_nth (reducetasks c) jobId) (\<lambda>t.
            if rt_state t = InProgress
            then Inr (c\<lparr>reducetasks := (reducetasks c)[nat jobId := t\<lparr>rt_state := Pending\<rparr>]\<rparr>) else Inr c)
      | TNone \<Rightarrow> Inr c)"

definition os_RemoveAll_temp :: "FS \<Rightarrow> FS" where
  "os_RemoveAll_temp fs = fs\<lparr>files := (\<lambda>f. case f of MapTmp _ _ \<Rightarrow> None | MapFile _ _ \<Rightarrow> None | _ \<Rightarrow> files fs f)\<rparr>"

definition Done :: "Coordinator \<Rightarrow> FS \<Rightarrow> bool \<times> FS" where
  "Done c fs = (if done2 c = nReduce c then (True, os_RemoveAll_temp fs) else (False, fs))"

section \<open>Coordinator and workers\<close>

record mr_sys =
  co :: Coordinator
  calls :: "gt_pc multiset"
  timers :: "(TaskType \<times> int) multiset"
  work :: "Reply multiset"
  completed :: "DoneArgs multiset"
  disk :: FS

definition mr_init :: "string list \<Rightarrow> int \<Rightarrow> FS \<Rightarrow> mr_sys" where
  "mr_init fns n fs0 = \<lparr>co = MakeCoordinator fns n, calls = {#}, timers = {#}, work = {#}, completed = {#}, disk = fs0\<rparr>"

text \<open>
  The steps of the system.  \<open>Worker\<close> asks for a task, executes it and reports it; \<open>map_crash\<close> is a worker that
  stops after \<open>k\<close> of its files were renamed, \<open>reduce_crash\<close> one that stops before its rename, \<open>crash\<close> one that
  stops before its task.
\<close>

inductive mr_step :: "(KeyValue list \<Rightarrow> KeyValue list) \<Rightarrow> (string \<Rightarrow> string \<Rightarrow> KeyValue list) \<Rightarrow>
    (string \<Rightarrow> string list \<Rightarrow> string) \<Rightarrow> mr_sys \<Rightarrow> mr_sys \<Rightarrow> bool" for srt mapf reducef where
  call: "mr_step srt mapf reducef s (s\<lparr>calls := add_mset LoopMap (calls s)\<rparr>)"
| handle: "p \<in># calls s \<Longrightarrow> GetTask_step p (co s) = (p', c', t) \<Longrightarrow>
     mr_step srt mapf reducef s (s\<lparr>co := c', calls := add_mset p' (calls s - {#p#}), timers := timers s + (case t of None \<Rightarrow> {#} | Some x \<Rightarrow> {#x#})\<rparr>)"
| deliver: "Replied r \<in># calls s \<Longrightarrow>
     mr_step srt mapf reducef s (s\<lparr>calls := calls s - {#Replied r#}, work := add_mset r (work s)\<rparr>)"
| do_map: "r \<in># work s \<Longrightarrow> rp_TaskType r = TMap \<Longrightarrow>
     handleMapTask mapf (rp_Filename r) (rp_Id r) (rp_NReduce r) (nat (rp_NReduce r)) (disk s) = Inr fs' \<Longrightarrow>
     mr_step srt mapf reducef s (s\<lparr>work := work s - {#r#}, completed := add_mset \<lparr>dn_TaskType = TMap, dn_TaskID = rp_Id r\<rparr> (completed s), disk := fs'\<rparr>)"
| map_crash: "r \<in># work s \<Longrightarrow> rp_TaskType r = TMap \<Longrightarrow>
     handleMapTask mapf (rp_Filename r) (rp_Id r) (rp_NReduce r) k (disk s) = Inr fs' \<Longrightarrow>
     mr_step srt mapf reducef s (s\<lparr>work := work s - {#r#}, disk := fs'\<rparr>)"
| do_reduce: "r \<in># work s \<Longrightarrow> rp_TaskType r = TReduce \<Longrightarrow>
     handleReduceTask srt reducef (rp_Id r) (rp_NMap r) (disk s) = Inr fs' \<Longrightarrow>
     mr_step srt mapf reducef s (s\<lparr>work := work s - {#r#}, completed := add_mset \<lparr>dn_TaskType = TReduce, dn_TaskID = rp_Id r\<rparr> (completed s), disk := fs'\<rparr>)"
| reduce_crash: "r \<in># work s \<Longrightarrow> rp_TaskType r = TReduce \<Longrightarrow>
     mr_step srt mapf reducef s (s\<lparr>work := work s - {#r#}, disk := os_Create (OutTmp (rp_Id r)) (Lines ls) (disk s)\<rparr>)"
| crash: "mr_step srt mapf reducef s (s\<lparr>work := work s - {#r#}\<rparr>)"
| complete: "d \<in># completed s \<Longrightarrow> CompleteTask d (co s) = Inr c' \<Longrightarrow>
     mr_step srt mapf reducef s (s\<lparr>co := c', completed := completed s - {#d#}\<rparr>)"
| timeout: "(ty, i) \<in># timers s \<Longrightarrow> startTimer ty i (co s) = Inr c' \<Longrightarrow>
     mr_step srt mapf reducef s (s\<lparr>co := c', timers := timers s - {#(ty, i)#}\<rparr>)"

inductive mr_reachable :: "(KeyValue list \<Rightarrow> KeyValue list) \<Rightarrow> (string \<Rightarrow> string \<Rightarrow> KeyValue list) \<Rightarrow>
    (string \<Rightarrow> string list \<Rightarrow> string) \<Rightarrow> string list \<Rightarrow> int \<Rightarrow> FS \<Rightarrow> mr_sys \<Rightarrow> bool"
  for srt mapf reducef fns n fs0 where
  init: "mr_reachable srt mapf reducef fns n fs0 (mr_init fns n fs0)"
| step: "mr_reachable srt mapf reducef fns n fs0 s \<Longrightarrow> mr_step srt mapf reducef s s' \<Longrightarrow> mr_reachable srt mapf reducef fns n fs0 s'"

section \<open>The invariant\<close>

text \<open>The job: the files and contents that every task works on, and the results expected of it.\<close>

record job =
  j_files :: "string list"
  j_n :: int
  j_in :: "string \<rightharpoonup> string"
  j_srt :: "KeyValue list \<Rightarrow> KeyValue list"
  j_map :: "string \<Rightarrow> string \<Rightarrow> KeyValue list"
  j_reduce :: "string \<Rightarrow> string list \<Rightarrow> string"

definition job_ok :: "job \<Rightarrow> bool" where
  "job_ok J \<longleftrightarrow> 0 < j_n J \<and> (\<forall>f \<in> set (j_files J). j_in J f \<noteq> None)"

definition kva_of :: "job \<Rightarrow> nat \<Rightarrow> KeyValue list" where
  "kva_of J m = j_map J (j_files J ! m) (the (j_in J (j_files J ! m)))"

definition all_kva :: "job \<Rightarrow> KeyValue list" where
  "all_kva J = concat (map (kva_of J) [0..<length (j_files J)])"

definition out_of :: "job \<Rightarrow> int \<Rightarrow> string list" where
  "out_of J r = map out_line (reduce_loop (j_reduce J) (j_srt J (bucket (j_n J) r (all_kva J))) 0)"

definition map_id :: "job \<Rightarrow> int \<Rightarrow> bool" where
  "map_id J i \<longleftrightarrow> 0 \<le> i \<and> i < int (length (j_files J))"

definition red_id :: "job \<Rightarrow> int \<Rightarrow> bool" where
  "red_id J i \<longleftrightarrow> 0 \<le> i \<and> i < j_n J"

definition map_written :: "job \<Rightarrow> FS \<Rightarrow> int \<Rightarrow> bool" where
  "map_written J fs m \<longleftrightarrow> (\<forall>r. red_id J r \<longrightarrow> files fs (MapFile m r) = Some (Kvs (bucket (j_n J) r (kva_of J (nat m)))))"

definition red_written :: "job \<Rightarrow> FS \<Rightarrow> int \<Rightarrow> bool" where
  "red_written J fs r \<longleftrightarrow> files fs (OutFile r) = Some (Lines (out_of J r))"

definition maps_done :: "Coordinator \<Rightarrow> bool" where
  "maps_done c \<longleftrightarrow> (\<forall>t \<in> set (maptasks c). mt_state t = TaskDone)"

primrec n_done :: "task_state list \<Rightarrow> int" where
  "n_done [] = 0"
| "n_done (t # ts) = (if t = TaskDone then 1 else 0) + n_done ts"

text \<open>The coordinator's tables.\<close>

definition coord_ok :: "job \<Rightarrow> Coordinator \<Rightarrow> bool" where
  "coord_ok J c \<longleftrightarrow> map mt_Filename (maptasks c) = j_files J \<and> map mt_jobId (maptasks c) = map int [0..<length (j_files J)] \<and>
     map rt_jobId (reducetasks c) = map int [0..<nat (j_n J)] \<and> nReduce c = j_n J \<and>
     done1 c = n_done (map mt_state (maptasks c)) \<and> done2 c = n_done (map rt_state (reducetasks c))"

definition reply_ok :: "job \<Rightarrow> Coordinator \<Rightarrow> Reply \<Rightarrow> bool" where
  "reply_ok J c r \<longleftrightarrow>
     (case rp_TaskType r of
        TMap \<Rightarrow> map_id J (rp_Id r) \<and> rp_Filename r = j_files J ! nat (rp_Id r) \<and> rp_NReduce r = j_n J
      | TReduce \<Rightarrow> red_id J (rp_Id r) \<and> rp_NMap r = int (length (j_files J)) \<and> maps_done c
      | TNone \<Rightarrow> True)"

fun pc_ok :: "job \<Rightarrow> Coordinator \<Rightarrow> gt_pc \<Rightarrow> bool" where
  "pc_ok J c (ClaimMap i) \<longleftrightarrow> i < length (j_files J)"
| "pc_ok J c LoopReduce \<longleftrightarrow> maps_done c"
| "pc_ok J c (ScanReduce i) \<longleftrightarrow> maps_done c"
| "pc_ok J c (ClaimReduce i) \<longleftrightarrow> maps_done c \<and> i < nat (j_n J)"
| "pc_ok J c (Replied r) \<longleftrightarrow> reply_ok J c r"
| "pc_ok J c _ \<longleftrightarrow> True"

definition timer_ok :: "job \<Rightarrow> TaskType \<times> int \<Rightarrow> bool" where
  "timer_ok J t \<longleftrightarrow> (case t of (TMap, i) \<Rightarrow> map_id J i | (TReduce, i) \<Rightarrow> red_id J i | _ \<Rightarrow> True)"

definition done_ok :: "job \<Rightarrow> FS \<Rightarrow> DoneArgs \<Rightarrow> bool" where
  "done_ok J fs d \<longleftrightarrow>
     (case dn_TaskType d of
        TMap \<Rightarrow> map_id J (dn_TaskID d) \<and> map_written J fs (dn_TaskID d)
      | TReduce \<Rightarrow> red_id J (dn_TaskID d) \<and> red_written J fs (dn_TaskID d)
      | TNone \<Rightarrow> True)"

definition files_ok :: "job \<Rightarrow> Coordinator \<Rightarrow> FS \<Rightarrow> bool" where
  "files_ok J c fs \<longleftrightarrow> inputs fs = j_in J \<and>
     (\<forall>t \<in> set (maptasks c). mt_state t = TaskDone \<longrightarrow> map_written J fs (mt_jobId t)) \<and>
     (\<forall>t \<in> set (reducetasks c). rt_state t = TaskDone \<longrightarrow> red_written J fs (rt_jobId t))"

definition mr_inv :: "job \<Rightarrow> mr_sys \<Rightarrow> bool" where
  "mr_inv J s \<longleftrightarrow> coord_ok J (co s) \<and> files_ok J (co s) (disk s) \<and> (\<forall>p \<in># calls s. pc_ok J (co s) p) \<and>
     (\<forall>r \<in># work s. reply_ok J (co s) r) \<and> (\<forall>t \<in># timers s. timer_ok J t) \<and> (\<forall>d \<in># completed s. done_ok J (disk s) d)"

lemma n_done_update:
  "i < length xs \<Longrightarrow> n_done (xs[i := x]) = n_done xs - (if xs ! i = TaskDone then 1 else 0) + (if x = TaskDone then 1 else 0)"
  by (induction xs arbitrary: i) (auto split: nat.split)

lemma n_done_le: "n_done xs \<le> int (length xs)"
  by (induction xs) auto

lemma n_done_all: "n_done xs = int (length xs) \<longleftrightarrow> (\<forall>x \<in> set xs. x = TaskDone)"
proof (induction xs)
  case (Cons x xs)
  then show ?case using n_done_le [of xs] by auto
qed simp

lemma maps_done_iff: "coord_ok J c \<Longrightarrow> maps_done c \<longleftrightarrow> done1 c = int (length (maptasks c))"
  using n_done_all [of "map mt_state (maptasks c)"] by (auto simp: coord_ok_def maps_done_def)

lemma coord_sizes:
  assumes "coord_ok J c"
  shows "length (maptasks c) = length (j_files J)" "length (reducetasks c) = nat (j_n J)"
    "i < length (j_files J) \<Longrightarrow> mt_jobId (maptasks c ! i) = int i" "i < length (j_files J) \<Longrightarrow> mt_Filename (maptasks c ! i) = j_files J ! i"
    "i < nat (j_n J) \<Longrightarrow> rt_jobId (reducetasks c ! i) = int i"
proof -
  note ok = assms [unfolded coord_ok_def]
  show l: "length (maptasks c) = length (j_files J)" using ok by (metis length_map)
  show l2: "length (reducetasks c) = nat (j_n J)" using ok by (metis length_map length_upt diff_zero)
  show "i < length (j_files J) \<Longrightarrow> mt_jobId (maptasks c ! i) = int i"
    using ok l by (metis (no_types, lifting) nth_map nth_upt add_0 length_upt diff_zero)
  show "i < length (j_files J) \<Longrightarrow> mt_Filename (maptasks c ! i) = j_files J ! i" using ok l by (metis nth_map)
  show "i < nat (j_n J) \<Longrightarrow> rt_jobId (reducetasks c ! i) = int i"
    using ok l2 by (metis (no_types, lifting) nth_map nth_upt add_0 length_upt diff_zero)
qed

text \<open>The tables after a change of the state of one task.\<close>

lemma map_task_update:
  assumes "coord_ok J c" and "files_ok J c d" and "i < length (j_files J)" and "mt_state (maptasks c ! i) \<noteq> TaskDone"
    and "st = TaskDone \<Longrightarrow> map_written J d (int i)" and "dn = done1 c + (if st = TaskDone then 1 else 0)"
  shows "coord_ok J (c\<lparr>maptasks := (maptasks c)[i := (maptasks c ! i)\<lparr>mt_state := st\<rparr>], done1 := dn\<rparr>)"
    and "files_ok J (c\<lparr>maptasks := (maptasks c)[i := (maptasks c ! i)\<lparr>mt_state := st\<rparr>], done1 := dn\<rparr>) d"
proof -
  note sz = coord_sizes [OF assms(1)]
  have keep: "map f ((maptasks c)[i := (maptasks c ! i)\<lparr>mt_state := st\<rparr>]) = map f (maptasks c)"
    if "\<And>t. f (t\<lparr>mt_state := st\<rparr>) = f t" for f :: "mapTask \<Rightarrow> 'b"
    using that by (simp add: map_update) (metis list_update_id map_update)
  show "coord_ok J (c\<lparr>maptasks := (maptasks c)[i := (maptasks c ! i)\<lparr>mt_state := st\<rparr>], done1 := dn\<rparr>)"
    using assms(1,3,4,6) keep [of mt_Filename] keep [of mt_jobId] n_done_update [of i "map mt_state (maptasks c)" st] sz(1)
    by (simp add: coord_ok_def map_update)
  show "files_ok J (c\<lparr>maptasks := (maptasks c)[i := (maptasks c ! i)\<lparr>mt_state := st\<rparr>], done1 := dn\<rparr>) d"
    using assms(2,5) sz(3) [OF assms(3)] by (auto simp: files_ok_def dest!: set_update_subset_insert [THEN subsetD])
qed

lemma red_task_update:
  assumes "coord_ok J c" and "files_ok J c d" and "i < nat (j_n J)" and "rt_state (reducetasks c ! i) \<noteq> TaskDone"
    and "st = TaskDone \<Longrightarrow> red_written J d (int i)" and "dn = done2 c + (if st = TaskDone then 1 else 0)"
  shows "coord_ok J (c\<lparr>reducetasks := (reducetasks c)[i := (reducetasks c ! i)\<lparr>rt_state := st\<rparr>], done2 := dn\<rparr>)"
    and "files_ok J (c\<lparr>reducetasks := (reducetasks c)[i := (reducetasks c ! i)\<lparr>rt_state := st\<rparr>], done2 := dn\<rparr>) d"
proof -
  note sz = coord_sizes [OF assms(1)]
  have keep: "map rt_jobId ((reducetasks c)[i := (reducetasks c ! i)\<lparr>rt_state := st\<rparr>]) = map rt_jobId (reducetasks c)"
    by (simp add: map_update) (metis list_update_id map_update)
  show "coord_ok J (c\<lparr>reducetasks := (reducetasks c)[i := (reducetasks c ! i)\<lparr>rt_state := st\<rparr>], done2 := dn\<rparr>)"
    using assms(1,3,4,6) keep n_done_update [of i "map rt_state (reducetasks c)" st] sz(2)
    by (simp add: coord_ok_def map_update)
  show "files_ok J (c\<lparr>reducetasks := (reducetasks c)[i := (reducetasks c ! i)\<lparr>rt_state := st\<rparr>], done2 := dn\<rparr>) d"
    using assms(2,5) sz(5) [OF assms(3)] by (auto simp: files_ok_def dest!: set_update_subset_insert [THEN subsetD])
qed

text \<open>What every operation of the coordinator keeps, for the calls and workers that rely on it.\<close>

definition coord_keeps :: "job \<Rightarrow> FS \<Rightarrow> Coordinator \<Rightarrow> Coordinator \<Rightarrow> bool" where
  "coord_keeps J d c c' \<longleftrightarrow> coord_ok J c' \<and> files_ok J c' d \<and> (maps_done c \<longrightarrow> maps_done c')"

lemma coord_keepsD:
  assumes "coord_keeps J d c c'"
  shows "reply_ok J c r \<Longrightarrow> reply_ok J c' r" and "pc_ok J c p \<Longrightarrow> pc_ok J c' p"
proof -
  have m: "maps_done c \<Longrightarrow> maps_done c'" using assms by (simp add: coord_keeps_def)
  then show r: "reply_ok J c r \<Longrightarrow> reply_ok J c' r" for r by (auto simp: reply_ok_def split: TaskType.splits)
  show "pc_ok J c p \<Longrightarrow> pc_ok J c' p" using m r by (cases p) auto
qed

lemma maps_done_update:
  assumes "i < length (maptasks c)" and "mt_state (maptasks c ! i) \<noteq> TaskDone"
  shows "\<not> maps_done c"
  using assms by (auto simp: maps_done_def)

lemma same_done1: "c\<lparr>maptasks := x, done1 := done1 c\<rparr> = c\<lparr>maptasks := x\<rparr>" for c :: Coordinator
  by (cases c) simp

lemma same_done2: "c\<lparr>reducetasks := x, done2 := done2 c\<rparr> = c\<lparr>reducetasks := x\<rparr>" for c :: Coordinator
  by (cases c) simp

lemma coord_keeps_refl: "coord_ok J c \<Longrightarrow> files_ok J c d \<Longrightarrow> coord_keeps J d c c"
  by (simp add: coord_keeps_def)

lemma map_keeps:
  assumes "coord_ok J c" and "files_ok J c d" and "i < length (j_files J)" and "mt_state (maptasks c ! i) \<noteq> TaskDone"
  shows "st \<noteq> TaskDone \<Longrightarrow> coord_keeps J d c (c\<lparr>maptasks := (maptasks c)[i := (maptasks c ! i)\<lparr>mt_state := st\<rparr>]\<rparr>)"
    and "map_written J d (int i) \<Longrightarrow>
      coord_keeps J d c (c\<lparr>maptasks := (maptasks c)[i := (maptasks c ! i)\<lparr>mt_state := TaskDone\<rparr>], done1 := done1 c + 1\<rparr>)"
proof -
  have nd: "\<not> maps_done c" using maps_done_update [of i c] assms coord_sizes(1) [OF assms(1)] by simp
  show "coord_keeps J d c (c\<lparr>maptasks := (maptasks c)[i := (maptasks c ! i)\<lparr>mt_state := st\<rparr>]\<rparr>)" if "st \<noteq> TaskDone"
    using map_task_update [OF assms, of st "done1 c"] that nd by (simp add: coord_keeps_def same_done1)
  show "coord_keeps J d c (c\<lparr>maptasks := (maptasks c)[i := (maptasks c ! i)\<lparr>mt_state := TaskDone\<rparr>], done1 := done1 c + 1\<rparr>)"
    if "map_written J d (int i)"
    using map_task_update [OF assms, of TaskDone "done1 c + 1"] that nd by (simp add: coord_keeps_def)
qed

lemma red_keeps:
  assumes "coord_ok J c" and "files_ok J c d" and "i < nat (j_n J)" and "rt_state (reducetasks c ! i) \<noteq> TaskDone"
  shows "st \<noteq> TaskDone \<Longrightarrow> coord_keeps J d c (c\<lparr>reducetasks := (reducetasks c)[i := (reducetasks c ! i)\<lparr>rt_state := st\<rparr>]\<rparr>)"
    and "red_written J d (int i) \<Longrightarrow>
      coord_keeps J d c (c\<lparr>reducetasks := (reducetasks c)[i := (reducetasks c ! i)\<lparr>rt_state := TaskDone\<rparr>], done2 := done2 c + 1\<rparr>)"
  using red_task_update [OF assms, of st "done2 c"] red_task_update [OF assms, of TaskDone "done2 c + 1"]
  by (simp_all add: coord_keeps_def same_done2 maps_done_def)

lemma GetTask_keeps:
  assumes "coord_ok J c" and "files_ok J c d" and "pc_ok J c p" and "GetTask_step p c = (p', c', t)"
  shows "coord_keeps J d c c' \<and> pc_ok J c' p' \<and> (case t of None \<Rightarrow> True | Some x \<Rightarrow> timer_ok J x)"
proof -
  note sz = coord_sizes [OF assms(1)] and refl = coord_keeps_refl [OF assms(1,2)]
  show ?thesis
  proof (cases p)
    case LoopMap
    then show ?thesis
      using assms refl sz(1) maps_done_iff [OF assms(1)] n_done_le [of "map mt_state (maptasks c)"] by (auto simp: coord_ok_def split: if_splits)
  next
    case (ScanMap i)
    then show ?thesis using assms refl sz(1) by (auto split: if_splits)
  next
    case (ClaimMap i)
    then have i: "i < length (j_files J)" using assms(3) by simp
    show ?thesis
    proof (cases "mt_state (maptasks c ! i) = Pending")
      case True
      then have c': "c' = c\<lparr>maptasks := (maptasks c)[i := (maptasks c ! i)\<lparr>mt_state := InProgress\<rparr>]\<rparr>"
        and p': "p' = Replied \<lparr>rp_Id = int i, rp_NMap = 0, rp_NReduce = nReduce c, rp_Filename = j_files J ! i, rp_TaskType = TMap\<rparr>"
        and t: "t = Some (TMap, int i)"
        using assms(4) ClaimMap sz(3,4) [OF i] by (auto simp: Let_def)
      have "coord_keeps J d c c'" unfolding c' using map_keeps(1) [OF assms(1,2) i, of InProgress] True by simp
      then show ?thesis using i assms(1) by (auto simp: p' t reply_ok_def map_id_def timer_ok_def coord_ok_def)
    next
      case False
      then show ?thesis using assms(4) ClaimMap refl by (auto simp: Let_def)
    qed
  next
    case LoopReduce
    then show ?thesis using assms refl by (auto simp: reply_ok_def split: if_splits)
  next
    case (ScanReduce i)
    then show ?thesis using assms refl sz(2) by (auto split: if_splits)
  next
    case (ClaimReduce i)
    then have i: "i < nat (j_n J)" and m: "maps_done c" using assms(3) by simp_all
    show ?thesis
    proof (cases "rt_state (reducetasks c ! i) = Pending")
      case True
      then have c': "c' = c\<lparr>reducetasks := (reducetasks c)[i := (reducetasks c ! i)\<lparr>rt_state := InProgress\<rparr>]\<rparr>"
        and p': "p' = Replied \<lparr>rp_Id = int i, rp_NMap = int (length (maptasks c)), rp_NReduce = 0, rp_Filename = '''', rp_TaskType = TReduce\<rparr>"
        and t: "t = Some (TReduce, int i)"
        using assms(4) ClaimReduce sz(5) [OF i] by (auto simp: Let_def)
      have k: "coord_keeps J d c c'" unfolding c' using red_keeps(1) [OF assms(1,2) i, of InProgress] True by simp
      then have "maps_done c'" using m by (simp add: coord_keeps_def)
      then show ?thesis using i k sz(1) by (auto simp: p' t reply_ok_def red_id_def timer_ok_def)
    next
      case False
      then show ?thesis using assms(4) ClaimReduce refl m by (auto simp: Let_def)
    qed
  next
    case (Replied r)
    then show ?thesis using assms refl by auto
  qed
qed

lemma CompleteTask_keeps:
  assumes "coord_ok J c" and "files_ok J c d" and "done_ok J d a"
  shows "\<exists>c'. CompleteTask a c = Inr c' \<and> coord_keeps J d c c'"
proof -
  note sz = coord_sizes [OF assms(1)] and refl = coord_keeps_refl [OF assms(1,2)]
  let ?i = "nat (dn_TaskID a)"
  show ?thesis
  proof (cases "dn_TaskType a")
    case TMap
    then have i: "0 \<le> dn_TaskID a" "?i < length (j_files J)" "map_written J d (int ?i)" using assms(3) by (auto simp: done_ok_def map_id_def)
    then show ?thesis
      using map_keeps(2) [OF assms(1,2) i(2) _ i(3)] TMap sz(1) refl
      by (cases "mt_state (maptasks c ! ?i) = InProgress") (auto simp: CompleteTask_def nat_less_iff)
  next
    case TReduce
    then have i: "0 \<le> dn_TaskID a" "?i < nat (j_n J)" "red_written J d (int ?i)" using assms(3) by (auto simp: done_ok_def red_id_def)
    then show ?thesis
      using red_keeps(2) [OF assms(1,2) i(2) _ i(3)] TReduce sz(2) refl
      by (cases "rt_state (reducetasks c ! ?i) = InProgress") (auto simp: CompleteTask_def nat_less_iff)
  next
    case TNone
    then show ?thesis using refl by (simp add: CompleteTask_def)
  qed
qed

lemma startTimer_keeps:
  assumes "coord_ok J c" and "files_ok J c d" and "timer_ok J (ty, i)"
  shows "\<exists>c'. startTimer ty i c = Inr c' \<and> coord_keeps J d c c'"
proof -
  note sz = coord_sizes [OF assms(1)] and refl = coord_keeps_refl [OF assms(1,2)]
  show ?thesis
  proof (cases ty)
    case TMap
    then have i: "0 \<le> i" "nat i < length (j_files J)" using assms(3) by (auto simp: timer_ok_def map_id_def)
    then show ?thesis
      using map_keeps(1) [OF assms(1,2) i(2), of Pending] TMap sz(1) refl
      by (cases "mt_state (maptasks c ! nat i) = InProgress") (auto simp: startTimer_def nat_less_iff)
  next
    case TReduce
    then have i: "0 \<le> i" "nat i < nat (j_n J)" using assms(3) by (auto simp: timer_ok_def red_id_def)
    then show ?thesis
      using red_keeps(1) [OF assms(1,2) i(2), of Pending] TReduce sz(2) refl
      by (cases "rt_state (reducetasks c ! nat i) = InProgress") (auto simp: startTimer_def nat_less_iff)
  next
    case TNone
    then show ?thesis using refl by (simp add: startTimer_def)
  qed
qed

text \<open>What the tasks keep of the results on disk.\<close>

definition disk_keeps :: "job \<Rightarrow> FS \<Rightarrow> FS \<Rightarrow> bool" where
  "disk_keeps J d d' \<longleftrightarrow> inputs d' = inputs d \<and> (\<forall>m. map_written J d m \<longrightarrow> map_written J d' m) \<and>
     (\<forall>r. red_written J d r \<longrightarrow> red_written J d' r)"

lemma disk_keepsD:
  assumes "disk_keeps J d d'"
  shows "files_ok J c d \<Longrightarrow> files_ok J c d'" and "done_ok J d a \<Longrightarrow> done_ok J d' a"
  using assms by (auto simp: disk_keeps_def files_ok_def done_ok_def split: TaskType.splits)

lemma map_task_disk:
  assumes "job_ok J" and "files_ok J c d" and "reply_ok J c r" and "rp_TaskType r = TMap"
  shows "\<exists>d'. handleMapTask (j_map J) (rp_Filename r) (rp_Id r) (rp_NReduce r) k d = Inr d' \<and> disk_keeps J d d' \<and>
    (nat (j_n J) \<le> k \<longrightarrow> map_written J d' (rp_Id r))"
proof -
  have r: "map_id J (rp_Id r)" "rp_Filename r = j_files J ! nat (rp_Id r)" "rp_NReduce r = j_n J"
    using assms(3,4) by (auto simp: reply_ok_def)
  then have "rp_Filename r \<in> set (j_files J)" by (simp add: map_id_def nat_less_iff)
  then obtain body where body: "inputs d (rp_Filename r) = Some body" "j_in J (rp_Filename r) = Some body"
    using assms(1,2) by (auto simp: job_ok_def files_ok_def)
  have n: "0 < rp_NReduce r" using assms(1) r(3) by (simp add: job_ok_def)
  have kva: "j_map J (rp_Filename r) body = kva_of J (nat (rp_Id r))" using r(2) body(2) by (simp add: kva_of_def)
  obtain d' where d': "handleMapTask (j_map J) (rp_Filename r) (rp_Id r) (rp_NReduce r) k d = Inr d'" "inputs d' = inputs d"
    "\<forall>m' r'. files d' (MapFile m' r') = (if m' = rp_Id r \<and> 0 \<le> r' \<and> r' < rp_NReduce r \<and> r' < int k
       then Some (Kvs (bucket (rp_NReduce r) r' (kva_of J (nat (rp_Id r))))) else files d (MapFile m' r'))"
    "\<forall>r'. files d' (OutFile r') = files d (OutFile r')"
    using handleMapTask_files [OF body(1) n, of "j_map J" "rp_Id r" k] kva by auto
  have "disk_keeps J d d'" using d' r(3) by (auto simp: disk_keeps_def map_written_def red_written_def red_id_def)
  moreover have "nat (j_n J) \<le> k \<longrightarrow> map_written J d' (rp_Id r)" using d'(3) r(3) by (auto simp: map_written_def red_id_def)
  ultimately show ?thesis using d'(1) by blast
qed

lemma maps_done_written:
  assumes "coord_ok J c" and "files_ok J c d" and "maps_done c" and "m < length (j_files J)"
  shows "map_written J d (int m)"
proof -
  have "maptasks c ! m \<in> set (maptasks c)" "mt_jobId (maptasks c ! m) = int m" using assms(4) coord_sizes(1,3) [OF assms(1)] by simp_all
  then show ?thesis using assms(2,3) by (metis files_ok_def maps_done_def)
qed

lemma bucket_all:
  "concat (map (\<lambda>m. bucket n r (kva_of J (nat m))) (map int [0..<length (j_files J)])) = bucket n r (all_kva J)"
  by (simp add: all_kva_def bucket_def filter_concat comp_def)

lemma reduce_task_disk:
  assumes "coord_ok J c" and "files_ok J c d" and "reply_ok J c r" and "rp_TaskType r = TReduce"
  shows "\<exists>d'. handleReduceTask (j_srt J) (j_reduce J) (rp_Id r) (rp_NMap r) d = Inr d' \<and> disk_keeps J d d' \<and> red_written J d' (rp_Id r)"
proof -
  have r: "red_id J (rp_Id r)" "rp_NMap r = int (length (j_files J))" "maps_done c" using assms(3,4) by (auto simp: reply_ok_def)
  have parts: "files d (MapFile m (rp_Id r)) = Some (Kvs (bucket (j_n J) (rp_Id r) (kva_of J (nat m))))"
    if "m \<in> set (map int [0..<nat (rp_NMap r)])" for m
    using that maps_done_written [OF assms(1,2) r(3)] r(1,2) by (auto simp: map_written_def)
  have all: "concat (map (\<lambda>m. bucket (j_n J) (rp_Id r) (kva_of J (nat m))) (map int [0..<nat (rp_NMap r)])) = bucket (j_n J) (rp_Id r) (all_kva J)"
    using bucket_all r(2) by simp
  obtain d' where d':
    "handleReduceTask (j_srt J) (j_reduce J) (rp_Id r) (rp_NMap r) d = Inr d'" "inputs d' = inputs d"
    "\<forall>m r'. files d' (MapFile m r') = files d (MapFile m r')"
    "\<forall>r'. files d' (OutFile r') = (if r' = rp_Id r then Some (Lines (out_of J (rp_Id r))) else files d (OutFile r'))"
    using handleReduceTask_files [OF parts all, of "j_srt J" "j_reduce J"] unfolding out_of_def by blast
  then have "disk_keeps J d d'" "red_written J d' (rp_Id r)" by (auto simp: disk_keeps_def map_written_def red_written_def)
  with d'(1) show ?thesis by blast
qed

lemma mr_inv_coord:
  assumes "mr_inv J s" and "coord_keeps J (disk s) (co s) c'"
  shows "coord_ok J c' \<and> files_ok J c' (disk s) \<and> (\<forall>p \<in># calls s. pc_ok J c' p) \<and> (\<forall>r \<in># work s. reply_ok J c' r)"
  using assms coord_keepsD [OF assms(2)] by (auto simp: mr_inv_def coord_keeps_def)

lemma mr_step_inv:
  assumes "mr_step (j_srt J) (j_map J) (j_reduce J) s s'" and "mr_inv J s" and "job_ok J"
  shows "mr_inv J s'"
  using assms(1)
proof cases
  case call
  then show ?thesis using assms(2) by (auto simp: mr_inv_def)
next
  case (handle p p' c' t)
  have 1: "coord_keeps J (disk s) (co s) c'" "pc_ok J c' p'" "case t of None \<Rightarrow> True | Some x \<Rightarrow> timer_ok J x"
    using GetTask_keeps [of J "co s" "disk s" p p' c' t] handle assms(2) by (auto simp: mr_inv_def)
  show ?thesis
    using mr_inv_coord [OF assms(2) 1(1)] 1(2,3) assms(2) handle(1)
    by (auto simp: mr_inv_def dest!: in_diffD split: option.splits)
next
  case (deliver r)
  then show ?thesis using assms(2) by (auto simp: mr_inv_def dest!: in_diffD dest: bspec)
next
  case (do_map r fs')
  then have "reply_ok J (co s) r" "files_ok J (co s) (disk s)" using assms(2) by (auto simp: mr_inv_def)
  then have 1: "disk_keeps J (disk s) fs'" "map_written J fs' (rp_Id r)" "map_id J (rp_Id r)"
    using map_task_disk [OF assms(3), of "co s" "disk s" r "nat (rp_NReduce r)"] do_map(3,4) by (auto simp: reply_ok_def)
  show ?thesis
    using assms(2) disk_keepsD [OF 1(1)] 1(2,3) do_map(1) by (auto simp: mr_inv_def done_ok_def dest!: in_diffD)
next
  case (map_crash r k fs')
  then have "reply_ok J (co s) r" "files_ok J (co s) (disk s)" using assms(2) by (auto simp: mr_inv_def)
  then have 1: "disk_keeps J (disk s) fs'" using map_task_disk [OF assms(3), of "co s" "disk s" r k] map_crash(3,4) by auto
  show ?thesis using assms(2) disk_keepsD [OF 1] map_crash(1) by (auto simp: mr_inv_def dest!: in_diffD)
next
  case (do_reduce r fs')
  then have "reply_ok J (co s) r" "files_ok J (co s) (disk s)" "coord_ok J (co s)" using assms(2) by (auto simp: mr_inv_def)
  then have 1: "disk_keeps J (disk s) fs'" "red_written J fs' (rp_Id r)" "red_id J (rp_Id r)"
    using reduce_task_disk [of J "co s" "disk s" r] do_reduce(3,4) by (auto simp: reply_ok_def)
  show ?thesis
    using assms(2) disk_keepsD [OF 1(1)] 1(2,3) do_reduce(1) by (auto simp: mr_inv_def done_ok_def dest!: in_diffD)
next
  case (reduce_crash r ls)
  have "disk_keeps J (disk s) (os_Create (OutTmp (rp_Id r)) (Lines ls) (disk s))"
    by (auto simp: disk_keeps_def map_written_def red_written_def os_Create_def)
  from disk_keepsD [OF this] show ?thesis using assms(2) reduce_crash(1) by (auto simp: mr_inv_def dest!: in_diffD)
next
  case (crash r)
  then show ?thesis using assms(2) by (auto simp: mr_inv_def dest!: in_diffD)
next
  case (complete a c')
  have 1: "coord_keeps J (disk s) (co s) c'"
    using CompleteTask_keeps [of J "co s" "disk s" a] complete assms(2) by (auto simp: mr_inv_def)
  show ?thesis using mr_inv_coord [OF assms(2) 1] assms(2) complete(1) by (auto simp: mr_inv_def dest!: in_diffD)
next
  case (timeout ty i c')
  have 1: "coord_keeps J (disk s) (co s) c'"
    using startTimer_keeps [of J "co s" "disk s" ty i] timeout assms(2) by (auto simp: mr_inv_def)
  show ?thesis using mr_inv_coord [OF assms(2) 1] assms(2) timeout(1) by (auto simp: mr_inv_def dest!: in_diffD)
qed

lemma n_done_pending: "n_done (map (\<lambda>_. Pending) xs) = 0"
  by (induction xs) simp_all

lemma mr_inv_init:
  assumes "job_ok J" and "inputs fs0 = j_in J"
  shows "mr_inv J (mr_init (j_files J) (j_n J) fs0)"
proof -
  have "map mt_Filename (maptasks (MakeCoordinator (j_files J) (j_n J))) = j_files J"
    by (simp add: MakeCoordinator_def comp_def case_prod_unfold)
  moreover have "map mt_jobId (maptasks (MakeCoordinator (j_files J) (j_n J))) = map int (map fst (enumerate 0 (j_files J)))"
    by (simp add: MakeCoordinator_def case_prod_unfold del: map_fst_enumerate)
  moreover have "n_done (map mt_state (maptasks (MakeCoordinator (j_files J) (j_n J)))) = 0"
    by (simp add: MakeCoordinator_def comp_def case_prod_unfold n_done_pending)
  ultimately show ?thesis
    using assms(2) by (auto simp: mr_inv_def mr_init_def coord_ok_def files_ok_def MakeCoordinator_def comp_def n_done_pending)
qed

definition mk_job :: "(KeyValue list \<Rightarrow> KeyValue list) \<Rightarrow> (string \<Rightarrow> string \<Rightarrow> KeyValue list) \<Rightarrow>
    (string \<Rightarrow> string list \<Rightarrow> string) \<Rightarrow> string list \<Rightarrow> int \<Rightarrow> FS \<Rightarrow> job" where
  "mk_job srt mapf reducef fns n fs0 =
     \<lparr>j_files = fns, j_n = n, j_in = inputs fs0, j_srt = srt, j_map = mapf, j_reduce = reducef\<rparr>"

lemma mr_reachable_inv:
  assumes "mr_reachable srt mapf reducef fns n fs0 s" and "0 < n" and "\<forall>f \<in> set fns. inputs fs0 f \<noteq> None"
  shows "mr_inv (mk_job srt mapf reducef fns n fs0) s"
proof -
  let ?J = "mk_job srt mapf reducef fns n fs0"
  have J: "job_ok ?J" using assms(2,3) by (simp add: job_ok_def mk_job_def)
  show ?thesis
    using assms(1)
  proof induction
    case init
    show ?case using mr_inv_init [OF J, of fs0] by (simp add: mk_job_def)
  next
    case (step s s')
    then show ?case using mr_step_inv [of ?J s s'] J by (simp add: mk_job_def)
  qed
qed

lemma map_all_concat:
  assumes "\<forall>f \<in> set fns. inputs fs0 f \<noteq> None"
  shows "map_all mapf fns fs0 = Inr (concat (map (\<lambda>f. mapf f (the (inputs fs0 f))) fns))"
  using assms by (induction fns) auto

lemma all_kva_mk: "all_kva (mk_job srt mapf reducef fns n fs0) = concat (map (\<lambda>f. mapf f (the (inputs fs0 f))) fns)"
proof -
  have "map (\<lambda>f. mapf f (the (inputs fs0 f))) (map ((!) fns) [0..<length fns]) = map (\<lambda>m. mapf (fns ! m) (the (inputs fs0 (fns ! m)))) [0..<length fns]"
    by simp
  then show ?thesis by (simp only: all_kva_def kva_of_def [abs_def] mk_job_def map_nth job.simps)
qed

lemma Done_reduces:
  assumes "coord_ok J c" and "done2 c = nReduce c" and "0 < j_n J" and "red_id J r"
  shows "\<exists>t \<in> set (reducetasks c). rt_jobId t = r \<and> rt_state t = TaskDone"
proof -
  have r: "nat r < nat (j_n J)" "0 \<le> r" using assms(4) by (auto simp: red_id_def)
  have "n_done (map rt_state (reducetasks c)) = int (length (map rt_state (reducetasks c)))"
    using assms(1-3) coord_sizes(2) [OF assms(1)] by (simp add: coord_ok_def)
  then have "\<forall>x \<in> set (map rt_state (reducetasks c)). x = TaskDone" by (simp only: n_done_all)
  then show ?thesis
    using coord_sizes(2,5) [OF assms(1)] r by (intro bexI [of _ "reducetasks c ! nat r"]) auto
qed

section \<open>Properties\<close>

text \<open>C12: when the coordinator reports that the job is done, every output file exists, and the lines of all output
  files together are exactly the lines that the sequential program prints: for any number of workers, any
  interleaving of their calls with timeouts and late or repeated completions, and any crashes of workers before,
  in the middle of, or after a task.  \<open>Reduce\<close> must not depend on the order of its values, and a task is executed
  by one worker at a time.\<close>
theorem mr_output_is_sequential:
  assumes "mr_app srt reducef" and "mr_reachable srt mapf reducef fns n fs0 s" and "0 < n"
    and "\<forall>f \<in> set fns. inputs fs0 f \<noteq> None" and "Done (co s) (disk s) = (True, fs')"
  shows "\<exists>outs lines. (\<forall>r. 0 \<le> r \<and> r < n \<longrightarrow> files fs' (OutFile r) = Some (Lines (outs r))) \<and>
    mrsequential srt mapf reducef fns fs0 = Inr lines \<and> mset (concat (map outs (map int [0..<nat n]))) = mset lines"
proof -
  let ?J = "mk_job srt mapf reducef fns n fs0" and ?kva = "concat (map (\<lambda>f. mapf f (the (inputs fs0 f))) fns)"
  have inv: "coord_ok ?J (co s)" "files_ok ?J (co s) (disk s)" using mr_reachable_inv [OF assms(2-4)] by (auto simp: mr_inv_def)
  have J: "j_n ?J = n" "red_id ?J r \<longleftrightarrow> 0 \<le> r \<and> r < n" for r by (simp_all add: mk_job_def red_id_def)
  have out: "out_of ?J r = map out_line (reduce_loop reducef (srt (bucket n r ?kva)) 0)" for r
    using all_kva_mk [of srt mapf reducef fns n fs0] by (simp add: out_of_def) (simp add: mk_job_def)
  have d: "done2 (co s) = nReduce (co s)" and fs': "fs' = os_RemoveAll_temp (disk s)"
    using assms(5) by (auto simp: Done_def split: if_splits)
  have "files (disk s) (OutFile r) = Some (Lines (out_of ?J r))" if "0 \<le> r \<and> r < n" for r
    using Done_reduces [OF inv(1) d] that inv(2) assms(3) J by (fastforce simp: files_ok_def red_written_def)
  then have files: "files fs' (OutFile r) = Some (Lines (out_of ?J r))" if "0 \<le> r \<and> r < n" for r
    using that by (simp add: fs' os_RemoveAll_temp_def)
  let ?rs = "map int [0..<nat n]"
  have "mset (concat (map (out_of ?J) ?rs)) = image_mset out_line (mset (concat (map (\<lambda>r. reduce_loop reducef (srt (bucket n r ?kva)) 0) ?rs)))"
    unfolding mset_map [symmetric] map_concat by (simp add: out comp_def)
  also have "\<dots> = mset (map out_line (reduce_loop reducef (srt ?kva) 0))"
    using mr_app.reduce_partition [OF assms(1,3)] by simp
  finally show ?thesis
    using files map_all_concat [OF assms(4), of mapf] by (intro exI [of _ "out_of ?J"]) (simp add: mrsequential_def)
qed

section \<open>Every job can be finished\<close>

text \<open>A task in progress has a timer that will give it out again.\<close>

definition timers_inv :: "mr_sys \<Rightarrow> bool" where
  "timers_inv s \<longleftrightarrow>
     (\<forall>t \<in> set (maptasks (co s)). mt_state t = InProgress \<longrightarrow> (TMap, mt_jobId t) \<in># timers s) \<and>
     (\<forall>t \<in> set (reducetasks (co s)). rt_state t = InProgress \<longrightarrow> (TReduce, rt_jobId t) \<in># timers s)"

lemma GetTask_timers:
  assumes "GetTask_step p c = (p', c', t)"
  shows "set (maptasks c') \<subseteq> set (maptasks c) \<union> {x. t = Some (TMap, mt_jobId x)} \<and>
    set (reducetasks c') \<subseteq> set (reducetasks c) \<union> {x. t = Some (TReduce, rt_jobId x)}"
  using assms by (cases p) (auto simp: Let_def split: if_splits dest!: set_update_subset_insert [THEN subsetD])

lemma CompleteTask_tasks:
  assumes "CompleteTask a c = Inr c'"
  shows "set (maptasks c') \<subseteq> set (maptasks c) \<union> {x. mt_state x = TaskDone} \<and>
    set (reducetasks c') \<subseteq> set (reducetasks c) \<union> {x. rt_state x = TaskDone}"
  using assms
  by (auto simp: CompleteTask_def go_bind_eq_Inr_iff split: TaskType.splits if_splits dest!: set_update_subset_insert [THEN subsetD])

lemma startTimer_tasks:
  assumes "startTimer ty i c = Inr c'" and "coord_ok J c"
  shows "(\<forall>t \<in> set (maptasks c'). mt_state t = InProgress \<longrightarrow> t \<in> set (maptasks c) \<and> (ty, i) \<noteq> (TMap, mt_jobId t)) \<and>
    (\<forall>t \<in> set (reducetasks c'). rt_state t = InProgress \<longrightarrow> t \<in> set (reducetasks c) \<and> (ty, i) \<noteq> (TReduce, rt_jobId t))"
proof -
  note sz = coord_sizes [OF assms(2)]
  have m: "k = nat i" if "k < length (maptasks c)" "mt_jobId (maptasks c ! k) = i" for k using that sz(1,3) by auto
  have r: "k = nat i" if "k < length (reducetasks c)" "rt_jobId (reducetasks c ! k) = i" for k using that sz(2,5) by auto
  show ?thesis
  proof (cases ty)
    case TMap
    then obtain t0 where t0: "t0 = maptasks c ! nat i" "0 \<le> i" "nat i < length (maptasks c)"
      "c' = (if mt_state t0 = InProgress then c\<lparr>maptasks := (maptasks c)[nat i := t0\<lparr>mt_state := Pending\<rparr>]\<rparr> else c)"
      using assms(1) by (auto simp: startTimer_def go_bind_eq_Inr_iff go_nth_eq_Inr_iff nat_less_iff split: if_splits)
    have "t \<in> set (maptasks c) \<and> i \<noteq> mt_jobId t" if t: "t \<in> set (maptasks c')" "mt_state t = InProgress" for t
    proof -
      obtain k where k: "k < length (maptasks c)" "t = maptasks c' ! k" using t(1) t0(4) by (auto simp: in_set_conv_nth split: if_splits)
      have "k \<noteq> nat i" using k t(2) t0 by (auto simp: nth_list_update split: if_splits)
      then have "t = maptasks c ! k" using k t0(4) by (auto simp: nth_list_update)
      then show ?thesis using m k(1) \<open>k \<noteq> nat i\<close> by auto
    qed
    then show ?thesis using TMap t0(4) by auto
  next
    case TReduce
    then obtain t0 where t0: "t0 = reducetasks c ! nat i" "0 \<le> i" "nat i < length (reducetasks c)"
      "c' = (if rt_state t0 = InProgress then c\<lparr>reducetasks := (reducetasks c)[nat i := t0\<lparr>rt_state := Pending\<rparr>]\<rparr> else c)"
      using assms(1) by (auto simp: startTimer_def go_bind_eq_Inr_iff go_nth_eq_Inr_iff nat_less_iff split: if_splits)
    have "t \<in> set (reducetasks c) \<and> i \<noteq> rt_jobId t" if t: "t \<in> set (reducetasks c')" "rt_state t = InProgress" for t
    proof -
      obtain k where k: "k < length (reducetasks c)" "t = reducetasks c' ! k" using t(1) t0(4) by (auto simp: in_set_conv_nth split: if_splits)
      have "k \<noteq> nat i" using k t(2) t0 by (auto simp: nth_list_update split: if_splits)
      then have "t = reducetasks c ! k" using k t0(4) by (auto simp: nth_list_update)
      then show ?thesis using r k(1) \<open>k \<noteq> nat i\<close> by auto
    qed
    then show ?thesis using TReduce t0(4) by auto
  next
    case TNone
    then show ?thesis using assms(1) by (simp add: startTimer_def)
  qed
qed

lemma timers_step:
  assumes "mr_step srt mapf reducef s s'" and "timers_inv s" and "coord_ok J (co s)"
  shows "timers_inv s'"
  using assms(1)
proof cases
  case (handle p p' c' t)
  show ?thesis
    using GetTask_timers [OF handle(3)] assms(2) handle(1) by (auto simp: timers_inv_def split: option.splits)
next
  case (complete a c')
  show ?thesis using CompleteTask_tasks [OF complete(3)] assms(2) complete(1) by (auto simp: timers_inv_def)
next
  case (timeout ty i c')
  have "(ty', i') \<in># timers s - {#(ty, i)#}" if "(ty', i') \<in># timers s" "(ty, i) \<noteq> (ty', i')" for ty' i'
    using that by (metis in_diff_count count_single diff_zero count_greater_zero_iff)
  then show ?thesis
    using startTimer_tasks [OF timeout(3) assms(3)] assms(2) timeout(1) by (auto simp: timers_inv_def)
qed (use assms(2) in \<open>simp_all add: timers_inv_def\<close>)

text \<open>The steps of one job, as a relation on states that satisfy the invariants.\<close>

definition job_step :: "job \<Rightarrow> mr_sys \<Rightarrow> mr_sys \<Rightarrow> bool" where
  "job_step J s s' \<longleftrightarrow> mr_step (j_srt J) (j_map J) (j_reduce J) s s'"

definition job_inv :: "job \<Rightarrow> mr_sys \<Rightarrow> bool" where
  "job_inv J s \<longleftrightarrow> job_ok J \<and> mr_inv J s \<and> timers_inv s"

lemma job_inv_steps: "(job_step J)\<^sup>*\<^sup>* s s' \<Longrightarrow> job_inv J s \<Longrightarrow> job_inv J s'"
proof (induction rule: rtranclp_induct)
  case (step s1 s2)
  then show ?case using mr_step_inv [of J s1 s2] timers_step [of _ _ _ s1 s2 J] by (auto simp: job_inv_def job_step_def mr_inv_def)
qed simp

text \<open>A step of a call that leaves the coordinator alone.\<close>

lemma call_step:
  assumes "GetTask_step p (co s) = (p', co s, None)"
  shows "job_step J (s\<lparr>calls := add_mset p C\<rparr>) (s\<lparr>calls := add_mset p' C\<rparr>)"
proof -
  have "job_step J (s\<lparr>calls := add_mset p C\<rparr>) ((s\<lparr>calls := add_mset p C\<rparr>)\<lparr>co := co s, calls := add_mset p' (add_mset p C - {#p#}), timers := timers s + {#}\<rparr>)"
    unfolding job_step_def
    using mr_step.handle [of p "s\<lparr>calls := add_mset p C\<rparr>" p' "co s" None "j_srt J" "j_map J" "j_reduce J"] assms by simp
  moreover have "(s\<lparr>calls := add_mset p C\<rparr>)\<lparr>co := co s, calls := add_mset p' (add_mset p C - {#p#}), timers := timers s + {#}\<rparr> = s\<lparr>calls := add_mset p' C\<rparr>"
    by (cases s) simp
  ultimately show ?thesis by simp
qed

lemma scan_maps:
  assumes "\<And>k. j \<le> k \<Longrightarrow> k < i \<Longrightarrow> mt_state (maptasks (co s) ! k) \<noteq> Pending" and "j \<le> i" and "i < length (maptasks (co s))"
    and "mt_state (maptasks (co s) ! i) = Pending"
  shows "(job_step J)\<^sup>*\<^sup>* (s\<lparr>calls := add_mset (ScanMap j) C\<rparr>) (s\<lparr>calls := add_mset (ClaimMap i) C\<rparr>)"
  using assms
proof (induction "i - j" arbitrary: j)
  case 0
  then show ?case using call_step [of "ScanMap j" s "ClaimMap i" J C] by auto
next
  case (Suc n)
  have "job_step J (s\<lparr>calls := add_mset (ScanMap j) C\<rparr>) (s\<lparr>calls := add_mset (ScanMap (j + 1)) C\<rparr>)"
    using Suc.prems Suc.hyps(2) by (intro call_step) auto
  moreover have "(job_step J)\<^sup>*\<^sup>* (s\<lparr>calls := add_mset (ScanMap (j + 1)) C\<rparr>) (s\<lparr>calls := add_mset (ClaimMap i) C\<rparr>)"
    using Suc.hyps(1) [of "j + 1"] Suc.hyps(2) Suc.prems by auto
  ultimately show ?case by (rule converse_rtranclp_into_rtranclp)
qed

lemma scan_reduces:
  assumes "\<And>k. j \<le> k \<Longrightarrow> k < i \<Longrightarrow> rt_state (reducetasks (co s) ! k) \<noteq> Pending" and "j \<le> i" and "i < length (reducetasks (co s))"
    and "rt_state (reducetasks (co s) ! i) = Pending"
  shows "(job_step J)\<^sup>*\<^sup>* (s\<lparr>calls := add_mset (ScanReduce j) C\<rparr>) (s\<lparr>calls := add_mset (ClaimReduce i) C\<rparr>)"
  using assms
proof (induction "i - j" arbitrary: j)
  case 0
  then show ?case using call_step [of "ScanReduce j" s "ClaimReduce i" J C] by auto
next
  case (Suc n)
  have "job_step J (s\<lparr>calls := add_mset (ScanReduce j) C\<rparr>) (s\<lparr>calls := add_mset (ScanReduce (j + 1)) C\<rparr>)"
    using Suc.prems Suc.hyps(2) by (intro call_step) auto
  moreover have "(job_step J)\<^sup>*\<^sup>* (s\<lparr>calls := add_mset (ScanReduce (j + 1)) C\<rparr>) (s\<lparr>calls := add_mset (ClaimReduce i) C\<rparr>)"
    using Suc.hyps(1) [of "j + 1"] Suc.hyps(2) Suc.prems by auto
  ultimately show ?case by (rule converse_rtranclp_into_rtranclp)
qed

text \<open>The first task of a list with a property.\<close>

lemma first_index:
  assumes "\<exists>i < length xs. P (xs ! i)"
  shows "\<exists>i < length xs. P (xs ! i) \<and> (\<forall>k < i. \<not> P (xs ! k))"
  using assms exists_least_iff [of "\<lambda>i. i < length xs \<and> P (xs ! i)"] by (metis order.strict_trans)

text \<open>A call that claims a task, up to the worker that holds the reply.\<close>

lemma claim_steps:
  assumes "GetTask_step p (co s) = (Replied r, c', Some t)"
  shows "(job_step J)\<^sup>*\<^sup>* (s\<lparr>calls := add_mset p C\<rparr>) (s\<lparr>co := c', calls := C, timers := add_mset t (timers s), work := add_mset r (work s)\<rparr>)"
proof -
  let ?s1 = "s\<lparr>co := c', calls := add_mset (Replied r) C, timers := add_mset t (timers s)\<rparr>"
  have "job_step J (s\<lparr>calls := add_mset p C\<rparr>) ((s\<lparr>calls := add_mset p C\<rparr>)\<lparr>co := c', calls := add_mset (Replied r) (add_mset p C - {#p#}), timers := timers s + {#t#}\<rparr>)"
    unfolding job_step_def
    using mr_step.handle [of p "s\<lparr>calls := add_mset p C\<rparr>" "Replied r" c' "Some t" "j_srt J" "j_map J" "j_reduce J"] assms by simp
  moreover have "(s\<lparr>calls := add_mset p C\<rparr>)\<lparr>co := c', calls := add_mset (Replied r) (add_mset p C - {#p#}), timers := timers s + {#t#}\<rparr> = ?s1"
    by (cases s) simp
  ultimately have "job_step J (s\<lparr>calls := add_mset p C\<rparr>) ?s1" by simp
  moreover have "job_step J ?s1 (?s1\<lparr>calls := calls ?s1 - {#Replied r#}, work := add_mset r (work ?s1)\<rparr>)"
    unfolding job_step_def by (rule mr_step.deliver) simp
  moreover have "?s1\<lparr>calls := calls ?s1 - {#Replied r#}, work := add_mset r (work ?s1)\<rparr> =
      s\<lparr>co := c', calls := C, timers := add_mset t (timers s), work := add_mset r (work s)\<rparr>" by (cases s) simp
  ultimately show ?thesis by (metis rtranclp.rtrancl_into_rtrancl r_into_rtranclp)
qed

text \<open>A worker that executes its task and reports it.\<close>

lemma worker_steps:
  assumes "job_inv J s" and "r \<in># work s" and "rp_TaskType r \<noteq> TNone"
  shows "\<exists>s'. (job_step J)\<^sup>*\<^sup>* s s' \<and> CompleteTask \<lparr>dn_TaskType = rp_TaskType r, dn_TaskID = rp_Id r\<rparr> (co s) = Inr (co s')"
proof -
  let ?d = "\<lparr>dn_TaskType = rp_TaskType r, dn_TaskID = rp_Id r\<rparr>"
  have ok: "job_ok J" "coord_ok J (co s)" "files_ok J (co s) (disk s)" "reply_ok J (co s) r"
    using assms by (auto simp: job_inv_def mr_inv_def)
  have "\<exists>d'. job_step J s (s\<lparr>work := work s - {#r#}, completed := add_mset ?d (completed s), disk := d'\<rparr>)"
  proof (cases "rp_TaskType r")
    case TMap
    then obtain d' where "handleMapTask (j_map J) (rp_Filename r) (rp_Id r) (rp_NReduce r) (nat (rp_NReduce r)) (disk s) = Inr d'"
      using map_task_disk [OF ok(1,3,4)] by blast
    then show ?thesis unfolding job_step_def using mr_step.do_map [OF assms(2) TMap] TMap by metis
  next
    case TReduce
    then obtain d' where "handleReduceTask (j_srt J) (j_reduce J) (rp_Id r) (rp_NMap r) (disk s) = Inr d'"
      using reduce_task_disk [OF ok(2-4)] by blast
    then show ?thesis unfolding job_step_def using mr_step.do_reduce [OF assms(2) TReduce] TReduce by metis
  qed (use assms(3) in simp)
  then obtain d' where st: "job_step J s (s\<lparr>work := work s - {#r#}, completed := add_mset ?d (completed s), disk := d'\<rparr>)" (is "job_step J s ?s1") ..
  then have "job_inv J ?s1" using job_inv_steps [OF r_into_rtranclp [of "job_step J", OF st]] assms(1) by simp
  then obtain c' where c': "CompleteTask ?d (co s) = Inr c'"
    using CompleteTask_keeps [of J "co s" d' ?d] by (auto simp: job_inv_def mr_inv_def)
  then have "job_step J ?s1 (?s1\<lparr>co := c', completed := completed ?s1 - {#?d#}\<rparr>)"
    unfolding job_step_def by (intro mr_step.complete) simp_all
  then show ?thesis using st c' by (intro exI [of _ "?s1\<lparr>co := c', completed := completed ?s1 - {#?d#}\<rparr>"]) auto
qed

text \<open>One more task gets done.\<close>

lemma call_made: "job_step J s (s\<lparr>calls := add_mset LoopMap (calls s)\<rparr>)"
  unfolding job_step_def by (rule mr_step.call)

lemma finish_map:
  assumes "job_inv J s" and "i < length (maptasks (co s))" and "mt_state (maptasks (co s) ! i) = Pending"
  shows "\<exists>s'. (job_step J)\<^sup>*\<^sup>* s s' \<and> done1 (co s') = done1 (co s) + 1"
proof -
  let ?c = "co s" and ?C = "calls s"
  obtain k where k: "k < length (maptasks ?c)" "mt_state (maptasks ?c ! k) = Pending" "\<forall>k' < k. mt_state (maptasks ?c ! k') \<noteq> Pending"
    using first_index [of "maptasks ?c" "\<lambda>t. mt_state t = Pending"] assms(2,3) by blast
  have ok: "coord_ok J ?c" using assms(1) by (simp add: job_inv_def mr_inv_def)
  have id: "mt_jobId (maptasks ?c ! k) = int k" using coord_sizes [OF ok] k(1) by simp
  have "\<not> maps_done ?c" using maps_done_update [OF k(1)] k(2) by simp
  then have "done1 ?c < int (length (maptasks ?c))"
    using maps_done_iff [OF ok] n_done_le [of "map mt_state (maptasks ?c)"] ok by (auto simp: coord_ok_def)
  then have 1: "job_step J (s\<lparr>calls := add_mset LoopMap ?C\<rparr>) (s\<lparr>calls := add_mset (ScanMap 0) ?C\<rparr>)"
    by (intro call_step) simp
  have 2: "(job_step J)\<^sup>*\<^sup>* (s\<lparr>calls := add_mset (ScanMap 0) ?C\<rparr>) (s\<lparr>calls := add_mset (ClaimMap k) ?C\<rparr>)"
    using k by (intro scan_maps) auto
  obtain r c' where g: "GetTask_step (ClaimMap k) ?c = (Replied r, c', Some (TMap, int k))"
    and r: "rp_TaskType r = TMap" "rp_Id r = int k"
    and c': "c' = ?c\<lparr>maptasks := (maptasks ?c)[k := (maptasks ?c ! k)\<lparr>mt_state := InProgress\<rparr>]\<rparr>"
    using k(2) id by (simp add: Let_def)
  let ?s1 = "s\<lparr>co := c', calls := ?C, timers := add_mset (TMap, int k) (timers s), work := add_mset r (work s)\<rparr>"
  have s1: "(job_step J)\<^sup>*\<^sup>* s ?s1"
    using call_made [of J s] 1 2 claim_steps [OF g, of J ?C] by (meson converse_rtranclp_into_rtranclp rtranclp_trans)
  then have "job_inv J ?s1" using job_inv_steps assms(1) by blast
  then obtain s2 where s2: "(job_step J)\<^sup>*\<^sup>* ?s1 s2" "CompleteTask \<lparr>dn_TaskType = TMap, dn_TaskID = int k\<rparr> c' = Inr (co s2)"
    using worker_steps [of J ?s1 r] r by auto
  have "done1 (co s2) = done1 ?c + 1" using s2(2) [symmetric] k(1) by (simp add: CompleteTask_def c')
  then show ?thesis using s1 s2(1) by (meson rtranclp_trans)
qed

lemma finish_reduce:
  assumes "job_inv J s" and "maps_done (co s)" and "i < length (reducetasks (co s))" and "rt_state (reducetasks (co s) ! i) = Pending"
  shows "\<exists>s'. (job_step J)\<^sup>*\<^sup>* s s' \<and> done1 (co s') = done1 (co s) \<and> done2 (co s') = done2 (co s) + 1"
proof -
  let ?c = "co s" and ?C = "calls s"
  obtain k where k: "k < length (reducetasks ?c)" "rt_state (reducetasks ?c ! k) = Pending" "\<forall>k' < k. rt_state (reducetasks ?c ! k') \<noteq> Pending"
    using first_index [of "reducetasks ?c" "\<lambda>t. rt_state t = Pending"] assms(3,4) by blast
  have ok: "coord_ok J ?c" using assms(1) by (simp add: job_inv_def mr_inv_def)
  have id: "rt_jobId (reducetasks ?c ! k) = int k" using coord_sizes [OF ok] k(1) by simp
  have 0: "job_step J (s\<lparr>calls := add_mset LoopMap ?C\<rparr>) (s\<lparr>calls := add_mset LoopReduce ?C\<rparr>)"
    using maps_done_iff [OF ok] assms(2) by (intro call_step) simp
  have "n_done (map rt_state (reducetasks ?c)) \<noteq> int (length (map rt_state (reducetasks ?c)))"
    using k(1,2) by (metis (no_types, lifting) n_done_all nth_map nth_mem length_map task_state.distinct(3))
  then have "done2 ?c < nReduce ?c"
    using n_done_le [of "map rt_state (reducetasks ?c)"] ok coord_sizes(2) [OF ok] k(1) by (auto simp: coord_ok_def split: if_splits)
  then have 1: "job_step J (s\<lparr>calls := add_mset LoopReduce ?C\<rparr>) (s\<lparr>calls := add_mset (ScanReduce 0) ?C\<rparr>)"
    by (intro call_step) simp
  have 2: "(job_step J)\<^sup>*\<^sup>* (s\<lparr>calls := add_mset (ScanReduce 0) ?C\<rparr>) (s\<lparr>calls := add_mset (ClaimReduce k) ?C\<rparr>)"
    using k by (intro scan_reduces) auto
  obtain r c' where g: "GetTask_step (ClaimReduce k) ?c = (Replied r, c', Some (TReduce, int k))"
    and r: "rp_TaskType r = TReduce" "rp_Id r = int k"
    and c': "c' = ?c\<lparr>reducetasks := (reducetasks ?c)[k := (reducetasks ?c ! k)\<lparr>rt_state := InProgress\<rparr>]\<rparr>"
    using k(2) id by (simp add: Let_def)
  let ?s1 = "s\<lparr>co := c', calls := ?C, timers := add_mset (TReduce, int k) (timers s), work := add_mset r (work s)\<rparr>"
  have s1: "(job_step J)\<^sup>*\<^sup>* s ?s1"
    using call_made [of J s] 0 1 2 claim_steps [OF g, of J ?C] by (meson converse_rtranclp_into_rtranclp rtranclp_trans)
  then have "job_inv J ?s1" using job_inv_steps assms(1) by blast
  then obtain s2 where s2: "(job_step J)\<^sup>*\<^sup>* ?s1 s2" "CompleteTask \<lparr>dn_TaskType = TReduce, dn_TaskID = int k\<rparr> c' = Inr (co s2)"
    using worker_steps [of J ?s1 r] r by auto
  have "done1 (co s2) = done1 ?c \<and> done2 (co s2) = done2 ?c + 1" using s2(2) [symmetric] k(1) by (simp add: CompleteTask_def c')
  then show ?thesis using s1 s2(1) by (meson rtranclp_trans)
qed

text \<open>A task in progress is given out again by its timer.\<close>

lemma map_timeout:
  assumes "job_inv J s" and "i < length (maptasks (co s))" and "mt_state (maptasks (co s) ! i) = InProgress"
  shows "\<exists>s'. job_step J s s' \<and> done1 (co s') = done1 (co s) \<and> i < length (maptasks (co s')) \<and> mt_state (maptasks (co s') ! i) = Pending"
proof -
  have ok: "coord_ok J (co s)" using assms(1) by (simp add: job_inv_def mr_inv_def)
  have "(TMap, int i) \<in># timers s"
    using assms coord_sizes(1,3) [OF ok] by (auto simp: job_inv_def timers_inv_def dest!: bspec [of _ _ "maptasks (co s) ! i"])
  moreover obtain c' where c': "startTimer TMap (int i) (co s) = Inr c'"
    and "c' = (co s)\<lparr>maptasks := (maptasks (co s))[i := (maptasks (co s) ! i)\<lparr>mt_state := Pending\<rparr>]\<rparr>"
    using assms(2,3) by (simp add: startTimer_def)
  ultimately show ?thesis
    unfolding job_step_def using assms(2) mr_step.timeout [OF _ c']
    by (intro exI [of _ "s\<lparr>co := c', timers := timers s - {#(TMap, int i)#}\<rparr>"]) simp
qed

lemma red_timeout:
  assumes "job_inv J s" and "i < length (reducetasks (co s))" and "rt_state (reducetasks (co s) ! i) = InProgress"
  shows "\<exists>s'. job_step J s s' \<and> maptasks (co s') = maptasks (co s) \<and> done2 (co s') = done2 (co s) \<and>
    i < length (reducetasks (co s')) \<and> rt_state (reducetasks (co s') ! i) = Pending"
proof -
  have ok: "coord_ok J (co s)" using assms(1) by (simp add: job_inv_def mr_inv_def)
  have "(TReduce, int i) \<in># timers s"
    using assms coord_sizes(2,5) [OF ok] by (auto simp: job_inv_def timers_inv_def dest!: bspec [of _ _ "reducetasks (co s) ! i"])
  moreover obtain c' where c': "startTimer TReduce (int i) (co s) = Inr c'"
    and "c' = (co s)\<lparr>reducetasks := (reducetasks (co s))[i := (reducetasks (co s) ! i)\<lparr>rt_state := Pending\<rparr>]\<rparr>"
    using assms(2,3) by (simp add: startTimer_def)
  ultimately show ?thesis
    unfolding job_step_def using assms(2) mr_step.timeout [OF _ c']
    by (intro exI [of _ "s\<lparr>co := c', timers := timers s - {#(TReduce, int i)#}\<rparr>"]) simp
qed

lemma one_more_map:
  assumes "job_inv J s" and "\<not> maps_done (co s)"
  shows "\<exists>s'. (job_step J)\<^sup>*\<^sup>* s s' \<and> done1 (co s') = done1 (co s) + 1"
proof -
  obtain i where i: "i < length (maptasks (co s))" "mt_state (maptasks (co s) ! i) \<noteq> TaskDone"
    using assms(2) by (auto simp: maps_done_def in_set_conv_nth)
  show ?thesis
  proof (cases "mt_state (maptasks (co s) ! i)")
    case InProgress
    then obtain s1 where s1: "job_step J s s1" "done1 (co s1) = done1 (co s)" "i < length (maptasks (co s1))" "mt_state (maptasks (co s1) ! i) = Pending"
      using map_timeout [OF assms(1) i(1)] by blast
    then show ?thesis
      using finish_map [OF _ s1(3,4)] job_inv_steps [OF r_into_rtranclp [of "job_step J", OF s1(1)] assms(1)]
      by (metis converse_rtranclp_into_rtranclp)
  qed (use finish_map [OF assms(1) i(1)] i(2) in simp_all)
qed

lemma one_more_reduce:
  assumes "job_inv J s" and "maps_done (co s)" and "done2 (co s) \<noteq> nReduce (co s)"
  shows "\<exists>s'. (job_step J)\<^sup>*\<^sup>* s s' \<and> maps_done (co s') \<and> done2 (co s') = done2 (co s) + 1"
proof -
  have ok: "coord_ok J (co s)" "job_ok J" using assms(1) by (simp_all add: job_inv_def mr_inv_def)
  have dn: "maps_done (co s') \<longleftrightarrow> done1 (co s') = int (length (j_files J))" if "(job_step J)\<^sup>*\<^sup>* s s'" for s'
    using job_inv_steps [OF that assms(1)] maps_done_iff [of J "co s'"] coord_sizes(1) [of J "co s'"] by (auto simp: job_inv_def mr_inv_def)
  have "n_done (map rt_state (reducetasks (co s))) \<noteq> int (length (map rt_state (reducetasks (co s))))"
    using assms(3) ok coord_sizes(2) [OF ok(1)] by (simp add: coord_ok_def job_ok_def)
  then obtain i where i: "i < length (reducetasks (co s))" "rt_state (reducetasks (co s) ! i) \<noteq> TaskDone"
    unfolding n_done_all by (auto simp: in_set_conv_nth)
  show ?thesis
  proof (cases "rt_state (reducetasks (co s) ! i)")
    case Pending
    then show ?thesis using finish_reduce [OF assms(1,2) i(1)] dn assms(2) by (metis rtranclp.rtrancl_refl)
  next
    case InProgress
    then obtain s1 where s1: "job_step J s s1" "maptasks (co s1) = maptasks (co s)" "done2 (co s1) = done2 (co s)"
      "i < length (reducetasks (co s1))" "rt_state (reducetasks (co s1) ! i) = Pending"
      using red_timeout [OF assms(1) i(1)] by blast
    have inv: "job_inv J s1" using job_inv_steps [OF r_into_rtranclp [of "job_step J", OF s1(1)] assms(1)] .
    have "maps_done (co s1)" using s1(2) assms(2) by (simp add: maps_done_def)
    then obtain s2 where "(job_step J)\<^sup>*\<^sup>* s1 s2" "done1 (co s2) = done1 (co s1)" "done2 (co s2) = done2 (co s) + 1"
      using finish_reduce [OF inv _ s1(4,5)] s1(3) by auto
    then show ?thesis using s1(1) dn \<open>maps_done (co s1)\<close> by (metis converse_rtranclp_into_rtranclp r_into_rtranclp)
  qed (use i in simp)
qed

lemma maps_finish: "job_inv J s \<Longrightarrow> \<exists>s'. (job_step J)\<^sup>*\<^sup>* s s' \<and> maps_done (co s')"
proof (induction "nat (int (length (j_files J)) - done1 (co s))" arbitrary: s rule: less_induct)
  case less
  show ?case
  proof (cases "maps_done (co s)")
    case False
    then obtain s1 where s1: "(job_step J)\<^sup>*\<^sup>* s s1" "done1 (co s1) = done1 (co s) + 1" using one_more_map [OF less.prems] by blast
    have inv: "job_inv J s1" using job_inv_steps [OF s1(1) less.prems] .
    then have "done1 (co s1) \<le> int (length (j_files J))"
      using n_done_le [of "map mt_state (maptasks (co s1))"] coord_sizes(1) [of J "co s1"] by (auto simp: job_inv_def mr_inv_def coord_ok_def)
    then obtain s2 where "(job_step J)\<^sup>*\<^sup>* s1 s2" "maps_done (co s2)" using less.hyps [OF _ inv] s1(2) by auto
    then show ?thesis using s1(1) by (meson rtranclp_trans)
  qed auto
qed

lemma reduces_finish: "job_inv J s \<Longrightarrow> maps_done (co s) \<Longrightarrow> \<exists>s'. (job_step J)\<^sup>*\<^sup>* s s' \<and> done2 (co s') = nReduce (co s')"
proof (induction "nat (j_n J - done2 (co s))" arbitrary: s rule: less_induct)
  case less
  show ?case
  proof (cases "done2 (co s) = nReduce (co s)")
    case False
    then obtain s1 where s1: "(job_step J)\<^sup>*\<^sup>* s s1" "maps_done (co s1)" "done2 (co s1) = done2 (co s) + 1"
      using one_more_reduce [OF less.prems] by blast
    have inv: "job_inv J s1" using job_inv_steps [OF s1(1) less.prems(1)] .
    then have "done2 (co s1) \<le> j_n J"
      using n_done_le [of "map rt_state (reducetasks (co s1))"] coord_sizes(2) [of J "co s1"] by (auto simp: job_inv_def mr_inv_def coord_ok_def job_ok_def)
    then obtain s2 where "(job_step J)\<^sup>*\<^sup>* s1 s2" "done2 (co s2) = nReduce (co s2)" using less.hyps [OF _ inv s1(2)] s1(3) by auto
    then show ?thesis using s1(1) by (meson rtranclp_trans)
  qed auto
qed

lemma reachable_job_inv:
  assumes "mr_reachable srt mapf reducef fns n fs0 s" and "0 < n" and "\<forall>f \<in> set fns. inputs fs0 f \<noteq> None"
  shows "job_inv (mk_job srt mapf reducef fns n fs0) s"
proof -
  have "timers_inv s"
    using assms(1)
  proof induction
    case init
    show ?case by (auto simp: timers_inv_def mr_init_def MakeCoordinator_def)
  next
    case (step s s')
    have "coord_ok (mk_job srt mapf reducef fns n fs0) (co s)" using mr_reachable_inv [OF step(1) assms(2,3)] by (simp add: mr_inv_def)
    then show ?case using timers_step [OF step(2) step.IH] by simp
  qed
  then show ?thesis using mr_reachable_inv [OF assms] assms(2,3) by (simp add: job_inv_def job_ok_def mk_job_def)
qed

lemma job_steps_reachable:
  assumes "(job_step (mk_job srt mapf reducef fns n fs0))\<^sup>*\<^sup>* s s'" and "mr_reachable srt mapf reducef fns n fs0 s"
  shows "mr_reachable srt mapf reducef fns n fs0 s'"
  using assms by (induction rule: rtranclp_induct) (auto simp: job_step_def mk_job_def intro: mr_reachable.step)

lemma reach_Done:
  assumes "mr_reachable srt mapf reducef fns n fs0 s" and "0 < n" and "\<forall>f \<in> set fns. inputs fs0 f \<noteq> None"
  shows "\<exists>s' fs'. (mr_step srt mapf reducef)\<^sup>*\<^sup>* s s' \<and> mr_reachable srt mapf reducef fns n fs0 s' \<and> Done (co s') (disk s') = (True, fs')"
proof -
  let ?J = "mk_job srt mapf reducef fns n fs0"
  have J: "job_step ?J = mr_step srt mapf reducef" by (simp add: job_step_def [abs_def] mk_job_def)
  obtain s1 where s1: "(job_step ?J)\<^sup>*\<^sup>* s s1" "maps_done (co s1)" using maps_finish [OF reachable_job_inv [OF assms]] by blast
  have "job_inv ?J s1" using job_inv_steps [OF s1(1) reachable_job_inv [OF assms]] .
  then obtain s2 where s2: "(job_step ?J)\<^sup>*\<^sup>* s1 s2" "done2 (co s2) = nReduce (co s2)" using reduces_finish [OF _ s1(2)] by blast
  have "(job_step ?J)\<^sup>*\<^sup>* s s2" using s1(1) s2(1) by simp
  then show ?thesis using job_steps_reachable [OF _ assms(1)] s2(2) J by (auto simp: Done_def)
qed

text \<open>C19: from every state the system can be in, the job can still be brought to its end: whatever workers crashed,
  tasks timed out or completions got lost, there are further steps after which \<open>Done\<close> reports that the job is
  finished.\<close>
theorem mr_can_finish:
  assumes "mr_reachable srt mapf reducef fns n fs0 s" and "0 < n" and "\<forall>f \<in> set fns. inputs fs0 f \<noteq> None"
  shows "\<exists>s' fs'. (mr_step srt mapf reducef)\<^sup>*\<^sup>* s s' \<and> Done (co s') (disk s') = (True, fs')"
  using reach_Done [OF assms] by blast

text \<open>A job of two input files, counted with the word count application.\<close>

definition wc_fs :: FS where
  "wc_fs = \<lparr>inputs = [''x'' \<mapsto> ''a b'', ''y'' \<mapsto> ''b''], files = Map.empty\<rparr>"

text \<open>In the initial state of that job.\<close>
theorem mr_can_finish_witness:
  "\<exists>s' fs'. (mr_step sort_kvs wc_Map wc_Reduce)\<^sup>*\<^sup>* (mr_init [''x'', ''y''] 2 wc_fs) s' \<and> Done (co s') (disk s') = (True, fs')"
  by (rule mr_can_finish [OF mr_reachable.init]) (simp_all add: wc_fs_def)

text \<open>A finished run of that job: its output is that of the sequential program.\<close>
theorem mr_output_is_sequential_witness:
  "\<exists>s fs' outs. mr_reachable sort_kvs wc_Map wc_Reduce [''x'', ''y''] 2 wc_fs s \<and> Done (co s) (disk s) = (True, fs') \<and>
    (\<forall>r. 0 \<le> r \<and> r < 2 \<longrightarrow> files fs' (OutFile r) = Some (Lines (outs r))) \<and>
    mset (concat (map outs (map int [0..<2]))) = {#''a 1'', ''b 2''#}"
proof -
  have in2: "\<forall>f \<in> set [''x'', ''y'']. inputs wc_fs f \<noteq> None" by (simp add: wc_fs_def)
  obtain s fs' where s: "mr_reachable sort_kvs wc_Map wc_Reduce [''x'', ''y''] 2 wc_fs s" "Done (co s) (disk s) = (True, fs')"
    using reach_Done [OF mr_reachable.init _ in2, of 2 sort_kvs wc_Map wc_Reduce] by auto
  have seq: "mrsequential sort_kvs wc_Map wc_Reduce [''x'', ''y''] wc_fs = Inr [''a 1'', ''b 2'']" by code_simp
  show ?thesis
    using mr_output_is_sequential [OF wc.mr_app_axioms s(1) _ in2 s(2)] s seq by auto
qed



text \<open>Two workers that execute the same map task after a timeout share its temporary files.\<close>

lemma create_temps_tmp: "files (create_temps m n fs) (MapTmp m r) = (if 0 \<le> r \<and> r < n then Some (Kvs []) else files fs (MapTmp m r))"
proof -
  have "files (fold (\<lambda>r fs. os_Create (MapTmp m r) (Kvs []) fs) rs fs) (MapTmp m r) = (if r \<in> set rs then Some (Kvs []) else files fs (MapTmp m r))" for rs
    by (induction rs arbitrary: fs) (auto simp: os_Create_def)
  moreover have "r \<in> set (map int [0..<nat n]) \<longleftrightarrow> 0 \<le> r \<and> r < n" by (auto simp: image_iff intro!: bexI [of _ "nat r"])
  ultimately show ?thesis unfolding create_temps_def by simp
qed

text \<open>A map task that timed out and is executed by a second worker while the first still runs can lose its
  results: when the second creates the temporary files after the first flushed one and before it renames it, the
  first publishes an empty intermediate file, without any error.\<close>
theorem map_race_loses_output:
  assumes "0 \<le> r" and "r < n"
  shows "\<exists>fs'. rename_temp m r (create_temps m n (flush_temp m r (bucket n r kva) (create_temps m n fs))) = Inr fs' \<and>
    files fs' (MapFile m r) = Some (Kvs [])"
  using assms by (simp add: rename_temp_def os_Rename_def create_temps_tmp)

text \<open>The word \<open>a\<close> of the first input file.\<close>
theorem map_race_loses_output_witness:
  "bucket 1 0 (wc_Map ''x'' ''a'') = [\<lparr>Key = ''a'', Val = ''1''\<rparr>] \<and>
   (\<exists>fs'. rename_temp 0 0 (create_temps 0 1 (flush_temp 0 0 (bucket 1 0 (wc_Map ''x'' ''a'')) (create_temps 0 1 wc_fs))) = Inr fs' \<and>
    files fs' (MapFile 0 0) = Some (Kvs []))"
proof
  show "bucket 1 0 (wc_Map ''x'' ''a'') = [\<lparr>Key = ''a'', Val = ''1''\<rparr>]" by code_simp
  show "\<exists>fs'. rename_temp 0 0 (create_temps 0 1 (flush_temp 0 0 (bucket 1 0 (wc_Map ''x'' ''a'')) (create_temps 0 1 wc_fs))) = Inr fs' \<and>
    files fs' (MapFile 0 0) = Some (Kvs [])"
    using map_race_loses_output [of 0 1 0 "wc_Map ''x'' ''a''" wc_fs] by simp
qed

end
