(* ===== verification/MrApps.thy ===== *)
theory MrApps
  imports MrTasks Json
begin

text \<open>
  The MapReduce applications of \<open>src/mrapps\<close> that act on more than their arguments: \<open>crash.go\<close>, which ends or
  delays its process at random, \<open>jobcount.go\<close>, which counts its calls in files, and \<open>mtiming.go\<close> and
  \<open>rtiming.go\<close>, which count the workers that run at the same time.

  A random number is an argument.  The names in the current directory are a list, in the order in which the system
  returns them; whether a process is alive is a predicate.  Failing system calls, on which the code panics, are not
  considered.
\<close>

section \<open>\<open>crash.go\<close>\<close>

text \<open>The process exits, waits, or goes on.\<close>

datatype crash_outcome = Exit | Delay | GoOn

definition maybeCrash :: "nat \<Rightarrow> crash_outcome" where
  "maybeCrash rr = (if rr < 330 then Exit else if rr < 660 then Delay else GoOn)"

text \<open>\<open>None\<close>: the process has exited.\<close>

definition crash_Map :: "nat \<Rightarrow> string \<Rightarrow> string \<Rightarrow> KeyValue list option" where
  "crash_Map rr filename contents =
     (if maybeCrash rr = Exit then None
      else let kva = [];
               kva = kva @ [\<lparr>Key = ''a'', Val = filename\<rparr>];
               kva = kva @ [\<lparr>Key = ''b'', Val = itoa (int (length filename))\<rparr>];
               kva = kva @ [\<lparr>Key = ''c'', Val = itoa (int (length contents))\<rparr>];
               kva = kva @ [\<lparr>Key = ''d'', Val = ''xyzzy''\<rparr>]
           in Some kva)"

definition crash_Reduce :: "nat \<Rightarrow> string \<Rightarrow> string list \<Rightarrow> string option" where
  "crash_Reduce rr key values = (if maybeCrash rr = Exit then None else Some (strings_Join (sort values) '' ''))"

section \<open>\<open>jobcount.go\<close>\<close>

definition write_file :: "string \<Rightarrow> string list \<Rightarrow> string list" where
  "write_file f dir = (if f \<in> set dir then dir else dir @ [f])"

text \<open>The state of a worker process is its counter.\<close>

definition jobcount_Map :: "int \<Rightarrow> string \<Rightarrow> string \<Rightarrow> nat \<times> string list \<Rightarrow> KeyValue list \<times> nat \<times> string list" where
  "jobcount_Map pid filename contents = (\<lambda>(cnt, dir).
     let f = ''mr-worker-jobcount-'' @ itoa pid @ ''-'' @ itoa (int cnt)
     in ([\<lparr>Key = ''a'', Val = ''x''\<rparr>], cnt + 1, write_file f dir))"

definition has_prefix :: "string \<Rightarrow> string \<Rightarrow> bool" where
  "has_prefix p s = (take (length p) s = p)"

definition jobcount_Reduce :: "string list \<Rightarrow> string \<Rightarrow> string list \<Rightarrow> string" where
  "jobcount_Reduce dir key values = itoa (int (length (filter (has_prefix ''mr-worker-jobcount'') dir)))"

section \<open>\<open>mtiming.go\<close> and \<open>rtiming.go\<close>\<close>

text \<open>The number that the verb \<open>%d\<close> of \<open>fmt.Sscanf\<close> reads at the start of a string.\<close>

definition scan_d :: "string \<Rightarrow> int option" where
  "scan_d s =
     (let s = dropWhile (\<lambda>c. c = CHR '' '') s;
          (neg, s) = (case s of [] \<Rightarrow> (False, []) | c # r \<Rightarrow> if c = CHR ''-'' then (True, r) else if c = CHR ''+'' then (False, r) else (False, s));
          ds = takeWhile is_digit s;
          v = (if neg then - int (digits_value ds) else int (digits_value ds))
      in if ds = [] \<or> v < - (2 ^ 63) \<or> 2 ^ 63 \<le> v then None else Some v)"

text \<open>\<open>Sscanf\<close> of a name with the pattern of the phase.\<close>

definition worker_file :: "string \<Rightarrow> string" where
  "worker_file phase = ''mr-worker-'' @ phase @ ''-''"

definition scan_worker :: "string \<Rightarrow> string \<Rightarrow> int option" where
  "scan_worker phase name = (if has_prefix (worker_file phase) name then scan_d (drop (length (worker_file phase)) name) else None)"

text \<open>Until the sleep: the worker makes its file, reads the directory and counts.\<close>

definition nparallel_scan :: "string \<Rightarrow> int \<Rightarrow> (int \<Rightarrow> bool) \<Rightarrow> string list \<Rightarrow> nat \<times> string list" where
  "nparallel_scan phase pid alive dir =
     (let dir = write_file (worker_file phase @ itoa pid) dir;
          names = take 1000000 dir;
          ret = length (filter (\<lambda>name. case scan_worker phase name of None \<Rightarrow> False | Some xpid \<Rightarrow> alive xpid) names)
      in (ret, dir))"

text \<open>After the sleep: it removes its file, and panics if somebody else has.\<close>

definition nparallel_end :: "string \<Rightarrow> int \<Rightarrow> string list \<Rightarrow> string list go" where
  "nparallel_end phase pid dir =
     (let f = worker_file phase @ itoa pid
      in if f \<notin> set dir then Inl (GoPanic ''remove'') else Inr (removeAll f dir))"

text \<open>\<open>ts\<close> is the time as \<open>fmt.Sprintf\<close> prints it, \<open>n\<close> the result of \<open>nparallel("map")\<close>.\<close>

definition mtiming_Map :: "int \<Rightarrow> string \<Rightarrow> nat \<Rightarrow> string \<Rightarrow> string \<Rightarrow> KeyValue list" where
  "mtiming_Map pid ts n filename contents =
     [\<lparr>Key = ''times-'' @ itoa pid, Val = ts\<rparr>, \<lparr>Key = ''parallel-'' @ itoa pid, Val = itoa (int n)\<rparr>]"

definition mtiming_Reduce :: "string \<Rightarrow> string list \<Rightarrow> string" where
  "mtiming_Reduce key values = strings_Join (sort values) '' ''"

definition rtiming_Map :: "string \<Rightarrow> string \<Rightarrow> KeyValue list" where
  "rtiming_Map filename contents = map (\<lambda>c. \<lparr>Key = [c], Val = ''1''\<rparr>) ''abcdefghij''"

text \<open>\<open>n\<close> is the result of \<open>nparallel("reduce")\<close>.\<close>

definition rtiming_Reduce :: "nat \<Rightarrow> string \<Rightarrow> string list \<Rightarrow> string" where
  "rtiming_Reduce n key values = itoa (int n)"

section \<open>Properties\<close>

text \<open>A call of the crashing application that returns gives what the application that does not crash gives, on which
  the expected output of the test is computed; a crash ends the worker, which the coordinator survives.\<close>
theorem crash_is_nocrash:
  "crash_Map rr f c = None \<or> crash_Map rr f c = Some (nocrash_Map f c)"
  "crash_Reduce rr k vs = None \<or> crash_Reduce rr k vs = Some (nocrash_Reduce k vs)"
  by (simp_all add: crash_Map_def crash_Reduce_def nocrash_Map_def nocrash_Reduce_def)

text \<open>Each call of \<open>Map\<close> by a process leaves one more file, as long as no other process has its number.\<close>

lemma jobcount_Map_counts:
  assumes "''mr-worker-jobcount-'' @ itoa pid @ ''-'' @ itoa (int cnt) \<notin> set dir"
  shows "\<exists>kva dir'. jobcount_Map pid f c (cnt, dir) = (kva, cnt + 1, dir') \<and>
    jobcount_Reduce dir' k vs = itoa (int (Suc (length (filter (has_prefix ''mr-worker-jobcount'') dir))))"
  using assms by (simp add: jobcount_Map_def jobcount_Reduce_def write_file_def has_prefix_def)

lemma scan_d_itoa:
  assumes "0 \<le> p" and "p < 2 ^ 63"
  shows "scan_d (itoa p) = Some p"
proof -
  obtain c s where cs: "nat_digits (nat p) = c # s" by (cases "nat_digits (nat p)") simp_all
  have dig: "\<forall>c \<in> set (nat_digits (nat p)). is_digit c" using dec_nat_digits by blast
  then have "is_digit c" using cs by simp
  then have c: "c \<noteq> CHR '' ''" "c \<noteq> CHR ''-''" "c \<noteq> CHR ''+''" by (auto simp: is_digit_def)
  have tw: "takeWhile is_digit (c # s) = c # s" using dig by (simp add: cs)
  have "digits_value (c # s) = nat p" by (metis cs digits_value_nat_digits)
  then show ?thesis using assms c by (simp add: scan_d_def itoa_def cs tw Let_def del: takeWhile.simps takeWhile_eq_all_conv)
qed

lemma scan_worker_file: "0 \<le> p \<Longrightarrow> p < 2 ^ 63 \<Longrightarrow> scan_worker phase (worker_file phase @ itoa p) = Some p"
  by (simp add: scan_worker_def has_prefix_def scan_d_itoa)

text \<open>When the directory holds the files of the processes \<open>ps\<close> and files that are none of a worker of the phase,
  \<open>nparallel\<close> counts the living ones among \<open>ps\<close> and itself, and leaves the directory as it was.\<close>
theorem nparallel_counts:
  assumes "\<forall>p \<in> set (pid # ps). 0 \<le> p \<and> p < 2 ^ 63" and "distinct (pid # ps)"
    and "\<forall>f \<in> set other. scan_worker phase f = None" and "length ps + length other < 1000000"
  shows "\<exists>dir'. nparallel_scan phase pid alive (map (\<lambda>p. worker_file phase @ itoa p) ps @ other) =
      (length (filter alive (pid # ps)), dir') \<and>
    nparallel_end phase pid dir' = Inr (map (\<lambda>p. worker_file phase @ itoa p) ps @ other)"
proof -
  let ?F = "\<lambda>p. worker_file phase @ itoa p" and ?C = "\<lambda>name. case scan_worker phase name of None \<Rightarrow> False | Some xpid \<Rightarrow> alive xpid"
  have scan: "scan_worker phase (?F p) = Some p" if "p \<in> set (pid # ps)" for p using assms(1) that scan_worker_file by blast
  have new: "?F pid \<notin> set (map ?F ps @ other)" using assms(2,3) scan [of pid] by auto
  have "filter ?C other = []" using assms(3) by (simp add: filter_empty_conv)
  moreover have "filter ?C (map ?F ps) = map ?F (filter alive ps)"
    using scan by (simp add: filter_map comp_def cong: filter_cong)
  moreover have "take 1000000 (map ?F ps @ other @ [?F pid]) = map ?F ps @ other @ [?F pid]" using assms(4) by simp
  ultimately show ?thesis
    using new scan [of pid] by (simp add: nparallel_scan_def nparallel_end_def write_file_def Let_def)
qed

end
