(* ===== verification/RaftCluster.thy ===== *)
theory RaftCluster
  imports RaftProps "HOL-Library.Multiset"
begin

text \<open>
  A cluster of Raft peers over the network of \<open>src/labrpc\<close>: the peers, the remote calls ever made,
  the goroutines that still wait for one, and the replies ever produced.  A request may be executed
  any number of times and at any later moment (it may be delayed, retried, or its reply lost), a
  goroutine ends with any outcome of its calls, and a peer may stop at any moment and be started
  again on a copy of its persister, which kills the goroutines of its former life.

  The theorem is the election safety of Raft: in a term all leaders are the same peer, and so are
  all senders of \<open>AppendEntries\<close> and \<open>InstallSnapshot\<close> requests of that term, at any two moments of
  an execution.
\<close>

section \<open>Quorums\<close>

locale quorums =
  fixes quorum :: "'p set \<Rightarrow> bool"
  assumes quorum_inter: "quorum A \<Longrightarrow> quorum B \<Longrightarrow> A \<inter> B \<noteq> {}"
begin

text \<open>Two quorums of voters that vote at most once agree.\<close>

lemma unique_choice:
  assumes "quorum A" and "quorum B" and "\<And>v. v \<in> A \<Longrightarrow> voted v c" and "\<And>v. v \<in> B \<Longrightarrow> voted v d"
    and "\<And>v. voted v c \<Longrightarrow> voted v d \<Longrightarrow> c = d"
  shows "c = d"
proof -
  obtain v where "v \<in> A" "v \<in> B" using quorum_inter [OF assms(1,2)] by blast
  then show ?thesis using assms(3-5) by blast
qed

end

definition is_majority :: "nat \<Rightarrow> int set \<Rightarrow> bool" where
  "is_majority n A \<longleftrightarrow> A \<subseteq> {0..<int n} \<and> card A > n div 2"

interpretation majority: quorums "is_majority n" for n
proof unfold_locales
  fix A B assume A: "is_majority n A" and B: "is_majority n B"
  show "A \<inter> B \<noteq> {}"
  proof
    assume disj: "A \<inter> B = {}"
    have sub: "A \<subseteq> {0..<int n}" "B \<subseteq> {0..<int n}" using A B by (auto simp: is_majority_def)
    then have fin: "finite A" "finite B" by (auto intro: finite_subset)
    have "card A + card B = card (A \<union> B)" using card_Un_disjoint [OF fin disj] by simp
    also have "\<dots> \<le> n" using card_mono [of "{0..<int n}" "A \<union> B"] sub by simp
    finally show False using A B unfolding is_majority_def by linarith
  qed
qed

section \<open>The cluster\<close>

datatype raft_reply =
    VoteReply RequestVoteReply
  | AppendReply AppendEntryReply
  | SnapReply InstallSnapshotReply

type_synonym ('c, 'b) rpc = "int \<times> ('c, 'b) raft_call"  \<comment> \<open>the caller and its call\<close>

record ('c, 'b) cluster =
  nodes :: "int \<Rightarrow> ('c, 'b) Raft"
  sent :: "('c, 'b) rpc set"
  running :: "('c, 'b) rpc multiset"
  answers :: "(('c, 'b) rpc \<times> raft_reply) set"

definition set_node :: "int \<Rightarrow> ('c, 'b) Raft \<Rightarrow> ('c, 'b) cluster \<Rightarrow> ('c, 'b) cluster" where
  "set_node i rf s = s\<lparr>nodes := (nodes s)(i := rf)\<rparr>"

lemma set_node_fields [simp]:
  "nodes (set_node i rf s) = (nodes s)(i := rf)" "sent (set_node i rf s) = sent s"
  "running (set_node i rf s) = running s" "answers (set_node i rf s) = answers s"
  by (simp_all add: set_node_def)

definition cluster_init :: "nat \<Rightarrow> ('c, 'b) cluster" where
  "cluster_init n = \<lparr>nodes = (\<lambda>i. Make n i MakePersister), sent = {}, running = {#}, answers = {}\<rparr>"

text \<open>The goroutine of \<open>rpc\<close> may see \<open>outcomes\<close>: lost calls and replies produced for it.\<close>

definition possible :: "(('c, 'b) rpc \<times> raft_reply) set \<Rightarrow> ('c, 'b) rpc \<Rightarrow> ('r \<Rightarrow> raft_reply) \<Rightarrow> 'r option list \<Rightarrow> bool" where
  "possible answ rpc mk outcomes \<longleftrightarrow> (\<forall>r. Some r \<in> set outcomes \<longrightarrow> (rpc, mk r) \<in> answ)"

inductive cluster_step :: "'b \<Rightarrow> nat \<Rightarrow> ('c, 'b) cluster \<Rightarrow> ('c, 'b) cluster \<Rightarrow> bool"
  for zero :: 'b and n :: nat where
  handle_vote: "rpc = (c, CallRequestVote v args) \<Longrightarrow> rpc \<in> sent s \<Longrightarrow>
     RequestVote args (nodes s v) = Inr (r, rf') \<Longrightarrow>
     cluster_step zero n s ((set_node v rf' s)\<lparr>answers := insert (rpc, VoteReply r) (answers s)\<rparr>)"
| handle_append: "rpc = (c, CallAppendEntries v aargs) \<Longrightarrow> rpc \<in> sent s \<Longrightarrow>
     AppendEntries aargs (nodes s v) = Inr (ar, rf') \<Longrightarrow>
     cluster_step zero n s ((set_node v rf' s)\<lparr>answers := insert (rpc, AppendReply ar) (answers s)\<rparr>)"
| handle_snapshot: "rpc = (c, CallInstallSnapshot v sargs) \<Longrightarrow> rpc \<in> sent s \<Longrightarrow>
     InstallSnapshot zero sargs (nodes s v) = Inr (sr, rf') \<Longrightarrow>
     cluster_step zero n s ((set_node v rf' s)\<lparr>answers := insert (rpc, SnapReply sr) (answers s)\<rparr>)"
| finish_vote: "rpc = (c, CallRequestVote v args) \<Longrightarrow> rpc \<in># running s \<Longrightarrow>
     possible (answers s) rpc VoteReply outcomes \<Longrightarrow>
     cluster_step zero n s
       ((set_node c (sendRequestVote outcomes args (nodes s c)) s)\<lparr>running := running s - {#rpc#}\<rparr>)"
| finish_append: "rpc = (c, CallAppendEntries v aargs) \<Longrightarrow> rpc \<in># running s \<Longrightarrow>
     possible (answers s) rpc AppendReply aoutcomes \<Longrightarrow>
     sendAppendEntries aoutcomes v aargs (nodes s c) = Inr rf' \<Longrightarrow>
     cluster_step zero n s ((set_node c rf' s)\<lparr>running := running s - {#rpc#}\<rparr>)"
| finish_snapshot: "rpc = (c, CallInstallSnapshot v sargs) \<Longrightarrow> rpc \<in># running s \<Longrightarrow>
     possible (answers s) rpc SnapReply soutcomes \<Longrightarrow>
     sendInstallSnapshot soutcomes v sargs (nodes s c) = Inr rf' \<Longrightarrow>
     cluster_step zero n s ((set_node c rf' s)\<lparr>running := running s - {#rpc#}\<rparr>)"
| tick: "0 \<le> c \<Longrightarrow> c < int n \<Longrightarrow> ticker_step timeout (nodes s c) = Inr (calls, rf') \<Longrightarrow>
     cluster_step zero n s ((set_node c rf' s)\<lparr>sent := sent s \<union> Pair c ` set calls,
       running := running s + mset (map (Pair c) calls)\<rparr>)"
| apply_step: "0 \<le> c \<Longrightarrow> c < int n \<Longrightarrow> applyLogEntry_step (nodes s c) = Inr rf' \<Longrightarrow>
     cluster_step zero n s (set_node c rf' s)"
| start: "0 \<le> c \<Longrightarrow> c < int n \<Longrightarrow> Start cmd (nodes s c) = (res, rf') \<Longrightarrow> cluster_step zero n s (set_node c rf' s)"
| take_snapshot: "0 \<le> c \<Longrightarrow> c < int n \<Longrightarrow> Raft_Snapshot idx snap (nodes s c) = Inr rf' \<Longrightarrow>
     cluster_step zero n s (set_node c rf' s)"
| kill: "0 \<le> c \<Longrightarrow> c < int n \<Longrightarrow> cluster_step zero n s (set_node c (Kill (nodes s c)) s)"
| restart: "0 \<le> c \<Longrightarrow> c < int n \<Longrightarrow>
     cluster_step zero n s ((set_node c (Make n c (Persister_Copy (persister (nodes s c)))) s)
       \<lparr>running := filter_mset (\<lambda>rpc. fst rpc \<noteq> c) (running s)\<rparr>)"

inductive cluster_reachable :: "'b \<Rightarrow> nat \<Rightarrow> ('c, 'b) cluster \<Rightarrow> bool" for zero :: 'b and n :: nat where
  init: "cluster_reachable zero n (cluster_init n)"
| step: "cluster_reachable zero n s \<Longrightarrow> cluster_step zero n s t \<Longrightarrow> cluster_reachable zero n t"

section \<open>Votes\<close>

text \<open>Peer \<open>v\<close> has voted for \<open>c\<close> in term \<open>t\<close>: it has granted a request of \<open>c\<close>, or it is \<open>c\<close> and has
  campaigned.\<close>

definition granted :: "('c, 'b) cluster \<Rightarrow> int \<Rightarrow> int \<Rightarrow> int \<Rightarrow> bool" where
  "granted s v t c \<longleftrightarrow> (\<exists>args r. ((c, CallRequestVote v args), VoteReply r) \<in> answers s \<and> VoteGranted r \<and> rva_Term args = t)"

definition campaigned :: "('c, 'b) cluster \<Rightarrow> int \<Rightarrow> int \<Rightarrow> bool" where
  "campaigned s t c \<longleftrightarrow> (\<exists>w args. (c, CallRequestVote w args) \<in> sent s \<and> rva_Term args = t)"

definition voted :: "('c, 'b) cluster \<Rightarrow> int \<Rightarrow> int \<Rightarrow> int \<Rightarrow> bool" where
  "voted s v t c \<longleftrightarrow> granted s v t c \<or> v = c \<and> campaigned s t c"

text \<open>The peers whose vote for \<open>c\<close> in term \<open>t\<close> the goroutines of \<open>c\<close> may have counted.\<close>

definition counted :: "('c, 'b) cluster \<Rightarrow> int \<Rightarrow> int \<Rightarrow> int set" where
  "counted s t c = {v. \<exists>args r. (c, CallRequestVote v args) \<in> sent s \<and> rva_Term args = t \<and>
     (c, CallRequestVote v args) \<notin># running s \<and>
     ((c, CallRequestVote v args), VoteReply r) \<in> answers s \<and> VoteGranted r}"

text \<open>A majority has voted for \<open>c\<close> in term \<open>t\<close>.\<close>

definition chosen :: "nat \<Rightarrow> ('c, 'b) cluster \<Rightarrow> int \<Rightarrow> int \<Rightarrow> bool" where
  "chosen n s t c \<longleftrightarrow> (\<exists>A. is_majority n A \<and> (\<forall>v \<in> A. voted s v t c))"

text \<open>The leader's requests.\<close>

fun leader_call :: "('c, 'b) raft_call \<Rightarrow> (int \<times> int) option" where
  "leader_call (CallRequestVote _ _) = None"
| "leader_call (CallAppendEntries _ args) = Some (aea_Term args, aea_LeaderId args)"
| "leader_call (CallInstallSnapshot _ args) = Some (isa_Term args, isa_LeaderId args)"

fun callee :: "('c, 'b) raft_call \<Rightarrow> int" where
  "callee (CallRequestVote i _) = i"
| "callee (CallAppendEntries i _) = i"
| "callee (CallInstallSnapshot i _) = i"

section \<open>The invariant\<close>

definition nodes_ok :: "nat \<Rightarrow> ('c, 'b) cluster \<Rightarrow> bool" where
  "nodes_ok n s \<longleftrightarrow> (\<forall>i \<ge> 0. wf_raft (nodes s i) \<and> me (nodes s i) = i \<and> peers (nodes s i) = n)"

definition calls_ok :: "nat \<Rightarrow> ('c, 'b) cluster \<Rightarrow> bool" where
  "calls_ok n s \<longleftrightarrow>
     (\<forall>(c, call) \<in> sent s. 0 \<le> c \<and> c < int n \<and> 0 \<le> callee call \<and> callee call < int n \<and> callee call \<noteq> c) \<and>
     (\<forall>c v args. (c, CallRequestVote v args) \<in> sent s \<longrightarrow> CandidateId args = c) \<and>
     (\<forall>c v args args'. (c, CallRequestVote v args) \<in> sent s \<longrightarrow> (c, CallRequestVote v args') \<in> sent s \<longrightarrow>
        rva_Term args = rva_Term args' \<longrightarrow> args = args') \<and>
     set_mset (running s) \<subseteq> sent s \<and>
     (\<forall>c v args. count (running s) (c, CallRequestVote v args) \<le> 1) \<and>
     fst ` answers s \<subseteq> sent s"

definition votes_ok :: "('c, 'b) cluster \<Rightarrow> bool" where
  "votes_ok s \<longleftrightarrow>
     (\<forall>v t c. voted s v t c \<longrightarrow> t \<le> currentTerm (nodes s v) \<and> (t = currentTerm (nodes s v) \<longrightarrow> votedFor (nodes s v) = c)) \<and>
     (\<forall>v t c d. voted s v t c \<longrightarrow> voted s v t d \<longrightarrow> c = d)"

definition count_ok :: "nat \<Rightarrow> ('c, 'b) cluster \<Rightarrow> bool" where
  "count_ok n s \<longleftrightarrow> (\<forall>c. 0 \<le> c \<longrightarrow> c < int n \<longrightarrow> state (nodes s c) \<noteq> Follower \<longrightarrow>
     voteCount (nodes s c) \<le> 1 + int (card (counted s (currentTerm (nodes s c)) c)) \<and>
     (1 < n \<longrightarrow> campaigned s (currentTerm (nodes s c)) c))"

definition leaders_ok :: "nat \<Rightarrow> ('c, 'b) cluster \<Rightarrow> bool" where
  "leaders_ok n s \<longleftrightarrow> (\<forall>(c, call) \<in> sent s. \<forall>t l. leader_call call = Some (t, l) \<longrightarrow> l = c \<and> (1 < n \<longrightarrow> chosen n s t c))"

definition cluster_ok :: "nat \<Rightarrow> ('c, 'b) cluster \<Rightarrow> bool" where
  "cluster_ok n s \<longleftrightarrow> nodes_ok n s \<and> calls_ok n s \<and> votes_ok s \<and> count_ok n s \<and> leaders_ok n s"

lemma cluster_okI:
  "nodes_ok n s \<Longrightarrow> calls_ok n s \<Longrightarrow> votes_ok s \<Longrightarrow> count_ok n s \<Longrightarrow> leaders_ok n s \<Longrightarrow> cluster_ok n s"
  by (simp add: cluster_ok_def)

lemma cluster_okD:
  assumes "cluster_ok n s"
  shows "nodes_ok n s" "calls_ok n s" "votes_ok s" "count_ok n s" "leaders_ok n s"
  using assms by (simp_all add: cluster_ok_def)

lemma calls_okD:
  assumes "calls_ok n s"
  shows "(c, call) \<in> sent s \<Longrightarrow> 0 \<le> c \<and> c < int n \<and> 0 \<le> callee call \<and> callee call < int n \<and> callee call \<noteq> c"
    and "(c, CallRequestVote v args) \<in> sent s \<Longrightarrow> CandidateId args = c"
    and "(c, CallRequestVote v args) \<in> sent s \<Longrightarrow> (c, CallRequestVote v args') \<in> sent s \<Longrightarrow>
        rva_Term args = rva_Term args' \<Longrightarrow> args = args'"
    and "rpc \<in># running s \<Longrightarrow> rpc \<in> sent s"
    and "count (running s) (c, CallRequestVote v args) \<le> 1"
    and "(rpc, reply) \<in> answers s \<Longrightarrow> rpc \<in> sent s"
proof -
  note def = assms [unfolded calls_ok_def]
  show "(c, call) \<in> sent s \<Longrightarrow> 0 \<le> c \<and> c < int n \<and> 0 \<le> callee call \<and> callee call < int n \<and> callee call \<noteq> c"
    using bspec [OF conjunct1 [OF def], of "(c, call)"] by simp
  note d2 = conjunct2 [OF def] and d3 = conjunct2 [OF conjunct2 [OF def]]
  show "(c, CallRequestVote v args) \<in> sent s \<Longrightarrow> CandidateId args = c"
    by (rule d2 [THEN conjunct1, rule_format])
  show "(c, CallRequestVote v args) \<in> sent s \<Longrightarrow> (c, CallRequestVote v args') \<in> sent s \<Longrightarrow>
        rva_Term args = rva_Term args' \<Longrightarrow> args = args'"
    by (rule d3 [THEN conjunct1, rule_format])
  note d4 = conjunct2 [OF d3] and d5 = conjunct2 [OF conjunct2 [OF d3]]
  show "rpc \<in># running s \<Longrightarrow> rpc \<in> sent s" by (rule subsetD [OF conjunct1 [OF d4]])
  show "count (running s) (c, CallRequestVote v args) \<le> 1" by (rule d5 [THEN conjunct1, rule_format])
  show "(rpc, reply) \<in> answers s \<Longrightarrow> rpc \<in> sent s"
    using subsetD [OF conjunct2 [OF d5], of rpc] by (metis fst_conv imageI)
qed

lemma votes_okD:
  assumes "votes_ok s" and "voted s v t c"
  shows "t \<le> currentTerm (nodes s v)" "t = currentTerm (nodes s v) \<Longrightarrow> votedFor (nodes s v) = c"
    "voted s v t d \<Longrightarrow> c = d"
  using assms unfolding votes_ok_def by blast+

lemma voted_range:
  assumes "calls_ok n s" and "voted s v t c"
  shows "0 \<le> v \<and> v < int n \<and> 0 \<le> c"
proof -
  consider args r where "((c, CallRequestVote v args), VoteReply r) \<in> answers s"
    | w args where "v = c" "(c, CallRequestVote w args) \<in> sent s"
    using assms(2) by (auto simp: voted_def granted_def campaigned_def)
  then show ?thesis
  proof cases
    case 1
    then show ?thesis using calls_okD(1) [OF assms(1) calls_okD(6) [OF assms(1)]] by fastforce
  next
    case 2
    then show ?thesis using calls_okD(1) [OF assms(1)] by blast
  qed
qed

lemma counted_voted: "v \<in> counted s t c \<Longrightarrow> voted s v t c"
  by (auto simp: counted_def voted_def granted_def)

lemma counted_range:
  assumes "calls_ok n s"
  shows "counted s t c \<subseteq> {0..<int n} - {c}"
proof
  fix v assume "v \<in> counted s t c"
  then obtain args where "(c, CallRequestVote v args) \<in> sent s" by (auto simp: counted_def)
  from calls_okD(1) [OF assms this] show "v \<in> {0..<int n} - {c}" by simp
qed

lemma counted_finite: "calls_ok n s \<Longrightarrow> finite (counted s t c)"
  using counted_range [of n s t c] by (auto intro: finite_subset)

text \<open>A peer that is the leader, or knows that it won, has been chosen by a majority.\<close>

lemma elected_chosen:
  assumes "cluster_ok n s" and "0 \<le> c" and "c < int n" and "1 < n" and "elected (nodes s c)"
  shows "chosen n s (currentTerm (nodes s c)) c"
proof -
  let ?t = "currentTerm (nodes s c)"
  note ok = cluster_okD [OF assms(1)]
  have rf: "wf_raft (nodes s c)" "peers (nodes s c) = n" using ok(1) assms(2) by (auto simp: nodes_ok_def)
  have cand: "state (nodes s c) \<noteq> Follower" using assms(5) by (auto simp: elected_def)
  have "int (n div 2) < voteCount (nodes s c)" using wf_raftD(9) [OF rf(1) assms(5)] rf(2) by simp
  also have "\<dots> \<le> 1 + int (card (counted s ?t c))" using ok(4) cand assms(2,3) by (auto simp: count_ok_def)
  also have "\<dots> = int (card (insert c (counted s ?t c)))"
    using counted_finite [OF ok(2)] counted_range [OF ok(2), of ?t c] by (subst card_insert_disjoint) auto
  finally have "is_majority n (insert c (counted s ?t c))"
    using counted_range [OF ok(2), of ?t c] assms(2,3) by (auto simp: is_majority_def)
  moreover have "voted s c ?t c"
    using ok(4) cand assms(2-4) by (auto simp: count_ok_def voted_def)
  ultimately show ?thesis
    unfolding chosen_def using counted_voted by (intro exI [of _ "insert c (counted s ?t c)"]) blast
qed

lemma chosen_unique:
  assumes "votes_ok s" and "chosen n s t c" and "chosen n s t d"
  shows "c = d"
proof -
  obtain A B where "is_majority n A" "is_majority n B"
    "\<And>v. v \<in> A \<Longrightarrow> voted s v t c" "\<And>v. v \<in> B \<Longrightarrow> voted s v t d"
    using assms(2,3) by (auto simp: chosen_def)
  then show ?thesis
    by (rule majority.unique_choice [where voted = "\<lambda>v. voted s v t"])
      (assumption | erule (1) votes_okD(3) [OF assms(1)])+
qed

section \<open>What a step adds\<close>

definition grows :: "('c, 'b) cluster \<Rightarrow> ('c, 'b) cluster \<Rightarrow> bool" where
  "grows s t \<longleftrightarrow> sent s \<subseteq> sent t \<and> answers s \<subseteq> answers t \<and> (\<forall>i \<ge> 0. vote_le (nodes s i) (nodes t i))"

lemma campaigned_mono: "grows s t \<Longrightarrow> campaigned s \<tau> c \<Longrightarrow> campaigned t \<tau> c"
  unfolding grows_def campaigned_def by blast

lemma granted_mono: "grows s t \<Longrightarrow> granted s v \<tau> c \<Longrightarrow> granted t v \<tau> c"
  unfolding grows_def granted_def by blast

lemma voted_mono: "grows s t \<Longrightarrow> voted s v \<tau> c \<Longrightarrow> voted t v \<tau> c"
  unfolding voted_def using campaigned_mono granted_mono by blast

lemma chosen_mono: "grows s t \<Longrightarrow> chosen n s \<tau> c \<Longrightarrow> chosen n t \<tau> c"
  unfolding chosen_def using voted_mono by blast

lemma counted_mono:
  assumes "grows s t" and "\<And>d v args. (d, CallRequestVote v args) \<in># running t \<Longrightarrow> (d, CallRequestVote v args) \<in> sent s \<Longrightarrow>
      (d, CallRequestVote v args) \<in># running s"
  shows "counted s \<tau> c \<subseteq> counted t \<tau> c"
proof
  fix v assume "v \<in> counted s \<tau> c"
  then obtain args r where a: "(c, CallRequestVote v args) \<in> sent s" "rva_Term args = \<tau>"
    "(c, CallRequestVote v args) \<notin># running s" "((c, CallRequestVote v args), VoteReply r) \<in> answers s" "VoteGranted r"
    by (auto simp: counted_def)
  then have "(c, CallRequestVote v args) \<notin># running t" using assms(2) by blast
  moreover have "(c, CallRequestVote v args) \<in> sent t" "((c, CallRequestVote v args), VoteReply r) \<in> answers t"
    using a assms(1) by (auto simp: grows_def)
  ultimately show "v \<in> counted t \<tau> c" unfolding counted_def using a by blast
qed

lemma votes_step:
  assumes "votes_ok s" and "calls_ok n s" and "grows s t"
    and new: "\<And>v \<tau> c. voted t v \<tau> c \<Longrightarrow> \<not> voted s v \<tau> c \<Longrightarrow>
      \<tau> = currentTerm (nodes t v) \<and> votedFor (nodes t v) = c"
  shows "votes_ok t"
proof -
  have tm: "\<tau> \<le> currentTerm (nodes t v) \<and> (\<tau> = currentTerm (nodes t v) \<longrightarrow> votedFor (nodes t v) = c)"
    if v: "voted t v \<tau> c" for v \<tau> c
  proof (cases "voted s v \<tau> c")
    case True
    have "0 \<le> v" "0 \<le> c" using voted_range [OF assms(2) True] by auto
    then have le: "vote_le (nodes s v) (nodes t v)" using assms(3) by (simp add: grows_def)
    note old = votes_okD(1,2) [OF assms(1) True]
    show ?thesis using le old \<open>0 \<le> c\<close> by (auto simp: vote_le_def)
  qed (use new [OF v] in simp)
  have "c = d" if "voted t v \<tau> c" "voted t v \<tau> d" for v \<tau> c d
  proof (cases "voted s v \<tau> c \<and> voted s v \<tau> d")
    case True
    then show ?thesis using votes_okD(3) [OF assms(1)] by blast
  next
    case False
    then have "\<tau> = currentTerm (nodes t v)" using new that by blast
    then show ?thesis using tm [OF that(1)] tm [OF that(2)] by simp
  qed
  with tm show ?thesis unfolding votes_ok_def by blast
qed

lemma leaders_step:
  assumes "leaders_ok n s" and "grows s t"
    and new: "\<And>c call \<tau> l. (c, call) \<in> sent t \<Longrightarrow> (c, call) \<notin> sent s \<Longrightarrow> leader_call call = Some (\<tau>, l) \<Longrightarrow>
      l = c \<and> (1 < n \<longrightarrow> chosen n t \<tau> c)"
  shows "leaders_ok n t"
proof -
  have "l = c \<and> (1 < n \<longrightarrow> chosen n t \<tau> c)" if "(c, call) \<in> sent t" "leader_call call = Some (\<tau>, l)" for c call \<tau> l
  proof (cases "(c, call) \<in> sent s")
    case True
    then have "l = c \<and> (1 < n \<longrightarrow> chosen n s \<tau> c)"
      using bspec [OF assms(1) [unfolded leaders_ok_def], of "(c, call)"] that(2) by simp
    then show ?thesis using chosen_mono [OF assms(2)] by blast
  qed (rule new [OF that(1) _ that(2)])
  then show ?thesis unfolding leaders_ok_def by auto
qed

text \<open>A candidate or leader that was one before, in the same term, with no more votes.\<close>

lemma count_keep:
  assumes "cluster_ok n s" and "calls_ok n t" and "grows s t"
    and "\<And>d v args. (d, CallRequestVote v args) \<in># running t \<Longrightarrow> (d, CallRequestVote v args) \<in> sent s \<Longrightarrow>
      (d, CallRequestVote v args) \<in># running s"
    and "0 \<le> c" "c < int n" and "state (nodes s c) \<noteq> Follower" and "currentTerm (nodes t c) = currentTerm (nodes s c)"
    and "voteCount (nodes t c) \<le> voteCount (nodes s c)"
  shows "voteCount (nodes t c) \<le> 1 + int (card (counted t (currentTerm (nodes t c)) c)) \<and>
     (1 < n \<longrightarrow> campaigned t (currentTerm (nodes t c)) c)"
proof -
  let ?\<tau> = "currentTerm (nodes s c)"
  have s: "voteCount (nodes s c) \<le> 1 + int (card (counted s ?\<tau> c))" "1 < n \<longrightarrow> campaigned s ?\<tau> c"
    using cluster_okD(4) [OF assms(1)] assms(5-7) by (auto simp: count_ok_def)
  have "card (counted s ?\<tau> c) \<le> card (counted t ?\<tau> c)"
    by (rule card_mono [OF counted_finite [OF assms(2)] counted_mono [OF assms(3,4)]])
  with s assms(8,9) show ?thesis using campaigned_mono [OF assms(3)] by auto
qed

lemma calls_shrink:
  assumes "calls_ok n s" and "sent t = sent s" and "running t \<subseteq># running s" and "fst ` answers t \<subseteq> sent s"
  shows "calls_ok n t"
  unfolding calls_ok_def assms(2)
proof (intro conjI)
  show "set_mset (running t) \<subseteq> sent s" using mset_subset_eqD [OF assms(3)] calls_okD(4) [OF assms(1)] by blast
  show "\<forall>c v args. count (running t) (c, CallRequestVote v args) \<le> 1"
    using calls_okD(5) [OF assms(1)] mset_subset_eq_count [OF assms(3)] le_trans by blast
qed (use assms(1,4) in \<open>simp_all add: calls_ok_def\<close>)

text \<open>Only peer \<open>c\<close> changes: its own count is all there is to check.\<close>

lemma count_step:
  assumes "cluster_ok n s" and "calls_ok n t" and "grows s t"
    and "\<And>d v args. (d, CallRequestVote v args) \<in># running t \<Longrightarrow> (d, CallRequestVote v args) \<in> sent s \<Longrightarrow>
      (d, CallRequestVote v args) \<in># running s"
    and "nodes t = (nodes s)(c := rf')"
    and "0 \<le> c \<Longrightarrow> c < int n \<Longrightarrow> state rf' \<noteq> Follower \<Longrightarrow>
      voteCount rf' \<le> 1 + int (card (counted t (currentTerm rf') c)) \<and> (1 < n \<longrightarrow> campaigned t (currentTerm rf') c)"
  shows "count_ok n t"
  unfolding count_ok_def
proof (intro allI impI)
  fix d assume d: "0 \<le> d" "d < int n" "state (nodes t d) \<noteq> Follower"
  show "voteCount (nodes t d) \<le> 1 + int (card (counted t (currentTerm (nodes t d)) d)) \<and>
    (1 < n \<longrightarrow> campaigned t (currentTerm (nodes t d)) d)"
  proof (cases "d = c")
    case False
    then show ?thesis using count_keep [OF assms(1-4) d(1,2)] d(3) assms(5) by simp
  qed (use assms(5,6) d in simp)
qed

text \<open>One peer changes without campaigning; at most a reply is added, or goroutines end.\<close>

lemma quiet_step:
  assumes ok: "cluster_ok n s" and t: "nodes t = (nodes s)(i := rf')" "sent t = sent s" "running t \<subseteq># running s"
    and i: "0 \<le> i" and rf': "wf_raft rf'" "vote_le (nodes s i) rf'" "no_campaign (nodes s i) rf'"
    and ans: "answers s \<subseteq> answers t" "fst ` answers t \<subseteq> sent s"
    and new: "\<And>v \<tau> c. granted t v \<tau> c \<Longrightarrow> \<not> granted s v \<tau> c \<Longrightarrow> v = i \<and> \<tau> = currentTerm rf' \<and> votedFor rf' = c"
  shows "cluster_ok n t"
proof -
  note s = cluster_okD [OF ok]
  have g: "grows s t" using ans(1) rf'(2) by (simp add: grows_def t)
  have run: "rpc \<in># running s" if "rpc \<in># running t" for rpc using mset_subset_eqD [OF t(3) that] .
  have nodes: "nodes_ok n t"
    using s(1) rf' by (auto simp: nodes_ok_def t vote_le_def)
  have calls: "calls_ok n t" by (rule calls_shrink [OF s(2) t(2,3) ans(2)])
  have votes: "votes_ok t"
  proof (rule votes_step [OF s(3,2) g])
    fix v \<tau> c assume "voted t v \<tau> c" and "\<not> voted s v \<tau> c"
    then have "granted t v \<tau> c" "\<not> granted s v \<tau> c"
      by (auto simp: voted_def campaigned_def t(2))
    then show "\<tau> = currentTerm (nodes t v) \<and> votedFor (nodes t v) = c" using new by (auto simp: t(1))
  qed
  have "count_ok n t"
  proof (rule count_step [OF ok calls g run t(1)])
    assume "i < int n" and "state rf' \<noteq> Follower"
    then have "state (nodes s i) \<noteq> Follower" "currentTerm (nodes t i) = currentTerm (nodes s i)"
      "voteCount (nodes t i) \<le> voteCount (nodes s i)" using rf'(3) by (auto simp: t(1) no_campaign_def)
    from count_keep [OF ok calls g run i \<open>i < int n\<close> this]
    show "voteCount rf' \<le> 1 + int (card (counted t (currentTerm rf') i)) \<and> (1 < n \<longrightarrow> campaigned t (currentTerm rf') i)"
      by (simp add: t(1))
  qed
  moreover have "leaders_ok n t" by (rule leaders_step [OF s(5) g]) (simp add: t(2))
  ultimately show ?thesis using nodes calls votes by (intro cluster_okI)
qed

section \<open>Counting a vote\<close>

lemma call_retry_in: "call_retry k outcomes = Some r \<Longrightarrow> Some r \<in> set outcomes"
  by (induction k outcomes rule: call_retry.induct) auto

lemma sendRequestVote_vote:
  assumes "wf_raft rf" and "\<not> no_campaign rf (sendRequestVote outcomes args rf)"
  obtains r where "Some r \<in> set outcomes" "VoteGranted r" "state rf = Candidate" "rva_Term args = currentTerm rf"
    "state (sendRequestVote outcomes args rf) = Candidate"
    "currentTerm (sendRequestVote outcomes args rf) = currentTerm rf"
    "voteCount (sendRequestVote outcomes args rf) = voteCount rf + 1"
proof (cases rule: sendRequestVote_cases [of outcomes args rf])
  case idle
  then show thesis using assms(2) by simp
next
  case (newer u)
  then show thesis using assms(2) convertToFollower_keeps [OF assms(1) newer] by simp
next
  case (vote r)
  then show thesis using call_retry_in [OF vote(1)] by (intro that [of r]) simp_all
next
  case (win r)
  then show thesis using call_retry_in [OF win(1)] by (intro that [of r]) simp_all
qed

text \<open>When the goroutine for \<open>v\<close> ends with a granted vote, \<open>v\<close> is newly counted.\<close>

lemma counted_one_more:
  assumes "calls_ok n s" and "rpc = (c, CallRequestVote v args)" "rpc \<in># running s"
    and "(rpc, VoteReply r) \<in> answers s" "VoteGranted r"
    and "sent t = sent s" "running t = running s - {#rpc#}" "answers t = answers s"
  shows "card (counted s (rva_Term args) c) + 1 \<le> card (counted t (rva_Term args) c)"
proof -
  let ?\<tau> = "rva_Term args"
  have sent: "rpc \<in> sent s" using calls_okD(4) [OF assms(1,3)] .
  have "count (running s) rpc \<le> 1" using calls_okD(5) [OF assms(1)] assms(2) by simp
  then have "rpc \<notin># running t" by (simp add: assms(7) not_in_iff)
  then have new: "v \<in> counted t ?\<tau> c"
    unfolding counted_def using sent assms(2,4,5,6,8) by auto
  have old: "v \<notin> counted s ?\<tau> c"
  proof
    assume "v \<in> counted s ?\<tau> c"
    then obtain args' where a: "(c, CallRequestVote v args') \<in> sent s" "rva_Term args' = ?\<tau>"
      "(c, CallRequestVote v args') \<notin># running s" by (auto simp: counted_def)
    then have "args' = args" using calls_okD(3) [OF assms(1) a(1)] sent assms(2) by simp
    with a(3) assms(2,3) show False by simp
  qed
  have "counted s ?\<tau> c \<subseteq> counted t ?\<tau> c"
    unfolding counted_def assms(6-8) by (auto dest: in_diffD)
  then have "insert v (counted s ?\<tau> c) \<subseteq> counted t ?\<tau> c" using new by blast
  moreover have "finite (counted t ?\<tau> c)"
  proof (rule finite_subset)
    show "counted t ?\<tau> c \<subseteq> {0..<int n}"
      using calls_okD(1) [OF assms(1)] by (fastforce simp: counted_def assms(6))
  qed simp
  ultimately have "card (insert v (counted s ?\<tau> c)) \<le> card (counted t ?\<tau> c)" by (rule card_mono [rotated])
  then show ?thesis using old counted_finite [OF assms(1), of ?\<tau> c] by simp
qed

lemma finish_vote_step:
  assumes ok: "cluster_ok n s" and rpc: "rpc = (c, CallRequestVote v args)" "rpc \<in># running s"
    and poss: "possible (answers s) rpc VoteReply outcomes"
  shows "cluster_ok n ((set_node c (sendRequestVote outcomes args (nodes s c)) s)\<lparr>running := running s - {#rpc#}\<rparr>)"
    (is "cluster_ok n ?t")
proof -
  let ?rf = "nodes s c" and ?rf' = "sendRequestVote outcomes args (nodes s c)"
  note s = cluster_okD [OF ok]
  have c: "0 \<le> c" "c < int n" using calls_okD(1) [OF s(2)] calls_okD(4) [OF s(2) rpc(2)] rpc(1) by blast+
  have wf: "wf_raft ?rf" using s(1) c(1) by (simp add: nodes_ok_def)
  note keep = sendRequestVote_keeps [OF wf, of outcomes args]
  have ans: "fst ` answers ?t \<subseteq> sent s" using calls_okD(6) [OF s(2)] by auto
  have run: "running ?t \<subseteq># running s" by simp
  show ?thesis
  proof (cases "no_campaign ?rf ?rf'")
    case True
    show ?thesis
      by (rule quiet_step [OF ok _ _ run c(1) _ _ True _ ans]) (use keep in \<open>auto simp: granted_def\<close>)
  next
    case False
    from wf False obtain r where r: "Some r \<in> set outcomes" "VoteGranted r" "state ?rf = Candidate"
      "rva_Term args = currentTerm ?rf" "state ?rf' = Candidate" "currentTerm ?rf' = currentTerm ?rf"
      "voteCount ?rf' = voteCount ?rf + 1" by (rule sendRequestVote_vote)
    have g: "grows s ?t" using keep by (simp add: grows_def)
    have "(rpc, VoteReply r) \<in> answers s" using poss r(1) by (simp add: possible_def)
    from counted_one_more [OF s(2) rpc this r(2), of ?t]
    have more: "card (counted s (currentTerm ?rf) c) + 1 \<le> card (counted ?t (currentTerm ?rf) c)" by (simp add: r(4))
    have "voteCount ?rf \<le> 1 + int (card (counted s (currentTerm ?rf) c))" "1 < n \<longrightarrow> campaigned s (currentTerm ?rf) c"
      using s(4) c r(3) by (auto simp: count_ok_def)
    then have cc: "voteCount ?rf' \<le> 1 + int (card (counted ?t (currentTerm ?rf') c)) \<and>
        (1 < n \<longrightarrow> campaigned ?t (currentTerm ?rf') c)"
      using more campaigned_mono [OF g] by (auto simp: r(6,7))
    have calls: "calls_ok n ?t" by (rule calls_shrink [OF s(2) _ run ans]) simp
    have "count_ok n ?t"
      by (rule count_step [OF ok calls g _ _ cc]) (use in_diffD in fastforce)+
    moreover have "nodes_ok n ?t" using s(1) keep by (auto simp: nodes_ok_def vote_le_def)
    moreover have "votes_ok ?t"
      by (rule votes_step [OF s(3,2) g]) (simp add: voted_def granted_def campaigned_def)
    moreover have "leaders_ok n ?t" by (rule leaders_step [OF s(5) g]) simp
    ultimately show ?thesis using calls by (intro cluster_okI)
  qed
qed

section \<open>Campaigning and leading\<close>

lemma heartbeat_call_leader:
  "heartbeat_call rf i = Inr call \<Longrightarrow> leader_call call = Some (currentTerm rf, me rf) \<and> callee call = i"
  by (auto simp: heartbeat_call_def Let_def go_bind_eq_Inr_iff split: if_splits)

lemma heartbeat_loop_leader:
  "heartbeat_loop rf is = Inr calls \<Longrightarrow> call \<in> set calls \<Longrightarrow>
   leader_call call = Some (currentTerm rf, me rf) \<and> callee call \<in> set is"
proof (induction rf "is" arbitrary: calls rule: heartbeat_loop.induct)
  case (2 rf i "is")
  then obtain c cs where "heartbeat_call rf i = Inr c" "heartbeat_loop rf is = Inr cs" "calls = c # cs"
    by (auto simp: go_bind_eq_Inr_iff)
  then show ?case using 2(1) 2(3) heartbeat_call_leader [of rf i c] by auto
qed simp

lemma set_other_peers: "set (other_peers rf) = {i. 0 \<le> i \<and> i < int (peers rf) \<and> i \<noteq> me rf}"
proof -
  have "int ` {0..<peers rf} = {0..<int (peers rf)}" by (simp add: image_int_atLeastLessThan)
  then show ?thesis by (auto simp: other_peers_def)
qed

lemma broadcast_leader:
  assumes "broadcastHeartbeat rf = Inr calls" and "call \<in> set calls"
  shows "state rf = Leader \<and> leader_call call = Some (currentTerm rf, me rf) \<and>
    0 \<le> callee call \<and> callee call < int (peers rf) \<and> callee call \<noteq> me rf"
  using assms heartbeat_loop_leader [of rf "other_peers rf" calls call]
  by (auto simp: broadcastHeartbeat_def set_other_peers split: if_splits)

text \<open>A step of the ticker: a campaign, a round of heartbeats, or nothing that concerns elections.\<close>

lemma ticker_step_cases:
  assumes "ticker_step timeout rf = Inr (calls, rf')" and "log rf \<noteq> []"
  obtains (campaign) args where "state rf \<noteq> Leader" "rva_Term args = currentTerm rf + 1" "CandidateId args = me rf"
      "calls = map (\<lambda>i. CallRequestVote i args) (other_peers rf)" "state rf' = Candidate"
      "currentTerm rf' = currentTerm rf + 1" "votedFor rf' = me rf" "voteCount rf' = 1"
  | (lead) "elected rf" "state rf' = Leader" "currentTerm rf' = currentTerm rf" "voteCount rf' = voteCount rf"
      "\<And>call. call \<in> set calls \<Longrightarrow> leader_call call = Some (currentTerm rf, me rf) \<and>
         0 \<le> callee call \<and> callee call < int (peers rf) \<and> callee call \<noteq> me rf"
  | (quiet) "calls = []" "no_campaign rf rf'"
proof (cases "ticker_pc rf")
  case TLoop
  then show thesis using assms(1) by (intro quiet) (auto simp: ticker_step_def no_campaign_def split: if_splits)
next
  case (TSelect s)
  then show thesis using assms(1) by (intro quiet) (auto simp: ticker_step_def no_campaign_def split: if_splits)
next
  case TExit
  then show thesis using assms(1) by (intro quiet) (auto simp: ticker_step_def no_campaign_def)
next
  case TCandidate
  then obtain r where r: "convertToCandidate rf = Inr (calls, r)" "rf' = r\<lparr>ticker_pc := TLoop\<rparr>"
    using assms(1) by (auto simp: ticker_step_def go_bind_eq_Inr_iff)
  show thesis
  proof (cases "state rf = Leader")
    case True
    then show thesis using r by (intro quiet) (auto simp: convertToCandidate_def no_campaign_def)
  next
    case False
    show thesis using r convertToCandidate_eq [OF False assms(2)] by (intro campaign [OF False]) auto
  qed
next
  case TLeader
  then obtain r where r: "convertToLeader rf = Inr (calls, r)" "rf' = r\<lparr>ticker_pc := TLoop\<rparr>"
    using assms(1) by (auto simp: ticker_step_def go_bind_eq_Inr_iff)
  show thesis
  proof (cases "state rf = Candidate")
    case True
    let ?rf = "rf\<lparr>state := Leader, nextIndex := replicate (peers rf) (GetLastIndex rf + 1), matchIndex := replicate (peers rf) 0\<rparr>"
    have "broadcastHeartbeat ?rf = Inr calls" "r = ?rf"
      using r(1) True by (auto simp: convertToLeader_def Let_def go_bind_eq_Inr_iff)
    then show thesis
      using r(2) True TLeader broadcast_leader [of ?rf calls] by (intro lead) (auto simp: elected_def)
  qed (use r in \<open>intro quiet, auto simp: convertToLeader_def no_campaign_def\<close>)
next
  case TBroadcast
  then have b: "broadcastHeartbeat rf = Inr calls" "rf' = rf\<lparr>ticker_pc := TLoop\<rparr>"
    using assms(1) by (auto simp: ticker_step_def go_bind_eq_Inr_iff)
  show thesis
  proof (cases "state rf = Leader")
    case True
    then show thesis using b broadcast_leader [OF b(1)] by (intro lead) (auto simp: elected_def)
  next
    case False
    then show thesis using b by (intro quiet) (auto simp: broadcastHeartbeat_def no_campaign_def)
  qed
qed

lemma count_mset_distinct: "distinct xs \<Longrightarrow> count (mset xs) x \<le> 1"
  by (cases "x \<in> set xs") (simp_all add: distinct_count_atmost_1)

lemma distinct_other_peers: "distinct (other_peers rf)"
  by (simp add: other_peers_def distinct_map)

lemma count_map_calls:
  assumes "distinct is"
  shows "count (mset (map (Pair c) (map (\<lambda>i. CallRequestVote i args) is))) rpc \<le> 1"
proof -
  have "distinct (map (Pair c) (map (\<lambda>i. CallRequestVote i args) is))"
    using assms by (simp add: distinct_map inj_on_def)
  then show ?thesis by (rule count_mset_distinct)
qed

lemma lead_step:
  assumes ok: "cluster_ok n s" and c: "0 \<le> c" "c < int n" and rf': "wf_raft rf'" "vote_le (nodes s c) rf'"
    and lead: "elected (nodes s c)" "currentTerm rf' = currentTerm (nodes s c)" "voteCount rf' = voteCount (nodes s c)"
    and calls: "\<And>call. call \<in> set calls \<Longrightarrow> leader_call call = Some (currentTerm (nodes s c), c) \<and>
         0 \<le> callee call \<and> callee call < int n \<and> callee call \<noteq> c"
  shows "cluster_ok n ((set_node c rf' s)\<lparr>sent := sent s \<union> Pair c ` set calls,
       running := running s + mset (map (Pair c) calls)\<rparr>)" (is "cluster_ok n ?t")
proof -
  note s = cluster_okD [OF ok]
  have g: "grows s ?t" using rf'(2) by (auto simp: grows_def)
  have rv: "(d, CallRequestVote v args) \<notin> Pair c ` set calls" for d v args using calls by fastforce
  have vs: "voted ?t v \<tau> d = voted s v \<tau> d" for v \<tau> d
    using rv by (auto simp: voted_def granted_def campaigned_def)
  have run: "(d, CallRequestVote v args) \<in># running ?t \<longleftrightarrow> (d, CallRequestVote v args) \<in># running s"
    "count (running ?t) (d, CallRequestVote v args) = count (running s) (d, CallRequestVote v args)" for d v args
    using rv [of d v args] by (auto simp: count_eq_zero_iff)
  have co: "calls_ok n ?t"
    unfolding calls_ok_def
  proof (intro conjI)
    show "\<forall>(d, call) \<in> sent ?t. 0 \<le> d \<and> d < int n \<and> 0 \<le> callee call \<and> callee call < int n \<and> callee call \<noteq> d"
      using calls calls_okD(1) [OF s(2)] c by auto
    show "\<forall>d v args. (d, CallRequestVote v args) \<in> sent ?t \<longrightarrow> CandidateId args = d"
      using rv calls_okD(2) [OF s(2)] by auto
    show "\<forall>d v args args'. (d, CallRequestVote v args) \<in> sent ?t \<longrightarrow> (d, CallRequestVote v args') \<in> sent ?t \<longrightarrow>
        rva_Term args = rva_Term args' \<longrightarrow> args = args'"
      using rv calls_okD(3) [OF s(2)] by auto
    show "set_mset (running ?t) \<subseteq> sent ?t" using calls_okD(4) [OF s(2)] by auto
    show "\<forall>d v args. count (running ?t) (d, CallRequestVote v args) \<le> 1" using run(2) calls_okD(5) [OF s(2)] by metis
    show "fst ` answers ?t \<subseteq> sent ?t" using calls_okD(6) [OF s(2)] by auto
  qed
  have "votes_ok ?t" by (rule votes_step [OF s(3,2) g]) (use vs in blast)
  moreover have "nodes_ok n ?t" using s(1) rf' by (auto simp: nodes_ok_def vote_le_def)
  moreover have "count_ok n ?t"
  proof (rule count_step [OF ok co g])
    have "state (nodes s c) \<noteq> Follower" using lead(1) by (auto simp: elected_def)
    from count_keep [OF ok co g _ c this] run(1) lead(2,3)
    show "voteCount rf' \<le> 1 + int (card (counted ?t (currentTerm rf') c)) \<and> (1 < n \<longrightarrow> campaigned ?t (currentTerm rf') c)"
      by simp
  qed (use run(1) in auto)
  moreover have "leaders_ok n ?t"
  proof (rule leaders_step [OF s(5) g])
    fix d call \<tau> l assume "(d, call) \<in> sent ?t" "(d, call) \<notin> sent s" "leader_call call = Some (\<tau>, l)"
    then have "d = c" "\<tau> = currentTerm (nodes s c)" "l = c" using calls by force+
    then show "l = d \<and> (1 < n \<longrightarrow> chosen n ?t \<tau> d)"
      using elected_chosen [OF ok c _ lead(1)] chosen_mono [OF g] by blast
  qed
  ultimately show ?thesis using co by (intro cluster_okI)
qed

lemma campaign_step:
  fixes args :: RequestVoteArgs
  assumes ok: "cluster_ok n s" and c: "0 \<le> c" "c < int n" and rf': "wf_raft rf'" "vote_le (nodes s c) rf'"
    and args: "rva_Term args = currentTerm (nodes s c) + 1" "CandidateId args = c"
    and calls: "calls = map (\<lambda>i. CallRequestVote i args) (other_peers (nodes s c))"
    and camp: "currentTerm rf' = currentTerm (nodes s c) + 1" "votedFor rf' = c" "voteCount rf' = 1"
  shows "cluster_ok n ((set_node c rf' s)\<lparr>sent := sent s \<union> Pair c ` set calls,
       running := running s + mset (map (Pair c) calls)\<rparr>)" (is "cluster_ok n ?t")
proof -
  note s = cluster_okD [OF ok]
  let ?\<tau> = "rva_Term args"
  have ids: "me (nodes s c) = c" "peers (nodes s c) = n" using s(1) c(1) by (auto simp: nodes_ok_def)
  have set: "set calls = (\<lambda>i. CallRequestVote i args) ` {i. 0 \<le> i \<and> i < int n \<and> i \<noteq> c}"
    by (auto simp: calls set_other_peers ids)
  have g: "grows s ?t" using rf'(2) by (auto simp: grows_def)
  have fresh: "(c, CallRequestVote w a) \<notin> sent s" if "rva_Term a = ?\<tau>" for w a
  proof
    assume "(c, CallRequestVote w a) \<in> sent s"
    then have "voted s c ?\<tau> c" using that by (auto simp: voted_def campaigned_def)
    then show False using votes_okD(1) [OF s(3)] args(1) by fastforce
  qed
  have one: "count (running ?t) (d, CallRequestVote v a) \<le> 1" for d v a
  proof (cases "(d, CallRequestVote v a) \<in> Pair c ` set calls")
    case True
    then have "(d, CallRequestVote v a) \<notin># running s" using fresh calls_okD(4) [OF s(2)] by (auto simp: set)
    then have "count (running s) (d, CallRequestVote v a) = 0" by (simp add: count_eq_zero_iff)
    then show ?thesis
      using count_map_calls [OF distinct_other_peers [of "nodes s c"], of c args "(d, CallRequestVote v a)"]
      by (simp add: calls)
  next
    case False
    then have "count (mset (map (Pair c) calls)) (d, CallRequestVote v a) = 0" by (auto simp: count_eq_zero_iff)
    then show ?thesis using calls_okD(5) [OF s(2), of d v a] by simp
  qed
  have co: "calls_ok n ?t"
    unfolding calls_ok_def
  proof (intro conjI)
    show "\<forall>(d, call) \<in> sent ?t. 0 \<le> d \<and> d < int n \<and> 0 \<le> callee call \<and> callee call < int n \<and> callee call \<noteq> d"
      using calls_okD(1) [OF s(2)] c by (auto simp: set)
    show "\<forall>d v a. (d, CallRequestVote v a) \<in> sent ?t \<longrightarrow> CandidateId a = d"
      using calls_okD(2) [OF s(2)] args(2) by (auto simp: set)
    show "\<forall>d v a a'. (d, CallRequestVote v a) \<in> sent ?t \<longrightarrow> (d, CallRequestVote v a') \<in> sent ?t \<longrightarrow>
        rva_Term a = rva_Term a' \<longrightarrow> a = a'"
      using calls_okD(3) [OF s(2)] fresh by (auto simp: set)
    show "set_mset (running ?t) \<subseteq> sent ?t" using calls_okD(4) [OF s(2)] by auto
    show "\<forall>d v a. count (running ?t) (d, CallRequestVote v a) \<le> 1" using one by blast
    show "fst ` answers ?t \<subseteq> sent ?t" using calls_okD(6) [OF s(2)] by auto
  qed
  have "votes_ok ?t"
  proof (rule votes_step [OF s(3,2) g])
    fix v \<tau> d assume "voted ?t v \<tau> d" and "\<not> voted s v \<tau> d"
    then have "v = c \<and> d = c \<and> \<tau> = ?\<tau>" by (auto simp: voted_def granted_def campaigned_def set)
    then show "\<tau> = currentTerm (nodes ?t v) \<and> votedFor (nodes ?t v) = d" by (simp add: camp args(1))
  qed
  moreover have "nodes_ok n ?t" using s(1) rf' by (auto simp: nodes_ok_def vote_le_def)
  moreover have "count_ok n ?t"
  proof (rule count_step [OF ok co g, of c rf'])
    show "nodes ?t = (nodes s)(c := rf')" by simp
    show "(d, CallRequestVote v a) \<in># running s"
      if "(d, CallRequestVote v a) \<in># running ?t" "(d, CallRequestVote v a) \<in> sent s" for d v a
      using that fresh by (auto simp: set)
    have "campaigned ?t ?\<tau> c" if "1 < n"
    proof -
      have "(if c = 0 then 1 else 0) \<in> {i. 0 \<le> i \<and> i < int n \<and> i \<noteq> c}" using that c by auto
      then show ?thesis unfolding campaigned_def by (auto simp: set)
    qed
    then show "voteCount rf' \<le> 1 + int (card (counted ?t (currentTerm rf') c)) \<and> (1 < n \<longrightarrow> campaigned ?t (currentTerm rf') c)"
      by (simp add: camp args(1))
  qed
  moreover have "leaders_ok n ?t" by (rule leaders_step [OF s(5) g]) (auto simp: set)
  ultimately show ?thesis using co by (intro cluster_okI)
qed

section \<open>Every step keeps the invariant\<close>

lemma cluster_ok_init: "cluster_ok n (cluster_init n)"
  by (simp add: cluster_ok_def nodes_ok_def calls_ok_def votes_ok_def count_ok_def leaders_ok_def cluster_init_def
      wf_raft_fresh Make_fresh voted_def granted_def campaigned_def)

text \<open>A handler changes the peer called and adds its reply.\<close>

lemma handler_step:
  assumes ok: "cluster_ok n s" and rpc: "rpc = (c, call)" "rpc \<in> sent s" "callee call = v"
    and rf': "wf_raft rf' \<and> vote_le (nodes s v) rf' \<and> no_campaign (nodes s v) rf'"
    and vote: "\<And>w args r. call = CallRequestVote w args \<Longrightarrow> reply = VoteReply r \<Longrightarrow> VoteGranted r \<Longrightarrow>
      rva_Term args = currentTerm rf' \<and> votedFor rf' = CandidateId args"
  shows "cluster_ok n ((set_node v rf' s)\<lparr>answers := insert (rpc, reply) (answers s)\<rparr>)" (is "cluster_ok n ?t")
proof -
  note s = cluster_okD [OF ok]
  have v: "0 \<le> v" using calls_okD(1) [OF s(2)] rpc by blast
  show ?thesis
  proof (rule quiet_step [OF ok _ _ _ v])
    fix w \<tau> d assume "granted ?t w \<tau> d" and "\<not> granted s w \<tau> d"
    then obtain args r where "rpc = (d, CallRequestVote w args)" "reply = VoteReply r" "VoteGranted r" "rva_Term args = \<tau>"
      by (auto simp: granted_def)
    then show "w = v \<and> \<tau> = currentTerm rf' \<and> votedFor rf' = d"
      using vote rpc calls_okD(2) [OF s(2)] by auto
  qed (use rf' rpc(2) calls_okD(6) [OF s(2)] in auto)
qed

lemma local_step:
  assumes "cluster_ok n s" and "0 \<le> c" and "wf_raft rf' \<and> vote_le (nodes s c) rf' \<and> no_campaign (nodes s c) rf'"
    and "R \<subseteq># running s"
  shows "cluster_ok n ((set_node c rf' s)\<lparr>running := R\<rparr>)"
  by (rule quiet_step [OF assms(1) _ _ _ assms(2)])
    (use assms(3,4) calls_okD(6) [OF cluster_okD(2) [OF assms(1)]] in \<open>auto simp: granted_def\<close>)

lemma local_step':
  assumes "cluster_ok n s" and "0 \<le> c" and "wf_raft rf' \<and> vote_le (nodes s c) rf' \<and> no_campaign (nodes s c) rf'"
  shows "cluster_ok n (set_node c rf' s)"
proof -
  have eq: "(set_node c rf' s)\<lparr>running := running s\<rparr> = set_node c rf' s" by (simp add: set_node_def)
  show ?thesis using local_step [OF assms, of "running s"] unfolding eq by simp
qed

lemma tick_step:
  assumes ok: "cluster_ok n s" and c: "0 \<le> c" "c < int n" and tick: "ticker_step timeout (nodes s c) = Inr (calls, rf')"
  shows "cluster_ok n ((set_node c rf' s)\<lparr>sent := sent s \<union> Pair c ` set calls,
       running := running s + mset (map (Pair c) calls)\<rparr>)"
proof -
  have rf: "wf_raft (nodes s c)" "me (nodes s c) = c" "peers (nodes s c) = n"
    using cluster_okD(1) [OF ok] c(1) by (auto simp: nodes_ok_def)
  have keep: "wf_raft rf'" "vote_le (nodes s c) rf'" using ticker_step_keeps [OF rf(1) tick] by auto
  from tick wf_raftD(1) [OF rf(1)] show ?thesis
  proof (cases rule: ticker_step_cases)
    case (campaign args)
    then show ?thesis
      by (intro campaign_step [OF ok c keep, of args]) (simp_all add: rf)
  next
    case lead
    then show ?thesis by (intro lead_step [OF ok c keep]) (auto simp: rf)
  next
    case quiet
    have eq: "(set_node c rf' s)\<lparr>sent := sent s, running := running s\<rparr> = set_node c rf' s" by (simp add: set_node_def)
    show ?thesis using local_step' [OF ok c(1)] keep quiet by (simp add: eq)
  qed
qed

lemma restart_step:
  assumes ok: "cluster_ok n s" and c: "0 \<le> c"
  shows "cluster_ok n ((set_node c (Make n c (Persister_Copy (persister (nodes s c)))) s)
       \<lparr>running := filter_mset (\<lambda>rpc. fst rpc \<noteq> c) (running s)\<rparr>)"
proof (rule local_step [OF ok c])
  have rf: "wf_raft (nodes s c)" "me (nodes s c) = c" "peers (nodes s c) = n"
    using cluster_okD(1) [OF ok] c(1) by (auto simp: nodes_ok_def)
  note wf = wf_raftD [OF rf(1)]
  note m = Make_fields [OF wf(4,1), of "Persister_Copy (persister (nodes s c))" n c]
  show "wf_raft (Make n c (Persister_Copy (persister (nodes s c)))) \<and>
    vote_le (nodes s c) (Make n c (Persister_Copy (persister (nodes s c)))) \<and>
    no_campaign (nodes s c) (Make n c (Persister_Copy (persister (nodes s c))))"
    using wf_raft_restart [OF rf(1) c] m rf by (simp add: vote_le_def no_campaign_def)
qed simp

lemma cluster_step_ok:
  assumes "cluster_step zero n s t" and ok: "cluster_ok n s"
  shows "cluster_ok n t"
proof -
  have wf: "wf_raft (nodes s i)" if "0 \<le> i" for i using cluster_okD(1) [OF ok] that by (simp add: nodes_ok_def)
  have pos: "0 \<le> c" "0 \<le> callee call" if "(c, call) \<in> sent s" for c call
    using calls_okD(1) [OF cluster_okD(2) [OF ok] that] by auto
  have run: "rpc \<in> sent s" if "rpc \<in># running s" for rpc using calls_okD(4) [OF cluster_okD(2) [OF ok] that] .
  from assms(1) show ?thesis
  proof cases
    case (handle_vote rpc c v args r rf')
    then have w: "wf_raft (nodes s v)" using pos(2) [of c "CallRequestVote v args"] wf by simp
    have "rva_Term args = currentTerm rf' \<and> votedFor rf' = CandidateId args" if "VoteGranted r"
      using handle_vote(4) that unfolding RequestVote_eq [OF wf_raftD(1) [OF w]]
      by (auto simp: max_def grants_def split: if_splits)
    then show ?thesis
      using handle_vote RequestVote_keeps [OF w handle_vote(4)]
      by (auto intro!: handler_step [OF ok, where call = "CallRequestVote v args"])
  next
    case (handle_append rpc c v args r rf')
    then have "wf_raft (nodes s v)" using pos(2) [of c "CallAppendEntries v args"] wf by simp
    then show ?thesis
      using handle_append AppendEntries_keeps [OF _ handle_append(4)]
      by (auto intro!: handler_step [OF ok, where call = "CallAppendEntries v args"])
  next
    case (handle_snapshot rpc c v args r rf')
    then have "wf_raft (nodes s v)" using pos(2) [of c "CallInstallSnapshot v args"] wf by simp
    then show ?thesis
      using handle_snapshot InstallSnapshot_keeps [OF _ handle_snapshot(4)]
      by (auto intro!: handler_step [OF ok, where call = "CallInstallSnapshot v args"])
  next
    case (finish_vote rpc c v args outcomes)
    then show ?thesis using finish_vote_step [OF ok] by simp
  next
    case (finish_append rpc c v args outcomes rf')
    then have c: "0 \<le> c" using run pos(1) by blast
    then show ?thesis
      using finish_append sendAppendEntries_keeps [OF wf [OF c] finish_append(5)] by (auto intro!: local_step [OF ok c])
  next
    case (finish_snapshot rpc c v args outcomes rf')
    then have c: "0 \<le> c" using run pos(1) by blast
    then show ?thesis
      using finish_snapshot sendInstallSnapshot_keeps [OF wf [OF c] finish_snapshot(5)] by (auto intro!: local_step [OF ok c])
  next
    case (tick c timeout calls rf')
    then show ?thesis using tick_step [OF ok] by simp
  next
    case (apply_step c rf')
    then show ?thesis using local_step' [OF ok _ applyLogEntry_step_keeps [OF wf]] by simp
  next
    case (start c cmd res rf')
    then show ?thesis using local_step' [OF ok _ Start_keeps [OF wf]] by simp
  next
    case (take_snapshot c idx snap rf')
    then show ?thesis using local_step' [OF ok _ Raft_Snapshot_keeps [OF wf]] by simp
  next
    case (kill c)
    then show ?thesis using local_step' [OF ok _ Kill_keeps [OF wf]] by simp
  next
    case (restart c)
    then show ?thesis using restart_step [OF ok] by simp
  qed
qed

lemma set_node_grows:
  "nodes t = (nodes s)(c := rf') \<Longrightarrow> sent s \<subseteq> sent t \<Longrightarrow> answers s \<subseteq> answers t \<Longrightarrow> vote_le (nodes s c) rf' \<Longrightarrow> grows s t"
  by (simp add: grows_def)

lemma cluster_step_grows:
  assumes "cluster_step zero n s t" and ok: "cluster_ok n s"
  shows "grows s t"
proof -
  have wf: "wf_raft (nodes s i)" "me (nodes s i) = i" "peers (nodes s i) = n" if "0 \<le> i" for i
    using cluster_okD(1) [OF ok] that by (auto simp: nodes_ok_def)
  have pos: "0 \<le> c \<and> 0 \<le> callee call" if "(c, call) \<in> sent s" for c call
    using calls_okD(1) [OF cluster_okD(2) [OF ok] that] by auto
  have run: "0 \<le> c" if "(c, call) \<in># running s" for c call
    using pos calls_okD(4) [OF cluster_okD(2) [OF ok] that] by blast
  from assms(1) show ?thesis
  proof cases
    case (handle_vote rpc c v args r rf')
    with pos [of c "CallRequestVote v args"] show ?thesis
      using RequestVote_keeps [OF wf(1) handle_vote(4)] by (intro set_node_grows) auto
  next
    case (handle_append rpc c v args r rf')
    with pos [of c "CallAppendEntries v args"] show ?thesis
      using AppendEntries_keeps [OF wf(1) handle_append(4)] by (intro set_node_grows) auto
  next
    case (handle_snapshot rpc c v args r rf')
    with pos [of c "CallInstallSnapshot v args"] show ?thesis
      using InstallSnapshot_keeps [OF wf(1) handle_snapshot(4)] by (intro set_node_grows) auto
  next
    case (finish_vote rpc c v args outcomes)
    then show ?thesis using sendRequestVote_keeps [OF wf(1) [OF run]] by (intro set_node_grows) auto
  next
    case (finish_append rpc c v args outcomes rf')
    then show ?thesis using sendAppendEntries_keeps [OF wf(1) [OF run] finish_append(5)] by (intro set_node_grows) auto
  next
    case (finish_snapshot rpc c v args outcomes rf')
    then show ?thesis using sendInstallSnapshot_keeps [OF wf(1) [OF run] finish_snapshot(5)] by (intro set_node_grows) auto
  next
    case (tick c timeout calls rf')
    then show ?thesis using ticker_step_keeps [OF wf(1) tick(4)] by (intro set_node_grows) auto
  next
    case (apply_step c rf')
    then show ?thesis using applyLogEntry_step_keeps [OF wf(1) apply_step(4)] by (intro set_node_grows) auto
  next
    case (start c cmd res rf')
    then show ?thesis using Start_keeps [OF wf(1) start(4)] by (intro set_node_grows) auto
  next
    case (take_snapshot c idx snap rf')
    then show ?thesis using Raft_Snapshot_keeps [OF wf(1) take_snapshot(4)] by (intro set_node_grows) auto
  next
    case (kill c)
    then show ?thesis using Kill_keeps [OF wf(1)] by (intro set_node_grows) auto
  next
    case (restart c)
    note f = wf_raftD [OF wf(1) [OF restart(2)]]
    note m = Make_fields [OF f(4,1), of "Persister_Copy (persister (nodes s c))" n c]
    show ?thesis using m wf(2,3) [OF restart(2)] by (intro set_node_grows) (auto simp: restart(1) vote_le_def)
  qed
qed

lemma cluster_reachable_ok: "cluster_reachable zero n s \<Longrightarrow> cluster_ok n s"
  by (induction rule: cluster_reachable.induct) (simp_all add: cluster_ok_init cluster_step_ok)

lemma grows_trans: "grows s t \<Longrightarrow> grows t u \<Longrightarrow> grows s u"
  unfolding grows_def using vote_le_trans by blast

lemma run_grows:
  assumes "(cluster_step zero n)\<^sup>*\<^sup>* s t" and "cluster_reachable zero n s"
  shows "cluster_reachable zero n t \<and> grows s t"
  using assms
proof (induction rule: rtranclp_induct)
  case base
  then show ?case by (simp add: grows_def)
next
  case (step t u)
  then have t: "cluster_reachable zero n t" "grows s t" by auto
  show ?case
    using cluster_reachable.step [OF t(1) step(2)]
      grows_trans [OF t(2) cluster_step_grows [OF step(2) cluster_reachable_ok [OF t(1)]]] by blast
qed

lemma reachable_term:
  assumes "cluster_reachable zero n s" and "0 \<le> c"
  shows "0 \<le> currentTerm (nodes s c)"
  using assms
proof induction
  case init
  then show ?case by (simp add: cluster_init_def Make_fresh)
next
  case (step s t)
  have "vote_le (nodes s c) (nodes t c)"
    using cluster_step_grows [OF step(2) cluster_reachable_ok [OF step(1)]] step(4) by (simp add: grows_def)
  then show ?case using step(3) [OF step(4)] unfolding vote_le_def by linarith
qed

section \<open>Election safety\<close>

lemma leaders_same:
  assumes "cluster_ok n s" and "0 \<le> c" "c < int n" and "0 \<le> d" "d < int n" and "1 < n \<Longrightarrow> chosen n s t c" and "1 < n \<Longrightarrow> chosen n s t d"
  shows "c = d"
proof (cases "1 < n")
  case True
  then show ?thesis using chosen_unique [OF cluster_okD(3) [OF assms(1)]] assms(6,7) by blast
qed (use assms(2-5) in auto)

text \<open>The leaders of one term at two moments of an execution are the same peer.\<close>

lemma leaders_over_time:
  assumes "cluster_reachable zero n s" and "(cluster_step zero n)\<^sup>*\<^sup>* s t"
    and c: "0 \<le> c" "c < int n" and d: "0 \<le> d" "d < int n"
    and "state (nodes s c) = Leader" and "state (nodes t d) = Leader"
    and "currentTerm (nodes s c) = currentTerm (nodes t d)"
  shows "c = d"
proof -
  have t: "cluster_reachable zero n t" "grows s t" using run_grows [OF assms(2,1)] by auto
  note ok = cluster_reachable_ok [OF assms(1)] cluster_reachable_ok [OF t(1)]
  have "1 < n \<Longrightarrow> chosen n s (currentTerm (nodes t d)) c"
    unfolding assms(9) [symmetric] by (rule elected_chosen [OF ok(1) c]) (simp_all add: elected_def assms(7))
  then have "1 < n \<Longrightarrow> chosen n t (currentTerm (nodes t d)) c" using chosen_mono [OF t(2)] by blast
  moreover have "1 < n \<Longrightarrow> chosen n t (currentTerm (nodes t d)) d"
    by (rule elected_chosen [OF ok(2) d]) (simp_all add: elected_def assms(8))
  ultimately show ?thesis by (rule leaders_same [OF ok(2) c d])
qed

text \<open>C1: in every state that a cluster can reach, with requests delayed, repeated or lost and peers
  stopped and restarted at any moment, two peers that are leaders in the same term are the same
  peer.\<close>
theorem election_safety:
  assumes "cluster_reachable zero n s"
    and "0 \<le> c" "c < int n" and "0 \<le> d" "d < int n"
    and "state (nodes s c) = Leader" and "state (nodes s d) = Leader"
    and "currentTerm (nodes s c) = currentTerm (nodes s d)"
  shows "c = d"
proof -
  note ok = cluster_reachable_ok [OF assms(1)]
  have c: "1 < n \<Longrightarrow> chosen n s (currentTerm (nodes s c)) c"
    by (rule elected_chosen [OF ok assms(2,3)]) (simp_all add: elected_def assms(6))
  have d: "1 < n \<Longrightarrow> chosen n s (currentTerm (nodes s c)) d"
    unfolding assms(8) by (rule elected_chosen [OF ok assms(4,5)]) (simp_all add: elected_def assms(7))
  show ?thesis by (rule leaders_same [OF ok assms(2-5) c d])
qed

text \<open>C2: all \<open>AppendEntries\<close> and \<open>InstallSnapshot\<close> requests of one term that were ever sent come from
  one peer, the one they name as their leader, and a majority of the peers voted for it in that term.\<close>
theorem one_leader_per_term:
  assumes "cluster_reachable zero n s"
    and "(c, call) \<in> sent s" and "leader_call call = Some (t, l)"
    and "(d, call') \<in> sent s" and "leader_call call' = Some (t, l')"
  shows "c = d \<and> l = c \<and> l' = d \<and> (1 < n \<longrightarrow> (\<exists>A. is_majority n A \<and> (\<forall>v \<in> A. voted s v t c)))"
proof -
  note ok = cluster_reachable_ok [OF assms(1)]
  have c: "l = c" "1 < n \<Longrightarrow> chosen n s t c"
    using bspec [OF cluster_okD(5) [OF ok, unfolded leaders_ok_def] assms(2)] assms(3) by auto
  have d: "l' = d" "1 < n \<Longrightarrow> chosen n s t d"
    using bspec [OF cluster_okD(5) [OF ok, unfolded leaders_ok_def] assms(4)] assms(5) by auto
  have r: "0 \<le> c" "c < int n" "0 \<le> d" "d < int n"
    using calls_okD(1) [OF cluster_okD(2) [OF ok]] assms(2,4) by blast+
  have "c = d" using leaders_same [OF ok r] c(2) d(2) by blast
  with c d show ?thesis by (auto simp: chosen_def)
qed

subsection \<open>An election\<close>

text \<open>Peer 0 of three times out, asks for votes, gets the one of peer 1 and becomes the leader.\<close>

definition demo_node :: "(nat, nat) Raft" where
  "demo_node = (persist None ((Make 3 0 MakePersister)\<lparr>state := Candidate, currentTerm := 1, votedFor := 0, voteCount := 1,
     ticker_pc := TLoop\<rparr>))"

definition demo_args :: RequestVoteArgs where
  "demo_args = \<lparr>rva_Term = 1, CandidateId = 0, LastLogIndex = 0, LastLogTerm = 0\<rparr>"

lemma demo_fields:
  "state demo_node = Candidate" "currentTerm demo_node = 1" "voteCount demo_node = 1" "peers demo_node = 3"
  "me demo_node = 0" "log demo_node = [nilEntry 0]" "lastSnapshotIndex demo_node = 0" "ticker_pc demo_node = TLoop"
  "killed demo_node = False" "nextIndex demo_node = [1, 1, 1]"
  by (simp_all add: demo_node_def Make_fresh killed_def)
    (simp_all add: Make_def readPersist_def ReadRaftState_def MakePersister_def GetLastIndex_def numeral_eq_Suc Let_def)

lemma other_peers_demo: "peers rf = 3 \<Longrightarrow> me rf = 0 \<Longrightarrow> other_peers rf = [1, 2]"
  by (simp add: other_peers_def upt_rec)

text \<open>After the campaign.\<close>

lemma demo_campaign:
  "\<exists>s. cluster_reachable (0 :: nat) 3 s \<and> nodes s 0 = demo_node\<lparr>ticker_pc := TSelect Candidate\<rparr> \<and>
     nodes s 1 = Make 3 1 MakePersister \<and> (0, CallRequestVote 1 demo_args) \<in># running s"
proof -
  let ?m = "Make 3 0 MakePersister :: (nat, nat) Raft"
  let ?s0 = "cluster_init 3 :: (nat, nat) cluster"
  have k: "killed ?m = False" by (simp add: Make_def readPersist_def ReadRaftState_def MakePersister_def killed_def Let_def)
  define s1 where "s1 = (set_node 0 (?m\<lparr>ticker_pc := TSelect Follower\<rparr>) ?s0)\<lparr>sent := {}, running := {#}\<rparr>"
  define s2 where "s2 = (set_node 0 (?m\<lparr>ticker_pc := TCandidate\<rparr>) s1)\<lparr>sent := {}, running := {#}\<rparr>"
  let ?calls = "[CallRequestVote 1 demo_args, CallRequestVote 2 demo_args]"
  define s3 where "s3 = (set_node 0 demo_node s2)\<lparr>sent := Pair 0 ` set ?calls, running := mset (map (Pair 0) ?calls)\<rparr>"
  define s4 where "s4 = (set_node 0 (demo_node\<lparr>ticker_pc := TSelect Candidate\<rparr>) s3)
    \<lparr>sent := sent s3, running := running s3\<rparr>"
  have r1: "cluster_reachable 0 3 s1"
    using cluster_step.tick [of 0 3 False ?s0 "[]" "?m\<lparr>ticker_pc := TSelect Follower\<rparr>" 0]
    by (auto intro!: cluster_reachable.step [OF cluster_reachable.init] simp: s1_def cluster_init_def ticker_step_def Make_fresh k)
  have r2: "cluster_reachable 0 3 s2"
    using cluster_step.tick [of 0 3 True s1 "[]" "?m\<lparr>ticker_pc := TCandidate\<rparr>" 0]
    by (auto intro!: cluster_reachable.step [OF r1] simp: s2_def s1_def ticker_step_def)
  have conv: "convertToCandidate (?m\<lparr>ticker_pc := TCandidate\<rparr>) = Inr (?calls, demo_node\<lparr>ticker_pc := TCandidate\<rparr>)"
    using convertToCandidate_eq [of "?m\<lparr>ticker_pc := TCandidate\<rparr>"]
    by (simp add: Make_fresh other_peers_demo demo_args_def demo_node_def persist_def GetLastIndex_def)
  have pc: "demo_node\<lparr>ticker_pc := TLoop\<rparr> = demo_node" by (simp add: demo_node_def persist_def)
  have r3: "cluster_reachable 0 3 s3"
    using cluster_step.tick [of 0 3 True s2 ?calls demo_node 0]
    by (auto intro!: cluster_reachable.step [OF r2] simp: s3_def s2_def ticker_step_def conv pc)
  have r4: "cluster_reachable 0 3 s4"
    using cluster_step.tick [of 0 3 False s3 "[]" "demo_node\<lparr>ticker_pc := TSelect Candidate\<rparr>" 0]
    by (auto intro!: cluster_reachable.step [OF r3] simp: s4_def s3_def ticker_step_def demo_fields)
  show ?thesis
    by (rule exI [of _ s4]) (use r4 in \<open>simp add: s4_def s3_def s2_def s1_def cluster_init_def\<close>)
qed

definition demo_lead :: "(nat, nat) Raft" where
  "demo_lead = demo_node\<lparr>voteCount := 2, state := Leader, nextIndex := replicate 3 1, matchIndex := replicate 3 0\<rparr>"

lemma demo_elected:
  "\<exists>s call. cluster_reachable (0 :: nat) 3 (s :: (nat, nat) cluster) \<and> nodes s 0 = demo_lead \<and>
     (0, call) \<in> sent s \<and> leader_call call = Some (1, 0) \<and>
     log (nodes s 1) = [nilEntry 0] \<and> lastSnapshotIndex (nodes s 1) = 0 \<and> currentTerm (nodes s 1) = 1"
proof -
  obtain s4 where r4: "cluster_reachable (0 :: nat) 3 s4" and n0: "nodes s4 0 = demo_node\<lparr>ticker_pc := TSelect Candidate\<rparr>"
    and n1: "nodes s4 1 = Make 3 1 MakePersister" and run: "(0, CallRequestVote 1 demo_args) \<in># running s4"
    using demo_campaign by blast
  let ?rpc = "(0 :: int, CallRequestVote 1 demo_args :: (nat, nat) raft_call)"
  let ?r = "\<lparr>rvr_Term = 1, VoteGranted = True\<rparr>"
  have sent: "?rpc \<in> sent s4" using calls_okD(4) [OF cluster_okD(2) [OF cluster_reachable_ok [OF r4]] run] .
  have g: "grants demo_args (nodes s4 1)" by (simp add: n1 grants_def Make_fresh demo_args_def up_to_date_def GetLastIndex_def)
  obtain rf1 where rf1: "RequestVote demo_args (nodes s4 1) = Inr (?r, rf1)"
    and f1: "log rf1 = [nilEntry 0]" "lastSnapshotIndex rf1 = 0" "currentTerm rf1 = 1"
    using RequestVote_eq [of "nodes s4 1" demo_args] g by (simp add: n1 Make_fresh demo_args_def)
  define s5 where "s5 = (set_node 1 rf1 s4)\<lparr>answers := insert (?rpc, VoteReply ?r) (answers s4)\<rparr>"
  have r5: "cluster_reachable 0 3 s5"
    unfolding s5_def by (rule cluster_reachable.step [OF r4 cluster_step.handle_vote [OF refl sent rf1]])
  let ?won = "demo_node\<lparr>voteCount := 2, ticker_pc := TLeader\<rparr>"
  have won: "sendRequestVote [Some ?r] demo_args (nodes s5 0) = ?won"
    by (simp add: s5_def n0 sendRequestVote_def demo_fields demo_args_def sendToChannel_def)
  define s6 where "s6 = (set_node 0 (sendRequestVote [Some ?r] demo_args (nodes s5 0)) s5)\<lparr>running := running s5 - {#?rpc#}\<rparr>"
  have r6: "cluster_reachable 0 3 s6"
    unfolding s6_def
    by (rule cluster_reachable.step [OF r5 cluster_step.finish_vote [OF refl]])
      (use run in \<open>simp_all add: s5_def possible_def\<close>)
  have n6: "nodes s6 0 = ?won" by (simp add: s6_def won)
  let ?lead = "?won\<lparr>state := Leader, nextIndex := replicate 3 1, matchIndex := replicate 3 0\<rparr>"
  obtain call calls where b: "broadcastHeartbeat ?lead = Inr (call # calls)"
    by (simp add: broadcastHeartbeat_def other_peers_demo demo_fields heartbeat_call_def ToLogIndex_def)
  have "convertToLeader ?won = Inr (call # calls, ?lead)"
    using b by (simp add: convertToLeader_def demo_fields GetLastIndex_def)
  then have t: "ticker_step False (nodes s6 0) = Inr (call # calls, ?lead\<lparr>ticker_pc := TLoop\<rparr>)"
    by (simp add: n6 ticker_step_def)
  let ?s7 = "(set_node 0 (?lead\<lparr>ticker_pc := TLoop\<rparr>) s6)\<lparr>sent := sent s6 \<union> Pair 0 ` set (call # calls),
       running := running s6 + mset (map (Pair 0) (call # calls))\<rparr>"
  have "cluster_reachable 0 3 ?s7" by (rule cluster_reachable.step [OF r6 cluster_step.tick [OF _ _ t]]) simp_all
  moreover have "leader_call call = Some (1, 0)" using broadcast_leader [OF b, of call] by (simp add: demo_fields)
  moreover have "nodes ?s7 0 = demo_lead" "(0, call) \<in> sent ?s7" "nodes ?s7 1 = rf1"
    by (simp_all add: demo_lead_def demo_node_def persist_def s6_def s5_def)
  ultimately show ?thesis using f1 by metis
qed

lemma demo_lead_fields:
  "state demo_lead = Leader" "currentTerm demo_lead = 1" "log demo_lead = [nilEntry 0]" "lastSnapshotIndex demo_lead = 0"
  "peers demo_lead = 3" "me demo_lead = 0" "ticker_pc demo_lead = TLoop" "killed demo_lead = False"
  "nextIndex demo_lead = [1, 1, 1]"
  using demo_fields(9) by (simp_all add: demo_lead_def demo_fields killed_def numeral_eq_Suc)

lemma demo_election:
  "\<exists>s call. cluster_reachable (0 :: nat) 3 (s :: (nat, nat) cluster) \<and> state (nodes s 0) = Leader \<and> currentTerm (nodes s 0) = 1 \<and>
     (0, call) \<in> sent s \<and> leader_call call = Some (1, 0)"
  using demo_elected demo_lead_fields(1,2) by metis

theorem election_safety_witness:
  "\<exists>s. cluster_reachable (0 :: nat) 3 (s :: (nat, nat) cluster) \<and> state (nodes s 0) = Leader \<and>
     {d. 0 \<le> d \<and> d < 3 \<and> state (nodes s d) = Leader \<and> currentTerm (nodes s d) = currentTerm (nodes s 0)} = {0}"
proof -
  obtain s where s: "cluster_reachable (0 :: nat) 3 (s :: (nat, nat) cluster)" "state (nodes s 0) = Leader"
    using demo_election by blast
  then have "d = 0" if "0 \<le> d" "d < 3" "state (nodes s d) = Leader" "currentTerm (nodes s d) = currentTerm (nodes s 0)" for d
    using election_safety [OF s(1), of d 0] that by simp
  with s show ?thesis by (intro exI [of _ s]) auto
qed

theorem one_leader_per_term_witness:
  "\<exists>s call A. cluster_reachable (0 :: nat) 3 (s :: (nat, nat) cluster) \<and> (0, call) \<in> sent s \<and>
     leader_call call = Some (1, 0) \<and> is_majority 3 A \<and> A \<subseteq> {v. voted s v 1 0}"
proof -
  obtain s call where s: "cluster_reachable (0 :: nat) 3 (s :: (nat, nat) cluster)" "(0, call) \<in> sent s"
    "leader_call call = Some (1, 0)"
    using demo_election by blast
  with one_leader_per_term [OF s s(2,3)] show ?thesis by fastforce
qed


text \<open>C23: the state of every peer stays well-typed: in every reachable state of a cluster, a peer has its own index
  and the number of peers, a log with at least the entry at the snapshot, \<open>nextIndex\<close> and \<open>matchIndex\<close> with one
  element per peer, and a saved state that, if it has one, holds exactly its term, vote, log and snapshot index; a candidate or
  leader has voted for itself, a leader has the votes of a majority; and every request that was sent goes from a
  peer to another peer.\<close>
theorem cluster_state_well_formed:
  fixes s :: "('c, 'b) cluster"
  assumes "cluster_reachable zero n s" and "0 \<le> i" and "i < int n"
  shows "me (nodes s i) = i \<and> peers (nodes s i) = n \<and> log (nodes s i) \<noteq> [] \<and> 0 \<le> lastSnapshotIndex (nodes s i) \<and>
    length (nextIndex (nodes s i)) = n \<and> length (matchIndex (nodes s i)) = n \<and>
    (raftstate (persister (nodes s i)) \<noteq> [] \<longrightarrow>
       raftstate (persister (nodes s i)) = [GobInt (currentTerm (nodes s i)), GobInt (votedFor (nodes s i)), GobLog (log (nodes s i)),
         GobInt (lastSnapshotIndex (nodes s i))]) \<and>
    (state (nodes s i) \<noteq> Follower \<longrightarrow> votedFor (nodes s i) = i) \<and>
    (state (nodes s i) = Leader \<longrightarrow> int (n div 2) < voteCount (nodes s i)) \<and>
    (\<forall>call. (i, call) \<in> sent s \<longrightarrow> 0 \<le> callee call \<and> callee call < int n \<and> callee call \<noteq> i)"
proof -
  note ok = cluster_okD [OF cluster_reachable_ok [OF assms(1)]]
  have wf: "wf_raft (nodes s i)" and me: "me (nodes s i) = i" "peers (nodes s i) = n"
    using ok(1) assms(2) by (simp_all add: nodes_ok_def)
  have "state (nodes s i) = Leader \<Longrightarrow> elected (nodes s i)" by (simp add: elected_def)
  then show ?thesis using wf me calls_okD(1) [OF ok(2)] by (auto simp: wf_raft_def persisted_ok_def)
qed

theorem cluster_state_well_formed_witness:
  "\<exists>s. cluster_reachable (0 :: nat) 3 (s :: (nat, nat) cluster) \<and> state (nodes s 0) = Leader \<and> 1 < voteCount (nodes s 0) \<and>
     length (nextIndex (nodes s 0)) = 3"
proof -
  obtain s where s: "cluster_reachable (0 :: nat) 3 (s :: (nat, nat) cluster)" "state (nodes s 0) = Leader"
    using demo_election by blast
  have "0 \<le> (0 :: int)" "(0 :: int) < int 3" by simp_all
  from cluster_state_well_formed [OF s(1) this] s show ?thesis by (intro exI [of _ s]) simp
qed

end
