(* ===== verification/RaftLog.thy ===== *)
theory RaftLog
  imports RaftCluster
begin

text \<open>
  The log matching property of Raft, for the cluster of \<open>RaftCluster\<close>: an index and a term determine
  the entry and everything before it, in all logs at all moments.

  The invariant names a history \<open>G\<close>: what a leader appended at an index in its term, and the term
  of the entry before it.  Every log, every persisted log and every \<open>AppendEntries\<close> request ever
  sent is a chain of that history; \<open>Start\<close> is the only operation that extends it.
\<close>

section \<open>Chains of the history\<close>

type_synonym 'c history = "int \<times> int \<rightharpoonup> int \<times> 'c option"

text \<open>\<open>lg\<close> is a chain whose first entry, of which only the term counts, is at index \<open>li\<close>.\<close>

definition log_in :: "'c history \<Rightarrow> int \<Rightarrow> 'c logEntry list \<Rightarrow> bool" where
  "log_in G li lg \<longleftrightarrow> (\<forall>k. 0 < k \<longrightarrow> k < length lg \<longrightarrow>
     G (li + int k, Term (lg ! k)) = Some (Term (lg ! (k - 1)), Command (lg ! k)))"

lemma log_in_singleton [simp]: "log_in G li [e]"
  by (simp add: log_in_def)

lemma log_inD:
  "log_in G li lg \<Longrightarrow> 0 < k \<Longrightarrow> k < length lg \<Longrightarrow>
   G (li + int k, Term (lg ! k)) = Some (Term (lg ! (k - 1)), Command (lg ! k))"
  by (simp add: log_in_def)

lemma log_in_mono: "log_in G li lg \<Longrightarrow> G \<subseteq>\<^sub>m G' \<Longrightarrow> log_in G' li lg"
  unfolding log_in_def map_le_def by (metis domI)

lemma log_in_drop:
  assumes "log_in G li lg" and "k \<le> length lg"
  shows "log_in G (li + int k) (drop k lg)"
  unfolding log_in_def
proof (intro allI impI)
  fix m assume m: "0 < m" "m < length (drop k lg)"
  then have "G (li + int (k + m), Term (lg ! (k + m))) = Some (Term (lg ! (k + m - 1)), Command (lg ! (k + m)))"
    by (intro log_inD [OF assms(1)]) auto
  moreover have "k + m - 1 = k + (m - 1)" using m by simp
  ultimately show "G (li + int k + int m, Term (drop k lg ! m)) = Some (Term (drop k lg ! (m - 1)), Command (drop k lg ! m))"
    using assms(2) m by (simp add: add.assoc)
qed

text \<open>The command of the first entry does not count.\<close>

lemma log_in_head:
  assumes "log_in G li (e # es)" and "Term e' = Term e"
  shows "log_in G li (e' # es)"
  unfolding log_in_def
proof (intro allI impI)
  fix k assume k: "0 < k" "k < length (e' # es)"
  then have "G (li + int k, Term (es ! (k - 1))) = Some (Term ((e # es) ! (k - 1)), Command (es ! (k - 1)))"
    using log_inD [OF assms(1), of k] by (simp add: nth_Cons')
  with k assms(2) show "G (li + int k, Term ((e' # es) ! k)) = Some (Term ((e' # es) ! (k - 1)), Command ((e' # es) ! k))"
    by (simp add: nth_Cons')
qed

lemma log_in_suffix:
  assumes "log_in G li lg" and "k < length lg" and "Term e = Term (lg ! k)"
  shows "log_in G (li + int k) (e # drop (Suc k) lg)"
  using log_in_head [of G "li + int k" "lg ! k" "drop (Suc k) lg" e] log_in_drop [OF assms(1), of k] assms(2,3)
  by (simp add: Cons_nth_drop_Suc)

text \<open>Two chains joined at an entry that both have.\<close>

lemma log_in_join:
  assumes "log_in G li lg" and "log_in G (li + int k) (e # es)" and "k < length lg" and "Term e = Term (lg ! k)"
  shows "log_in G li (take (Suc k) lg @ es)"
  unfolding log_in_def
proof (intro allI impI)
  fix m assume m: "0 < m" "m < length (take (Suc k) lg @ es)"
  let ?new = "take (Suc k) lg @ es"
  have old: "?new ! j = lg ! j" if "j \<le> k" for j using that assms(3) by (simp add: nth_append)
  have new: "?new ! (k + j) = es ! (j - 1)" if "0 < j" for j
    using that assms(3) by (simp add: nth_append min.absorb2 Suc_leI)
  show "G (li + int m, Term (?new ! m)) = Some (Term (?new ! (m - 1)), Command (?new ! m))"
  proof (cases "m \<le> k")
    case True
    then show ?thesis using log_inD [OF assms(1) m(1)] assms(3) old [of m] old [of "m - 1"] by simp
  next
    case False
    define j where "j = m - k"
    have j: "0 < j" "m = k + j" "j < length (e # es)" using False m assms(3) by (auto simp: j_def min.absorb2 Suc_leI)
    have prev: "Term (?new ! (m - 1)) = Term ((e # es) ! (j - 1))"
    proof (cases "j = 1")
      case False
      then have "m - 1 = k + (j - 1)" "0 < j - 1" using j by auto
      then show ?thesis using new [of "j - 1"] False by (simp add: nth_Cons')
    qed (use j old [of k] assms(4) in simp)
    have "?new ! m = (e # es) ! j" using j new [of j] by (simp add: nth_Cons')
    with prev log_inD [OF assms(2) j(1,3)] show ?thesis by (simp add: j(2) add.assoc)
  qed
qed

lemma log_in_snoc:
  assumes "log_in G li lg" and "lg \<noteq> []" and "G (li + int (length lg), Term e) = Some (Term (last lg), Command e)"
  shows "log_in G li (lg @ [e])"
proof -
  have "log_in G (li + int (length lg - 1)) [last lg, e]"
    using assms(2,3) by (auto simp: log_in_def less_Suc_eq of_nat_diff Suc_leI)
  from log_in_join [OF assms(1) this] show ?thesis
    using assms(2) by (simp add: last_conv_nth)
qed

text \<open>Two chains that have the same term at an index agree before it.\<close>

lemma log_in_agree:
  assumes "log_in G li lg" and "log_in G li' lg'"
    and "li + int (k + d) = li' + int (k' + d)" and "k + d < length lg" "k' + d < length lg'"
    and "Term (lg ! (k + d)) = Term (lg' ! (k' + d))" and "0 < k" "0 < k'"
  shows "lg ! k = lg' ! k'"
  using assms(3-)
proof (induction d arbitrary: k k')
  case 0
  then show ?case
    using log_inD [OF assms(1), of k] log_inD [OF assms(2), of k'] by (simp add: logEntry.equality)
next
  case (Suc d)
  from Suc.IH [of "Suc k" "Suc k'"] Suc.prems have "lg ! Suc k = lg' ! Suc k'" by simp
  moreover have "G (li + int (Suc k), Term (lg ! Suc k)) = Some (Term (lg ! k), Command (lg ! Suc k))"
    "G (li' + int (Suc k'), Term (lg' ! Suc k')) = Some (Term (lg' ! k'), Command (lg' ! Suc k'))"
    using log_inD [OF assms(1), of "Suc k"] log_inD [OF assms(2), of "Suc k'"] Suc.prems by simp_all
  moreover have "li + int (Suc k) = li' + int (Suc k')" using Suc.prems(1) by simp
  ultimately have "Term (lg ! k) = Term (lg' ! k')" by (metis option.inject prod.inject)
  then show ?case
    using log_inD [OF assms(1), of k] log_inD [OF assms(2), of k'] Suc.prems by (simp add: logEntry.equality)
qed

section \<open>The invariant\<close>

text \<open>A node whose entry \<open>(i, t)\<close> is in the history: it has been the leader of term \<open>t\<close>, so it is
  not a candidate of it, and while it is its leader its log reaches \<open>i\<close>.\<close>

definition created :: "int \<Rightarrow> int \<Rightarrow> ('c, 'b) Raft \<Rightarrow> bool" where
  "created i t rf \<longleftrightarrow> t \<le> currentTerm rf \<and>
     (t = currentTerm rf \<longrightarrow> state rf \<noteq> Candidate \<and> (state rf = Leader \<longrightarrow> i \<le> GetLastIndex rf))"

definition logs_ok :: "nat \<Rightarrow> 'c history \<Rightarrow> ('c, 'b) cluster \<Rightarrow> bool" where
  "logs_ok n G s \<longleftrightarrow>
     (\<forall>i \<ge> 0. log_in G (lastSnapshotIndex (nodes s i)) (log (nodes s i))) \<and>
     (\<forall>c v args. (c, CallAppendEntries v args) \<in> sent s \<longrightarrow>
        log_in G (PrevLogIndex args) (nilEntry (PrevLogTerm args) # Entries args)) \<and>
     (\<forall>i t x. G (i, t) = Some x \<longrightarrow>
        (\<exists>c. 0 \<le> c \<and> c < int n \<and> (1 < n \<longrightarrow> chosen n s t c) \<and> created i t (nodes s c)))"

lemma logs_okD:
  assumes "logs_ok n G s"
  shows "0 \<le> i \<Longrightarrow> log_in G (lastSnapshotIndex (nodes s i)) (log (nodes s i))"
    and "(c, CallAppendEntries v args) \<in> sent s \<Longrightarrow>
        log_in G (PrevLogIndex args) (nilEntry (PrevLogTerm args) # Entries args)"
    and "G (j, t) = Some x \<Longrightarrow> \<exists>c. 0 \<le> c \<and> c < int n \<and> (1 < n \<longrightarrow> chosen n s t c) \<and> created j t (nodes s c)"
  using assms unfolding logs_ok_def by blast+

text \<open>How a node may change without extending the history.\<close>

definition keeps_created :: "('c, 'b) Raft \<Rightarrow> ('c, 'b) Raft \<Rightarrow> bool" where
  "keeps_created rf rf' \<longleftrightarrow>
     currentTerm rf < currentTerm rf' \<or>
     currentTerm rf' = currentTerm rf \<and>
       (state rf' = Follower \<or> state rf = Candidate \<or>
        state rf' = state rf \<and> (state rf = Leader \<longrightarrow> GetLastIndex rf \<le> GetLastIndex rf'))"

lemma created_keeps: "created i t rf \<Longrightarrow> keeps_created rf rf' \<Longrightarrow> created i t rf'"
  by (auto simp: created_def keeps_created_def)

lemma keeps_created_refl [simp]: "keeps_created rf rf"
  by (simp add: keeps_created_def)

definition same_log :: "('c, 'b) Raft \<Rightarrow> ('c, 'b) Raft \<Rightarrow> bool" where
  "same_log rf rf' \<longleftrightarrow> log rf' = log rf \<and> lastSnapshotIndex rf' = lastSnapshotIndex rf"

lemma keeps_created_quiet:
  assumes "vote_le rf rf'" and "no_campaign rf rf'" and "state rf = Leader \<Longrightarrow> currentTerm rf' = currentTerm rf \<Longrightarrow> GetLastIndex rf \<le> GetLastIndex rf'"
  shows "keeps_created rf rf'"
  using assms by (auto simp: keeps_created_def vote_le_def no_campaign_def)

text \<open>One node changes and stays on the history.\<close>

lemma logs_step:
  assumes ok: "logs_ok n G s" and g: "grows s t" and t: "nodes t = (nodes s)(c := rf')"
    and rf': "keeps_created (nodes s c) rf'" "log_in G (lastSnapshotIndex rf') (log rf')"
    and new: "\<And>d v args. (d, CallAppendEntries v args) \<in> sent t \<Longrightarrow> (d, CallAppendEntries v args) \<notin> sent s \<Longrightarrow>
      log_in G (PrevLogIndex args) (nilEntry (PrevLogTerm args) # Entries args)"
  shows "logs_ok n G t"
  unfolding logs_ok_def
proof (intro conjI allI impI)
  fix i :: int assume "0 \<le> i"
  then show "log_in G (lastSnapshotIndex (nodes t i)) (log (nodes t i))"
    using logs_okD(1) [OF ok] rf'(2) by (simp add: t)
next
  fix d v args assume "(d, CallAppendEntries v args) \<in> sent t"
  then show "log_in G (PrevLogIndex args) (nilEntry (PrevLogTerm args) # Entries args)"
    using new logs_okD(2) [OF ok] by blast
next
  fix i u x assume "G (i, u) = Some x"
  from logs_okD(3) [OF ok this] obtain d where d: "0 \<le> d" "d < int n" "1 < n \<longrightarrow> chosen n s u d" "created i u (nodes s d)"
    by blast
  have "created i u (nodes t d)" using d(4) created_keeps [OF _ rf'(1)] by (auto simp: t)
  with d chosen_mono [OF g] show "\<exists>d. 0 \<le> d \<and> d < int n \<and> (1 < n \<longrightarrow> chosen n t u d) \<and> created i u (nodes t d)"
    by blast
qed

section \<open>The operations on the log\<close>

text \<open>A peer never receives a request of the term that it leads.\<close>

lemma not_own_request:
  assumes ok: "cluster_ok n s" and "(c, call) \<in> sent s" and "leader_call call = Some (currentTerm (nodes s (callee call)), l)"
  shows "state (nodes s (callee call)) \<noteq> Leader"
proof
  let ?v = "callee call"
  assume L: "state (nodes s ?v) = Leader"
  have r: "0 \<le> c" "c < int n" "0 \<le> ?v" "?v < int n" "?v \<noteq> c"
    using calls_okD(1) [OF cluster_okD(2) [OF ok] assms(2)] by auto
  have "1 < n \<Longrightarrow> chosen n s (currentTerm (nodes s ?v)) c"
    using bspec [OF cluster_okD(5) [OF ok, unfolded leaders_ok_def] assms(2)] assms(3) by auto
  moreover have "1 < n \<Longrightarrow> chosen n s (currentTerm (nodes s ?v)) ?v"
    by (rule elected_chosen [OF ok r(3,4)]) (simp_all add: elected_def L)
  ultimately show False using leaders_same [OF ok r(1-4)] r(5) by blast
qed

text \<open>The log of a follower after \<open>AppendEntries\<close>.\<close>

lemma merge_log_in:
  assumes "AppendEntries_reject args rf = Inr None" and "log_in G (lastSnapshotIndex rf) (log rf)"
    and req: "log_in G (PrevLogIndex args) (nilEntry (PrevLogTerm args) # Entries args)"
  shows "log_in G (lastSnapshotIndex rf) (merge_log args rf)"
proof -
  define q where "q = nat (PrevLogIndex args - lastSnapshotIndex rf)"
  note n = AppendEntries_reject_None [OF assms(1), folded q_def]
  have pi: "PrevLogIndex args = lastSnapshotIndex rf + int q" using n(1) by (simp add: q_def)
  obtain k where k: "k \<le> length (Entries args)" "q + 1 + k \<le> length (log rf)"
    "merge_log args rf = take (q + 1 + k) (log rf) @ drop k (Entries args)"
    "map Term (take k (drop (q + 1) (log rf))) = map Term (take k (Entries args))"
    using merge_log_spec [OF assms(1), folded q_def] by blast
  let ?req = "nilEntry (PrevLogTerm args) # Entries args"
  have eq: "Term (?req ! k) = Term (log rf ! (q + k))"
  proof (cases k)
    case 0
    then show ?thesis using n(3) by simp
  next
    case (Suc m)
    have "map Term (take k (drop (q + 1) (log rf))) ! m = map Term (take k (Entries args)) ! m" by (simp only: k(4))
    then show ?thesis using Suc k(1,2) by (simp add: nth_append)
  qed
  have "log_in G (lastSnapshotIndex rf + int (q + k)) (?req ! k # drop k (Entries args))"
    using log_in_suffix [OF req, of k "?req ! k"] k(1) by (simp add: pi add.assoc)
  from log_in_join [OF assms(2) this _ eq] k(2,3) show ?thesis by simp
qed

lemma AppendEntries_log_in:
  assumes "AppendEntries args rf = Inr (reply, rf')" and "wf_raft rf" and "log_in G (lastSnapshotIndex rf) (log rf)"
    and "log_in G (PrevLogIndex args) (nilEntry (PrevLogTerm args) # Entries args)"
    and leader: "aea_Term args = currentTerm rf \<Longrightarrow> state rf \<noteq> Leader"
  shows "keeps_created rf rf' \<and> log_in G (lastSnapshotIndex rf') (log rf')"
proof (cases "aea_Term args < currentTerm rf")
  case True
  then show ?thesis using assms(1,3) by (simp add: AppendEntries_def)
next
  case False
  then have le: "currentTerm rf \<le> aea_Term args" by simp
  let ?rf = "sendToChannel HeartbeatCh (step_down (aea_Term args) rf)"
  note k = AppendEntries_keeps [OF assms(2,1)]
  note eq = assms(1) [unfolded AppendEntries_eq [OF le]]
  obtain rej where rej: "AppendEntries_reject args ?rf = Inr rej" using eq by (auto simp: go_bind_eq_Inr_iff)
  have logs: "currentTerm rf' = aea_Term args \<and> lastSnapshotIndex rf' = lastSnapshotIndex rf \<and>
    log_in G (lastSnapshotIndex rf) (log rf')"
  proof (cases rej)
    case None
    have "log_in G (lastSnapshotIndex ?rf) (merge_log args ?rf)"
      by (rule merge_log_in) (use rej None assms(3,4) in simp_all)
    then show ?thesis using eq rej None le by auto
  qed (use eq rej le assms(3) in auto)
  moreover have "keeps_created rf rf'"
    by (rule keeps_created_quiet) (use k leader logs in auto)
  ultimately show ?thesis by simp
qed

text \<open>The log of a follower after \<open>InstallSnapshot\<close>.\<close>

lemma install_log_in:
  assumes "install_log args rf = Inr lg" and "log_in G (lastSnapshotIndex rf) (log rf)"
    and "lastSnapshotIndex rf < LastIncludedIndex args"
  shows "log_in G (LastIncludedIndex args) lg"
proof -
  define k where "k = nat (LastIncludedIndex args - lastSnapshotIndex rf)"
  have i: "LastIncludedIndex args = lastSnapshotIndex rf + int k" using assms(3) by (simp add: k_def)
  have "lg = [nilEntry (LastIncludedTerm args)] \<or> k < length (log rf) \<and> clear_head (drop k (log rf)) = Inr lg"
    using assms(1,3) by (auto simp: install_log_def ToLogIndex_def Let_def k_def go_bind_eq_Inr_iff split: if_splits)
  then show ?thesis
  proof
    assume k: "k < length (log rf) \<and> clear_head (drop k (log rf)) = Inr lg"
    then have "lg = nilEntry (Term (log rf ! k)) # drop (Suc k) (log rf)"
      by (auto simp: clear_head_ok hd_drop_conv_nth tl_drop drop_Suc)
    then show ?thesis using log_in_suffix [OF assms(2)] k by (simp add: i)
  qed simp
qed

lemma InstallSnapshot_log_in:
  assumes "InstallSnapshot zero args rf = Inr (reply, rf')" and "wf_raft rf" and "log_in G (lastSnapshotIndex rf) (log rf)"
    and leader: "isa_Term args = currentTerm rf \<Longrightarrow> state rf \<noteq> Leader"
  shows "keeps_created rf rf' \<and> log_in G (lastSnapshotIndex rf') (log rf')"
proof -
  note k = InstallSnapshot_keeps [OF assms(2,1)]
  show ?thesis
    using assms(1)
  proof (cases rule: InstallSnapshot_cases)
    case stale
    then show ?thesis using assms(3) by simp
  next
    case (partial buf)
    have "keeps_created rf rf'"
      by (rule keeps_created_quiet) (use k in \<open>auto simp: partial(3) GetLastIndex_def\<close>)
    then show ?thesis using assms(3) by (simp add: partial(3))
  next
    case (install buf lg)
    have "keeps_created rf rf'"
      by (rule keeps_created_quiet) (use k leader install(1) in \<open>auto simp: install(3)\<close>)
    moreover have "log_in G (LastIncludedIndex args) lg"
      using install(5) assms(3) install_log_in [OF _ assms(3)] by auto
    ultimately show ?thesis by (simp add: install(3))
  qed
qed

lemma Raft_Snapshot_log_in:
  assumes "Raft_Snapshot index snap rf = Inr rf'" and "wf_raft rf" and "log_in G (lastSnapshotIndex rf) (log rf)"
  shows "keeps_created rf rf' \<and> log_in G (lastSnapshotIndex rf') (log rf')"
proof (cases "index \<le> lastSnapshotIndex rf \<or> index > GetLastIndex rf")
  case True
  then show ?thesis using assms by (simp add: Raft_Snapshot_def)
next
  case False
  define k where "k = nat (index - lastSnapshotIndex rf)"
  have i: "index = lastSnapshotIndex rf + int k" "k < length (log rf)"
    using False by (auto simp: k_def GetLastIndex_def)
  have rf': "rf' = persist snap (rf\<lparr>lastSnapshotIndex := index, log := nilEntry (Term (log rf ! k)) # drop (Suc k) (log rf)\<rparr>)"
    using assms(1) Raft_Snapshot_eq [of rf index snap] False i(2)
    by (simp add: k_def [symmetric] Let_def hd_drop_conv_nth tl_drop drop_Suc)
  have "keeps_created rf rf'"
    by (rule keeps_created_quiet)
      (use Raft_Snapshot_keeps [OF assms(2,1)] i in \<open>auto simp: rf' GetLastIndex_def of_nat_diff\<close>)
  moreover have "log_in G index (nilEntry (Term (log rf ! k)) # drop (Suc k) (log rf))"
    unfolding i(1) by (rule log_in_suffix [OF assms(3) i(2)]) simp
  ultimately show ?thesis by (simp add: rf')
qed

text \<open>The requests of a leader are chains of its log.\<close>

lemma heartbeat_call_log_in:
  assumes "heartbeat_call rf i = Inr (CallAppendEntries v args)" and "log_in G (lastSnapshotIndex rf) (log rf)"
  shows "log_in G (PrevLogIndex args) (nilEntry (PrevLogTerm args) # Entries args)"
proof -
  obtain ni e where ni: "lastSnapshotIndex rf < ni" and e: "go_nth (log rf) (ni - lastSnapshotIndex rf - 1) = Inr e"
    and es: "go_from (log rf) (ni - lastSnapshotIndex rf) = Inr (Entries args)"
    and args: "PrevLogIndex args = ni - 1" "PrevLogTerm args = Term e"
    using assms(1) by (auto simp: heartbeat_call_def ToLogIndex_def Let_def go_bind_eq_Inr_iff split: if_splits)
  define k where "k = nat (ni - lastSnapshotIndex rf - 1)"
  have k: "ni - lastSnapshotIndex rf - 1 = int k" "ni - lastSnapshotIndex rf = int (Suc k)" using ni by (auto simp: k_def)
  have "k < length (log rf)" "e = log rf ! k" using e unfolding k(1) by (auto simp: go_nth_eq_Inr_iff)
  moreover have "Entries args = drop (Suc k) (log rf)"
    using es \<open>k < length (log rf)\<close> unfolding k(2) by (auto simp: go_from_def nat_add_distrib split: if_splits)
  moreover have "PrevLogIndex args = lastSnapshotIndex rf + int k" using args(1) k(1) by simp
  ultimately show ?thesis using log_in_suffix [OF assms(2), of k "nilEntry (Term e)"] args(2) by simp
qed

lemma heartbeat_loop_log_in:
  assumes "heartbeat_loop rf is = Inr calls" and "CallAppendEntries v args \<in> set calls" and "log_in G (lastSnapshotIndex rf) (log rf)"
  shows "log_in G (PrevLogIndex args) (nilEntry (PrevLogTerm args) # Entries args)"
  using assms
proof (induction rf "is" arbitrary: calls rule: heartbeat_loop.induct)
  case (2 rf i "is")
  then obtain c cs where "heartbeat_call rf i = Inr c" "heartbeat_loop rf is = Inr cs" "calls = c # cs"
    by (auto simp: go_bind_eq_Inr_iff)
  then show ?case using 2 heartbeat_call_log_in [of rf i v args G] by auto
qed simp

lemma broadcast_log_in:
  assumes "broadcastHeartbeat rf = Inr calls" and "CallAppendEntries v args \<in> set calls" and "log_in G (lastSnapshotIndex rf) (log rf)"
  shows "log_in G (PrevLogIndex args) (nilEntry (PrevLogTerm args) # Entries args)"
  using assms heartbeat_loop_log_in [of rf "other_peers rf" calls v args G]
  by (auto simp: broadcastHeartbeat_def split: if_splits)

lemma ticker_log_in:
  assumes "ticker_step timeout rf = Inr (calls, rf')" and "wf_raft rf" and "log_in G (lastSnapshotIndex rf) (log rf)"
  shows "keeps_created rf rf'" and "same_log rf rf'"
    and "CallAppendEntries v args \<in> set calls \<Longrightarrow>
      log_in G (PrevLogIndex args) (nilEntry (PrevLogTerm args) # Entries args)"
proof -
  have "keeps_created rf rf' \<and> same_log rf rf' \<and> (CallAppendEntries v args \<in> set calls \<longrightarrow>
      log_in G (PrevLogIndex args) (nilEntry (PrevLogTerm args) # Entries args))"
  proof (cases "ticker_pc rf")
    case TCandidate
    then obtain r where r: "convertToCandidate rf = Inr (calls, r)" "rf' = r\<lparr>ticker_pc := TLoop\<rparr>"
      using assms(1) by (auto simp: ticker_step_def go_bind_eq_Inr_iff)
    then show ?thesis
      using convertToCandidate_eq [OF _ wf_raftD(1) [OF assms(2)]]
      by (cases "state rf = Leader") (auto simp: convertToCandidate_def keeps_created_def same_log_def GetLastIndex_def)
  next
    case TLeader
    then obtain r where r: "convertToLeader rf = Inr (calls, r)" "rf' = r\<lparr>ticker_pc := TLoop\<rparr>"
      using assms(1) by (auto simp: ticker_step_def go_bind_eq_Inr_iff)
    show ?thesis
    proof (cases "state rf = Candidate")
      case True
      let ?rf = "rf\<lparr>state := Leader, nextIndex := replicate (peers rf) (GetLastIndex rf + 1), matchIndex := replicate (peers rf) 0\<rparr>"
      have "broadcastHeartbeat ?rf = Inr calls" "r = ?rf"
        using r(1) True by (auto simp: convertToLeader_def Let_def go_bind_eq_Inr_iff)
      then show ?thesis
        using r(2) True broadcast_log_in [of ?rf calls v args G] assms(3) by (auto simp: keeps_created_def same_log_def)
    qed (use r in \<open>auto simp: convertToLeader_def keeps_created_def same_log_def GetLastIndex_def\<close>)
  next
    case TBroadcast
    then show ?thesis
      using assms(1,3) broadcast_log_in [of rf calls v args G]
      by (auto simp: ticker_step_def go_bind_eq_Inr_iff keeps_created_def same_log_def GetLastIndex_def)
  qed (use assms(1) in \<open>auto simp: ticker_step_def keeps_created_def same_log_def GetLastIndex_def split: if_splits\<close>)
  then show "keeps_created rf rf'" and "same_log rf rf'"
    and "CallAppendEntries v args \<in> set calls \<Longrightarrow>
      log_in G (PrevLogIndex args) (nilEntry (PrevLogTerm args) # Entries args)"
    by blast+
qed

text \<open>The operations that leave the log as it is.\<close>

lemma same_log_keeps:
  assumes "vote_le rf rf'" and "no_campaign rf rf'" and "same_log rf rf'" and "log_in G (lastSnapshotIndex rf) (log rf)"
  shows "keeps_created rf rf' \<and> log_in G (lastSnapshotIndex rf') (log rf')"
  using assms keeps_created_quiet [OF assms(1,2)] by (auto simp: same_log_def GetLastIndex_def)

lemma RequestVote_same_log: "RequestVote args rf = Inr (r, rf') \<Longrightarrow> log rf \<noteq> [] \<Longrightarrow> same_log rf rf'"
  by (auto simp: RequestVote_eq same_log_def split: if_splits)

lemma sendRequestVote_same_log:
  "same_log rf (sendRequestVote outcomes args rf) \<and> keeps_created rf (sendRequestVote outcomes args rf)"
  by (cases rule: sendRequestVote_cases [of outcomes args rf])
    (auto simp: same_log_def keeps_created_def GetLastIndex_def)

lemma sendAppendEntries_same_log:
  assumes "sendAppendEntries outcomes server args rf = Inr rf'"
  shows "same_log rf rf'"
  using assms
proof (cases rule: sendAppendEntries_cases)
  case (progress reply ni mi)
  from commit_loop_Inr [OF progress(8)] show ?thesis by (auto simp: same_log_def)
qed (simp_all add: same_log_def)

lemma sendInstallSnapshot_same_log: "sendInstallSnapshot outcomes server args rf = Inr rf' \<Longrightarrow> same_log rf rf'"
  by (erule sendInstallSnapshot_cases) (simp_all add: same_log_def)

lemma applyLogEntry_same_log: "applyLogEntry_step rf = Inr rf' \<Longrightarrow> same_log rf rf'"
  using applyLogEntry_step_same [of rf rf'] by (auto simp: same_but_apply_def same_log_def)

lemma restart_same_log:
  assumes "wf_raft rf"
  shows "same_log rf (Make n c (Persister_Copy (persister rf)))"
    "keeps_created rf (Make n c (Persister_Copy (persister rf)))"
    "me rf = c \<Longrightarrow> peers rf = n \<Longrightarrow> vote_le rf (Make n c (Persister_Copy (persister rf)))"
proof -
  note wf = wf_raftD [OF assms]
  note m = Make_fields [OF wf(4,1), of "Persister_Copy (persister rf)" n c]
  show "same_log rf (Make n c (Persister_Copy (persister rf)))" "keeps_created rf (Make n c (Persister_Copy (persister rf)))"
    "me rf = c \<Longrightarrow> peers rf = n \<Longrightarrow> vote_le rf (Make n c (Persister_Copy (persister rf)))"
    using m by (simp_all add: same_log_def keeps_created_def vote_le_def)
qed

section \<open>The steps of the cluster\<close>

text \<open>The leader's next index is new to the history in its term.\<close>

lemma next_index_new:
  assumes ok: "cluster_ok n s" "logs_ok n G s" and c: "0 \<le> c" "c < int n" and L: "state (nodes s c) = Leader"
  shows "G (GetLastIndex (nodes s c) + 1, currentTerm (nodes s c)) = None"
proof (rule ccontr)
  let ?i = "GetLastIndex (nodes s c) + 1" and ?t = "currentTerm (nodes s c)"
  assume "G (?i, ?t) \<noteq> None"
  then obtain x where "G (?i, ?t) = Some x" by blast
  then obtain d where d: "0 \<le> d" "d < int n" "1 < n \<longrightarrow> chosen n s ?t d" "created ?i ?t (nodes s d)"
    using logs_okD(3) [OF ok(2)] by blast
  have "1 < n \<Longrightarrow> chosen n s ?t c" by (rule elected_chosen [OF ok(1) c]) (simp_all add: elected_def L)
  then have "d = c" using leaders_same [OF ok(1) d(1,2) c] d(3) by blast
  with d(4) L show False by (simp add: created_def)
qed

lemma start_logs:
  assumes ok: "cluster_ok n s" "logs_ok n G s" and c: "0 \<le> c" "c < int n" and st: "Start cmd (nodes s c) = (res, rf')"
  shows "\<exists>G'. G \<subseteq>\<^sub>m G' \<and> logs_ok n G' (set_node c rf' s)"
proof (cases "state (nodes s c) = Leader")
  case False
  then have "set_node c rf' s = s" using st by (auto simp: Start_def set_node_def)
  then show ?thesis using ok(2) by (intro exI [of _ G]) simp
next
  case L: True
  let ?rf = "nodes s c"
  let ?e = "\<lparr>Term = currentTerm ?rf, Command = cmd\<rparr>" and ?k = "(GetLastIndex ?rf + 1, currentTerm ?rf)"
  define G' where "G' = G(?k \<mapsto> (Term (last (log ?rf)), cmd))"
  have wf: "wf_raft ?rf" using cluster_okD(1) [OF ok(1)] c(1) by (simp add: nodes_ok_def)
  have fr: "G ?k = None" by (rule next_index_new [OF ok c L])
  have G: "G \<subseteq>\<^sub>m G'" using fr by (auto simp: G'_def map_le_def)
  have rf': "log rf' = log ?rf @ [?e]" "lastSnapshotIndex rf' = lastSnapshotIndex ?rf" "state rf' = Leader"
    "currentTerm rf' = currentTerm ?rf" using st L by (auto simp: Start_def Let_def)
  let ?t = "set_node c rf' s"
  have g: "grows s ?t" using Start_keeps [OF wf st] by (simp add: grows_def)
  have lg: "log_in G (lastSnapshotIndex ?rf) (log ?rf)" by (rule logs_okD(1) [OF ok(2) c(1)])
  have "log_in G' (lastSnapshotIndex ?rf) (log ?rf @ [?e])"
    by (rule log_in_snoc [OF log_in_mono [OF lg G] wf_raftD(1) [OF wf]]) (simp add: G'_def GetLastIndex_def)
  then have new: "log_in G' (lastSnapshotIndex rf') (log rf')" by (simp add: rf')
  have ch: "1 < n \<longrightarrow> chosen n s (currentTerm ?rf) c"
    using elected_chosen [OF ok(1) c] by (simp add: elected_def L)
  have "keeps_created ?rf rf'" using L by (simp add: keeps_created_def rf' GetLastIndex_def)
  note keep = created_keeps [OF _ this]
  have "logs_ok n G' ?t"
    unfolding logs_ok_def
  proof (intro conjI allI impI)
    fix i t x assume x: "G' (i, t) = Some x"
    show "\<exists>d. 0 \<le> d \<and> d < int n \<and> (1 < n \<longrightarrow> chosen n ?t t d) \<and> created i t (nodes ?t d)"
    proof (cases "(i, t) = ?k")
      case True
      then show ?thesis using ch chosen_mono [OF g] c by (intro exI [of _ c]) (auto simp: created_def rf' GetLastIndex_def)
    next
      case False
      then have "G (i, t) = Some x" using x by (auto simp: G'_def)
      from logs_okD(3) [OF ok(2) this] obtain d where
        "0 \<le> d" "d < int n" "1 < n \<longrightarrow> chosen n s t d" "created i t (nodes s d)" by blast
      then show ?thesis using chosen_mono [OF g] keep by (intro exI [of _ d]) auto
    qed
  qed (use new logs_okD(1,2) [OF ok(2)] log_in_mono [OF _ G] in auto)
  with G show ?thesis by blast
qed

text \<open>One peer takes a step that sends nothing; then one that also leaves its log as it is.\<close>

lemma node_logs:
  assumes "logs_ok n G s" and "nodes t = (nodes s)(c := rf')" "sent t = sent s" "answers s \<subseteq> answers t"
    and "vote_le (nodes s c) rf'" and "keeps_created (nodes s c) rf' \<and> log_in G (lastSnapshotIndex rf') (log rf')"
  shows "\<exists>G'. G \<subseteq>\<^sub>m G' \<and> logs_ok n G' t"
proof -
  have "logs_ok n G t" by (rule logs_step [OF assms(1) _ assms(2)]) (use assms in \<open>auto simp: grows_def\<close>)
  then show ?thesis using map_le_refl by blast
qed

lemma quiet_logs:
  assumes "logs_ok n G s" and "0 \<le> c" and "wf_raft rf' \<and> vote_le (nodes s c) rf' \<and> no_campaign (nodes s c) rf'"
    and "same_log (nodes s c) rf'" and "nodes t = (nodes s)(c := rf')" "sent t = sent s" "answers s \<subseteq> answers t"
  shows "\<exists>G'. G \<subseteq>\<^sub>m G' \<and> logs_ok n G' t"
  by (rule node_logs [OF assms(1,5-7)])
    (use assms(3) same_log_keeps [OF _ _ assms(4) logs_okD(1) [OF assms(1,2)]] in auto)

lemma append_logs:
  assumes ok: "cluster_ok n s" "logs_ok n G s" and sent: "(c, CallAppendEntries v args) \<in> sent s"
    and app: "AppendEntries args (nodes s v) = Inr (r, rf')"
    and t: "nodes t = (nodes s)(v := rf')" "sent t = sent s" "answers s \<subseteq> answers t"
  shows "\<exists>G'. G \<subseteq>\<^sub>m G' \<and> logs_ok n G' t"
proof -
  have v: "0 \<le> v" using calls_okD(1) [OF cluster_okD(2) [OF ok(1)] sent] by simp
  then have wf: "wf_raft (nodes s v)" using cluster_okD(1) [OF ok(1)] by (simp add: nodes_ok_def)
  have "aea_Term args = currentTerm (nodes s v) \<Longrightarrow> state (nodes s v) \<noteq> Leader"
    using not_own_request [OF ok(1) sent] by simp
  from AppendEntries_log_in [OF app wf logs_okD(1) [OF ok(2) v] logs_okD(2) [OF ok(2) sent] this]
  show ?thesis by (intro node_logs [OF ok(2) t]) (use AppendEntries_keeps [OF wf app] in auto)
qed

lemma install_logs:
  assumes ok: "cluster_ok n s" "logs_ok n G s" and sent: "(c, CallInstallSnapshot v args) \<in> sent s"
    and ins: "InstallSnapshot zero args (nodes s v) = Inr (r, rf')"
    and t: "nodes t = (nodes s)(v := rf')" "sent t = sent s" "answers s \<subseteq> answers t"
  shows "\<exists>G'. G \<subseteq>\<^sub>m G' \<and> logs_ok n G' t"
proof -
  have v: "0 \<le> v" using calls_okD(1) [OF cluster_okD(2) [OF ok(1)] sent] by simp
  then have wf: "wf_raft (nodes s v)" using cluster_okD(1) [OF ok(1)] by (simp add: nodes_ok_def)
  have "isa_Term args = currentTerm (nodes s v) \<Longrightarrow> state (nodes s v) \<noteq> Leader"
    using not_own_request [OF ok(1) sent] by simp
  from InstallSnapshot_log_in [OF ins wf logs_okD(1) [OF ok(2) v] this]
  show ?thesis by (intro node_logs [OF ok(2) t]) (use InstallSnapshot_keeps [OF wf ins] in auto)
qed

lemma tick_logs:
  assumes "logs_ok n G s" and c: "0 \<le> c" and wf: "wf_raft (nodes s c)"
    and tick: "ticker_step timeout (nodes s c) = Inr (calls, rf')"
    and t: "nodes t = (nodes s)(c := rf')" "sent t = sent s \<union> Pair c ` set calls" "answers t = answers s"
  shows "\<exists>G'. G \<subseteq>\<^sub>m G' \<and> logs_ok n G' t"
proof -
  note k = ticker_log_in [OF tick wf logs_okD(1) [OF assms(1) c]]
  have "grows s t" using ticker_step_keeps [OF wf tick] by (auto simp: t grows_def)
  then have "logs_ok n G t"
    by (rule logs_step [OF assms(1) _ t(1)]) (use k t logs_okD(1) [OF assms(1) c] in \<open>auto simp: same_log_def\<close>)
  then show ?thesis using map_le_refl by blast
qed

lemma cluster_step_logs:
  assumes step: "cluster_step zero n s t" and ok: "cluster_ok n s" "logs_ok n G s"
  shows "\<exists>G'. G \<subseteq>\<^sub>m G' \<and> logs_ok n G' t"
proof -
  have node: "wf_raft (nodes s i)" "me (nodes s i) = i" "peers (nodes s i) = n" if "0 \<le> i" for i
    using cluster_okD(1) [OF ok(1)] that by (auto simp: nodes_ok_def)
  have pos: "0 \<le> c \<and> 0 \<le> callee call" if "(c, call) \<in> sent s" for c call
    using calls_okD(1) [OF cluster_okD(2) [OF ok(1)] that] by auto
  have run: "0 \<le> c" if "(c, call) \<in># running s" for c call
    using pos calls_okD(4) [OF cluster_okD(2) [OF ok(1)] that] by blast
  from step show ?thesis
  proof cases
    case (handle_vote rpc c v args r rf')
    then have v: "0 \<le> v" using pos [of c "CallRequestVote v args"] by simp
    note wf = node(1) [OF v]
    show ?thesis
      by (rule quiet_logs [OF ok(2) v RequestVote_keeps [OF wf handle_vote(4)] RequestVote_same_log [OF handle_vote(4) wf_raftD(1) [OF wf]]])
        (auto simp: handle_vote(1))
  next
    case (handle_append rpc c v args r rf')
    then show ?thesis by (intro append_logs [OF ok _ handle_append(4)]) auto
  next
    case (handle_snapshot rpc c v args r rf')
    then show ?thesis by (intro install_logs [OF ok _ handle_snapshot(4)]) auto
  next
    case (finish_vote rpc c v args outcomes)
    then have c: "0 \<le> c" using run by blast
    show ?thesis
      by (rule node_logs [OF ok(2), of _ c "sendRequestVote outcomes args (nodes s c)"])
        (use finish_vote(1) sendRequestVote_keeps [OF node(1) [OF c]] sendRequestVote_same_log [of "nodes s c" outcomes args]
          logs_okD(1) [OF ok(2) c] in \<open>auto simp: same_log_def\<close>)
  next
    case (finish_append rpc c v args outcomes rf')
    then have c: "0 \<le> c" using run by blast
    show ?thesis
      by (rule quiet_logs [OF ok(2) c sendAppendEntries_keeps [OF node(1) [OF c] finish_append(5)] sendAppendEntries_same_log [OF finish_append(5)]])
        (auto simp: finish_append(1))
  next
    case (finish_snapshot rpc c v args outcomes rf')
    then have c: "0 \<le> c" using run by blast
    show ?thesis
      by (rule quiet_logs [OF ok(2) c sendInstallSnapshot_keeps [OF node(1) [OF c] finish_snapshot(5)] sendInstallSnapshot_same_log [OF finish_snapshot(5)]])
        (auto simp: finish_snapshot(1))
  next
    case (tick c timeout calls rf')
    then show ?thesis by (intro tick_logs [OF ok(2) tick(2) node(1) tick(4)]) auto
  next
    case (apply_step c rf')
    show ?thesis
      by (rule quiet_logs [OF ok(2) apply_step(2) applyLogEntry_step_keeps [OF node(1) [OF apply_step(2)] apply_step(4)] applyLogEntry_same_log [OF apply_step(4)]])
        (auto simp: apply_step(1))
  next
    case (start c cmd res rf')
    then show ?thesis using start_logs [OF ok] by blast
  next
    case (take_snapshot c idx snap rf')
    note wf = node(1) [OF take_snapshot(2)]
    show ?thesis
      by (rule node_logs [OF ok(2) _ _ _ _ Raft_Snapshot_log_in [OF take_snapshot(4) wf logs_okD(1) [OF ok(2) take_snapshot(2)]]])
        (use Raft_Snapshot_keeps [OF wf take_snapshot(4)] in \<open>auto simp: take_snapshot(1)\<close>)
  next
    case (kill c)
    show ?thesis
      by (rule quiet_logs [OF ok(2) kill(2) Kill_keeps [OF node(1) [OF kill(2)]]])
        (auto simp: kill(1) same_log_def, simp_all add: Kill_def)
  next
    case (restart c)
    note k = restart_same_log [OF node(1) [OF restart(2)], where n = n and c = c]
    show ?thesis
      by (rule node_logs [OF ok(2), of _ c "Make n c (Persister_Copy (persister (nodes s c)))"])
        (use restart(1) k node(2,3) [OF restart(2)] logs_okD(1) [OF ok(2) restart(2)] in \<open>auto simp: same_log_def\<close>)
  qed
qed

lemma logs_ok_init: "logs_ok n Map.empty (cluster_init n)"
  by (simp add: logs_ok_def cluster_init_def Make_fresh)

lemma reachable_logs:
  assumes "cluster_reachable zero n s"
  shows "\<exists>G. logs_ok n G s"
  using assms
proof induction
  case init
  then show ?case using logs_ok_init by blast
next
  case (step s t)
  then show ?case using cluster_step_logs [OF step(2) cluster_reachable_ok [OF step(1)]] by blast
qed

lemma run_logs:
  assumes "(cluster_step zero n)\<^sup>*\<^sup>* s t" and "cluster_reachable zero n s" and "logs_ok n G s"
  shows "cluster_reachable zero n t \<and> (\<exists>G'. G \<subseteq>\<^sub>m G' \<and> logs_ok n G' t)"
  using assms
proof (induction rule: rtranclp_induct)
  case base
  then show ?case using map_le_refl by blast
next
  case (step t u)
  then obtain G' where t: "cluster_reachable zero n t" "G \<subseteq>\<^sub>m G'" "logs_ok n G' t" by blast
  with cluster_step_logs [OF step(2) cluster_reachable_ok [OF t(1)] t(3)] obtain G'' where "G' \<subseteq>\<^sub>m G''" "logs_ok n G'' u" by blast
  then show ?case using t map_le_trans cluster_reachable.step [OF t(1) step(2)] by blast
qed

section \<open>Log matching\<close>

text \<open>The entry of a peer at an index past its snapshot.\<close>

definition entry_at :: "('c, 'b) Raft \<Rightarrow> int \<Rightarrow> 'c logEntry option" where
  "entry_at rf i = (if lastSnapshotIndex rf < i \<and> i \<le> GetLastIndex rf
     then Some (log rf ! nat (i - lastSnapshotIndex rf)) else None)"

lemma entry_at_Some:
  assumes "entry_at rf i = Some e"
  obtains k where "0 < k" "k < length (log rf)" "i = lastSnapshotIndex rf + int k" "e = log rf ! k"
proof -
  let ?k = "nat (i - lastSnapshotIndex rf)"
  have "0 < ?k" "?k < length (log rf)" "i = lastSnapshotIndex rf + int ?k" "e = log rf ! ?k"
    using assms by (auto simp: entry_at_def GetLastIndex_def split: if_splits)
  then show thesis by (rule that)
qed

lemma entry_at_nth:
  "entry_at rf i = Some e \<Longrightarrow> i = lastSnapshotIndex rf + int k \<Longrightarrow> k < length (log rf) \<and> e = log rf ! k"
  by (erule entry_at_Some) simp

lemma logs_agree:
  assumes "cluster_reachable zero n s" and "(cluster_step zero n)\<^sup>*\<^sup>* s t" and "0 \<le> a" and "0 \<le> b"
    and "entry_at (nodes s a) i = Some e" and "entry_at (nodes t b) i = Some e'" and "Term e = Term e'"
    and "j \<le> i" and "entry_at (nodes s a) j = Some x" and "entry_at (nodes t b) j = Some y"
  shows "x = y"
proof -
  obtain G where G: "logs_ok n G s" using reachable_logs [OF assms(1)] by blast
  obtain G' where G': "G \<subseteq>\<^sub>m G'" "logs_ok n G' t" using run_logs [OF assms(2,1) G] by blast
  have lg: "log_in G' (lastSnapshotIndex (nodes s a)) (log (nodes s a))"
    "log_in G' (lastSnapshotIndex (nodes t b)) (log (nodes t b))"
    using log_in_mono [OF logs_okD(1) [OF G assms(3)] G'(1)] logs_okD(1) [OF G'(2) assms(4)] .
  obtain k1 k2 where k: "0 < k1" "k1 < length (log (nodes s a))" "j = lastSnapshotIndex (nodes s a) + int k1" "x = log (nodes s a) ! k1"
    "0 < k2" "k2 < length (log (nodes t b))" "j = lastSnapshotIndex (nodes t b) + int k2" "y = log (nodes t b) ! k2"
    using assms(9,10) by (elim entry_at_Some) blast
  define d where "d = nat (i - j)"
  have i: "i = j + int d" using assms(8) by (simp add: d_def)
  have "e = log (nodes s a) ! (k1 + d)" "k1 + d < length (log (nodes s a))"
    "e' = log (nodes t b) ! (k2 + d)" "k2 + d < length (log (nodes t b))"
    using entry_at_nth [OF assms(5), of "k1 + d"] entry_at_nth [OF assms(6), of "k2 + d"] i k(3,7) by simp_all
  then show ?thesis
    unfolding k(4,8) by (intro log_in_agree [OF lg, of k1 d k2]) (use k assms(7) in simp_all)
qed

text \<open>C3: log matching, at any two moments of an execution.  If a peer has at one moment, and a peer
  (the same or another) at that moment or later, an entry of the same term at the same index, then
  their logs agree on the commands and terms of that index and of all earlier ones that both still
  hold, whatever requests were delayed, repeated or lost, and whatever was trimmed into snapshots,
  truncated or recovered after a crash.\<close>
theorem log_matching:
  assumes "cluster_reachable zero n s" and "(cluster_step zero n)\<^sup>*\<^sup>* s t" and "0 \<le> a" and "0 \<le> b"
    and "entry_at (nodes s a) i = Some e" and "entry_at (nodes t b) i = Some e'" and "Term e = Term e'"
    and "j \<le> i" and "entry_at (nodes s a) j = Some x" and "entry_at (nodes t b) j = Some y"
  shows "x = y"
  using assms by (rule logs_agree)

subsection \<open>A replicated log\<close>

text \<open>The leader of the election above appends two commands and replicates them to peer 1.\<close>

definition demo_log :: "nat logEntry list" where
  "demo_log = [nilEntry 0, \<lparr>Term = 1, Command = Some 7\<rparr>, \<lparr>Term = 1, Command = Some 8\<rparr>]"

lemma Start_leader:
  assumes "state rf = Leader" and "ticker_pc rf = TLoop"
  shows "snd (Start cmd rf) = persist None (rf\<lparr>log := log rf @ [\<lparr>Term = currentTerm rf, Command = cmd\<rparr>]\<rparr>)"
  using assms by (simp add: Start_def Let_def sendToChannel_def persist_def)

definition demo_started :: "(nat, nat) Raft" where
  "demo_started = snd (Start (Some 8) (snd (Start (Some 7) demo_lead)))"

lemma demo_started_fields:
  "log demo_started = demo_log" "lastSnapshotIndex demo_started = 0" "state demo_started = Leader"
  "currentTerm demo_started = 1" "peers demo_started = 3" "me demo_started = 0" "ticker_pc demo_started = TLoop"
  "killed demo_started = False" "nextIndex demo_started = [1, 1, 1]"
  using demo_lead_fields
  by (simp_all add: demo_started_def Start_leader demo_log_def) (simp_all add: persist_def killed_def)

lemma demo_heartbeat:
  "\<exists>args. heartbeat_loop (demo_started\<lparr>ticker_pc := pc\<rparr>) [1, 2] = Inr [CallAppendEntries 1 args, CallAppendEntries 2 args] \<and>
     aea_Term args = 1 \<and> PrevLogIndex args = 0 \<and> PrevLogTerm args = 0 \<and> Entries args = tl demo_log"
  by (simp add: heartbeat_call_def ToLogIndex_def demo_started_fields demo_log_def Let_def)

lemma demo_accepts:
  assumes "log rf = [nilEntry 0]" "lastSnapshotIndex rf = 0" "currentTerm rf = 1"
    and "aea_Term args = 1" "PrevLogIndex args = 0" "PrevLogTerm args = 0" "Entries args = tl demo_log"
  shows "\<exists>rf'. AppendEntries args rf = Inr (\<lparr>aer_Term = 1, XIndex = 3, XTerm = - 1, Success = True\<rparr>, rf') \<and>
    log rf' = demo_log \<and> lastSnapshotIndex rf' = 0"
  using assms
  by (simp add: AppendEntries_def AppendEntries_reject_def ToLogIndex_def GetLastIndex_def ToOriginalIndex_def Let_def demo_log_def
      match_loop.simps)

lemma demo_answered:
  "\<exists>s args. cluster_reachable (0 :: nat) 3 (s :: (nat, nat) cluster) \<and> nodes s 0 = demo_started \<and>
     log (nodes s 1) = demo_log \<and> lastSnapshotIndex (nodes s 1) = 0 \<and> aea_Term args = 1 \<and>
     (0, CallAppendEntries 1 args) \<in># running s \<and>
     ((0, CallAppendEntries 1 args), AppendReply \<lparr>aer_Term = 1, XIndex = 3, XTerm = - 1, Success = True\<rparr>) \<in> answers s"
proof -
  obtain s0 where r0: "cluster_reachable (0 :: nat) 3 (s0 :: (nat, nat) cluster)" and n0: "nodes s0 0 = demo_lead"
    and n1: "log (nodes s0 1) = [nilEntry 0]" "lastSnapshotIndex (nodes s0 1) = 0" "currentTerm (nodes s0 1) = 1"
    using demo_elected by blast
  define s1 where "s1 = set_node 0 (snd (Start (Some 7) demo_lead)) s0"
  define s2 where "s2 = set_node 0 demo_started s1"
  define s3 where "s3 = (set_node 0 (demo_started\<lparr>ticker_pc := TSelect Leader\<rparr>) s2)\<lparr>sent := sent s2, running := running s2\<rparr>"
  define s4 where "s4 = (set_node 0 (demo_started\<lparr>ticker_pc := TBroadcast\<rparr>) s3)\<lparr>sent := sent s3, running := running s3\<rparr>"
  obtain args where hb: "heartbeat_loop (demo_started\<lparr>ticker_pc := TBroadcast\<rparr>) [1, 2] = Inr [CallAppendEntries 1 args, CallAppendEntries 2 args]"
    and args: "aea_Term args = 1" "PrevLogIndex args = 0" "PrevLogTerm args = 0" "Entries args = tl demo_log"
    using demo_heartbeat by blast
  let ?calls = "[CallAppendEntries 1 args, CallAppendEntries 2 args]"
  define s5 where "s5 = (set_node 0 demo_started s4)\<lparr>sent := sent s4 \<union> Pair 0 ` set ?calls,
    running := running s4 + mset (map (Pair 0) ?calls)\<rparr>"
  note f = demo_started_fields
  have r1: "cluster_reachable 0 3 s1"
    unfolding s1_def by (rule cluster_reachable.step [OF r0 cluster_step.start [of 0 3 "Some 7" s0 "fst (Start (Some 7) demo_lead)"]])
      (simp_all add: n0)
  have r2: "cluster_reachable 0 3 s2"
    unfolding s2_def by (rule cluster_reachable.step [OF r1 cluster_step.start [of 0 3 "Some 8" s1 "fst (Start (Some 8) (nodes s1 0))"]])
      (simp_all add: s1_def demo_started_def)
  have r3: "cluster_reachable 0 3 s3"
    using cluster_step.tick [of 0 3 False s2 "[]" "demo_started\<lparr>ticker_pc := TSelect Leader\<rparr>" 0]
    by (auto intro!: cluster_reachable.step [OF r2] simp: s3_def s2_def ticker_step_def f)
  have r4: "cluster_reachable 0 3 s4"
    using cluster_step.tick [of 0 3 True s3 "[]" "demo_started\<lparr>ticker_pc := TBroadcast\<rparr>" 0]
    by (auto intro!: cluster_reachable.step [OF r3] simp: s4_def s3_def ticker_step_def)
  have "demo_started\<lparr>ticker_pc := TLoop\<rparr> = demo_started" using f(7) by (metis Raft.surjective Raft.update_convs(18))
  moreover have "broadcastHeartbeat (demo_started\<lparr>ticker_pc := TBroadcast\<rparr>) = Inr ?calls"
    using hb other_peers_demo [of "demo_started\<lparr>ticker_pc := TBroadcast\<rparr>"] by (simp add: broadcastHeartbeat_def f)
  ultimately have "ticker_step False (nodes s4 0) = Inr (?calls, demo_started)" by (simp add: s4_def ticker_step_def)
  then have r5: "cluster_reachable 0 3 s5"
    unfolding s5_def by (intro cluster_reachable.step [OF r4 cluster_step.tick]) simp_all
  have n5: "nodes s5 0 = demo_started" "nodes s5 1 = nodes s0 1" by (simp_all add: s5_def s4_def s3_def s2_def s1_def)
  let ?r = "\<lparr>aer_Term = 1, XIndex = 3, XTerm = - 1, Success = True\<rparr>"
  obtain rf' where app: "AppendEntries args (nodes s5 1) = Inr (?r, rf')" "log rf' = demo_log" "lastSnapshotIndex rf' = 0"
    using demo_accepts [OF _ _ _ args, of "nodes s5 1"] n1 by (auto simp: n5)
  let ?s6 = "(set_node 1 rf' s5)\<lparr>answers := insert ((0, CallAppendEntries 1 args), AppendReply ?r) (answers s5)\<rparr>"
  have "cluster_reachable 0 3 ?s6"
    by (rule cluster_reachable.step [OF r5 cluster_step.handle_append [OF refl _ app(1)]]) (simp add: s5_def)
  moreover have "(0, CallAppendEntries 1 args) \<in># running s5" by (simp add: s5_def)
  ultimately show ?thesis using app(2,3) args(1) n5 by (intro exI [of _ ?s6] exI [of _ args]) simp
qed

lemma demo_replicated:
  "\<exists>s. cluster_reachable (0 :: nat) 3 (s :: (nat, nat) cluster) \<and> log (nodes s 0) = demo_log \<and> lastSnapshotIndex (nodes s 0) = 0 \<and>
     log (nodes s 1) = demo_log \<and> lastSnapshotIndex (nodes s 1) = 0"
  using demo_answered demo_started_fields by metis

theorem log_matching_witness:
  "\<exists>s. cluster_reachable (0 :: nat) 3 (s :: (nat, nat) cluster) \<and>
     entry_at (nodes s 0) 1 = Some \<lparr>Term = 1, Command = Some 7\<rparr> \<and> entry_at (nodes s 1) 1 = entry_at (nodes s 0) 1"
proof -
  obtain s where s: "cluster_reachable (0 :: nat) 3 (s :: (nat, nat) cluster)" "log (nodes s 0) = demo_log"
    "lastSnapshotIndex (nodes s 0) = 0" "log (nodes s 1) = demo_log" "lastSnapshotIndex (nodes s 1) = 0"
    using demo_replicated by blast
  have at: "\<exists>x. entry_at (nodes s i) 1 = Some x" "\<exists>e. entry_at (nodes s i) 2 = Some e \<and> Term e = 1"
    "entry_at (nodes s 0) 1 = Some \<lparr>Term = 1, Command = Some 7\<rparr>" if "i = 0 \<or> i = 1" for i
    using s that by (auto simp: entry_at_def GetLastIndex_def demo_log_def)
  obtain x y e e' where "entry_at (nodes s 0) 1 = Some x" "entry_at (nodes s 1) 1 = Some y"
    "entry_at (nodes s 0) 2 = Some e" "entry_at (nodes s 1) 2 = Some e'" "Term e = Term e'"
    using at(1,2) [of 0] at(1,2) [of 1] by auto
  then have "x = y" using log_matching [OF s(1) rtranclp.rtrancl_refl, of 0 1 2 e e' 1 x y] by simp
  then show ?thesis using s(1) at(3) [of 0] \<open>entry_at (nodes s 0) 1 = Some x\<close> \<open>entry_at (nodes s 1) 1 = Some y\<close> by auto
qed

end
