(* ===== verification/RaftCommit.thy ===== *)
theory RaftCommit
  imports RaftLog
begin

text \<open>
  What a leader of the cluster of \<open>RaftCluster\<close> knows of its followers: the invariant behind
  \<open>matchIndex\<close> and \<open>commitIndex\<close> of \<open>src/raft1/raft_append_entries.go\<close>.

  An entry that \<open>matchIndex\<close> counts for a peer was in the peer's log, or covered by its snapshot, at
  some earlier moment of the execution.  The invariant follows the three places where the knowledge
  is made: the requests that a leader has sent name the end of its log, the replies to them were given
  by a peer whose log ended, or conflicted, as the reply says, and \<open>sendAppendEntries\<close> combines the two.
\<close>

section \<open>The leader's log\<close>

text \<open>How a peer may change: its snapshot index does not fall, and while it stays the leader of a term
  its log is only extended and trimmed.\<close>

definition leads_on :: "('c, 'b) Raft \<Rightarrow> ('c, 'b) Raft \<Rightarrow> bool" where
  "leads_on rf rf' \<longleftrightarrow> lastSnapshotIndex rf \<le> lastSnapshotIndex rf' \<and> keeps_created rf rf' \<and>
     (state rf = Leader \<longrightarrow> state rf' = Leader \<longrightarrow> currentTerm rf' = currentTerm rf \<longrightarrow>
        (\<forall>m. m \<le> GetLastIndex rf \<longrightarrow> lastSnapshotIndex rf' < m \<longrightarrow> entry_at rf' m = entry_at rf m))"

lemma leads_on_refl [simp]: "leads_on rf rf"
  by (simp add: leads_on_def)

lemma same_log_entry_at: "same_log rf rf' \<Longrightarrow> entry_at rf' m = entry_at rf m"
  by (simp add: same_log_def entry_at_def GetLastIndex_def)

lemma same_log_leads: "same_log rf rf' \<Longrightarrow> keeps_created rf rf' \<Longrightarrow> leads_on rf rf'"
  using same_log_entry_at [of rf rf'] by (auto simp: leads_on_def same_log_def)

lemma quiet_leads:
  "wf_raft rf' \<and> vote_le rf rf' \<and> no_campaign rf rf' \<Longrightarrow> same_log rf rf' \<Longrightarrow> leads_on rf rf'"
  by (rule same_log_leads) (auto intro: keeps_created_quiet simp: same_log_def GetLastIndex_def)

lemma AppendEntries_leads:
  assumes "AppendEntries args rf = Inr (reply, rf')" and "wf_raft rf"
    and leader: "aea_Term args = currentTerm rf \<Longrightarrow> state rf \<noteq> Leader"
  shows "leads_on rf rf'"
proof (cases "aea_Term args < currentTerm rf")
  case True
  then show ?thesis using assms(1) by (simp add: AppendEntries_def)
next
  case False
  then have le: "currentTerm rf \<le> aea_Term args" by simp
  note eq = assms(1) [unfolded AppendEntries_eq [OF le]]
  have "currentTerm rf' = aea_Term args \<and> lastSnapshotIndex rf' = lastSnapshotIndex rf"
    using eq le by (auto simp: go_bind_eq_Inr_iff split: option.splits)
  moreover have "keeps_created rf rf'"
    by (rule keeps_created_quiet) (use AppendEntries_keeps [OF assms(2,1)] leader calculation in auto)
  ultimately show ?thesis using leader by (auto simp: leads_on_def)
qed

lemma InstallSnapshot_leads:
  assumes "InstallSnapshot zero args rf = Inr (reply, rf')" and "wf_raft rf"
    and leader: "isa_Term args = currentTerm rf \<Longrightarrow> state rf \<noteq> Leader"
  shows "leads_on rf rf'"
  using assms(1)
proof (cases rule: InstallSnapshot_cases)
  case (partial buf)
  have "keeps_created rf rf'"
    by (rule keeps_created_quiet) (use InstallSnapshot_keeps [OF assms(2,1)] in \<open>auto simp: partial(3) GetLastIndex_def\<close>)
  then show ?thesis by (intro same_log_leads) (simp_all add: same_log_def partial(3))
next
  case (install buf lg)
  have "currentTerm rf' = isa_Term args" using install(1) by (simp add: install(3))
  moreover have "keeps_created rf rf'"
    by (rule keeps_created_quiet) (use InstallSnapshot_keeps [OF assms(2,1)] leader install(1) in \<open>auto simp: install(3)\<close>)
  ultimately show ?thesis using leader install(2) by (auto simp: leads_on_def install(3))
qed simp

lemma Start_leads:
  assumes "Start cmd rf = (res, rf')"
  shows "leads_on rf rf'"
proof (cases "state rf = Leader")
  case True
  then have "log rf' = log rf @ [\<lparr>Term = currentTerm rf, Command = cmd\<rparr>]" "lastSnapshotIndex rf' = lastSnapshotIndex rf"
    "state rf' = Leader" "currentTerm rf' = currentTerm rf"
    using assms by (auto simp: Start_def Let_def)
  then show ?thesis using True
    by (auto simp: leads_on_def keeps_created_def entry_at_def GetLastIndex_def nth_append)
qed (use assms in \<open>simp add: Start_def\<close>)

lemma Raft_Snapshot_leads:
  assumes "Raft_Snapshot index snap rf = Inr rf'" and "wf_raft rf"
  shows "leads_on rf rf'"
proof (cases "index \<le> lastSnapshotIndex rf \<or> index > GetLastIndex rf")
  case True
  then show ?thesis using assms by (simp add: Raft_Snapshot_def)
next
  case False
  define k where "k = nat (index - lastSnapshotIndex rf)"
  have i: "index = lastSnapshotIndex rf + int k" "k < length (log rf)"
    using False by (auto simp: k_def GetLastIndex_def)
  have rf': "log rf' = nilEntry (Term (log rf ! k)) # drop (Suc k) (log rf)" "lastSnapshotIndex rf' = index"
    using assms(1) Raft_Snapshot_eq [of rf index snap] False i(2)
    by (auto simp: k_def [symmetric] Let_def hd_drop_conv_nth tl_drop drop_Suc)
  have "entry_at rf' m = entry_at rf m" if "index < m" for m
  proof -
    define q where "q = nat (m - index - 1)"
    have "m = index + 1 + int q" using that by (simp add: q_def)
    then show ?thesis using i by (auto simp: entry_at_def GetLastIndex_def rf' nat_add_distrib)
  qed
  moreover have "keeps_created rf rf'"
    by (rule keeps_created_quiet)
      (use Raft_Snapshot_keeps [OF assms(2,1)] i in \<open>auto simp: rf' GetLastIndex_def of_nat_diff\<close>)
  ultimately show ?thesis using i by (auto simp: leads_on_def rf')
qed

lemma cluster_step_leads:
  assumes step: "cluster_step zero n s t" and ok: "cluster_ok n s" and lg: "logs_ok n G s" and i: "0 \<le> i"
  shows "leads_on (nodes s i) (nodes t i)"
proof -
  have node: "wf_raft (nodes s i)" if "0 \<le> i" for i
    using cluster_okD(1) [OF ok] that by (auto simp: nodes_ok_def)
  have pos: "0 \<le> c \<and> 0 \<le> callee call" if "(c, call) \<in> sent s" for c call
    using calls_okD(1) [OF cluster_okD(2) [OF ok] that] by auto
  have run: "0 \<le> c" if "(c, call) \<in># running s" for c call
    using pos calls_okD(4) [OF cluster_okD(2) [OF ok] that] by blast
  have upd: "leads_on (nodes s i) (((nodes s)(c := rf')) i)" if "0 \<le> c \<Longrightarrow> leads_on (nodes s c) rf'" for c rf'
    using that i by simp
  from step show ?thesis
  proof cases
    case (handle_vote rpc c v args r rf')
    show ?thesis
      using upd [OF quiet_leads [OF RequestVote_keeps [OF node handle_vote(4)] RequestVote_same_log [OF handle_vote(4) wf_raftD(1) [OF node]]]]
      by (simp add: handle_vote(1))
  next
    case (handle_append rpc c v args r rf')
    have "aea_Term args = currentTerm (nodes s v) \<Longrightarrow> state (nodes s v) \<noteq> Leader"
      using not_own_request [OF ok, of c "CallAppendEntries v args"] handle_append(2,3) by simp
    from upd [OF AppendEntries_leads [OF handle_append(4) node this]] show ?thesis by (simp add: handle_append(1))
  next
    case (handle_snapshot rpc c v args r rf')
    have "isa_Term args = currentTerm (nodes s v) \<Longrightarrow> state (nodes s v) \<noteq> Leader"
      using not_own_request [OF ok, of c "CallInstallSnapshot v args"] handle_snapshot(2,3) by simp
    from upd [OF InstallSnapshot_leads [OF handle_snapshot(4) node this]] show ?thesis by (simp add: handle_snapshot(1))
  next
    case (finish_vote rpc c v args outcomes)
    show ?thesis
      using upd [OF same_log_leads [OF sendRequestVote_same_log [THEN conjunct1] sendRequestVote_same_log [THEN conjunct2]]]
      by (simp add: finish_vote(1))
  next
    case (finish_append rpc c v args outcomes rf')
    show ?thesis
      using upd [OF quiet_leads [OF sendAppendEntries_keeps [OF node finish_append(5)] sendAppendEntries_same_log [OF finish_append(5)]]]
      by (simp add: finish_append(1))
  next
    case (finish_snapshot rpc c v args outcomes rf')
    show ?thesis
      using upd [OF quiet_leads [OF sendInstallSnapshot_keeps [OF node finish_snapshot(5)] sendInstallSnapshot_same_log [OF finish_snapshot(5)]]]
      by (simp add: finish_snapshot(1))
  next
    case (tick c timeout calls rf')
    show ?thesis
      using upd [OF same_log_leads [OF ticker_log_in(2,1) [OF tick(4) node logs_okD(1) [OF lg]]]] by (simp add: tick(1))
  next
    case (apply_step c rf')
    show ?thesis
      using upd [OF quiet_leads [OF applyLogEntry_step_keeps [OF node apply_step(4)] applyLogEntry_same_log [OF apply_step(4)]]]
      by (simp add: apply_step(1))
  next
    case (start c cmd res rf')
    from upd [OF Start_leads [OF start(4)]] show ?thesis by (simp add: start(1))
  next
    case (take_snapshot c idx snap rf')
    from upd [OF Raft_Snapshot_leads [OF take_snapshot(4) node]] show ?thesis by (simp add: take_snapshot(1))
  next
    case (kill c)
    have "same_log (nodes s c) (Kill (nodes s c))" by (simp add: same_log_def Kill_def)
    from upd [OF quiet_leads [OF Kill_keeps [OF node] this]] show ?thesis by (simp add: kill(1))
  next
    case (restart c)
    from upd [OF same_log_leads [OF restart_same_log(1,2) [OF node]]] show ?thesis by (simp add: restart(1))
  qed
qed

section \<open>Requests and replies\<close>

text \<open>The last index that a request names and the term of the entry there.\<close>

definition req_last :: "'c AppendEntryArgs \<Rightarrow> int" where
  "req_last args = PrevLogIndex args + go_len (Entries args)"

definition req_term :: "'c AppendEntryArgs \<Rightarrow> int" where
  "req_term args = Term (last (nilEntry (PrevLogTerm args) # Entries args))"

text \<open>The sender of a request: while it leads the request's term, its log has the entry that the
  request ends with.\<close>

definition request_from :: "'c AppendEntryArgs \<Rightarrow> ('c, 'b) Raft \<Rightarrow> bool" where
  "request_from args rf \<longleftrightarrow> created (req_last args) (aea_Term args) rf \<and>
     (state rf = Leader \<longrightarrow> currentTerm rf = aea_Term args \<longrightarrow> lastSnapshotIndex rf < req_last args \<longrightarrow>
        (\<exists>e. entry_at rf (req_last args) = Some e \<and> Term e = req_term args))"

text \<open>A peer has an entry of the given term at an index, or a given entry, or its snapshot covers it.\<close>

definition has_term :: "('c, 'b) Raft \<Rightarrow> int \<Rightarrow> int \<Rightarrow> bool" where
  "has_term rf i t \<longleftrightarrow> i \<le> lastSnapshotIndex rf \<or> (\<exists>e. entry_at rf i = Some e \<and> Term e = t)"

definition has_entry :: "('c, 'b) Raft \<Rightarrow> int \<Rightarrow> 'c logEntry \<Rightarrow> bool" where
  "has_entry rf i e \<longleftrightarrow> i \<le> lastSnapshotIndex rf \<or> entry_at rf i = Some e"

text \<open>The peer that gave a reply, right after it.\<close>

definition reply_from :: "'c AppendEntryArgs \<Rightarrow> AppendEntryReply \<Rightarrow> ('c, 'b) Raft \<Rightarrow> bool" where
  "reply_from args r rf \<longleftrightarrow>
     (if Success r then XIndex r = req_last args + 1 \<and> has_term rf (req_last args) (req_term args)
      else aer_Term r \<le> aea_Term args \<longrightarrow> XTerm r \<noteq> - 1 \<longrightarrow>
        (\<forall>i. XIndex r \<le> i \<longrightarrow> i \<le> PrevLogIndex args \<longrightarrow> has_term rf i (XTerm r)))"

lemma request_from_leads:
  assumes "request_from args rf" and "leads_on rf rf'"
  shows "request_from args rf'"
proof -
  have cr: "created (req_last args) (aea_Term args) rf" and k: "keeps_created rf rf'"
    using assms by (auto simp: request_from_def leads_on_def)
  moreover have "\<exists>e. entry_at rf' (req_last args) = Some e \<and> Term e = req_term args"
    if "state rf' = Leader" "currentTerm rf' = aea_Term args" "lastSnapshotIndex rf' < req_last args"
  proof -
    have "state rf = Leader" "currentTerm rf = aea_Term args"
      using k cr that(1,2) by (auto simp: keeps_created_def created_def)
    moreover have "req_last args \<le> GetLastIndex rf" using cr calculation by (simp add: created_def)
    ultimately show ?thesis using assms that by (auto simp: request_from_def leads_on_def)
  qed
  ultimately show ?thesis using created_keeps by (auto simp: request_from_def)
qed

lemma last_entry_at:
  "log rf \<noteq> [] \<Longrightarrow> lastSnapshotIndex rf < GetLastIndex rf \<Longrightarrow> entry_at rf (GetLastIndex rf) = Some (last (log rf))"
  by (auto simp: entry_at_def GetLastIndex_def last_conv_nth nat_diff_distrib')

lemma heartbeat_call_request:
  assumes "heartbeat_call rf i = Inr call" and "log rf \<noteq> []"
  shows "call = CallAppendEntries v args \<Longrightarrow>
      aea_Term args = currentTerm rf \<and> req_last args = GetLastIndex rf \<and> req_term args = Term (last (log rf))"
    and "call = CallInstallSnapshot v sargs \<Longrightarrow> LastIncludedIndex sargs = lastSnapshotIndex rf"
proof -
  assume "call = CallAppendEntries v args"
  then obtain ni e where ni: "lastSnapshotIndex rf < ni" and e: "go_nth (log rf) (ni - lastSnapshotIndex rf - 1) = Inr e"
    and es: "go_from (log rf) (ni - lastSnapshotIndex rf) = Inr (Entries args)"
    and args: "PrevLogIndex args = ni - 1" "PrevLogTerm args = Term e" "aea_Term args = currentTerm rf"
    using assms(1) by (auto simp: heartbeat_call_def ToLogIndex_def Let_def go_bind_eq_Inr_iff split: if_splits)
  define k where "k = nat (ni - lastSnapshotIndex rf - 1)"
  have k: "ni - lastSnapshotIndex rf - 1 = int k" "ni - lastSnapshotIndex rf = int (Suc k)" using ni by (auto simp: k_def)
  have lk: "k < length (log rf)" "e = log rf ! k" using e unfolding k(1) by (auto simp: go_nth_eq_Inr_iff)
  moreover have es': "Entries args = drop (Suc k) (log rf)"
    using es \<open>k < length (log rf)\<close> unfolding k(2) by (auto simp: go_from_def nat_add_distrib split: if_splits)
  moreover have "PrevLogIndex args = lastSnapshotIndex rf + int k" using args(1) k(1) by simp
  moreover have "last (log rf) = last (e # Entries args)"
  proof -
    have "log rf = take k (log rf) @ e # Entries args" unfolding lk(2) es' by (rule id_take_nth_drop [OF lk(1)])
    then show ?thesis by (metis last_appendR list.distinct(1))
  qed
  moreover from this have "req_term args = Term (last (log rf))" by (simp add: req_term_def args)
  ultimately show "aea_Term args = currentTerm rf \<and> req_last args = GetLastIndex rf \<and> req_term args = Term (last (log rf))"
    using args by (auto simp: req_last_def GetLastIndex_def of_nat_diff)
qed (use assms in \<open>auto simp: heartbeat_call_def Let_def go_bind_eq_Inr_iff split: if_splits\<close>)


text \<open>The requests of a broadcast, and the ticker.\<close>

definition request_ok :: "('c, 'b) raft_call \<Rightarrow> ('c, 'b) Raft \<Rightarrow> bool" where
  "request_ok call rf = (case call of
     CallAppendEntries v args \<Rightarrow> request_from args rf
   | CallInstallSnapshot v args \<Rightarrow> LastIncludedIndex args \<le> lastSnapshotIndex rf
   | _ \<Rightarrow> True)"

lemma request_ok_leads: "request_ok call rf \<Longrightarrow> leads_on rf rf' \<Longrightarrow> request_ok call rf'"
  using request_from_leads by (fastforce simp: request_ok_def leads_on_def split: raft_call.splits)

lemma heartbeat_call_ok:
  assumes "heartbeat_call rf i = Inr call" and "log rf \<noteq> []" and "state rf = Leader"
  shows "request_ok call rf"
  using heartbeat_call_request [OF assms(1,2)] assms(3) last_entry_at [OF assms(2)]
  by (auto simp: request_ok_def request_from_def created_def split: raft_call.splits)

lemma broadcast_ok:
  assumes "broadcastHeartbeat rf = Inr calls" and "log rf \<noteq> []" and "call \<in> set calls"
  shows "request_ok call rf"
proof -
  have "heartbeat_loop rf is = Inr calls \<Longrightarrow> state rf = Leader \<Longrightarrow> call \<in> set calls \<Longrightarrow> request_ok call rf" for "is" calls
    by (induction "is" arbitrary: calls) (auto simp: go_bind_eq_Inr_iff intro: heartbeat_call_ok [OF _ assms(2)])
  then show ?thesis using assms by (auto simp: broadcastHeartbeat_def split: if_splits)
qed

lemma request_ok_pc [simp]: "request_ok call (rf\<lparr>ticker_pc := pc\<rparr>) = request_ok call rf"
  by (cases call) (simp_all add: request_ok_def request_from_def created_def entry_at_def GetLastIndex_def)

text \<open>The knowledge of a leader is kept, or it starts its term with none.\<close>

definition match_from :: "('c, 'b) Raft \<Rightarrow> ('c, 'b) Raft \<Rightarrow> bool" where
  "match_from rf rf' \<longleftrightarrow> (state rf' = Leader \<longrightarrow>
     state rf = Leader \<and> currentTerm rf' = currentTerm rf \<and> matchIndex rf' = matchIndex rf \<or>
     matchIndex rf' = replicate (peers rf') 0)"

lemma match_from_refl [simp]: "match_from rf rf"
  by (simp add: match_from_def)

lemma ticker_requests:
  assumes "ticker_step timeout rf = Inr (calls, rf')" and "wf_raft rf"
  shows "match_from rf rf'" and "call \<in> set calls \<Longrightarrow> request_ok call rf'"
proof -
  note ne = wf_raftD(1) [OF assms(2)]
  have "match_from rf rf' \<and> (call \<in> set calls \<longrightarrow> request_ok call rf')"
  proof (cases "ticker_pc rf")
    case TCandidate
    then obtain r where r: "convertToCandidate rf = Inr (calls, r)" "rf' = r\<lparr>ticker_pc := TLoop\<rparr>"
      using assms(1) by (auto simp: ticker_step_def go_bind_eq_Inr_iff)
    then show ?thesis
      using convertToCandidate_eq [OF _ ne]
      by (cases "state rf = Leader") (auto simp: convertToCandidate_def match_from_def request_ok_def)
  next
    case TLeader
    then obtain r where r: "convertToLeader rf = Inr (calls, r)" "rf' = r\<lparr>ticker_pc := TLoop\<rparr>"
      using assms(1) by (auto simp: ticker_step_def go_bind_eq_Inr_iff)
    show ?thesis
    proof (cases "state rf = Candidate")
      case True
      let ?rf = "rf\<lparr>state := Leader, nextIndex := replicate (peers rf) (GetLastIndex rf + 1), matchIndex := replicate (peers rf) 0\<rparr>"
      have "broadcastHeartbeat ?rf = Inr calls" "r = ?rf"
        using r(1) True by (auto simp: convertToLeader_def Let_def go_bind_eq_Inr_iff)
      then show ?thesis using broadcast_ok [of ?rf calls call] ne by (auto simp: match_from_def r(2))
    qed (use r in \<open>auto simp: convertToLeader_def match_from_def\<close>)
  next
    case TBroadcast
    then show ?thesis
      using assms(1) broadcast_ok [OF _ ne, of calls call] by (auto simp: ticker_step_def go_bind_eq_Inr_iff match_from_def)
  qed (use assms(1) in \<open>auto simp: ticker_step_def match_from_def split: if_splits\<close>)
  then show "match_from rf rf'" and "call \<in> set calls \<Longrightarrow> request_ok call rf'" by blast+
qed

text \<open>The handler of \<open>AppendEntries\<close>.\<close>

lemma back_over_terms:
  "back_over lg t k < j \<Longrightarrow> j \<le> k \<Longrightarrow> Term (lg ! j) = t"
  by (induction k) (auto simp: le_Suc_eq split: if_splits)

lemma reject_reply:
  assumes "AppendEntries_reject args rf = Inr (Some (xi, xt))" and "xt \<noteq> - 1" and "xi \<le> i" and "i \<le> PrevLogIndex args"
  shows "has_term rf i xt"
proof -
  define q where "q = nat (PrevLogIndex args - lastSnapshotIndex rf)"
  have q: "PrevLogIndex args = lastSnapshotIndex rf + int q" "q < length (log rf)"
    "xi = lastSnapshotIndex rf + int (back_over (log rf) xt q) + 1"
    using assms(1,2) by (auto simp: AppendEntries_reject_def ToLogIndex_def ToOriginalIndex_def Let_def q_def
        go_bind_eq_Inr_iff go_nth_eq_Inr_iff split: if_splits)
  define j where "j = nat (i - lastSnapshotIndex rf)"
  have "i = lastSnapshotIndex rf + int j" "back_over (log rf) xt q < j" "j \<le> q"
    using assms(3,4) q by (auto simp: j_def)
  then show ?thesis
    using back_over_terms [of "log rf" xt q j] q(2) by (auto simp: has_term_def entry_at_def GetLastIndex_def)
qed

lemma AppendEntries_reply:
  assumes "AppendEntries args rf = Inr (r, rf')"
  shows "reply_from args r rf'"
proof (cases "Success r")
  case True
  obtain rf1 where rf1: "rf1 = sendToChannel HeartbeatCh (step_down (aea_Term args) rf)" "currentTerm rf \<le> aea_Term args"
    "AppendEntries_reject args rf1 = Inr None"
    "r = \<lparr>aer_Term = aea_Term args, XIndex = lastSnapshotIndex rf + go_len (merge_log args rf1), XTerm = - 1, Success = True\<rparr>"
    "rf' = deferred_persist (aea_Term args > currentTerm rf \<or> merge_changed args rf1) (accept_state args rf1)"
    by (rule AppendEntries_success [OF assms True])
  define p where "p = nat (PrevLogIndex args - lastSnapshotIndex rf1)"
  note n = AppendEntries_reject_None [OF rf1(3), folded p_def] and m = merge_log_terms [OF rf1(3), folded p_def]
  have p: "PrevLogIndex args = lastSnapshotIndex rf + int p" using n(1) by (simp add: p_def rf1(1))
  have last: "req_last args = GetLastIndex rf'" "XIndex r = req_last args + 1"
    using m(3) p by (simp_all add: req_last_def GetLastIndex_def rf1(4,5)) (simp_all add: rf1(1))
  have "Term (last (merge_log args rf1)) = last (map Term (merge_log args rf1))"
    using merge_log_nonempty [OF rf1(3)] by (simp add: last_map)
  also have "\<dots> = req_term args"
    using n(3,4) by (auto simp: m(1) req_term_def last_map take_Suc_conv_app_nth)
  finally have "Term (last (log rf')) = req_term args" by (simp add: rf1(5))
  moreover have "log rf' \<noteq> []" using merge_log_nonempty [OF rf1(3)] by (simp add: rf1(5))
  ultimately have "has_term rf' (req_last args) (req_term args)"
    using last_entry_at [of rf'] by (auto simp: has_term_def last)
  then show ?thesis using True last by (simp add: reply_from_def)
next
  case False
  show ?thesis
  proof (cases "aea_Term args < currentTerm rf")
    case True
    then show ?thesis using assms False by (auto simp: AppendEntries_def reply_from_def)
  next
    case le: False
    let ?rf = "sendToChannel HeartbeatCh (step_down (aea_Term args) rf)"
    obtain xi xt where rej: "AppendEntries_reject args ?rf = Inr (Some (xi, xt))"
      "r = \<lparr>aer_Term = aea_Term args, XIndex = xi, XTerm = xt, Success = False\<rparr>"
      "rf' = deferred_persist (aea_Term args > currentTerm rf) ?rf"
      using assms False le by (auto simp: AppendEntries_eq go_bind_eq_Inr_iff split: option.splits)
    have "has_term rf' i xt = has_term ?rf i xt" for i
      by (simp add: rej(3) has_term_def entry_at_def GetLastIndex_def)
    then show ?thesis using reject_reply [OF rej(1)] by (auto simp: reply_from_def rej(2))
  qed
qed


text \<open>What \<open>sendAppendEntries\<close> and \<open>sendInstallSnapshot\<close> write into \<open>matchIndex\<close>.\<close>

lemma find_term_Inr:
  "find_term lg xt k = Inr j \<Longrightarrow> j \<le> k \<and> (0 < j \<longrightarrow> j < length lg \<and> Term (lg ! j) = xt)"
  by (induction k) (auto simp: go_bind_eq_Inr_iff go_nth_eq_Inr_iff nat_add_distrib split: if_splits)

definition match_update :: "'c AppendEntryArgs \<Rightarrow> AppendEntryReply \<Rightarrow> ('c, 'b) Raft \<Rightarrow> int \<Rightarrow> bool" where
  "match_update args reply rf x \<longleftrightarrow>
     (if Success reply then x = XIndex reply - 1
      else XTerm reply \<noteq> - 1 \<and> (x \<le> lastSnapshotIndex rf \<or>
        XIndex reply \<le> x \<and> x \<le> PrevLogIndex args \<and> (\<exists>e. entry_at rf x = Some e \<and> Term e = XTerm reply)))"

lemma update_indices_match:
  assumes "update_indices server args reply rf = Inr rf'" and "0 \<le> lastSnapshotIndex rf"
  shows "matchIndex rf' = matchIndex rf \<or>
    0 \<le> server \<and> (\<exists>x. matchIndex rf' = (matchIndex rf)[nat server := x] \<and> match_update args reply rf x)"
proof (cases "Success reply \<or> XTerm reply = - 1")
  case True
  then show ?thesis using assms
    by (auto simp: update_indices_def match_update_def go_bind_eq_Inr_iff go_update_eq_Inr_iff split: if_splits)
next
  case False
  let ?p = "ToLogIndex (PrevLogIndex args) rf"
  have "go_bind (if ?p > 0 then go_bind (find_term (log rf) (XTerm reply) (nat ?p)) (\<lambda>k. Inr (int k)) else Inr ?p) (\<lambda>idx.
      if idx = 0 \<or> ToOriginalIndex idx rf < XIndex reply
      then go_bind (go_update (nextIndex rf) server (XIndex reply)) (\<lambda>ni. Inr (rf\<lparr>nextIndex := ni\<rparr>))
      else go_bind (go_update (nextIndex rf) server (ToOriginalIndex (idx + 1) rf)) (\<lambda>ni.
           go_bind (go_update (matchIndex rf) server (ToOriginalIndex idx rf)) (\<lambda>mi.
           Inr (rf\<lparr>nextIndex := ni, matchIndex := mi\<rparr>)))) = Inr rf'"
    using assms False by (simp only: update_indices_def de_Morgan_disj if_False simp_thms Let_def)
  then obtain idx where idx: "(if ?p > 0 then go_bind (find_term (log rf) (XTerm reply) (nat ?p)) (\<lambda>k. Inr (int k)) else Inr ?p) = Inr idx"
    and r: "(if idx = 0 \<or> ToOriginalIndex idx rf < XIndex reply
      then go_bind (go_update (nextIndex rf) server (XIndex reply)) (\<lambda>ni. Inr (rf\<lparr>nextIndex := ni\<rparr>))
      else go_bind (go_update (nextIndex rf) server (ToOriginalIndex (idx + 1) rf)) (\<lambda>ni.
           go_bind (go_update (matchIndex rf) server (ToOriginalIndex idx rf)) (\<lambda>mi.
           Inr (rf\<lparr>nextIndex := ni, matchIndex := mi\<rparr>)))) = Inr rf'"
    by (elim go_bindE)
  have rest: "matchIndex rf' = matchIndex rf \<or> 0 \<le> server \<and> idx \<noteq> 0 \<and> XIndex reply \<le> ToOriginalIndex idx rf \<and>
      matchIndex rf' = (matchIndex rf)[nat server := ToOriginalIndex idx rf]"
    using r by (cases "idx = 0 \<or> ToOriginalIndex idx rf < XIndex reply") (auto simp: go_bind_eq_Inr_iff go_update_eq_Inr_iff)
  have "idx \<le> ?p" "0 < idx \<Longrightarrow> nat idx < length (log rf) \<and> Term (log rf ! nat idx) = XTerm reply"
    using idx find_term_Inr [of "log rf" "XTerm reply" "nat ?p"]
    by (auto simp: go_bind_eq_Inr_iff split: if_splits)
  then have "match_update args reply rf (ToOriginalIndex idx rf)"
    if "XIndex reply \<le> ToOriginalIndex idx rf" "idx \<noteq> 0"
    using that False assms(2)
    by (cases "idx < 0") (auto simp: match_update_def ToOriginalIndex_def ToLogIndex_def entry_at_def GetLastIndex_def split: if_splits)
  then show ?thesis using rest by blast
qed

lemma sendAppendEntries_match:
  assumes "sendAppendEntries outcomes server args rf = Inr rf'" and "state rf' = Leader" and "0 \<le> lastSnapshotIndex rf"
  shows "match_from rf rf' \<or> (\<exists>reply x. Some reply \<in> set outcomes \<and> state rf = Leader \<and> currentTerm rf' = currentTerm rf \<and>
    aer_Term reply = currentTerm rf \<and> currentTerm rf \<le> aea_Term args \<and> 0 \<le> server \<and>
    matchIndex rf' = (matchIndex rf)[nat server := x] \<and> match_update args reply rf x)"
  using assms(1)
proof (cases rule: sendAppendEntries_cases)
  case (progress reply ni mi)
  have eq: "matchIndex rf' = mi" "currentTerm rf' = currentTerm rf" using commit_loop_Inr [OF progress(8)] by auto
  consider "mi = matchIndex rf" | x where "0 \<le> server" "mi = (matchIndex rf)[nat server := x]" "match_update args reply rf x"
    using update_indices_match [OF progress(5) assms(3)] by auto
  then show ?thesis
    by cases (use progress call_retry_in [OF progress(1)] eq in \<open>auto simp: match_from_def\<close>)
qed (use assms(2) in auto)

lemma sendInstallSnapshot_match:
  assumes "sendInstallSnapshot outcomes server args rf = Inr rf'" and "state rf' = Leader"
  shows "match_from rf rf' \<or> state rf = Leader \<and> currentTerm rf' = currentTerm rf \<and> 0 \<le> server \<and>
    matchIndex rf' = (matchIndex rf)[nat server := LastIncludedIndex args]"
  using assms
  by (auto simp: sendInstallSnapshot_def go_bind_eq_Inr_iff go_update_eq_Inr_iff match_from_def split: option.splits if_splits)

section \<open>The invariant\<close>

text \<open>\<open>P\<close> held at some moment of the execution that led to \<open>s\<close>.\<close>

definition past :: "'b \<Rightarrow> nat \<Rightarrow> ('c, 'b) cluster \<Rightarrow> (('c, 'b) cluster \<Rightarrow> bool) \<Rightarrow> bool" where
  "past zero n s P \<longleftrightarrow> (\<exists>t. cluster_reachable zero n t \<and> (cluster_step zero n)\<^sup>*\<^sup>* t s \<and> P t)"

lemma past_now: "cluster_reachable zero n s \<Longrightarrow> P s \<Longrightarrow> past zero n s P"
  by (auto simp: past_def)

lemma past_step: "past zero n s P \<Longrightarrow> cluster_step zero n s t \<Longrightarrow> past zero n t P"
  by (auto simp: past_def intro: rtranclp.rtrancl_into_rtrancl)

text \<open>The entries that a leader counts for a peer have property \<open>had\<close> of the peer.\<close>

definition match_ok :: "(int \<Rightarrow> int \<Rightarrow> 'c logEntry \<Rightarrow> bool) \<Rightarrow> ('c, 'b) Raft \<Rightarrow> bool" where
  "match_ok had rf \<longleftrightarrow> (state rf = Leader \<longrightarrow> (\<forall>v. 0 \<le> v \<longrightarrow> v < int (peers rf) \<longrightarrow>
     matchIndex rf ! nat v \<le> GetLastIndex rf \<and>
     (\<forall>m e. m \<le> matchIndex rf ! nat v \<longrightarrow> entry_at rf m = Some e \<longrightarrow> had v m e)))"

definition commit_ok :: "'b \<Rightarrow> nat \<Rightarrow> ('c, 'b) cluster \<Rightarrow> bool" where
  "commit_ok zero n s \<longleftrightarrow>
     (\<forall>(c, call) \<in> sent s. request_ok call (nodes s c)) \<and>
     (\<forall>c v args r. ((c, CallAppendEntries v args), AppendReply r) \<in> answers s \<longrightarrow>
        past zero n s (\<lambda>t. reply_from args r (nodes t v))) \<and>
     (\<forall>c. 0 \<le> c \<longrightarrow> c < int n \<longrightarrow> match_ok (\<lambda>v m e. past zero n s (\<lambda>t. has_entry (nodes t v) m e)) (nodes s c))"

lemma commit_okD:
  assumes "commit_ok zero n s"
  shows "(c, call) \<in> sent s \<Longrightarrow> request_ok call (nodes s c)"
    and "((c, CallAppendEntries v args), AppendReply r) \<in> answers s \<Longrightarrow> past zero n s (\<lambda>t. reply_from args r (nodes t v))"
    and "0 \<le> c \<Longrightarrow> c < int n \<Longrightarrow> match_ok (\<lambda>v m e. past zero n s (\<lambda>t. has_entry (nodes t v) m e)) (nodes s c)"
  using assms by (auto simp: commit_ok_def)

lemma entry_at_range: "entry_at rf m = Some e \<Longrightarrow> lastSnapshotIndex rf < m \<and> m \<le> GetLastIndex rf"
  by (simp add: entry_at_def split: if_splits)

lemma wf_raft_last: "wf_raft rf \<Longrightarrow> 0 \<le> lastSnapshotIndex rf \<and> lastSnapshotIndex rf \<le> GetLastIndex rf"
  by (cases "log rf") (auto simp: wf_raft_def GetLastIndex_def)

lemma match_ok_keep:
  assumes "match_ok had rf" and "leads_on rf rf'" and "match_from rf rf'" and "wf_raft rf'" and "peers rf' = peers rf"
    and "\<And>v m e. had v m e \<Longrightarrow> had' v m e"
  shows "match_ok had' rf'"
proof -
  note r = wf_raft_last [OF assms(4)]
  consider "state rf' \<noteq> Leader" | "state rf' = Leader" "matchIndex rf' = replicate (peers rf') 0"
    | "state rf' = Leader" "state rf = Leader" "currentTerm rf' = currentTerm rf" "matchIndex rf' = matchIndex rf"
    using assms(3) by (auto simp: match_from_def)
  then show ?thesis
  proof cases
    case 2
    then show ?thesis using r by (auto simp: match_ok_def dest: entry_at_range)
  next
    case 3
    have le: "GetLastIndex rf \<le> GetLastIndex rf'" using assms(2) 3 by (auto simp: leads_on_def keeps_created_def)
    have at: "entry_at rf m = Some e" if "entry_at rf' m = Some e" "m \<le> GetLastIndex rf" for m e
      using assms(2) 3 that entry_at_range [OF that(1)] by (auto simp: leads_on_def)
    show ?thesis
      unfolding match_ok_def
    proof (intro allI impI conjI)
      fix v assume v: "0 \<le> v" "v < int (peers rf')"
      have b: "matchIndex rf ! nat v \<le> GetLastIndex rf" using assms(1) 3 v by (simp add: match_ok_def assms(5))
      then show "matchIndex rf' ! nat v \<le> GetLastIndex rf'" using le 3 by simp
      fix m e assume "m \<le> matchIndex rf' ! nat v" "entry_at rf' m = Some e"
      then have "had v m e" using assms(1) 3 v at [of m e] b by (simp add: match_ok_def assms(5))
      then show "had' v m e" by (rule assms(6))
    qed
  qed (simp add: match_ok_def)
qed

lemma match_ok_write:
  assumes "match_ok had rf" and "leads_on rf rf'" "same_log rf rf'" "state rf = Leader" "currentTerm rf' = currentTerm rf"
    and "matchIndex rf' = (matchIndex rf)[nat w := x]" and "wf_raft rf'" "peers rf' = peers rf" "0 \<le> w"
    and "\<And>v m e. had v m e \<Longrightarrow> had' v m e"
    and "x \<le> GetLastIndex rf" and "\<And>m e. m \<le> x \<Longrightarrow> entry_at rf m = Some e \<Longrightarrow> had' w m e"
  shows "match_ok had' rf'"
proof -
  have eq: "entry_at rf' m = entry_at rf m" "GetLastIndex rf' = GetLastIndex rf" for m
    using assms(3) same_log_entry_at by (auto simp: same_log_def GetLastIndex_def)
  have len: "length (matchIndex rf) = peers rf" using assms(6-8) by (metis length_list_update wf_raft_def)
  show ?thesis
    unfolding match_ok_def
  proof (intro impI allI)
    fix v assume v: "0 \<le> v" "v < int (peers rf')"
    show "matchIndex rf' ! nat v \<le> GetLastIndex rf' \<and>
      (\<forall>m e. m \<le> matchIndex rf' ! nat v \<longrightarrow> entry_at rf' m = Some e \<longrightarrow> had' v m e)"
    proof (cases "v = w")
      case True
      then show ?thesis using assms(11,12) v len by (auto simp: eq assms(6,8))
    next
      case False
      then have "nat v \<noteq> nat w" using v assms(9) by simp
      then show ?thesis using assms(1,4,10) v by (auto simp: eq assms(6,8) match_ok_def)
    qed
  qed
qed


section \<open>The steps of the cluster\<close>

lemma quiet_match: "no_campaign rf rf' \<Longrightarrow> matchIndex rf' = matchIndex rf \<Longrightarrow> match_from rf rf'"
  by (auto simp: match_from_def no_campaign_def)

text \<open>What the leader learns: a peer that had the term of the leader's entry at \<open>i\<close> had all entries
  of the leader up to \<open>i\<close>.\<close>

lemma has_term_entry:
  assumes "cluster_reachable zero n t" and "(cluster_step zero n)\<^sup>*\<^sup>* t s" and "0 \<le> v" "0 \<le> c"
    and "has_term (nodes t v) i (Term e')" and "entry_at (nodes s c) i = Some e'"
    and "m \<le> i" and "entry_at (nodes s c) m = Some e"
  shows "has_entry (nodes t v) m e"
proof (cases "m \<le> lastSnapshotIndex (nodes t v)")
  case False
  then obtain x where x: "entry_at (nodes t v) i = Some x" "Term x = Term e'"
    using assms(5,7) by (auto simp: has_term_def)
  then obtain y where y: "entry_at (nodes t v) m = Some y"
    using entry_at_range [OF x(1)] assms(7) False by (auto simp: entry_at_def)
  have "y = e" by (rule logs_agree [OF assms(1-4) x(1) assms(6) x(2) assms(7) y assms(8)])
  with y show ?thesis by (simp add: has_entry_def)
qed (simp add: has_entry_def)

lemma past_has_entry:
  assumes "past zero n s (\<lambda>t. has_term (nodes t v) i (Term e'))" and "0 \<le> v" "0 \<le> c"
    and "entry_at (nodes s c) i = Some e'" "m \<le> i" "entry_at (nodes s c) m = Some e"
  shows "past zero n s (\<lambda>t. has_entry (nodes t v) m e)"
  using assms(1) has_term_entry [OF _ _ assms(2,3) _ assms(4-6)] unfolding past_def by blast

text \<open>The index that \<open>sendAppendEntries\<close> writes is in the leader's log, and the peer had what is
  before it.\<close>

lemma match_update_sound:
  assumes req: "request_from args (nodes s c)" and rep: "past zero n s (\<lambda>t. reply_from args reply (nodes t v))"
    and c: "state (nodes s c) = Leader" "aer_Term reply = currentTerm (nodes s c)" "currentTerm (nodes s c) \<le> aea_Term args"
    and x: "match_update args reply (nodes s c) x" and wf: "wf_raft (nodes s c)" "0 \<le> v" "0 \<le> c"
  shows "x \<le> GetLastIndex (nodes s c)"
    and "m \<le> x \<Longrightarrow> entry_at (nodes s c) m = Some e \<Longrightarrow> past zero n s (\<lambda>t. has_entry (nodes t v) m e)"
proof -
  let ?rf = "nodes s c"
  have cr: "created (req_last args) (aea_Term args) ?rf" using req by (simp add: request_from_def)
  then have tm: "currentTerm ?rf = aea_Term args" using c(3) by (simp add: created_def)
  note r = wf_raft_last [OF wf(1)]
  have "x \<le> GetLastIndex ?rf \<and> (x \<le> lastSnapshotIndex ?rf \<or>
    (\<exists>e'. entry_at ?rf x = Some e' \<and> past zero n s (\<lambda>t. has_term (nodes t v) x (Term e'))))"
  proof (cases "Success reply")
    case True
    then have eq: "x = req_last args" and had: "past zero n s (\<lambda>t. has_term (nodes t v) x (req_term args))"
      using x rep by (auto simp: match_update_def reply_from_def past_def)
    moreover have "x \<le> GetLastIndex ?rf" using cr c(1) tm by (simp add: created_def eq)
    ultimately show ?thesis using req c(1) tm by (auto simp: request_from_def)
  next
    case False
    consider "x \<le> lastSnapshotIndex ?rf" | e' where "XIndex reply \<le> x" "x \<le> PrevLogIndex args" "XTerm reply \<noteq> - 1"
      "entry_at ?rf x = Some e'" "Term e' = XTerm reply"
      using x False by (auto simp: match_update_def)
    then show ?thesis
    proof cases
      case 2
      have "past zero n s (\<lambda>t. has_term (nodes t v) x (Term e'))"
        using rep 2 False c(2,3) unfolding past_def by (fastforce simp: reply_from_def)
      with 2(4) show ?thesis using entry_at_range by blast
    qed (use r in auto)
  qed
  then show "x \<le> GetLastIndex ?rf"
    and "m \<le> x \<Longrightarrow> entry_at ?rf m = Some e \<Longrightarrow> past zero n s (\<lambda>t. has_entry (nodes t v) m e)"
    using past_has_entry [OF _ wf(2,3)] entry_at_range [of ?rf m e] by force+
qed

text \<open>One step.  The sent requests and the replies keep their meaning; what is left to show is what
  the step adds to them, and that the leaders' knowledge stays sound.\<close>

lemma commit_ok_step:
  assumes ok: "commit_ok zero n s" and step: "cluster_step zero n s t" and inv: "cluster_ok n s" "logs_ok n G s"
    and sent: "\<And>c call. (c, call) \<in> sent t \<Longrightarrow> (c, call) \<notin> sent s \<Longrightarrow> request_ok call (nodes t c)"
    and answ: "\<And>c v args r. ((c, CallAppendEntries v args), AppendReply r) \<in> answers t \<Longrightarrow>
      ((c, CallAppendEntries v args), AppendReply r) \<notin> answers s \<Longrightarrow> past zero n t (\<lambda>t. reply_from args r (nodes t v))"
    and match: "\<And>c. 0 \<le> c \<Longrightarrow> c < int n \<Longrightarrow> match_from (nodes s c) (nodes t c) \<or>
      match_ok (\<lambda>v m e. past zero n t (\<lambda>t. has_entry (nodes t v) m e)) (nodes t c)"
  shows "commit_ok zero n t"
  unfolding commit_ok_def
proof (intro conjI allI impI)
  note lead = cluster_step_leads [OF step inv]
  show "\<forall>(c, call) \<in> sent t. request_ok call (nodes t c)"
  proof clarify
    fix c call assume new: "(c, call) \<in> sent t"
    show "request_ok call (nodes t c)"
    proof (cases "(c, call) \<in> sent s")
      case True
      then have "request_ok call (nodes s c)" "0 \<le> c"
        using commit_okD(1) [OF ok] calls_okD(1) [OF cluster_okD(2) [OF inv(1)]] by auto
      then show ?thesis using request_ok_leads lead by blast
    qed (use new sent in blast)
  qed
next
  fix c v args r assume "((c, CallAppendEntries v args), AppendReply r) \<in> answers t"
  then show "past zero n t (\<lambda>t. reply_from args r (nodes t v))"
    using answ [of c v args r] past_step [OF commit_okD(2) [OF ok] step]
    by (cases "((c, CallAppendEntries v args), AppendReply r) \<in> answers s") simp_all
next
  fix c assume c: "0 \<le> c" "c < int n"
  have nodes: "wf_raft (nodes t c)" "peers (nodes t c) = peers (nodes s c)"
    using cluster_okD(1) [OF cluster_step_ok [OF step inv(1)]] cluster_okD(1) [OF inv(1)] c(1) by (auto simp: nodes_ok_def)
  show "match_ok (\<lambda>v m e. past zero n t (\<lambda>t. has_entry (nodes t v) m e)) (nodes t c)"
    using match [OF c]
      match_ok_keep [OF commit_okD(3) [OF ok c] cluster_step_leads [OF step inv c(1)] _ nodes past_step [OF _ step]]
    by (rule disjE) simp_all
qed


text \<open>Where the leader writes its knowledge.\<close>

lemma match_ok_mono: "match_ok had rf \<Longrightarrow> (\<And>v m e. had v m e \<Longrightarrow> had' v m e) \<Longrightarrow> match_ok had' rf"
  by (auto simp: match_ok_def)

lemma finish_append_match:
  assumes reach: "cluster_reachable zero n s" and ok: "commit_ok zero n s"
    and run: "(c, CallAppendEntries v args) \<in># running s"
    and poss: "possible (answers s) (c, CallAppendEntries v args) AppendReply outcomes"
    and app: "sendAppendEntries outcomes v args (nodes s c) = Inr rf'"
  shows "match_ok (\<lambda>v m e. past zero n s (\<lambda>t. has_entry (nodes t v) m e)) rf'"
proof -
  note inv = cluster_reachable_ok [OF reach]
  have sent: "(c, CallAppendEntries v args) \<in> sent s" by (rule calls_okD(4) [OF cluster_okD(2) [OF inv] run])
  have r: "0 \<le> c" "c < int n" "0 \<le> v" using calls_okD(1) [OF cluster_okD(2) [OF inv] sent] by auto
  have wf: "wf_raft (nodes s c)" using cluster_okD(1) [OF inv] r(1) by (simp add: nodes_ok_def)
  note keep = sendAppendEntries_keeps [OF wf app] and same = sendAppendEntries_same_log [OF app]
  have new: "wf_raft rf'" "peers rf' = peers (nodes s c)" using keep by (simp_all add: vote_le_def)
  note mi = commit_okD(3) [OF ok r(1,2)] and lead = quiet_leads [OF keep same]
  show ?thesis
  proof (cases "state rf' = Leader \<and> \<not> match_from (nodes s c) rf'")
    case False
    then have "match_from (nodes s c) rf'" by (auto simp: match_from_def)
    from match_ok_keep [OF mi lead this new] show ?thesis by simp
  next
    case True
    obtain reply x where x: "Some reply \<in> set outcomes" "state (nodes s c) = Leader" "currentTerm rf' = currentTerm (nodes s c)"
      "aer_Term reply = currentTerm (nodes s c)" "currentTerm (nodes s c) \<le> aea_Term args"
      "matchIndex rf' = (matchIndex (nodes s c))[nat v := x]" "match_update args reply (nodes s c) x"
      using sendAppendEntries_match [OF app] True wf_raft_last [OF wf] by blast
    have "((c, CallAppendEntries v args), AppendReply reply) \<in> answers s" using poss x(1) by (simp add: possible_def)
    from match_update_sound [OF _ commit_okD(2) [OF ok this] x(2,4,5,7) wf r(3,1)] commit_okD(1) [OF ok sent]
    have "x \<le> GetLastIndex (nodes s c)"
      "m \<le> x \<Longrightarrow> entry_at (nodes s c) m = Some e \<Longrightarrow> past zero n s (\<lambda>t. has_entry (nodes t v) m e)" for m e
      by (simp_all add: request_ok_def)
    then show ?thesis using match_ok_write [OF mi lead same x(2,3,6) new r(3)] by simp
  qed
qed

lemma finish_snapshot_match:
  assumes reach: "cluster_reachable zero n s" and ok: "commit_ok zero n s" and step: "cluster_step zero n s t"
    and run: "(c, CallInstallSnapshot v args) \<in># running s"
    and snap: "sendInstallSnapshot outcomes v args (nodes s c) = Inr rf'"
  shows "match_from (nodes s c) rf' \<or> match_ok (\<lambda>v m e. past zero n t (\<lambda>t. has_entry (nodes t v) m e)) rf'"
proof (cases "state rf' = Leader \<and> \<not> match_from (nodes s c) rf'")
  case True
  note inv = cluster_reachable_ok [OF reach]
  have sent: "(c, CallInstallSnapshot v args) \<in> sent s" by (rule calls_okD(4) [OF cluster_okD(2) [OF inv] run])
  have r: "0 \<le> c" "c < int n" "0 \<le> v" using calls_okD(1) [OF cluster_okD(2) [OF inv] sent] by auto
  have wf: "wf_raft (nodes s c)" using cluster_okD(1) [OF inv] r(1) by (simp add: nodes_ok_def)
  note keep = sendInstallSnapshot_keeps [OF wf snap] and same = sendInstallSnapshot_same_log [OF snap]
  have x: "state (nodes s c) = Leader" "currentTerm rf' = currentTerm (nodes s c)"
    "matchIndex rf' = (matchIndex (nodes s c))[nat v := LastIncludedIndex args]"
    using sendInstallSnapshot_match [OF snap] True by blast+
  have "LastIncludedIndex args \<le> lastSnapshotIndex (nodes s c)"
    using commit_okD(1) [OF ok sent] by (simp add: request_ok_def)
  then have "match_ok (\<lambda>v m e. past zero n t (\<lambda>t. has_entry (nodes t v) m e)) rf'"
    by (intro match_ok_write [OF commit_okD(3) [OF ok r(1,2)] quiet_leads [OF keep same] same x])
      (use keep r past_step [OF _ step] wf_raft_last [OF wf] in \<open>auto simp: vote_le_def dest: entry_at_range\<close>)
  then show ?thesis ..
qed (auto simp: match_from_def)

lemma handler_matchIndex:
  assumes "log rf \<noteq> []"
  shows "RequestVote vargs rf = Inr (vr, rf') \<Longrightarrow> matchIndex rf' = matchIndex rf"
    and "AppendEntries aargs rf = Inr (ar, rf') \<Longrightarrow> matchIndex rf' = matchIndex rf"
    and "InstallSnapshot zero sargs rf = Inr (sr, rf') \<Longrightarrow> matchIndex rf' = matchIndex rf"
    and "Raft_Snapshot idx snap rf = Inr rf' \<Longrightarrow> matchIndex rf' = matchIndex rf"
    and "applyLogEntry_step rf = Inr rf' \<Longrightarrow> matchIndex rf' = matchIndex rf"
proof -
  show "RequestVote vargs rf = Inr (vr, rf') \<Longrightarrow> matchIndex rf' = matchIndex rf"
    using assms by (auto simp: RequestVote_eq split: if_splits)
  show "InstallSnapshot zero sargs rf = Inr (sr, rf') \<Longrightarrow> matchIndex rf' = matchIndex rf"
    by (erule InstallSnapshot_cases) simp_all
  show "Raft_Snapshot idx snap rf = Inr rf' \<Longrightarrow> matchIndex rf' = matchIndex rf"
    by (auto simp: Raft_Snapshot_def Let_def go_bind_eq_Inr_iff split: if_splits)
  show "applyLogEntry_step rf = Inr rf' \<Longrightarrow> matchIndex rf' = matchIndex rf"
    using applyLogEntry_step_same [of rf rf'] by (auto simp: same_but_apply_def)
  assume app: "AppendEntries aargs rf = Inr (ar, rf')"
  show "matchIndex rf' = matchIndex rf"
  proof (cases "aea_Term aargs < currentTerm rf")
    case False
    then show ?thesis using app
      by (auto simp: AppendEntries_eq go_bind_eq_Inr_iff split: option.splits)
  qed (use app in \<open>simp add: AppendEntries_def\<close>)
qed


lemma commit_node:
  assumes "commit_ok zero n s" and "cluster_step zero n s t" and "cluster_ok n s" "logs_ok n G s"
    and "nodes t = (nodes s)(c := rf')" "sent t = sent s"
    and "\<And>rpc r. (rpc, AppendReply r) \<in> answers t \<Longrightarrow> (rpc, AppendReply r) \<in> answers s"
    and "match_from (nodes s c) rf' \<or> match_ok (\<lambda>v m e. past zero n t (\<lambda>t. has_entry (nodes t v) m e)) rf'"
  shows "commit_ok zero n t"
  by (rule commit_ok_step [OF assms(1-4)]) (use assms(5-8) in auto)

lemma cluster_step_commit:
  assumes step: "cluster_step zero n s t" and reach: "cluster_reachable zero n s" and ok: "commit_ok zero n s"
  shows "commit_ok zero n t"
proof -
  obtain G where lg: "logs_ok n G s" using reachable_logs [OF reach] by blast
  note inv = cluster_reachable_ok [OF reach]
  note upd = commit_node [OF ok step inv lg] and new = cluster_reachable.step [OF reach step]
  have wf: "wf_raft (nodes s i)" if "0 \<le> i" for i
    using cluster_okD(1) [OF inv] that by (auto simp: nodes_ok_def)
  have ne: "log (nodes s i) \<noteq> []" if "0 \<le> i" for i by (rule wf_raftD(1) [OF wf [OF that]])
  have pos: "0 \<le> callee call" if "(c, call) \<in> sent s" for c call
    using calls_okD(1) [OF cluster_okD(2) [OF inv] that] by auto
  from step show ?thesis
  proof cases
    case (handle_vote rpc c v args r rf')
    then have v: "0 \<le> v" using pos [of c "CallRequestVote v args"] by simp
    have "match_from (nodes s v) rf'"
      using quiet_match RequestVote_keeps [OF wf [OF v] handle_vote(4)] handler_matchIndex(1) [OF ne [OF v] handle_vote(4)] by blast
    then show ?thesis by (intro upd [of v rf']) (simp_all add: handle_vote(1))
  next
    case (handle_append rpc c v args r rf')
    then have v: "0 \<le> v" using pos [of c "CallAppendEntries v args"] by simp
    have m: "match_from (nodes s v) rf'"
      using quiet_match AppendEntries_keeps [OF wf [OF v] handle_append(4)] handler_matchIndex(2) [OF ne [OF v] handle_append(4)] by blast
    have "past zero n t (\<lambda>t. reply_from args r (nodes t v))"
      by (rule past_now [OF new]) (simp add: handle_append(1) AppendEntries_reply [OF handle_append(4)])
    then show ?thesis
      by (intro commit_ok_step [OF ok step inv lg]) (use m in \<open>auto simp: handle_append(1,2)\<close>)
  next
    case (handle_snapshot rpc c v args r rf')
    then have v: "0 \<le> v" using pos [of c "CallInstallSnapshot v args"] by simp
    have "match_from (nodes s v) rf'"
      using quiet_match InstallSnapshot_keeps [OF wf [OF v] handle_snapshot(4)] handler_matchIndex(3) [OF ne [OF v] handle_snapshot(4)] by blast
    then show ?thesis by (intro upd [of v rf']) (simp_all add: handle_snapshot(1))
  next
    case (finish_vote rpc c v args outcomes)
    have "match_from (nodes s c) (sendRequestVote outcomes args (nodes s c))"
      by (cases rule: sendRequestVote_cases [of outcomes args "nodes s c"]) (auto simp: match_from_def)
    then show ?thesis by (intro upd [of c "sendRequestVote outcomes args (nodes s c)"]) (simp_all add: finish_vote(1))
  next
    case (finish_append rpc c v args outcomes rf')
    from match_ok_mono [OF finish_append_match [OF reach ok finish_append(3) [unfolded finish_append(2)] finish_append(4) [unfolded finish_append(2)] finish_append(5)] past_step [OF _ step]]
    show ?thesis by (intro upd [of c rf']) (simp_all add: finish_append(1))
  next
    case (finish_snapshot rpc c v args outcomes rf')
    from finish_snapshot_match [OF reach ok step finish_snapshot(3) [unfolded finish_snapshot(2)] finish_snapshot(5)]
    show ?thesis by (intro upd [of c rf']) (simp_all add: finish_snapshot(1))
  next
    case (tick c timeout calls rf')
    note k = ticker_requests [OF tick(4) wf [OF tick(2)]]
    show ?thesis by (intro commit_ok_step [OF ok step inv lg]) (use k in \<open>auto simp: tick(1)\<close>)
  next
    case (apply_step c rf')
    have "match_from (nodes s c) rf'"
      using quiet_match applyLogEntry_step_keeps [OF wf [OF apply_step(2)] apply_step(4)] handler_matchIndex(5) [OF ne [OF apply_step(2)] apply_step(4)] by blast
    then show ?thesis by (intro upd [of c rf']) (simp_all add: apply_step(1))
  next
    case (start c cmd res rf')
    have "match_from (nodes s c) rf'"
      using start(4) by (auto simp: Start_def Let_def match_from_def split: if_splits)
    then show ?thesis by (intro upd [of c rf']) (simp_all add: start(1))
  next
    case (take_snapshot c idx snap rf')
    have "match_from (nodes s c) rf'"
      using quiet_match Raft_Snapshot_keeps [OF wf [OF take_snapshot(2)] take_snapshot(4)] handler_matchIndex(4) [OF ne [OF take_snapshot(2)] take_snapshot(4)] by blast
    then show ?thesis by (intro upd [of c rf']) (simp_all add: take_snapshot(1))
  next
    case (kill c)
    have "match_from (nodes s c) (Kill (nodes s c))" by (simp add: match_from_def Kill_def)
    then show ?thesis by (intro upd [of c "Kill (nodes s c)"]) (simp_all add: kill(1))
  next
    case (restart c)
    note w = wf_raftD [OF wf [OF restart(2)]]
    have "match_from (nodes s c) (Make n c (Persister_Copy (persister (nodes s c))))"
      using Make_fields [OF w(4,1), of "Persister_Copy (persister (nodes s c))" n c] by (simp add: match_from_def)
    then show ?thesis
      by (intro upd [of c "Make n c (Persister_Copy (persister (nodes s c)))"]) (simp_all add: restart(1))
  qed
qed

lemma reachable_commit: "cluster_reachable zero n s \<Longrightarrow> commit_ok zero n s"
proof (induction rule: cluster_reachable.induct)
  case init
  then show ?case by (simp add: commit_ok_def cluster_init_def match_ok_def Make_fresh)
next
  case (step s t)
  show ?case by (rule cluster_step_commit [OF step(2,1,3)])
qed


section \<open>Committed entries were replicated\<close>

text \<open>What \<open>matchIndex\<close> means.  If a leader's \<open>matchIndex\<close> for a peer reaches an entry of its log, then at
  that moment or an earlier one the peer had the same entry, or a snapshot that covers it.\<close>

theorem matchIndex_sound:
  assumes "cluster_reachable zero n s" and "0 \<le> c" "c < int n" and "0 \<le> v" "v < int n" and "state (nodes s c) = Leader"
    and "m \<le> matchIndex (nodes s c) ! nat v" and "entry_at (nodes s c) m = Some e"
  shows "past zero n s (\<lambda>t. has_entry (nodes t v) m e)"
proof -
  have "peers (nodes s c) = n" using cluster_okD(1) [OF cluster_reachable_ok [OF assms(1)]] assms(2) by (simp add: nodes_ok_def)
  then show ?thesis using commit_okD(3) [OF reachable_commit [OF assms(1)] assms(2,3)] assms(4-8) by (simp add: match_ok_def)
qed

text \<open>C4: when a leader of a cluster moves its commit index, the index is that of an entry of its own
  term, and each peer of a majority, the leader among them, had at that moment or an earlier one this
  very entry in its log, or a snapshot that covers it: whatever was delayed, repeated, lost, truncated
  or restarted before.  (The snapshot of the leader must not be ahead of its commit index: the service
  takes snapshots only of what it was given.)\<close>
theorem commit_was_replicated:
  assumes "cluster_reachable zero n s" and "(c, CallAppendEntries v args) \<in># running s"
    and "possible (answers s) (c, CallAppendEntries v args) AppendReply outcomes"
    and "sendAppendEntries outcomes v args (nodes s c) = Inr rf'" and "commitIndex rf' \<noteq> commitIndex (nodes s c)"
    and "lastSnapshotIndex (nodes s c) \<le> commitIndex (nodes s c)"
  shows "\<exists>e Q. entry_at (nodes s c) (commitIndex rf') = Some e \<and> Term e = currentTerm (nodes s c) \<and>
    commitIndex (nodes s c) < commitIndex rf' \<and> is_majority n Q \<and> c \<in> Q \<and>
    (\<forall>p \<in> Q. past zero n s (\<lambda>t. has_entry (nodes t p) (commitIndex rf') e))"
  using assms(4)
proof (cases rule: sendAppendEntries_cases)
  case (progress reply ni mi)
  let ?rf = "(nodes s c)\<lparr>nextIndex := ni, matchIndex := mi\<rparr>"
  note inv = cluster_reachable_ok [OF assms(1)]
  have r: "0 \<le> c" "c < int n" "0 \<le> v" "v < int n" "v \<noteq> c"
    using calls_okD(1) [OF cluster_okD(2) [OF inv] calls_okD(4) [OF cluster_okD(2) [OF inv] assms(2)]] by auto
  have rf: "me (nodes s c) = c" "peers (nodes s c) = n" using cluster_okD(1) [OF inv] r(1) by (auto simp: nodes_ok_def)
  have "rf' \<noteq> ?rf" using assms(5) by auto
  then obtain k where k: "k < length (log (nodes s c))" "ToLogIndex (commitIndex (nodes s c)) (nodes s c) < int k"
    "rf' = Signal (?rf\<lparr>commitIndex := lastSnapshotIndex (nodes s c) + int k\<rparr>)" "Term (log (nodes s c) ! k) = currentTerm (nodes s c)"
    "int (card (replicated_on (lastSnapshotIndex (nodes s c) + int k) ?rf)) > int (n div 2)"
    using commit_loop_majority [OF progress(8)] r rf by auto
  let ?e = "log (nodes s c) ! k" and ?m = "lastSnapshotIndex (nodes s c) + int k" and ?Q = "replicated_on (commitIndex rf') ?rf"
  have m: "commitIndex rf' = ?m" "commitIndex (nodes s c) < ?m" using k(2) assms(6) by (simp_all add: k(3) ToLogIndex_def)
  have e: "entry_at (nodes s c) ?m = Some ?e" using k(1) m(2) assms(6) by (simp add: entry_at_def GetLastIndex_def)
  have rf': "state rf' = Leader" "peers rf' = n" "matchIndex rf' = matchIndex ?rf" "entry_at rf' ?m = Some ?e"
    using progress(2) rf(2) e same_log_entry_at [OF sendAppendEntries_same_log [OF assms(4)], of ?m] by (simp_all add: k(3))
  have "past zero n s (\<lambda>t. has_entry (nodes t p) ?m ?e)" if p: "p \<in> ?Q" for p
  proof (cases "p = c")
    case True
    then show ?thesis by (intro past_now [OF assms(1)]) (simp add: has_entry_def e)
  next
    case False
    then have "0 \<le> p" "p < int n" "?m \<le> matchIndex rf' ! nat p" using p rf m(1) rf'(3) by (simp_all add: replicated_on_def)
    then show ?thesis
      using finish_append_match [OF assms(1) reachable_commit [OF assms(1)] assms(2-4)] rf' by (simp add: match_ok_def)
  qed
  moreover have "is_majority n ?Q" "c \<in> ?Q" using k(5) rf r m(1) by (auto simp: is_majority_def replicated_on_def)
  ultimately show ?thesis using e k(4) m by (intro exI [of _ ?e] exI [of _ ?Q]) simp
qed (use assms(5) in auto)


lemma demo_started_commit: "commitIndex demo_started = 0" "matchIndex demo_started = [0, 0, 0]"
proof -
  have "commitIndex (Make 3 0 MakePersister :: (nat, nat) Raft) = 0"
    by (simp add: Make_def readPersist_def ReadRaftState_def MakePersister_def Let_def)
  then have "commitIndex demo_lead = 0" "matchIndex demo_lead = [0, 0, 0]"
    by (simp_all add: demo_lead_def demo_node_def numeral_eq_Suc)
  then show "commitIndex demo_started = 0" "matchIndex demo_started = [0, 0, 0]"
    using demo_lead_fields by (simp_all add: demo_started_def Start_leader)
qed

text \<open>The leader of the run above gets the reply of peer 1 and commits the second entry.\<close>

lemma demo_commit:
  assumes "aea_Term args = 1"
  shows "\<exists>rf'. sendAppendEntries [Some \<lparr>aer_Term = 1, XIndex = 3, XTerm = - 1, Success = True\<rparr>] 1 args demo_started = Inr rf' \<and>
    commitIndex rf' = 2"
proof -
  let ?rf = "demo_started\<lparr>nextIndex := [1, 3, 1], matchIndex := [0, 2, 0]\<rparr>"
  note f = demo_started_fields demo_started_commit
  have others: "other_peers ?rf = [1, 2]" by (rule other_peers_demo) (simp_all add: f)
  have "sendAppendEntries [Some \<lparr>aer_Term = 1, XIndex = 3, XTerm = - 1, Success = True\<rparr>] 1 args demo_started =
      commit_loop 0 3 ?rf"
    using assms by (simp add: sendAppendEntries_def update_indices_def f demo_log_def ToLogIndex_def del: commit_loop.simps)
      (simp add: numeral_eq_Suc del: commit_loop.simps)
  also have "\<dots> = Inr (Signal (?rf\<lparr>commitIndex := 2\<rparr>))"
    using others by (simp add: numeral_3_eq_3 ToOriginalIndex_def f demo_log_def del: One_nat_def)
  finally show ?thesis by simp
qed

theorem commit_was_replicated_witness:
  "\<exists>s. cluster_reachable (0 :: nat) 3 (s :: (nat, nat) cluster) \<and>
     (\<exists>Q. is_majority 3 Q \<and> 0 \<in> Q \<and> (\<forall>p \<in> Q. past 0 3 s (\<lambda>t. has_entry (nodes t p) 2 \<lparr>Term = 1, Command = Some 8\<rparr>)))"
proof -
  obtain s args where s: "cluster_reachable (0 :: nat) 3 (s :: (nat, nat) cluster)" "nodes s 0 = demo_started" "aea_Term args = 1"
    "(0, CallAppendEntries 1 args) \<in># running s"
    "((0, CallAppendEntries 1 args), AppendReply \<lparr>aer_Term = 1, XIndex = 3, XTerm = - 1, Success = True\<rparr>) \<in> answers s"
    using demo_answered by blast
  obtain rf' where rf': "sendAppendEntries [Some \<lparr>aer_Term = 1, XIndex = 3, XTerm = - 1, Success = True\<rparr>] 1 args (nodes s 0) = Inr rf'"
    "commitIndex rf' = 2" using demo_commit [OF s(3)] s(2) by auto
  have "possible (answers s) (0, CallAppendEntries 1 args) AppendReply [Some \<lparr>aer_Term = 1, XIndex = 3, XTerm = - 1, Success = True\<rparr>]"
    using s(5) by (simp add: possible_def)
  from commit_was_replicated [OF s(1,4) this rf'(1)] rf'(2) s(2) obtain e Q where
    "entry_at demo_started 2 = Some e" "is_majority 3 Q" "0 \<in> Q" "\<forall>p \<in> Q. past 0 3 s (\<lambda>t. has_entry (nodes t p) 2 e)"
    by (auto simp: demo_started_fields demo_started_commit)
  moreover have "e = \<lparr>Term = 1, Command = Some 8\<rparr>"
    using calculation(1) by (simp add: entry_at_def GetLastIndex_def demo_started_fields demo_log_def)
  ultimately show ?thesis using s(1) by blast
qed

end
