(* ===== verification/RaftLive.thy ===== *)
theory RaftLive
  imports RaftCluster
begin

text \<open>
  Progress of a cluster of Raft peers: from every reachable state, the peers of any majority can elect
  a leader among themselves, while the others do nothing.  The peer of the majority with the most
  up-to-date log is started again and campaigns until its term is above those of the majority; then it
  gets the votes it needs one by one, each counted when it comes in, and turns into the leader.
\<close>

section \<open>Running on\<close>

abbreviation runs_to :: "'b \<Rightarrow> nat \<Rightarrow> ('c, 'b) cluster \<Rightarrow> ('c, 'b) cluster \<Rightarrow> bool" where
  "runs_to zero n \<equiv> (cluster_step zero n)\<^sup>*\<^sup>*"

text \<open>Only the peers of \<open>Q\<close> have moved.\<close>

definition only_moved :: "int set \<Rightarrow> ('c, 'b) cluster \<Rightarrow> ('c, 'b) cluster \<Rightarrow> bool" where
  "only_moved Q s t \<longleftrightarrow> (\<forall>i. i \<notin> Q \<longrightarrow> nodes t i = nodes s i)"

lemma only_moved_refl [simp]: "only_moved Q s s"
  by (simp add: only_moved_def)

lemma only_moved_trans: "only_moved Q s t \<Longrightarrow> only_moved R t u \<Longrightarrow> Q \<subseteq> S \<Longrightarrow> R \<subseteq> S \<Longrightarrow> only_moved S s u"
  unfolding only_moved_def by (metis subsetD)

lemma only_movedD: "only_moved Q s t \<Longrightarrow> i \<notin> Q \<Longrightarrow> nodes t i = nodes s i"
  by (simp add: only_moved_def)

lemma runs_reachable: "runs_to zero n s t \<Longrightarrow> cluster_reachable zero n s \<Longrightarrow> cluster_reachable zero n t"
  by (induction rule: rtranclp_induct) (auto intro: cluster_reachable.step)

text \<open>A step of the \<open>ticker\<close> of a peer.\<close>

lemma tick_runs:
  assumes "0 \<le> c" and "c < int n" and "ticker_step timeout (nodes s c) = Inr (calls, rf')"
  obtains t where "cluster_step zero n s t" "nodes t = (nodes s)(c := rf')"
    "running t = running s + mset (map (Pair c) calls)" "only_moved {c} s t"
proof -
  let ?t = "(set_node c rf' s)\<lparr>sent := sent s \<union> Pair c ` set calls, running := running s + mset (map (Pair c) calls)\<rparr>"
  show thesis by (rule that [of ?t]) (use cluster_step.tick [OF assms] in \<open>auto simp: only_moved_def\<close>)
qed

section \<open>Campaigns\<close>

text \<open>What peer \<open>c\<close> asks in term \<open>T\<close> when its log is \<open>lg\<close> after the index \<open>li\<close>.\<close>

definition ballot :: "int \<Rightarrow> int \<Rightarrow> 'c logEntry list \<Rightarrow> int \<Rightarrow> RequestVoteArgs" where
  "ballot c T lg li = \<lparr>rva_Term = T, CandidateId = c, LastLogIndex = li + int (length lg) - 1, LastLogTerm = Term (last lg)\<rparr>"

definition candidacy :: "nat \<Rightarrow> int \<Rightarrow> int \<Rightarrow> 'c logEntry list \<Rightarrow> int \<Rightarrow> ('c, 'b) Raft \<Rightarrow> bool" where
  "candidacy n c T lg li rf \<longleftrightarrow> state rf \<noteq> Leader \<and> \<not> killed rf \<and> currentTerm rf = T \<and> log rf = lg \<and>
     lastSnapshotIndex rf = li \<and> lg \<noteq> [] \<and> me rf = c \<and> peers rf = n"

definition asked :: "nat \<Rightarrow> int \<Rightarrow> RequestVoteArgs \<Rightarrow> ('c, 'b) cluster \<Rightarrow> bool" where
  "asked n c args s \<longleftrightarrow> (\<forall>v. 0 \<le> v \<longrightarrow> v < int n \<longrightarrow> v \<noteq> c \<longrightarrow> (c, CallRequestVote v args) \<in># running s)"

lemma campaign:
  assumes c: "0 \<le> c" "c < int n" and rf: "candidacy n c T lg li (nodes s c)" "ticker_pc (nodes s c) = TLoop"
  obtains t where "runs_to zero n s t" "only_moved {c} s t" "candidacy n c (T + 1) lg li (nodes t c)"
    "ticker_pc (nodes t c) = TLoop" "state (nodes t c) = Candidate" "voteCount (nodes t c) = 1"
    "asked n c (ballot c (T + 1) lg li) t"
proof -
  let ?rf = "nodes s c"
  have "ticker_step False ?rf = Inr ([], ?rf\<lparr>ticker_pc := TSelect (state ?rf)\<rparr>)"
    using rf by (simp add: ticker_step_def candidacy_def)
  then obtain t1 where t1: "cluster_step zero n s t1" "nodes t1 = (nodes s)(c := ?rf\<lparr>ticker_pc := TSelect (state ?rf)\<rparr>)" "only_moved {c} s t1"
    by (rule tick_runs [OF c])
  have "ticker_step True (nodes t1 c) = Inr ([], ?rf\<lparr>ticker_pc := TCandidate\<rparr>)"
    using rf(1) by (simp add: t1(2) ticker_step_def candidacy_def)
  then obtain t2 where t2: "cluster_step zero n t1 t2" "nodes t2 = (nodes t1)(c := ?rf\<lparr>ticker_pc := TCandidate\<rparr>)" "only_moved {c} t1 t2"
    by (rule tick_runs [OF c])
  let ?args = "ballot c (T + 1) lg li"
  let ?calls = "map (\<lambda>i. CallRequestVote i ?args) (other_peers ?rf)"
  let ?rf' = "(persist None (?rf\<lparr>ticker_pc := TCandidate, state := Candidate, currentTerm := T + 1, votedFor := c, voteCount := 1\<rparr>))\<lparr>ticker_pc := TLoop\<rparr>"
  have "ticker_step False (nodes t2 c) = Inr (?calls, ?rf')"
    using rf convertToCandidate_eq [of "?rf\<lparr>ticker_pc := TCandidate\<rparr>"]
    by (simp add: t2(2) ticker_step_def candidacy_def ballot_def GetLastIndex_def other_peers_def)
  then obtain t3 where t3: "cluster_step zero n t2 t3" "nodes t3 = (nodes t2)(c := ?rf')"
    "running t3 = running t2 + mset (map (Pair c) ?calls)" "only_moved {c} t2 t3"
    by (rule tick_runs [OF c])
  have "v \<in> set (other_peers ?rf)" if "0 \<le> v" "v < int n" "v \<noteq> c" for v
    using that rf(1) by (auto simp: other_peers_def candidacy_def image_iff intro!: bexI [of _ "nat v"])
  then have "asked n c ?args t3" by (simp add: asked_def t3(3) image_iff)
  moreover have "candidacy n c (T + 1) lg li (nodes t3 c)" using rf(1) by (simp add: t3(2) candidacy_def killed_def)
  moreover have "runs_to zero n s t3" "only_moved {c} s t3"
    using t1(1,3) t2(1,3) t3(1,4) by (auto simp: only_moved_def intro: rtranclp.rtrancl_into_rtrancl)
  ultimately show thesis by (intro that [of t3]) (simp_all add: t3(2))
qed

text \<open>By campaigning again and again a peer reaches any later term.\<close>

lemma campaigns:
  assumes c: "0 \<le> c" "c < int n" and rf: "candidacy n c T lg li (nodes s c)" "ticker_pc (nodes s c) = TLoop"
  shows "\<exists>t. runs_to zero n s t \<and> only_moved {c} s t \<and> candidacy n c (T + 1 + int k) lg li (nodes t c) \<and>
    ticker_pc (nodes t c) = TLoop \<and> state (nodes t c) = Candidate \<and> voteCount (nodes t c) = 1 \<and>
    asked n c (ballot c (T + 1 + int k) lg li) t"
proof (induction k)
  case 0
  obtain t where "runs_to zero n s t" "only_moved {c} s t" "candidacy n c (T + 1) lg li (nodes t c)"
    "ticker_pc (nodes t c) = TLoop" "state (nodes t c) = Candidate" "voteCount (nodes t c) = 1" "asked n c (ballot c (T + 1) lg li) t"
    by (rule campaign [OF assms])
  then show ?case by auto
next
  case (Suc k)
  then obtain t where t: "runs_to zero n s t" "only_moved {c} s t" "candidacy n c (T + 1 + int k) lg li (nodes t c)"
    "ticker_pc (nodes t c) = TLoop" by blast
  obtain u where u: "runs_to zero n t u" "only_moved {c} t u" "candidacy n c (T + 1 + int k + 1) lg li (nodes u c)"
    "ticker_pc (nodes u c) = TLoop" "state (nodes u c) = Candidate" "voteCount (nodes u c) = 1"
    "asked n c (ballot c (T + 1 + int k + 1) lg li) u"
    by (rule campaign [OF c t(3,4)])
  moreover have "T + 1 + int (Suc k) = T + 1 + int k + 1" by simp
  ultimately show ?case using t(1) only_moved_trans [OF t(2) u(2)] rtranclp_trans [OF t(1) u(1)] by auto
qed

section \<open>Votes\<close>

text \<open>Peer \<open>c\<close> has \<open>k\<close> votes and waits for those of \<open>vs\<close>, which will grant them.\<close>

definition polling :: "nat \<Rightarrow> int \<Rightarrow> int \<Rightarrow> 'c logEntry list \<Rightarrow> int \<Rightarrow> nat \<Rightarrow> int list \<Rightarrow> ('c, 'b) cluster \<Rightarrow> bool" where
  "polling n c T lg li k vs s \<longleftrightarrow>
     candidacy n c T lg li (nodes s c) \<and> state (nodes s c) = Candidate \<and> voteCount (nodes s c) = int k \<and>
     ticker_pc (nodes s c) = (if k > n div 2 then TLeader else TSelect Candidate) \<and>
     (\<forall>v \<in> set vs. v \<noteq> c \<and> (c, CallRequestVote v (ballot c T lg li)) \<in># running s \<and> currentTerm (nodes s v) < T \<and>
        log (nodes s v) \<noteq> [] \<and> up_to_date (LastLogIndex (ballot c T lg li)) (LastLogTerm (ballot c T lg li)) (nodes s v))"

lemma one_vote:
  assumes poll: "polling n c T lg li k (v # vs) s" and k: "k \<le> n div 2" and dist: "distinct (v # vs)"
    and reach: "cluster_reachable zero n s"
  obtains t where "runs_to zero n s t" "only_moved {c, v} s t" "polling n c T lg li (Suc k) vs t"
proof -
  let ?args = "ballot c T lg li"
  let ?rpc = "(c, CallRequestVote v ?args)"
  let ?r = "\<lparr>rvr_Term = T, VoteGranted = True\<rparr>"
  have v: "v \<noteq> c" "?rpc \<in># running s" "currentTerm (nodes s v) < T" "log (nodes s v) \<noteq> []" "grants ?args (nodes s v)"
    and c: "candidacy n c T lg li (nodes s c)" "state (nodes s c) = Candidate" "voteCount (nodes s c) = int k"
      "ticker_pc (nodes s c) = TSelect Candidate"
    using poll k by (auto simp: polling_def grants_def ballot_def)
  have sent: "?rpc \<in> sent s" using calls_okD(4) [OF cluster_okD(2) [OF cluster_reachable_ok [OF reach]] v(2)] .
  obtain rf where rf: "RequestVote ?args (nodes s v) = Inr (?r, rf)"
    using RequestVote_eq [OF v(4), of ?args] v(3,5) by (simp add: ballot_def)
  let ?s1 = "(set_node v rf s)\<lparr>answers := insert (?rpc, VoteReply ?r) (answers s)\<rparr>"
  have s1: "cluster_step zero n s ?s1" by (rule cluster_step.handle_vote [OF refl sent rf])
  let ?rf = "(nodes s c)\<lparr>voteCount := int (Suc k), ticker_pc := (if Suc k > n div 2 then TLeader else TSelect Candidate)\<rparr>"
  have "sendRequestVote [Some ?r] ?args (nodes s c) = ?rf"
    using c by (auto simp: sendRequestVote_def candidacy_def ballot_def sendToChannel_def Let_def)
  then have fin: "sendRequestVote [Some ?r] ?args (nodes ?s1 c) = ?rf" using v(1) by simp
  let ?s2 = "(set_node c ?rf ?s1)\<lparr>running := running ?s1 - {#?rpc#}\<rparr>"
  have s2: "cluster_step zero n ?s1 ?s2"
    using cluster_step.finish_vote [OF refl, of c v ?args ?s1 "[Some ?r]" zero n] v(2) fin by (simp add: possible_def)
  have rest: "w \<noteq> c \<and> w \<noteq> v \<and> (c, CallRequestVote w ?args) \<in># running s - {#?rpc#} \<and> currentTerm (nodes s w) < T \<and>
      log (nodes s w) \<noteq> [] \<and> up_to_date (LastLogIndex ?args) (LastLogTerm ?args) (nodes s w)" if "w \<in> set vs" for w
    using poll dist that by (auto simp: polling_def in_diff_count)
  show thesis
  proof (rule that)
    show "runs_to zero n s ?s2" using s1 s2 by (meson converse_rtranclp_into_rtranclp r_into_rtranclp)
    show "only_moved {c, v} s ?s2" by (simp add: only_moved_def)
    show "polling n c T lg li (Suc k) vs ?s2"
      using c rest by (auto simp: polling_def candidacy_def killed_def)
  qed
qed

lemma enough_votes:
  assumes "polling n c T lg li k vs s" and "k + length vs = Suc (n div 2)" and "distinct vs" and "cluster_reachable zero n s"
  shows "\<exists>t. runs_to zero n s t \<and> only_moved (insert c (set vs)) s t \<and> polling n c T lg li (Suc (n div 2)) [] t"
  using assms
proof (induction vs arbitrary: k s)
  case Nil
  then show ?case using only_moved_refl by fastforce
next
  case (Cons v vs)
  obtain t where t: "runs_to zero n s t" "only_moved {c, v} s t" "polling n c T lg li (Suc k) vs t"
    by (rule one_vote [OF Cons.prems(1) _ Cons.prems(3,4)]) (use Cons.prems(2) in simp_all)
  with Cons.IH [OF t(3) _ _ runs_reachable [OF t(1) Cons.prems(4)]] Cons.prems(2,3)
  obtain u where u: "runs_to zero n t u" "only_moved (insert c (set vs)) t u" "polling n c T lg li (Suc (n div 2)) [] u" by auto
  then show ?case using rtranclp_trans [OF t(1) u(1)] only_moved_trans [OF t(2) u(2)] by (intro exI [of _ u]) auto
qed

section \<open>The election\<close>

lemma heartbeat_loop_new_leader:
  assumes "log rf \<noteq> []" and "nextIndex rf = replicate (peers rf) (GetLastIndex rf + 1)"
    and "\<forall>i \<in> set is. 0 \<le> i \<and> i < int (peers rf)"
  shows "\<exists>calls. heartbeat_loop rf is = Inr calls"
  using assms(3)
proof (induction "is")
  case (Cons i "is")
  have "GetLastIndex rf + 1 = lastSnapshotIndex rf + go_len (log rf)" by (simp add: GetLastIndex_def)
  then have "\<exists>call. heartbeat_call rf i = Inr call"
    using assms(1,2) Cons.prems by (auto simp: heartbeat_call_def go_nth_def go_from_def ToLogIndex_def Let_def)
  with Cons show ?case by auto
qed simp

lemma other_peers_range: "i \<in> set (other_peers rf) \<Longrightarrow> 0 \<le> i \<and> i < int (peers rf)"
  by (auto simp: other_peers_def)

lemma take_office:
  assumes "polling n c T lg li (Suc (n div 2)) [] s" and c: "0 \<le> c" "c < int n"
  obtains t where "cluster_step zero n s t" "only_moved {c} s t" "state (nodes t c) = Leader" "currentTerm (nodes t c) = T"
proof -
  let ?rf = "nodes s c"
  let ?rf' = "?rf\<lparr>state := Leader, nextIndex := replicate (peers ?rf) (GetLastIndex ?rf + 1), matchIndex := replicate (peers ?rf) 0\<rparr>"
  have p: "candidacy n c T lg li ?rf" "state ?rf = Candidate" "ticker_pc ?rf = TLeader"
    using assms(1) by (simp_all add: polling_def)
  obtain calls where "heartbeat_loop ?rf' (other_peers ?rf') = Inr calls"
    using heartbeat_loop_new_leader [of ?rf' "other_peers ?rf'"] p(1) other_peers_range [of _ ?rf']
    by (auto simp: candidacy_def GetLastIndex_def)
  then have "ticker_step False ?rf = Inr (calls, ?rf'\<lparr>ticker_pc := TLoop\<rparr>)"
    using p by (simp add: ticker_step_def convertToLeader_def broadcastHeartbeat_def Let_def)
  then obtain t where "cluster_step zero n s t" "nodes t = (nodes s)(c := ?rf'\<lparr>ticker_pc := TLoop\<rparr>)" "only_moved {c} s t"
    by (rule tick_runs [OF c])
  then show thesis using p(1) by (intro that [of t]) (simp_all add: candidacy_def)
qed

text \<open>Of any peers, one has a log that all of them find up to date.\<close>

lemma most_up_to_date:
  assumes "finite Q" and "Q \<noteq> {}"
  shows "\<exists>c \<in> Q. \<forall>v \<in> Q. up_to_date (GetLastIndex (f c)) (Term (last (log (f c)))) (f v)"
  using assms
proof (induction rule: finite_ne_induct)
  case (singleton x)
  then show ?case by (simp add: up_to_date_def)
next
  case (insert x F)
  then obtain c where c: "c \<in> F" "\<forall>v \<in> F. up_to_date (GetLastIndex (f c)) (Term (last (log (f c)))) (f v)" by blast
  show ?case
  proof (cases "up_to_date (GetLastIndex (f c)) (Term (last (log (f c)))) (f x)")
    case True
    then show ?thesis using c by blast
  next
    case False
    have "up_to_date (GetLastIndex (f x)) (Term (last (log (f x)))) (f v)" if "v \<in> insert x F" for v
      using that False bspec [OF c(2), of v] by (auto simp: up_to_date_def)
    then show ?thesis by blast
  qed
qed

lemma restart_candidacy:
  assumes "cluster_reachable zero n s" and c: "0 \<le> c" "c < int n"
  obtains t where "cluster_step zero n s t" "only_moved {c} s t" "ticker_pc (nodes t c) = TLoop"
    "candidacy n c (currentTerm (nodes s c)) (log (nodes s c)) (lastSnapshotIndex (nodes s c)) (nodes t c)"
proof -
  have wf: "wf_raft (nodes s c)"
    using cluster_okD(1) [OF cluster_reachable_ok [OF assms(1)]] c by (simp add: nodes_ok_def)
  let ?rf = "Make n c (Persister_Copy (persister (nodes s c)))"
  let ?t = "(set_node c ?rf s)\<lparr>running := filter_mset (\<lambda>rpc. fst rpc \<noteq> c) (running s)\<rparr>"
  note m = Make_fields [OF wf_raftD(4) [OF wf] wf_raftD(1) [OF wf], of "Persister_Copy (persister (nodes s c))" n c, simplified]
  have "\<not> killed ?rf" by (simp add: killed_def Make_def readPersist_def Let_def split: option.split)
  then show thesis
    using m wf_raftD(1) [OF wf] cluster_step.restart [OF c, of zero s]
    by (intro that [of ?t]) (simp_all add: only_moved_def candidacy_def)
qed

text \<open>A peer is started again, campaigns up to the term \<open>T\<close> and waits for the votes.\<close>

lemma open_polls:
  assumes reach: "cluster_reachable zero n s" and c: "0 \<le> c" "c < int n" and n: "1 < n"
    and T: "T = currentTerm (nodes s c) + 1 + int k"
    and vs: "\<And>v. v \<in> set vs \<Longrightarrow> 0 \<le> v \<and> v < int n \<and> v \<noteq> c \<and> currentTerm (nodes s v) < T \<and>
      up_to_date (GetLastIndex (nodes s c)) (Term (last (log (nodes s c)))) (nodes s v)"
  obtains t where "runs_to zero n s t" "only_moved {c} s t"
    "polling n c T (log (nodes s c)) (lastSnapshotIndex (nodes s c)) 1 vs t"
proof -
  let ?lg = "log (nodes s c)" and ?li = "lastSnapshotIndex (nodes s c)"
  let ?args = "ballot c T ?lg ?li"
  obtain s1 where s1: "cluster_step zero n s s1" "only_moved {c} s s1" "ticker_pc (nodes s1 c) = TLoop"
    "candidacy n c (currentTerm (nodes s c)) ?lg ?li (nodes s1 c)"
    by (rule restart_candidacy [OF reach c])
  obtain s2 where s2: "runs_to zero n s1 s2" "only_moved {c} s1 s2" "candidacy n c T ?lg ?li (nodes s2 c)"
    "ticker_pc (nodes s2 c) = TLoop" "state (nodes s2 c) = Candidate" "voteCount (nodes s2 c) = 1" "asked n c ?args s2"
    using campaigns [OF c s1(4,3), of zero k] unfolding T by blast
  have "ticker_step False (nodes s2 c) = Inr ([], (nodes s2 c)\<lparr>ticker_pc := TSelect Candidate\<rparr>)"
    using s2(3-5) by (simp add: ticker_step_def candidacy_def)
  then obtain t where t: "cluster_step zero n s2 t" "nodes t = (nodes s2)(c := (nodes s2 c)\<lparr>ticker_pc := TSelect Candidate\<rparr>)"
    "running t = running s2 + mset (map (Pair c) [])" "only_moved {c} s2 t"
    by (rule tick_runs [OF c])
  have moved: "only_moved {c} s t" using s1(2) s2(2) t(4) by (simp add: only_moved_def)
  have "nodes_ok n s" by (rule cluster_okD(1) [OF cluster_reachable_ok [OF reach]])
  then have logs: "log (nodes s v) \<noteq> []" if "0 \<le> v" for v using that wf_raftD(1) by (auto simp: nodes_ok_def)
  have cand: "candidacy n c T ?lg ?li (nodes t c)" "state (nodes t c) = Candidate" "voteCount (nodes t c) = int 1"
    "ticker_pc (nodes t c) = TSelect Candidate"
    using s2(3,5,6) by (simp_all add: t(2) candidacy_def killed_def)
  have voter: "v \<noteq> c \<and> (c, CallRequestVote v ?args) \<in># running t \<and> currentTerm (nodes t v) < T \<and> log (nodes t v) \<noteq> [] \<and>
      up_to_date (LastLogIndex ?args) (LastLogTerm ?args) (nodes t v)" if "v \<in> set vs" for v
  proof -
    note v = vs [OF that]
    have "nodes t v = nodes s v" using v only_movedD [OF moved] by blast
    moreover have "(c, CallRequestVote v ?args) \<in># running t" using v s2(7) by (simp add: asked_def t(3))
    ultimately show ?thesis using v logs by (simp add: ballot_def GetLastIndex_def)
  qed
  show thesis
  proof (rule that)
    show "runs_to zero n s t"
      using s1(1) s2(1) t(1) by (meson converse_rtranclp_into_rtranclp rtranclp.rtrancl_into_rtrancl)
    show "polling n c T ?lg ?li 1 vs t" unfolding polling_def using cand voter n by simp
  qed (rule moved)
qed

text \<open>C5: a cluster can always elect a leader.  From every state that a cluster of at least two peers can reach,
  whatever was lost, delayed, stopped or restarted before, and for every majority of the peers, there is a continuation
  in which only the peers of that majority move (the others may be stopped or unreachable) and at the end of which one of
  the majority is the leader, in a term above the present terms of all of them.\<close>
theorem leader_can_be_elected:
  fixes s :: "('c, 'b) cluster"
  assumes "cluster_reachable zero n s" and "1 < n" and "is_majority n Q"
  shows "\<exists>t. (cluster_step zero n)\<^sup>*\<^sup>* s t \<and> (\<forall>i. i \<notin> Q \<longrightarrow> nodes t i = nodes s i) \<and>
    (\<exists>c \<in> Q. state (nodes t c) = Leader \<and> (\<forall>v \<in> Q. currentTerm (nodes s v) < currentTerm (nodes t c)))"
proof -
  have Q: "Q \<subseteq> {0..<int n}" "card Q > n div 2" using assms(3) by (simp_all add: is_majority_def)
  then have fin: "finite Q" "Q \<noteq> {}" by (auto intro: finite_subset)
  obtain c where c: "c \<in> Q" "\<And>v. v \<in> Q \<Longrightarrow> up_to_date (GetLastIndex (nodes s c)) (Term (last (log (nodes s c)))) (nodes s v)"
    using most_up_to_date [OF fin, of "nodes s"] by blast
  then have cn: "0 \<le> c" "c < int n" using Q(1) by auto
  let ?T = "currentTerm (nodes s c)" and ?lg = "log (nodes s c)" and ?li = "lastSnapshotIndex (nodes s c)"
  define M where "M = Max ((\<lambda>v. currentTerm (nodes s v)) ` Q)"
  have M: "currentTerm (nodes s v) \<le> M" if "v \<in> Q" for v using that fin by (simp add: M_def)
  define T where "T = ?T + 1 + int (nat (M - ?T))"
  have above: "currentTerm (nodes s v) < T" if "v \<in> Q" for v using M [OF that] M [OF c(1)] by (simp add: T_def)
  have "n div 2 \<le> card (Q - {c})" using Q(2) c(1) fin by simp
  then obtain B where B: "B \<subseteq> Q - {c}" "card B = n div 2" "finite B" by (rule obtain_subset_with_card_n)
  then obtain vs where vs: "set vs = B" "distinct vs" using finite_distinct_list by blast
  have len: "length vs = n div 2" using vs B(2) distinct_card by fastforce
  obtain s1 where s1: "runs_to zero n s s1" "only_moved {c} s s1" "polling n c T ?lg ?li 1 vs s1"
    by (rule open_polls [OF assms(1) cn assms(2) T_def, of vs]) (use B(1) vs(1) Q(1) above c(2) in auto)
  then obtain s2 where s2: "runs_to zero n s1 s2" "only_moved (insert c (set vs)) s1 s2" "polling n c T ?lg ?li (Suc (n div 2)) [] s2"
    using enough_votes [OF s1(3) _ vs(2) runs_reachable [OF s1(1) assms(1)]] len by auto
  obtain t where t: "cluster_step zero n s2 t" "only_moved {c} s2 t" "state (nodes t c) = Leader" "currentTerm (nodes t c) = T"
    by (rule take_office [OF s2(3) cn])
  have "runs_to zero n s t" using s1(1) s2(1) t(1) by (meson rtranclp.rtrancl_into_rtrancl rtranclp_trans)
  moreover have "nodes t i = nodes s i" if "i \<notin> Q" for i
  proof -
    have "i \<notin> {c}" "i \<notin> insert c (set vs)" using that c(1) B(1) vs(1) by auto
    then show ?thesis using only_movedD [OF s1(2)] only_movedD [OF s2(2)] only_movedD [OF t(2)] by simp
  qed
  ultimately show ?thesis using t(3,4) above c(1) by blast
qed

text \<open>A leader that is cut off from the other two peers is replaced.\<close>
theorem leader_can_be_elected_witness:
  "\<exists>s t c. cluster_reachable (0 :: nat) 3 (s :: (nat, nat) cluster) \<and> state (nodes s 0) = Leader \<and>
     (cluster_step (0 :: nat) 3)\<^sup>*\<^sup>* s t \<and> nodes t 0 = nodes s 0 \<and> c \<in> {1, 2} \<and> state (nodes t c) = Leader \<and>
     currentTerm (nodes s 1) < currentTerm (nodes t c)"
proof -
  obtain s where s: "cluster_reachable (0 :: nat) 3 (s :: (nat, nat) cluster)" "state (nodes s 0) = Leader"
    using demo_election by blast
  have "is_majority 3 {1, 2}" by (simp add: is_majority_def)
  from leader_can_be_elected [OF s(1) _ this] obtain t c where t: "(cluster_step (0 :: nat) 3)\<^sup>*\<^sup>* s t"
    "\<And>i. i \<notin> {1, 2} \<Longrightarrow> nodes t i = nodes s i" "c \<in> {1, 2}" "state (nodes t c) = Leader"
    "\<And>v. v \<in> {1, 2} \<Longrightarrow> currentTerm (nodes s v) < currentTerm (nodes t c)"
    by (auto simp del: insert_iff)
  have "nodes t 0 = nodes s 0" "currentTerm (nodes s 1) < currentTerm (nodes t c)" using t(2) [of 0] t(5) [of 1] by simp_all
  with s t(1,3,4) show ?thesis by (intro exI [of _ s] exI [of _ t] exI [of _ c] conjI)
qed

end
