(* ===== verification/RaftRun.thy ===== *)
theory RaftRun
  imports RaftCluster
begin

text \<open>
  Executions of a cluster of Raft peers that can be computed.  A schedule is a list of events: which
  request a peer executes next, which goroutine sees its reply, which peer's \<open>ticker\<close> or applier moves,
  which command a service starts.  The interpreter runs a schedule on a cluster whose peers, requests
  and replies are lists; every schedule that it runs to its end is an execution of the cluster of the
  theory RaftCluster.

  The theorem is an execution of three peers, without a crash and with nothing lost, in which two of
  them hand different commands to their services at the same index.
\<close>

section \<open>Schedules\<close>

datatype 'c event =
    Handle nat               \<comment> \<open>the peer called executes the request\<close>
  | Finish nat               \<comment> \<open>its goroutine sees the first reply to it\<close>
  | Tick nat bool            \<comment> \<open>a step of \<open>ticker\<close>\<close>
  | Apply nat                \<comment> \<open>a step of \<open>applyLogEntry\<close>\<close>
  | Submit nat "'c option"   \<comment> \<open>the service calls \<open>Start\<close>\<close>

record ('c, 'b) sim =
  speers :: "('c, 'b) Raft list"
  ssent :: "('c, 'b) rpc list"
  srunning :: "('c, 'b) rpc list"
  sanswers :: "(('c, 'b) rpc \<times> raft_reply) list"

definition sim_init :: "nat \<Rightarrow> ('c, 'b) sim" where
  "sim_init n = \<lparr>speers = map (\<lambda>i. Make n (int i) MakePersister) [0..<n], ssent = [], srunning = [], sanswers = []\<rparr>"

text \<open>The cluster that the lists stand for.\<close>

definition sim_cluster :: "nat \<Rightarrow> ('c, 'b) sim \<Rightarrow> ('c, 'b) cluster" where
  "sim_cluster n s = \<lparr>nodes = (\<lambda>i. if 0 \<le> i \<and> i < int n then speers s ! nat i else Make n i MakePersister),
     sent = set (ssent s), running = mset (srunning s), answers = set (sanswers s)\<rparr>"

definition set_peer :: "nat \<Rightarrow> ('c, 'b) Raft \<Rightarrow> ('c, 'b) sim \<Rightarrow> ('c, 'b) sim" where
  "set_peer i rf s = s\<lparr>speers := (speers s)[i := rf]\<rparr>"

definition answered :: "nat \<Rightarrow> ('c, 'b) rpc \<Rightarrow> raft_reply \<Rightarrow> ('c, 'b) Raft \<Rightarrow> ('c, 'b) sim \<Rightarrow> ('c, 'b) sim" where
  "answered v rpc r rf s = (set_peer v rf s)\<lparr>sanswers := sanswers s @ [(rpc, r)]\<rparr>"

definition finished :: "nat \<Rightarrow> ('c, 'b) rpc \<Rightarrow> ('c, 'b) Raft \<Rightarrow> ('c, 'b) sim \<Rightarrow> ('c, 'b) sim" where
  "finished c rpc rf s = (set_peer c rf s)\<lparr>srunning := remove1 rpc (srunning s)\<rparr>"

text \<open>\<open>Some x\<close> if the code returned \<open>x\<close>, \<open>None\<close> if it panicked.\<close>

definition returned :: "'a go \<Rightarrow> 'a option" where
  "returned r = (case r of Inr x \<Rightarrow> Some x | Inl _ \<Rightarrow> None)"

fun run_handler :: "'b \<Rightarrow> ('c, 'b) raft_call \<Rightarrow> ('c, 'b) Raft \<Rightarrow> (raft_reply \<times> ('c, 'b) Raft) go" where
  "run_handler zero (CallRequestVote v args) rf = go_bind (RequestVote args rf) (\<lambda>(r, rf). Inr (VoteReply r, rf))"
| "run_handler zero (CallAppendEntries v args) rf = go_bind (AppendEntries args rf) (\<lambda>(r, rf). Inr (AppendReply r, rf))"
| "run_handler zero (CallInstallSnapshot v args) rf = go_bind (InstallSnapshot zero args rf) (\<lambda>(r, rf). Inr (SnapReply r, rf))"

fun run_sender :: "('c, 'b) raft_call \<Rightarrow> raft_reply \<Rightarrow> ('c, 'b) Raft \<Rightarrow> ('c, 'b) Raft option" where
  "run_sender (CallRequestVote v args) (VoteReply r) rf = Some (sendRequestVote [Some r] args rf)"
| "run_sender (CallAppendEntries v args) (AppendReply r) rf = returned (sendAppendEntries [Some r] v args rf)"
| "run_sender (CallInstallSnapshot v args) (SnapReply r) rf = returned (sendInstallSnapshot [Some r] v args rf)"
| "run_sender _ _ rf = None"

fun sim_step :: "'b \<Rightarrow> nat \<Rightarrow> 'c event \<Rightarrow> ('c, 'b) sim \<Rightarrow> ('c, 'b) sim option" where
  "sim_step zero n (Handle k) s =
     (if k < length (ssent s) then
        (let rpc = ssent s ! k; v = callee (snd rpc)
         in if 0 \<le> v \<and> v < int n
            then map_option (\<lambda>(r, rf). answered (nat v) rpc r rf s) (returned (run_handler zero (snd rpc) (speers s ! nat v)))
            else None)
      else None)"
| "sim_step zero n (Finish k) s =
     (if k < length (ssent s) then
        (let rpc = ssent s ! k; c = fst rpc
         in if 0 \<le> c \<and> c < int n \<and> rpc \<in> set (srunning s)
            then (case map_of (sanswers s) rpc of
                    Some r \<Rightarrow> map_option (\<lambda>rf. finished (nat c) rpc rf s) (run_sender (snd rpc) r (speers s ! nat c))
                  | None \<Rightarrow> None)
            else None)
      else None)"
| "sim_step zero n (Tick c timeout) s =
     (if c < n then
        map_option (\<lambda>(calls, rf). (set_peer c rf s)\<lparr>ssent := ssent s @ map (Pair (int c)) calls,
                                                 srunning := srunning s @ map (Pair (int c)) calls\<rparr>)
          (returned (ticker_step timeout (speers s ! c)))
      else None)"
| "sim_step zero n (Apply c) s =
     (if c < n then map_option (\<lambda>rf. set_peer c rf s) (returned (applyLogEntry_step (speers s ! c))) else None)"
| "sim_step zero n (Submit c cmd) s =
     (if c < n then Some (set_peer c (snd (Start cmd (speers s ! c))) s) else None)"

fun sim_run :: "'b \<Rightarrow> nat \<Rightarrow> 'c event list \<Rightarrow> ('c, 'b) sim \<Rightarrow> ('c, 'b) sim option" where
  "sim_run zero n [] s = Some s"
| "sim_run zero n (e # es) s = Option.bind (sim_step zero n e s) (sim_run zero n es)"

section \<open>Schedules are executions\<close>

lemma returned_Some [simp]: "returned r = Some x \<longleftrightarrow> r = Inr x"
  by (cases r) (simp_all add: returned_def)

lemma sim_cluster_fields [simp]:
  "sent (sim_cluster n s) = set (ssent s)" "running (sim_cluster n s) = mset (srunning s)"
  "answers (sim_cluster n s) = set (sanswers s)"
  "i < n \<Longrightarrow> nodes (sim_cluster n s) (int i) = speers s ! i"
  by (simp_all add: sim_cluster_def)

lemma sim_cluster_eqI:
  assumes "length (speers s) = n" and "i < n" and "speers t = (speers s)[i := rf]"
    and "set (ssent t) = S" "mset (srunning t) = R" "set (sanswers t) = A"
  shows "sim_cluster n t = (set_node (int i) rf (sim_cluster n s))\<lparr>sent := S, running := R, answers := A\<rparr>"
  using assms by (auto simp: sim_cluster_def set_node_def nth_list_update fun_eq_iff)

lemma sim_handle:
  assumes "rpc \<in> set (ssent s)" and "callee (snd rpc) = int v" and "v < n" and "length (speers s) = n"
    and "run_handler zero (snd rpc) (speers s ! v) = Inr (r, rf)"
  shows "cluster_step zero n (sim_cluster n s) (sim_cluster n (answered v rpc r rf s))"
proof -
  obtain c call where rpc: "rpc = (c, call)" by fastforce
  let ?s = "sim_cluster n s"
  have eq: "sim_cluster n (answered v rpc r rf s) = (set_node (int v) rf ?s)\<lparr>answers := insert (rpc, r) (answers ?s)\<rparr>"
    by (subst sim_cluster_eqI [OF assms(4,3), of _ rf])
      (auto simp: answered_def set_peer_def set_node_def sim_cluster_def)
  have sent: "(c, call) \<in> sent ?s" using assms(1) rpc by simp
  show ?thesis
  proof (cases call)
    case (CallRequestVote w args)
    then show ?thesis unfolding eq using cluster_step.handle_vote [OF refl, of c w args ?s] assms sent rpc
      by (auto elim!: go_bindE)
  next
    case (CallAppendEntries w args)
    then show ?thesis unfolding eq using cluster_step.handle_append [OF refl, of c w args ?s] assms sent rpc
      by (auto elim!: go_bindE)
  next
    case (CallInstallSnapshot w args)
    then show ?thesis unfolding eq using cluster_step.handle_snapshot [OF refl, of c w args ?s] assms sent rpc
      by (auto elim!: go_bindE)
  qed
qed

lemma sim_finish:
  assumes "rpc \<in> set (srunning s)" and "fst rpc = int c" and "c < n" and "length (speers s) = n"
    and "(rpc, r) \<in> set (sanswers s)" and "run_sender (snd rpc) r (speers s ! c) = Some rf"
  shows "cluster_step zero n (sim_cluster n s) (sim_cluster n (finished c rpc rf s))"
proof -
  obtain call where rpc: "rpc = (int c, call)" using assms(2) by (cases rpc) simp
  let ?s = "sim_cluster n s"
  have eq: "sim_cluster n (finished c rpc rf s) = (set_node (int c) rf ?s)\<lparr>running := running ?s - {#rpc#}\<rparr>"
    by (subst sim_cluster_eqI [OF assms(4,3), of _ rf])
      (auto simp: finished_def set_peer_def set_node_def sim_cluster_def)
  have run: "(int c, call) \<in># running ?s" using assms(1) rpc by simp
  from assms(6) rpc consider
      v args x where "call = CallRequestVote v args" "r = VoteReply x" "rf = sendRequestVote [Some x] args (speers s ! c)"
    | v args x where "call = CallAppendEntries v args" "r = AppendReply x" "sendAppendEntries [Some x] v args (speers s ! c) = Inr rf"
    | v args x where "call = CallInstallSnapshot v args" "r = SnapReply x" "sendInstallSnapshot [Some x] v args (speers s ! c) = Inr rf"
    by (cases call; cases r) auto
  then show ?thesis
  proof cases
    case 1
    then show ?thesis
      unfolding eq using cluster_step.finish_vote [OF refl, of "int c" v args ?s "[Some x]" zero n] run rpc assms(3,5) by (simp add: possible_def)
  next
    case 2
    then show ?thesis
      unfolding eq using cluster_step.finish_append [OF refl, of "int c" v args ?s "[Some x]" rf zero n] run rpc assms(3,5) by (simp add: possible_def)
  next
    case 3
    then show ?thesis
      unfolding eq using cluster_step.finish_snapshot [OF refl, of "int c" v args ?s "[Some x]" rf zero n] run rpc assms(3,5) by (simp add: possible_def)
  qed
qed

lemma sim_step_sound:
  assumes "sim_step zero n e s = Some t" and "length (speers s) = n"
  shows "cluster_step zero n (sim_cluster n s) (sim_cluster n t) \<and> length (speers t) = n"
proof (cases e)
  case (Handle k)
  then obtain r rf where k: "k < length (ssent s)" "0 \<le> callee (snd (ssent s ! k))" "callee (snd (ssent s ! k)) < int n"
    "run_handler zero (snd (ssent s ! k)) (speers s ! nat (callee (snd (ssent s ! k)))) = Inr (r, rf)"
    "t = answered (nat (callee (snd (ssent s ! k)))) (ssent s ! k) r rf s"
    using assms(1) by (auto simp: Let_def split: if_splits)
  then show ?thesis
    using sim_handle [of "ssent s ! k" s "nat (callee (snd (ssent s ! k)))" n] assms(2) by (simp add: answered_def set_peer_def)
next
  case (Finish k)
  then obtain r rf where k: "k < length (ssent s)" "0 \<le> fst (ssent s ! k)" "fst (ssent s ! k) < int n"
    "ssent s ! k \<in> set (srunning s)" "map_of (sanswers s) (ssent s ! k) = Some r"
    "run_sender (snd (ssent s ! k)) r (speers s ! nat (fst (ssent s ! k))) = Some rf"
    "t = finished (nat (fst (ssent s ! k))) (ssent s ! k) rf s"
    using assms(1) by (auto simp: Let_def split: if_splits option.splits)
  then show ?thesis
    using sim_finish [OF k(4), of "nat (fst (ssent s ! k))" n] assms(2) map_of_SomeD [OF k(5)]
    by (simp add: finished_def set_peer_def)
next
  case (Tick c timeout)
  then obtain calls rf where k: "c < n" "ticker_step timeout (speers s ! c) = Inr (calls, rf)"
    "t = (set_peer c rf s)\<lparr>ssent := ssent s @ map (Pair (int c)) calls, srunning := srunning s @ map (Pair (int c)) calls\<rparr>"
    using assms(1) by (auto split: if_splits)
  let ?s = "sim_cluster n s"
  have "sim_cluster n t = (set_node (int c) rf ?s)\<lparr>sent := sent ?s \<union> Pair (int c) ` set calls,
      running := running ?s + mset (map (Pair (int c)) calls)\<rparr>"
    by (subst sim_cluster_eqI [OF assms(2) k(1), of _ rf]) (auto simp: k(3) set_peer_def set_node_def sim_cluster_def)
  then show ?thesis using cluster_step.tick [of "int c" n timeout ?s calls rf zero] k assms(2) by (simp add: set_peer_def)
next
  case (Apply c)
  then obtain rf where k: "c < n" "applyLogEntry_step (speers s ! c) = Inr rf" "t = set_peer c rf s"
    using assms(1) by (auto split: if_splits)
  have "sim_cluster n t = set_node (int c) rf (sim_cluster n s)"
    by (subst sim_cluster_eqI [OF assms(2) k(1), of _ rf]) (auto simp: k(3) set_peer_def set_node_def sim_cluster_def)
  then show ?thesis using cluster_step.apply_step [of "int c" n "sim_cluster n s" rf zero] k assms(2) by (simp add: set_peer_def)
next
  case (Submit c cmd)
  let ?rf = "snd (Start cmd (speers s ! c))"
  have k: "c < n" "t = set_peer c ?rf s" using assms(1) Submit by (auto split: if_splits)
  have "sim_cluster n t = set_node (int c) ?rf (sim_cluster n s)"
    by (subst sim_cluster_eqI [OF assms(2) k(1), of _ ?rf]) (auto simp: k(2) set_peer_def set_node_def sim_cluster_def)
  then show ?thesis
    using cluster_step.start [of "int c" n cmd "sim_cluster n s" "fst (Start cmd (speers s ! c))" ?rf zero] k assms(2)
    by (simp add: set_peer_def)
qed

lemma sim_run_sound:
  assumes "sim_run zero n es s = Some t" and "length (speers s) = n" and "cluster_reachable zero n (sim_cluster n s)"
  shows "cluster_reachable zero n (sim_cluster n t) \<and> (cluster_step zero n)\<^sup>*\<^sup>* (sim_cluster n s) (sim_cluster n t)"
  using assms
proof (induction es arbitrary: s)
  case (Cons e es)
  then obtain u where u: "sim_step zero n e s = Some u" "sim_run zero n es u = Some t" by (auto simp: bind_eq_Some_conv)
  note step = sim_step_sound [OF u(1) Cons.prems(2)]
  with Cons.IH [OF u(2)] cluster_reachable.step [OF Cons.prems(3)] show ?case
    by (meson converse_rtranclp_into_rtranclp)
qed simp

lemma sim_init_cluster: "sim_cluster n (sim_init n) = cluster_init n"
  by (auto simp: sim_cluster_def sim_init_def cluster_init_def fun_eq_iff)

lemma schedule_reachable:
  fixes t :: "('c, 'b) sim"
  assumes "sim_run zero n es (sim_init n) = Some t"
  shows "cluster_reachable zero n (sim_cluster n t)"
proof -
  have "length (speers (sim_init n :: ('c, 'b) sim)) = n" by (simp add: sim_init_def)
  from sim_run_sound [OF assms this] show ?thesis by (simp add: sim_init_cluster cluster_reachable.init)
qed

text \<open>What the services have received at the end of a schedule.\<close>

lemma schedule_applied:
  assumes "map_option (\<lambda>s. map applyCh (speers s)) (sim_run zero n es (sim_init n)) = Some ls"
  shows "\<exists>s. cluster_reachable zero n s \<and> (\<forall>i < length ls. i < n \<longrightarrow> applyCh (nodes s (int i)) = ls ! i)"
proof -
  obtain t where t: "sim_run zero n es (sim_init n) = Some t" "map applyCh (speers t) = ls" using assms by auto
  then show ?thesis using schedule_reachable [OF t(1)] by (intro exI [of _ "sim_cluster n t"]) auto
qed

text \<open>Peer \<open>c\<close> campaigns and is elected with the vote that answers request \<open>k\<close>; a leader's heartbeat is
  sent and request \<open>k\<close> of it accepted and acknowledged; the applier delivers its first message.\<close>

definition elect :: "nat \<Rightarrow> nat \<Rightarrow> 'c event list" where
  "elect c k = [Tick c False, Tick c True, Tick c False, Tick c False, Handle k, Finish k, Tick c False]"

definition replicate_to :: "nat \<Rightarrow> nat \<Rightarrow> 'c event list" where
  "replicate_to c k = [Tick c False, Tick c True, Tick c False, Handle k, Finish k]"

definition deliver :: "nat \<Rightarrow> 'c event list" where
  "deliver c = [Apply c, Apply c, Apply c, Apply c]"

section \<open>A committed command is replaced\<close>

text \<open>Peer 0 is elected in term 1 by peer 1 and sends its first heartbeats (requests 2 and 3); the one
  to peer 1 is delayed.  It starts the command 7, replicates it to peer 1, commits it and delivers it at
  index 1.  Now the delayed heartbeat arrives at peer 1.  Peer 1 then campaigns, is elected in term 2 by
  peer 2, starts the command 9, replicates it to peer 2, commits it and delivers it at index 1.\<close>

definition lost_schedule :: "nat event list" where
  "lost_schedule =
     elect 0 0 @ [Submit 0 (Some 7)] @ replicate_to 0 4 @ deliver 0 @ [Handle 2] @
     elect 1 7 @ [Submit 1 (Some 9)] @ replicate_to 1 11 @ deliver 1"

lemma lost_run:
  "map_option (\<lambda>s. map applyCh (speers s)) (sim_run (0 :: nat) 3 lost_schedule (sim_init 3)) =
     Some [[command_msg 1 (Some 7)], [command_msg 1 (Some 9)], []]"
  by code_simp

text \<open>C6: state machine safety does not hold: a cluster of three peers can reach a state in which two of them
  have delivered different commands at the same index to their services.  No peer stops and no request or reply
  is lost on the way; one heartbeat without entries is delayed, and by truncating the log of the peer that has
  acknowledged the committed entry it lets that peer win the next election without it.\<close>
theorem committed_command_replaced:
  "\<exists>s. cluster_reachable (0 :: nat) 3 (s :: (nat, nat) cluster) \<and>
     applyCh (nodes s 0) = [command_msg 1 (Some 7)] \<and> applyCh (nodes s 1) = [command_msg 1 (Some 9)]"
  using schedule_applied [OF lost_run] by (force simp: numeral_eq_Suc All_less_Suc)

section \<open>A command is skipped\<close>

text \<open>Peer 0 leads and replicates 7, 8 and 9 to peer 1.  The applier of peer 1 has delivered 7 and found no
  further entry committed when the request that commits 8 comes in; then it records what it has applied.\<close>

definition skip_schedule :: "nat event list" where
  "skip_schedule =
     elect 0 0 @ [Submit 0 (Some 7)] @ replicate_to 0 4 @ [Submit 0 (Some 8)] @ replicate_to 0 6 @
     deliver 1 @ [Apply 1] @ [Submit 0 (Some 9)] @ replicate_to 0 8 @ [Apply 1] @ replicate_to 0 10 @ deliver 1"

lemma skip_run:
  "map_option (\<lambda>s. map applyCh (speers s)) (sim_run (0 :: nat) 3 skip_schedule (sim_init 3)) =
     Some [[], [command_msg 1 (Some 7), command_msg 3 (Some 9)], []]"
  by code_simp

text \<open>C40: the applier reads \<open>commitIndex\<close> again, after its loop, to set \<open>lastApplied\<close>: an \<open>AppendEntries\<close> that
  commits a further entry in between makes it skip that entry.  A cluster of three peers, none of which stops,
  can reach a state in which a peer's service has received the command at index 1 and then the one at index 3,
  and nothing in between.\<close>
theorem applier_skips_a_command:
  "\<exists>s. cluster_reachable (0 :: nat) 3 (s :: (nat, nat) cluster) \<and>
     applyCh (nodes s 1) = [command_msg 1 (Some 7), command_msg 3 (Some 9)]"
  using schedule_applied [OF skip_run] by (force simp: numeral_eq_Suc All_less_Suc)

end
