(* ===== verification/LabRpc.thy ===== *)
theory LabRpc
  imports Prelude
begin

text \<open>
  The simulated network of \<open>src/labrpc/labrpc.go\<close>: the table of client ends and servers, dispatch of a request
  to a method of a service, and what happens to a call between \<open>ClientEnd.Call\<close> and its return.

  Every call is a thread of its own (\<open>processReq\<close> with the goroutine it starts for the handler), so calls
  interleave with each other and with changes of the network: one step for each critical section, each
  channel operation and the handler.  A value of type \<open>'v\<close> stands for the labgob encoding that carries it,
  with \<open>glen\<close> its length in bytes; \<open>'w\<close> is the state of all service objects, which handlers change.  Servers are
  objects: the network compares pointers, so they live in a heap and a new server has a fresh address.
  Random delays are the freedom of when a step happens, random losses the choice between two steps.
\<close>

section \<open>Messages, servers and services\<close>

record 'v reqMsg =
  rq_endname :: string
  rq_svcMeth :: string
  rq_args :: 'v

record 'v replyMsg =
  rm_ok :: bool
  rm_reply :: "'v option"

definition no_reply :: "'v replyMsg" where
  "no_reply = \<lparr>rm_ok = False, rm_reply = None\<rparr>"

type_synonym ('v, 'w) meth = "'v \<Rightarrow> 'w \<Rightarrow> 'v \<times> 'w"

record ('v, 'w) Service =
  sc_name :: string
  sc_methods :: "string \<rightharpoonup> ('v, 'w) meth"

text \<open>What \<open>reflect\<close> tells about a method of the receiver.\<close>

record ('v, 'w) method_info =
  mi_Name :: string
  mi_PkgPath :: string
  mi_NumIn :: int
  mi_In2_ptr :: bool
  mi_NumOut :: int
  mi_Func :: "('v, 'w) meth"

definition suitable :: "('v, 'w) method_info \<Rightarrow> bool" where
  "suitable m \<longleftrightarrow> \<not> (mi_PkgPath m \<noteq> '''' \<or> mi_NumIn m \<noteq> 3 \<or> \<not> mi_In2_ptr m \<or> mi_NumOut m \<noteq> 0)"

definition MakeService :: "string \<Rightarrow> ('v, 'w) method_info list \<Rightarrow> ('v, 'w) Service" where
  "MakeService type_name infos =
     fold (\<lambda>m svc. if suitable m then svc\<lparr>sc_methods := (sc_methods svc)(mi_Name m \<mapsto> mi_Func m)\<rparr> else svc) infos
       \<lparr>sc_name = type_name, sc_methods = Map.empty\<rparr>"

definition Service_dispatch :: "string \<Rightarrow> 'v reqMsg \<Rightarrow> ('v, 'w) Service \<Rightarrow> 'w \<Rightarrow> ('v replyMsg \<times> 'w) go" where
  "Service_dispatch methname req svc w =
     (case sc_methods svc methname of
        Some f \<Rightarrow> let (v, w') = f (rq_args req) w in Inr (\<lparr>rm_ok = True, rm_reply = Some v\<rparr>, w')
      | None \<Rightarrow> Inl (LogFatal ''unknown method''))"

record ('v, 'w) Server =
  sv_services :: "string \<rightharpoonup> ('v, 'w) Service"
  sv_count :: int

definition MakeServer :: "('v, 'w) Server" where
  "MakeServer = \<lparr>sv_services = Map.empty, sv_count = 0\<rparr>"

definition AddService :: "('v, 'w) Service \<Rightarrow> ('v, 'w) Server \<Rightarrow> ('v, 'w) Server" where
  "AddService svc rs = rs\<lparr>sv_services := (sv_services rs)(sc_name svc \<mapsto> svc)\<rparr>"

definition Server_GetCount :: "('v, 'w) Server \<Rightarrow> int" where
  "Server_GetCount rs = sv_count rs"

text \<open>\<open>strings.LastIndex(s, ".")\<close>\<close>

fun last_dot :: "string \<Rightarrow> int" where
  "last_dot [] = - 1"
| "last_dot (c # s) = (let i = last_dot s in if i \<noteq> - 1 then i + 1 else if c = CHR ''.'' then 0 else - 1)"

definition Server_dispatch :: "'v reqMsg \<Rightarrow> ('v, 'w) Server \<Rightarrow> 'w \<Rightarrow> ('v replyMsg \<times> ('v, 'w) Server \<times> 'w) go" where
  "Server_dispatch req rs w =
     (let rs = rs\<lparr>sv_count := sv_count rs + 1\<rparr>; dot = last_dot (rq_svcMeth req)
      in go_bind (go_upto (rq_svcMeth req) dot) (\<lambda>serviceName.
         go_bind (go_from (rq_svcMeth req) (dot + 1)) (\<lambda>methodName.
         case sv_services rs serviceName of
           Some svc \<Rightarrow> go_bind (Service_dispatch methodName req svc w) (\<lambda>(r, w'). Inr (r, rs, w'))
         | None \<Rightarrow> Inl (LogFatal ''unknown service''))))"

section \<open>The network\<close>

text \<open>
  The keys of Go's maps are client end names and server names.  A missing entry of \<open>enabled\<close> reads as false, a
  missing or nil entry of \<open>connections\<close> and \<open>servers\<close> as nil.
\<close>

record Network =
  rn_reliable :: bool
  rn_longDelays :: bool
  rn_longReordering :: bool
  rn_ends :: "string set"
  rn_enabled :: "string \<rightharpoonup> bool"
  rn_servers :: "string \<rightharpoonup> nat option"
  rn_connections :: "string \<rightharpoonup> string option"
  rn_done :: bool
  rn_count :: "32 word"
  rn_bytes :: "64 word"

definition MakeNetwork :: Network where
  "MakeNetwork =
     \<lparr>rn_reliable = True, rn_longDelays = False, rn_longReordering = False, rn_ends = {}, rn_enabled = Map.empty,
      rn_servers = Map.empty, rn_connections = Map.empty, rn_done = False, rn_count = 0, rn_bytes = 0\<rparr>"

definition go_get :: "('k \<rightharpoonup> 'a) \<Rightarrow> 'a \<Rightarrow> 'k \<Rightarrow> 'a" where
  "go_get m d k = (case m k of None \<Rightarrow> d | Some x \<Rightarrow> x)"

definition Cleanup :: "Network \<Rightarrow> Network go" where
  "Cleanup n = (if rn_done n then Inl CloseOfClosedChannel else Inr (n\<lparr>rn_done := True\<rparr>))"

definition Reliable :: "bool \<Rightarrow> Network \<Rightarrow> Network" where
  "Reliable yes n = n\<lparr>rn_reliable := yes\<rparr>"

definition IsReliable :: "Network \<Rightarrow> bool" where
  "IsReliable n = rn_reliable n"

definition LongReordering :: "bool \<Rightarrow> Network \<Rightarrow> Network" where
  "LongReordering yes n = n\<lparr>rn_longReordering := yes\<rparr>"

definition LongDelays :: "bool \<Rightarrow> Network \<Rightarrow> Network" where
  "LongDelays yes n = n\<lparr>rn_longDelays := yes\<rparr>"

definition IsLongDelays :: "Network \<Rightarrow> bool" where
  "IsLongDelays n = rn_longDelays n"

definition readEndnameInfo :: "string \<Rightarrow> Network \<Rightarrow> bool \<times> string option \<times> nat option \<times> bool \<times> bool" where
  "readEndnameInfo endname n =
     (let enabled = go_get (rn_enabled n) False endname;
          servername = go_get (rn_connections n) None endname;
          server = (case servername of Some sn \<Rightarrow> go_get (rn_servers n) None sn | None \<Rightarrow> None)
      in (enabled, servername, server, rn_reliable n, rn_longReordering n))"

definition isServerDead :: "string \<Rightarrow> string \<Rightarrow> nat \<Rightarrow> Network \<Rightarrow> bool" where
  "isServerDead endname servername server n \<longleftrightarrow>
     go_get (rn_enabled n) False endname = False \<or> go_get (rn_servers n) None servername \<noteq> Some server"

definition MakeEnd :: "string \<Rightarrow> Network \<Rightarrow> Network go" where
  "MakeEnd endname n =
     (if endname \<in> rn_ends n then Inl (LogFatal ''already exists'')
      else Inr (n\<lparr>rn_ends := insert endname (rn_ends n), rn_enabled := (rn_enabled n)(endname \<mapsto> False),
                  rn_connections := (rn_connections n)(endname \<mapsto> None)\<rparr>))"

definition DeleteEnd :: "string \<Rightarrow> Network \<Rightarrow> Network go" where
  "DeleteEnd endname n =
     (if endname \<notin> rn_ends n then Inl (LogFatal ''does not exist'')
      else Inr (n\<lparr>rn_ends := rn_ends n - {endname}, rn_enabled := (rn_enabled n)(endname := None),
                  rn_connections := (rn_connections n)(endname := None)\<rparr>))"

definition AddServer :: "string \<Rightarrow> nat \<Rightarrow> Network \<Rightarrow> Network" where
  "AddServer servername rs n = n\<lparr>rn_servers := (rn_servers n)(servername \<mapsto> Some rs)\<rparr>"

definition DeleteServer :: "string \<Rightarrow> Network \<Rightarrow> Network" where
  "DeleteServer servername n = n\<lparr>rn_servers := (rn_servers n)(servername \<mapsto> None)\<rparr>"

definition Connect :: "string \<Rightarrow> string \<Rightarrow> Network \<Rightarrow> Network" where
  "Connect endname servername n = n\<lparr>rn_connections := (rn_connections n)(endname \<mapsto> Some servername)\<rparr>"

definition Enable :: "string \<Rightarrow> bool \<Rightarrow> Network \<Rightarrow> Network" where
  "Enable endname enabled n = n\<lparr>rn_enabled := (rn_enabled n)(endname \<mapsto> enabled)\<rparr>"

definition GetTotalCount :: "Network \<Rightarrow> int" where
  "GetTotalCount n = sint (rn_count n)"

definition GetTotalBytes :: "Network \<Rightarrow> int" where
  "GetTotalBytes n = sint (rn_bytes n)"

section \<open>Calls\<close>

text \<open>
  Where a call is.  \<open>PSend\<close> to \<open>PReturned\<close> is the thread of the caller and of \<open>processReq\<close>: waiting to send, before
  \<open>readEndnameInfo\<close>, before the choice to drop the request, waiting for the handler, before the last
  \<open>isServerDead\<close>, with a delayed reply, without a server, after the send on \<open>replyCh\<close>, and back in the caller.
\<close>

datatype 'v pc =
    PSend
  | PRead
  | PUp string nat bool bool
  | PWait string nat bool bool
  | PGot string nat bool bool "'v replyMsg option"
  | PDelayed "'v replyMsg"
  | PDown
  | PReplied "'v replyMsg"
  | PReturned bool "'v option"

text \<open>The goroutine for the handler: not started, running at a server, its reply offered on \<open>ech\<close>, finished.\<close>

datatype 'v hthread = HNone | HRun nat | HReady "'v replyMsg" | HGone

record 'v rpc_thread =
  ca_req :: "'v reqMsg"
  ca_pc :: "'v pc"
  ca_h :: "'v hthread"

text \<open>\<open>execs\<close> is the history of handler executions: the call, the server, the state it found, and its reply.\<close>

record 'w exec_info =
  ex_call :: nat
  ex_server :: nat
  ex_world :: 'w

record ('v, 'w) rpc_sys =
  net :: Network
  heap :: "nat \<rightharpoonup> ('v, 'w) Server"
  world :: 'w
  thr :: "'v rpc_thread list"
  execs :: "('w exec_info \<times> 'v) list"

definition GetCount :: "string \<Rightarrow> ('v, 'w) rpc_sys \<Rightarrow> int go" where
  "GetCount servername s =
     (case go_get (rn_servers (net s)) None servername of
        None \<Rightarrow> Inl (GoPanic ''nil pointer'')
      | Some p \<Rightarrow> (case heap s p of None \<Rightarrow> Inl (GoPanic ''nil pointer'') | Some rs \<Rightarrow> Inr (Server_GetCount rs)))"

definition rpc_init :: "'w \<Rightarrow> ('v, 'w) rpc_sys" where
  "rpc_init w = \<lparr>net = MakeNetwork, heap = Map.empty, world = w, thr = [], execs = []\<rparr>"

definition at_pc :: "nat \<Rightarrow> 'v pc \<Rightarrow> ('v, 'w) rpc_sys \<Rightarrow> bool" where
  "at_pc i p s \<longleftrightarrow> i < length (thr s) \<and> ca_pc (thr s ! i) = p"

definition set_pc :: "nat \<Rightarrow> 'v pc \<Rightarrow> ('v, 'w) rpc_sys \<Rightarrow> ('v, 'w) rpc_sys" where
  "set_pc i p s = s\<lparr>thr := (thr s)[i := (thr s ! i)\<lparr>ca_pc := p\<rparr>]\<rparr>"

definition set_h :: "nat \<Rightarrow> 'v hthread \<Rightarrow> ('v, 'w) rpc_sys \<Rightarrow> ('v, 'w) rpc_sys" where
  "set_h i h s = s\<lparr>thr := (thr s)[i := (thr s ! i)\<lparr>ca_h := h\<rparr>]\<rparr>"

definition add_bytes :: "nat \<Rightarrow> ('v, 'w) rpc_sys \<Rightarrow> ('v, 'w) rpc_sys" where
  "add_bytes k s = s\<lparr>net := (net s)\<lparr>rn_bytes := rn_bytes (net s) + of_nat k\<rparr>\<rparr>"

definition reply_len :: "('v \<Rightarrow> nat) \<Rightarrow> 'v replyMsg \<Rightarrow> nat" where
  "reply_len glen r = (case rm_reply r of None \<Rightarrow> 0 | Some v \<Rightarrow> glen v)"

text \<open>The branch of \<open>processReq\<close> that \<open>readEndnameInfo\<close> selects.\<close>

definition route :: "string \<Rightarrow> Network \<Rightarrow> 'v pc" where
  "route endname n =
     (case readEndnameInfo endname n of
        (enabled, servername, server, reliable, longreordering) \<Rightarrow>
          (case (servername, server) of
             (Some sn, Some p) \<Rightarrow> if enabled then PUp sn p reliable longreordering else PDown
           | _ \<Rightarrow> PDown))"

inductive rpc_step :: "('v \<Rightarrow> nat) \<Rightarrow> ('v, 'w) rpc_sys \<Rightarrow> ('v, 'w) rpc_sys \<Rightarrow> bool" for glen where
  invoke: "rpc_step glen s (s\<lparr>thr := thr s @ [\<lparr>ca_req = req, ca_pc = PSend, ca_h = HNone\<rparr>]\<rparr>)"
| sent: "at_pc i PSend s \<Longrightarrow>
     rpc_step glen s (set_pc i PRead (add_bytes (glen (rq_args (ca_req (thr s ! i)))) (s\<lparr>net := (net s)\<lparr>rn_count := rn_count (net s) + 1\<rparr>\<rparr>)))"
| destroyed: "at_pc i PSend s \<Longrightarrow> rn_done (net s) \<Longrightarrow> rpc_step glen s (set_pc i (PReturned False None) s)"
| read: "at_pc i PRead s \<Longrightarrow> rpc_step glen s (set_pc i (route (rq_endname (ca_req (thr s ! i))) (net s)) s)"
| drop_request: "at_pc i (PUp sn p False lr) s \<Longrightarrow> rpc_step glen s (set_pc i (PReplied no_reply) s)"
| execute: "at_pc i (PUp sn p rel lr) s \<Longrightarrow> rpc_step glen s (set_h i (HRun p) (set_pc i (PWait sn p rel lr) s))"
| handler: "i < length (thr s) \<Longrightarrow> ca_h (thr s ! i) = HRun p \<Longrightarrow> heap s p = Some rs \<Longrightarrow>
     Server_dispatch (ca_req (thr s ! i)) rs (world s) = Inr (r, rs', w') \<Longrightarrow> rm_reply r = Some v \<Longrightarrow>
     rpc_step glen s ((set_h i (HReady r) s)\<lparr>heap := (heap s)(p \<mapsto> rs'), world := w',
       execs := execs s @ [(\<lparr>ex_call = i, ex_server = p, ex_world = world s\<rparr>, v)]\<rparr>)"
| received: "at_pc i (PWait sn p rel lr) s \<Longrightarrow> ca_h (thr s ! i) = HReady r \<Longrightarrow>
     rpc_step glen s (set_h i HGone (set_pc i (PGot sn p rel lr (Some r)) s))"
| dead: "at_pc i (PWait sn p rel lr) s \<Longrightarrow> isServerDead (rq_endname (ca_req (thr s ! i))) sn p (net s) \<Longrightarrow>
     rpc_step glen s (set_pc i (PGot sn p rel lr None) s)"
| failed: "at_pc i (PGot sn p rel lr r) s \<Longrightarrow> r = None \<or> isServerDead (rq_endname (ca_req (thr s ! i))) sn p (net s) \<Longrightarrow>
     rpc_step glen s (set_pc i (PReplied no_reply) s)"
| drop_reply: "at_pc i (PGot sn p False lr (Some r)) s \<Longrightarrow>
     \<not> isServerDead (rq_endname (ca_req (thr s ! i))) sn p (net s) \<Longrightarrow> rpc_step glen s (set_pc i (PReplied no_reply) s)"
| delay: "at_pc i (PGot sn p rel True (Some r)) s \<Longrightarrow>
     \<not> isServerDead (rq_endname (ca_req (thr s ! i))) sn p (net s) \<Longrightarrow> rpc_step glen s (set_pc i (PDelayed r) s)"
| reply: "at_pc i (PGot sn p rel lr (Some r)) s \<Longrightarrow>
     \<not> isServerDead (rq_endname (ca_req (thr s ! i))) sn p (net s) \<Longrightarrow>
     rpc_step glen s (set_pc i (PReplied r) (add_bytes (reply_len glen r) s))"
| delayed: "at_pc i (PDelayed r) s \<Longrightarrow> rpc_step glen s (set_pc i (PReplied r) (add_bytes (reply_len glen r) s))"
| down: "at_pc i PDown s \<Longrightarrow> rpc_step glen s (set_pc i (PReplied no_reply) s)"
| return: "at_pc i (PReplied r) s \<Longrightarrow> rpc_step glen s (set_pc i (PReturned (rm_ok r) (if rm_ok r then rm_reply r else None)) s)"

text \<open>The changes the tester makes to the network while calls are in progress.\<close>

datatype ('v, 'w) net_op =
    OMakeEnd string
  | ODeleteEnd string
  | OAddServer string "('v, 'w) Server"
  | ODeleteServer string
  | OConnect string string
  | OEnable string bool
  | OReliable bool
  | OLongReordering bool
  | OLongDelays bool
  | OCleanup

inductive net_change :: "('v, 'w) net_op \<Rightarrow> ('v, 'w) rpc_sys \<Rightarrow> ('v, 'w) rpc_sys \<Rightarrow> bool" where
  "MakeEnd e (net s) = Inr n \<Longrightarrow> net_change (OMakeEnd e) s (s\<lparr>net := n\<rparr>)"
| "DeleteEnd e (net s) = Inr n \<Longrightarrow> net_change (ODeleteEnd e) s (s\<lparr>net := n\<rparr>)"
| "heap s p = None \<Longrightarrow> net_change (OAddServer sn rs) s (s\<lparr>net := AddServer sn p (net s), heap := (heap s)(p \<mapsto> rs)\<rparr>)"
| "net_change (ODeleteServer sn) s (s\<lparr>net := DeleteServer sn (net s)\<rparr>)"
| "net_change (OConnect e sn) s (s\<lparr>net := Connect e sn (net s)\<rparr>)"
| "net_change (OEnable e b) s (s\<lparr>net := Enable e b (net s)\<rparr>)"
| "net_change (OReliable b) s (s\<lparr>net := Reliable b (net s)\<rparr>)"
| "net_change (OLongReordering b) s (s\<lparr>net := LongReordering b (net s)\<rparr>)"
| "net_change (OLongDelays b) s (s\<lparr>net := LongDelays b (net s)\<rparr>)"
| "Cleanup (net s) = Inr n \<Longrightarrow> net_change OCleanup s (s\<lparr>net := n\<rparr>)"

definition net_step :: "('v \<Rightarrow> nat) \<Rightarrow> ('v, 'w) rpc_sys \<Rightarrow> ('v, 'w) rpc_sys \<Rightarrow> bool" where
  "net_step glen s s' \<longleftrightarrow> rpc_step glen s s' \<or> (\<exists>op. net_change op s s')"

definition net_reachable :: "('v \<Rightarrow> nat) \<Rightarrow> 'w \<Rightarrow> ('v, 'w) rpc_sys \<Rightarrow> bool" where
  "net_reachable glen w s \<longleftrightarrow> (net_step glen)\<^sup>*\<^sup>* (rpc_init w) s"

text \<open>The executions of one call.\<close>

definition execs_of :: "nat \<Rightarrow> ('v, 'w) rpc_sys \<Rightarrow> ('w exec_info \<times> 'v) list" where
  "execs_of i s = filter (\<lambda>e. ex_call (fst e) = i) (execs s)"

section \<open>The invariant\<close>

text \<open>What a reply that counts as one says: it is the reply of the call's only execution.\<close>

definition answered :: "nat \<Rightarrow> ('v, 'w) rpc_sys \<Rightarrow> 'v replyMsg \<Rightarrow> bool" where
  "answered i s r \<longleftrightarrow> (rm_ok r \<longrightarrow> (\<exists>e v. rm_reply r = Some v \<and> execs_of i s = [(e, v)]))"

fun thread_ok :: "nat \<Rightarrow> ('v, 'w) rpc_sys \<Rightarrow> 'v pc \<Rightarrow> 'v hthread \<Rightarrow> bool" where
  "thread_ok i s PSend h \<longleftrightarrow> h = HNone"
| "thread_ok i s PRead h \<longleftrightarrow> h = HNone"
| "thread_ok i s (PUp sn p rel lr) h \<longleftrightarrow> h = HNone \<and> p \<in> dom (heap s)"
| "thread_ok i s PDown h \<longleftrightarrow> h = HNone"
| "thread_ok i s (PWait sn p rel lr) h \<longleftrightarrow> p \<in> dom (heap s) \<and> (h = HRun p \<or> (\<exists>r. h = HReady r))"
| "thread_ok i s (PGot sn p rel lr r) h \<longleftrightarrow> p \<in> dom (heap s) \<and> (case r of None \<Rightarrow> True | Some x \<Rightarrow> rm_ok x \<and> answered i s x)"
| "thread_ok i s (PDelayed r) h \<longleftrightarrow> rm_ok r \<and> answered i s r"
| "thread_ok i s (PReplied r) h \<longleftrightarrow> answered i s r"
| "thread_ok i s (PReturned b v) h \<longleftrightarrow> answered i s \<lparr>rm_ok = b, rm_reply = v\<rparr>"

fun h_ok :: "nat \<Rightarrow> ('v, 'w) rpc_sys \<Rightarrow> 'v hthread \<Rightarrow> bool" where
  "h_ok i s HNone \<longleftrightarrow> execs_of i s = []"
| "h_ok i s (HRun p) \<longleftrightarrow> execs_of i s = [] \<and> p \<in> dom (heap s)"
| "h_ok i s (HReady r) \<longleftrightarrow> rm_ok r \<and> answered i s r"
| "h_ok i s HGone \<longleftrightarrow> (\<exists>e. execs_of i s = [e])"

text \<open>An execution is one of the call's request at a server of the network.\<close>

definition exec_ok :: "('v, 'w) rpc_sys \<Rightarrow> 'w exec_info \<times> 'v \<Rightarrow> bool" where
  "exec_ok s e \<longleftrightarrow> ex_call (fst e) < length (thr s) \<and>
     (\<exists>rs rs' w'. heap s (ex_server (fst e)) = Some rs \<and>
        Server_dispatch (ca_req (thr s ! ex_call (fst e))) rs (ex_world (fst e)) = Inr (\<lparr>rm_ok = True, rm_reply = Some (snd e)\<rparr>, rs', w'))"

definition rpc_inv :: "('v, 'w) rpc_sys \<Rightarrow> bool" where
  "rpc_inv s \<longleftrightarrow> (\<forall>i < length (thr s). thread_ok i s (ca_pc (thr s ! i)) (ca_h (thr s ! i)) \<and> h_ok i s (ca_h (thr s ! i))) \<and>
     (\<forall>e \<in> set (execs s). exec_ok s e) \<and> (\<forall>sn p. rn_servers (net s) sn = Some (Some p) \<longrightarrow> p \<in> dom (heap s))"

lemma thread_ok_cong:
  assumes "execs_of i s' = execs_of i s" and "dom (heap s) \<subseteq> dom (heap s')"
  shows "thread_ok i s p h \<Longrightarrow> thread_ok i s' p h" and "h_ok i s h \<Longrightarrow> h_ok i s' h"
proof -
  have a: "answered i s r \<Longrightarrow> answered i s' r" for r using assms(1) by (simp add: answered_def)
  show "thread_ok i s p h \<Longrightarrow> thread_ok i s' p h" using a assms(2) by (cases p) (auto split: option.splits)
  show "h_ok i s h \<Longrightarrow> h_ok i s' h" using a assms by (cases h) auto
qed

lemma Server_dispatch_Inr_iff:
  "Server_dispatch req rs w = Inr (r, rs', w') \<longleftrightarrow>
     (\<exists>sn mn svc f. go_upto (rq_svcMeth req) (last_dot (rq_svcMeth req)) = Inr sn \<and>
        go_from (rq_svcMeth req) (last_dot (rq_svcMeth req) + 1) = Inr mn \<and>
        sv_services rs sn = Some svc \<and> sc_methods svc mn = Some f \<and>
        r = \<lparr>rm_ok = True, rm_reply = Some (fst (f (rq_args req) w))\<rparr> \<and>
        rs' = rs\<lparr>sv_count := sv_count rs + 1\<rparr> \<and> w' = snd (f (rq_args req) w))"
  by (auto simp: Server_dispatch_def Service_dispatch_def Let_def go_bind_def split: sum.splits option.splits prod.splits)

lemma Server_dispatch_cases:
  assumes "Server_dispatch req rs w = Inr (r, rs', w')"
  shows "rm_ok r \<and> (\<exists>v. r = \<lparr>rm_ok = True, rm_reply = Some v\<rparr>) \<and> sv_services rs' = sv_services rs"
  using assms by (auto simp: Server_dispatch_Inr_iff)

text \<open>Only the services of a server matter for its replies.\<close>

lemma Server_dispatch_services:
  assumes "Server_dispatch req rs w = Inr (r, rs', w')" and "sv_services rs2 = sv_services rs"
  shows "\<exists>rs2' w2'. Server_dispatch req rs2 w = Inr (r, rs2', w2')"
  using assms by (auto simp: Server_dispatch_Inr_iff)

lemma exec_ok_mono:
  assumes "exec_ok s e" and "length (thr s) \<le> length (thr s')" and "\<And>j. j < length (thr s) \<Longrightarrow> ca_req (thr s' ! j) = ca_req (thr s ! j)"
    and "\<And>p rs. heap s p = Some rs \<Longrightarrow> \<exists>rs'. heap s' p = Some rs' \<and> sv_services rs' = sv_services rs"
  shows "exec_ok s' e"
proof -
  let ?i = "ex_call (fst e)"
  obtain rs rs' w' where e: "?i < length (thr s)" "heap s (ex_server (fst e)) = Some rs"
    "Server_dispatch (ca_req (thr s ! ?i)) rs (ex_world (fst e)) = Inr (\<lparr>rm_ok = True, rm_reply = Some (snd e)\<rparr>, rs', w')"
    using assms(1) by (auto simp: exec_ok_def)
  obtain rs2 where rs2: "heap s' (ex_server (fst e)) = Some rs2" "sv_services rs2 = sv_services rs" using assms(4) [OF e(2)] by blast
  show ?thesis
    unfolding exec_ok_def using Server_dispatch_services [OF e(3) rs2(2)] rs2(1) e(1) assms(2) assms(3) [OF e(1)] by auto
qed

text \<open>A step of one call that is no execution.\<close>

lemma inv_thread:
  assumes "rpc_inv s" and "i < length (thr s)" and "thr s' = (thr s)[i := c]" and "ca_req c = ca_req (thr s ! i)"
    and "execs s' = execs s" and "heap s' = heap s" and "rn_servers (net s') = rn_servers (net s)"
    and "thread_ok i s (ca_pc c) (ca_h c)" and "h_ok i s (ca_h c)"
  shows "rpc_inv s'"
proof -
  have ex: "execs_of j s' = execs_of j s" for j using assms(5) by (simp add: execs_of_def)
  have "thread_ok j s' (ca_pc (thr s' ! j)) (ca_h (thr s' ! j)) \<and> h_ok j s' (ca_h (thr s' ! j))" if "j < length (thr s')" for j
  proof (rule conjI)
    have "thread_ok j s (ca_pc (thr s' ! j)) (ca_h (thr s' ! j)) \<and> h_ok j s (ca_h (thr s' ! j))"
      using assms(1,2,3,8,9) that by (cases "j = i") (auto simp: rpc_inv_def)
    then show "thread_ok j s' (ca_pc (thr s' ! j)) (ca_h (thr s' ! j))" "h_ok j s' (ca_h (thr s' ! j))"
      using thread_ok_cong [OF ex] assms(6) by auto
  qed
  moreover have "exec_ok s' e" if "e \<in> set (execs s')" for e
  proof -
    have "exec_ok s e" using that assms(1,5) by (simp add: rpc_inv_def)
    then show ?thesis by (rule exec_ok_mono) (use assms(2-4,6) in \<open>auto simp: nth_list_update\<close>)
  qed
  ultimately show ?thesis using assms(1,6,7) by (simp add: rpc_inv_def)
qed

lemmas thread_simps = set_pc_def set_h_def add_bytes_def at_pc_def

lemma inv_set_pc:
  assumes "rpc_inv s" and "at_pc i p0 s" and "thread_ok i s p (ca_h (thr s ! i))"
  shows "rpc_inv (set_pc i p s)" "rpc_inv (set_pc i p (add_bytes k s))"
    "rpc_inv (set_pc i p (add_bytes k (s\<lparr>net := (net s)\<lparr>rn_count := x\<rparr>\<rparr>)))"
  using assms
  by (auto intro!: inv_thread [of s i _ "(thr s ! i)\<lparr>ca_pc := p\<rparr>"] simp: thread_simps) (auto simp: rpc_inv_def)

lemma inv_at_pc: "rpc_inv s \<Longrightarrow> at_pc i p s \<Longrightarrow> thread_ok i s p (ca_h (thr s ! i)) \<and> h_ok i s (ca_h (thr s ! i))"
  by (auto simp: rpc_inv_def at_pc_def)

lemma route_ok:
  assumes "rpc_inv s" and "execs_of i s = []"
  shows "thread_ok i s (route e (net s)) HNone"
  using assms by (auto simp: route_def readEndnameInfo_def go_get_def Let_def rpc_inv_def split: option.splits if_splits)

lemma answered_no_reply [simp]: "answered i s no_reply"
  by (simp add: answered_def no_reply_def)

lemma inv_handler:
  assumes "rpc_inv s" and "i < length (thr s)" and "ca_h (thr s ! i) = HRun p" and "heap s p = Some rs"
    and "Server_dispatch (ca_req (thr s ! i)) rs (world s) = Inr (r, rs', w')" and "rm_reply r = Some v"
  shows "rpc_inv ((set_h i (HReady r) s)\<lparr>heap := (heap s)(p \<mapsto> rs'), world := w',
       execs := execs s @ [(\<lparr>ex_call = i, ex_server = p, ex_world = world s\<rparr>, v)]\<rparr>)" (is "rpc_inv ?s")
proof -
  let ?e = "(\<lparr>ex_call = i, ex_server = p, ex_world = world s\<rparr>, v)"
  have r: "r = \<lparr>rm_ok = True, rm_reply = Some v\<rparr>" "sv_services rs' = sv_services rs"
    using Server_dispatch_cases [OF assms(5)] assms(6) by auto
  have dom: "dom (heap s) \<subseteq> dom (heap ?s)" by auto
  have h0: "execs_of i s = []" "thread_ok i s (ca_pc (thr s ! i)) (HRun p)" using assms(1-3) by (auto simp: rpc_inv_def)
  have ex: "execs_of j ?s = (if j = i then [?e] else execs_of j s)" for j using h0 by (simp add: execs_of_def)
  have len: "length (thr ?s) = length (thr s)" by (simp add: set_h_def)
  have "thread_ok j ?s (ca_pc (thr ?s ! j)) (ca_h (thr ?s ! j)) \<and> h_ok j ?s (ca_h (thr ?s ! j))" if "j < length (thr ?s)" for j
  proof (cases "j = i")
    case True
    have "\<not> (rm_ok x \<and> answered i s x)" for x using h0(1) by (simp add: answered_def)
    then have "thread_ok i ?s (ca_pc (thr s ! i)) (HReady r)"
      using h0(2) by (cases "ca_pc (thr s ! i)") (auto simp: answered_def h0(1) split: option.splits)
    moreover have "h_ok i ?s (HReady r)" using ex [of i] r(1) by (simp add: answered_def)
    ultimately show ?thesis using True assms(2) by (simp add: set_h_def)
  next
    case False
    then have "thr ?s ! j = thr s ! j" "j < length (thr s)" using that by (auto simp: set_h_def)
    then show ?thesis using thread_ok_cong [of j ?s s] ex [of j] False dom assms(1) by (auto simp: rpc_inv_def)
  qed
  moreover have "exec_ok ?s e" if "e \<in> set (execs ?s)" for e
  proof (cases "e = ?e")
    case True
    then show ?thesis
      using Server_dispatch_services [OF assms(5) r(2)] assms(2) r(1) by (auto simp: exec_ok_def set_h_def)
  next
    case False
    then have "exec_ok s e" using that assms(1) by (auto simp: rpc_inv_def)
    then show ?thesis by (rule exec_ok_mono) (use assms(2,4) r(2) len in \<open>auto simp: set_h_def nth_list_update\<close>)
  qed
  ultimately show ?thesis using assms(1) dom by (auto simp: rpc_inv_def set_h_def)
qed

lemma rpc_step_inv:
  assumes "rpc_step glen s s'" and "rpc_inv s"
  shows "rpc_inv s'"
  using assms(1)
proof cases
  case (invoke req)
  let ?c = "\<lparr>ca_req = req, ca_pc = PSend, ca_h = HNone\<rparr>"
  have ex: "execs_of j s' = execs_of j s" for j by (simp add: invoke execs_of_def)
  have new: "execs_of (length (thr s)) s = []" using assms(2) by (auto simp: execs_of_def rpc_inv_def exec_ok_def filter_empty_conv)
  have "thread_ok j s' (ca_pc (thr s' ! j)) (ca_h (thr s' ! j)) \<and> h_ok j s' (ca_h (thr s' ! j))" if "j < length (thr s')" for j
  proof (cases "j = length (thr s)")
    case True
    then show ?thesis using new ex by (simp add: invoke)
  next
    case False
    then have j: "thr s' ! j = thr s ! j" "j < length (thr s)" using that by (auto simp: invoke nth_append)
    have d: "dom (heap s) \<subseteq> dom (heap s')" by (simp add: invoke)
    have "thread_ok j s (ca_pc (thr s ! j)) (ca_h (thr s ! j))" "h_ok j s (ca_h (thr s ! j))" 
      using assms(2) j(2) unfolding rpc_inv_def by blast+
    then show ?thesis unfolding j(1) using thread_ok_cong [OF ex d] by blast
  qed
  moreover have "exec_ok s' e" if "e \<in> set (execs s')" for e
  proof -
    have "exec_ok s e" using assms(2) that unfolding rpc_inv_def by (simp add: invoke)
    then show ?thesis by (rule exec_ok_mono) (simp_all add: invoke nth_append)
  qed
  moreover have "\<forall>sn p. rn_servers (net s') sn = Some (Some p) \<longrightarrow> p \<in> dom (heap s')"
    using assms(2) unfolding rpc_inv_def by (simp add: invoke)
  ultimately show ?thesis unfolding rpc_inv_def by blast
next
  case (read i)
  have h: "ca_h (thr s ! i) = HNone" "execs_of i s = []" using inv_at_pc [OF assms(2) read(2)] by auto
  show ?thesis unfolding read(1) using inv_set_pc(1) [OF assms(2) read(2)] route_ok [OF assms(2) h(2)] h(1) by simp
next
  case (execute i sn p rel lr)
  have x: "execs_of i s = []" "p \<in> dom (heap s)" using inv_at_pc [OF assms(2) execute(2)] by auto
  show ?thesis
    unfolding execute(1)
    by (rule inv_thread [OF assms(2), of i _ "(thr s ! i)\<lparr>ca_pc := PWait sn p rel lr, ca_h := HRun p\<rparr>"])
      (use execute(2) x in \<open>simp_all add: thread_simps\<close>)
next
  case (handler i p rs r rs' w' v)
  then show ?thesis using inv_handler [OF assms(2)] by simp
next
  case (received i sn p rel lr r)
  have r: "h_ok i s (HReady r)" "p \<in> dom (heap s)" using inv_at_pc [OF assms(2) received(2)] received(3) by auto
  show ?thesis
    unfolding received(1)
    by (rule inv_thread [OF assms(2), of i _ "(thr s ! i)\<lparr>ca_pc := PGot sn p rel lr (Some r), ca_h := HGone\<rparr>"])
      (use received(2) r in \<open>auto simp: thread_simps answered_def\<close>)
next
  case (return i r)
  then show ?thesis
    using inv_at_pc [OF assms(2) return(2)] inv_set_pc(1) [OF assms(2) return(2)] by (simp add: answered_def)
next
  case (sent i)
  show ?thesis unfolding sent(1) by (rule inv_set_pc(3) [OF assms(2) sent(2)]) (use inv_at_pc [OF assms(2) sent(2)] in \<open>auto simp: answered_def no_reply_def\<close>)
next
  case (destroyed i)
  show ?thesis unfolding destroyed(1) by (rule inv_set_pc(1) [OF assms(2) destroyed(2)]) (use inv_at_pc [OF assms(2) destroyed(2)] in \<open>auto simp: answered_def no_reply_def\<close>)
next
  case (drop_request i sn p lr)
  show ?thesis unfolding drop_request(1) by (rule inv_set_pc(1) [OF assms(2) drop_request(2)]) (use inv_at_pc [OF assms(2) drop_request(2)] in \<open>auto simp: answered_def no_reply_def\<close>)
next
  case (dead i sn p rel lr)
  show ?thesis unfolding dead(1) by (rule inv_set_pc(1) [OF assms(2) dead(2)]) (use inv_at_pc [OF assms(2) dead(2)] in \<open>auto simp: answered_def no_reply_def\<close>)
next
  case (failed i sn p rel lr r)
  show ?thesis unfolding failed(1) by (rule inv_set_pc(1) [OF assms(2) failed(2)]) (use inv_at_pc [OF assms(2) failed(2)] in \<open>auto simp: answered_def no_reply_def\<close>)
next
  case (drop_reply i sn p lr r)
  show ?thesis unfolding drop_reply(1) by (rule inv_set_pc(1) [OF assms(2) drop_reply(2)]) (use inv_at_pc [OF assms(2) drop_reply(2)] in \<open>auto simp: answered_def no_reply_def\<close>)
next
  case (delay i sn p rel r)
  show ?thesis unfolding delay(1) by (rule inv_set_pc(1) [OF assms(2) delay(2)]) (use inv_at_pc [OF assms(2) delay(2)] in \<open>auto simp: answered_def no_reply_def\<close>)
next
  case (reply i sn p rel lr r)
  show ?thesis unfolding reply(1) by (rule inv_set_pc(2) [OF assms(2) reply(2)]) (use inv_at_pc [OF assms(2) reply(2)] in \<open>auto simp: answered_def no_reply_def\<close>)
next
  case (delayed i r)
  show ?thesis unfolding delayed(1) by (rule inv_set_pc(2) [OF assms(2) delayed(2)]) (use inv_at_pc [OF assms(2) delayed(2)] in \<open>auto simp: answered_def no_reply_def\<close>)
next
  case (down i)
  show ?thesis unfolding down(1) by (rule inv_set_pc(1) [OF assms(2) down(2)]) (use inv_at_pc [OF assms(2) down(2)] in \<open>auto simp: answered_def no_reply_def\<close>)
qed

lemma net_change_cases:
  assumes "net_change op s s'"
  shows "thr s' = thr s \<and> execs s' = execs s \<and> world s' = world s \<and>
    (\<forall>p. heap s p \<noteq> None \<longrightarrow> heap s' p = heap s p) \<and>
    (\<forall>sn p. rn_servers (net s') sn = Some (Some p) \<longrightarrow> rn_servers (net s) sn = Some (Some p) \<or> heap s p = None \<and> heap s' p \<noteq> None)"
  using assms
  by cases (auto simp: MakeEnd_def DeleteEnd_def AddServer_def DeleteServer_def Connect_def Enable_def Reliable_def
      LongReordering_def LongDelays_def Cleanup_def split: if_splits)

lemma net_change_inv:
  assumes "net_change op s s'" and "rpc_inv s"
  shows "rpc_inv s'"
proof -
  note c = net_change_cases [OF assms(1)]
  have ex: "execs_of j s' = execs_of j s" for j using c by (simp add: execs_of_def)
  have d: "dom (heap s) \<subseteq> dom (heap s')"
  proof
    fix p assume "p \<in> dom (heap s)"
    then show "p \<in> dom (heap s')" using c by auto
  qed
  have "thread_ok j s' (ca_pc (thr s' ! j)) (ca_h (thr s' ! j)) \<and> h_ok j s' (ca_h (thr s' ! j))" if "j < length (thr s')" for j
  proof -
    have "thread_ok j s (ca_pc (thr s ! j)) (ca_h (thr s ! j))" "h_ok j s (ca_h (thr s ! j))"
      using assms(2) that c unfolding rpc_inv_def by auto
    then show ?thesis using c thread_ok_cong [OF ex d] by metis
  qed
  moreover have "exec_ok s' e" if "e \<in> set (execs s')" for e
  proof -
    have "exec_ok s e" using assms(2) that c unfolding rpc_inv_def by simp
    then show ?thesis by (rule exec_ok_mono) (use c in auto)
  qed
  moreover have "\<forall>sn p. rn_servers (net s') sn = Some (Some p) \<longrightarrow> p \<in> dom (heap s')"
    using assms(2) c d unfolding rpc_inv_def by blast
  ultimately show ?thesis unfolding rpc_inv_def by blast
qed

lemma net_step_inv: "net_step glen s s' \<Longrightarrow> rpc_inv s \<Longrightarrow> rpc_inv s'"
  using rpc_step_inv net_change_inv unfolding net_step_def by blast

lemma net_reachable_inv:
  assumes "net_reachable glen w s"
  shows "rpc_inv s"
  using assms unfolding net_reachable_def
proof (induction rule: rtranclp_induct)
  case base
  show ?case by (simp add: rpc_inv_def rpc_init_def MakeNetwork_def)
qed (rule net_step_inv)

section \<open>Properties\<close>

text \<open>C13: the network executes the handler of a call at most once, whatever is lost, delayed, reordered, disconnected,
  deleted or restarted meanwhile; and when \<open>Call\<close> returns true, the handler was executed exactly once, at a server
  of the network, on the arguments of the call, and the reply the caller gets is the one that this execution
  computed.\<close>
theorem Call_at_most_once:
  assumes "net_reachable glen w s" and "i < length (thr s)"
  shows "length (execs_of i s) \<le> 1 \<and>
    (ca_pc (thr s ! i) = PReturned True v \<longrightarrow>
      (\<exists>p rs w0 v' rs' w'. v = Some v' \<and> execs_of i s = [(\<lparr>ex_call = i, ex_server = p, ex_world = w0\<rparr>, v')] \<and> heap s p = Some rs \<and>
         Server_dispatch (ca_req (thr s ! i)) rs w0 = Inr (\<lparr>rm_ok = True, rm_reply = Some v'\<rparr>, rs', w')))"
proof (rule conjI, goal_cases)
  case 1
  have "h_ok i s (ca_h (thr s ! i))" using net_reachable_inv [OF assms(1)] assms(2) unfolding rpc_inv_def by blast
  then show ?case by (cases "ca_h (thr s ! i)") (auto simp: answered_def)
next
  case 2
  show ?case
  proof
    assume pc: "ca_pc (thr s ! i) = PReturned True v"
    have "thread_ok i s (PReturned True v) (ca_h (thr s ! i))"
      using net_reachable_inv [OF assms(1)] assms(2) pc unfolding rpc_inv_def by metis
    then obtain e v' where e: "v = Some v'" "execs_of i s = [(e, v')]" by (auto simp: answered_def)
    then have "(e, v') \<in> set (execs_of i s)" by simp
    then have "(e, v') \<in> set (execs s)" "ex_call e = i" by (auto simp: execs_of_def)
    then have "exec_ok s (e, v')" using net_reachable_inv [OF assms(1)] unfolding rpc_inv_def by blast
    then obtain rs rs' w' where "heap s (ex_server e) = Some rs"
      "Server_dispatch (ca_req (thr s ! i)) rs (ex_world e) = Inr (\<lparr>rm_ok = True, rm_reply = Some v'\<rparr>, rs', w')"
      using \<open>ex_call e = i\<close> by (auto simp: exec_ok_def)
    moreover have "e = \<lparr>ex_call = i, ex_server = ex_server e, ex_world = ex_world e\<rparr>" using \<open>ex_call e = i\<close> by (cases e) simp
    ultimately show "\<exists>p rs w0 v' rs' w'. v = Some v' \<and> execs_of i s = [(\<lparr>ex_call = i, ex_server = p, ex_world = w0\<rparr>, v')] \<and> heap s p = Some rs \<and>
         Server_dispatch (ca_req (thr s ! i)) rs w0 = Inr (\<lparr>rm_ok = True, rm_reply = Some v'\<rparr>, rs', w')"
      using e by metis
  qed
qed

text \<open>A call whose server has been deleted or replaced, or that has failed already.\<close>

definition gone :: "string \<Rightarrow> nat \<Rightarrow> ('v, 'w) rpc_sys \<Rightarrow> bool" where
  "gone sn p s \<longleftrightarrow> rn_servers (net s) sn \<noteq> Some (Some p) \<and> p \<in> dom (heap s)"

fun pc_lost :: "('v, 'w) rpc_sys \<Rightarrow> 'v pc \<Rightarrow> bool" where
  "pc_lost s (PUp sn p rel lr) \<longleftrightarrow> gone sn p s"
| "pc_lost s (PWait sn p rel lr) \<longleftrightarrow> gone sn p s"
| "pc_lost s (PGot sn p rel lr r) \<longleftrightarrow> gone sn p s \<or> r = None"
| "pc_lost s PDown \<longleftrightarrow> True"
| "pc_lost s (PReplied r) \<longleftrightarrow> \<not> rm_ok r"
| "pc_lost s (PReturned b v) \<longleftrightarrow> \<not> b \<and> v = None"
| "pc_lost s _ \<longleftrightarrow> False"

text \<open>How the steps of the calls change what a thread relies on: one thread moves, the others stay.\<close>

lemma rpc_step_frame:
  assumes "rpc_step glen s s'"
  shows "rn_servers (net s') = rn_servers (net s) \<and> rn_enabled (net s') = rn_enabled (net s) \<and>
    rn_connections (net s') = rn_connections (net s) \<and> rn_reliable (net s') = rn_reliable (net s) \<and>
    dom (heap s) \<subseteq> dom (heap s') \<and> length (thr s) \<le> length (thr s')"
  using assms by cases (auto simp: thread_simps)

text \<open>What one step can do to the program counter of call \<open>i\<close>.\<close>

inductive pc_step :: "('v, 'w) rpc_sys \<Rightarrow> nat \<Rightarrow> 'v pc \<Rightarrow> 'v pc \<Rightarrow> bool" for s i where
  "pc_step s i p p"
| "pc_step s i PSend PRead"
| "rn_done (net s) \<Longrightarrow> pc_step s i PSend (PReturned False None)"
| "pc_step s i PRead (route (rq_endname (ca_req (thr s ! i))) (net s))"
| "pc_step s i (PUp sn p False lr) (PReplied no_reply)"
| "pc_step s i (PUp sn p rel lr) (PWait sn p rel lr)"
| "ca_h (thr s ! i) = HReady r \<Longrightarrow> pc_step s i (PWait sn p rel lr) (PGot sn p rel lr (Some r))"
| "isServerDead (rq_endname (ca_req (thr s ! i))) sn p (net s) \<Longrightarrow> pc_step s i (PWait sn p rel lr) (PGot sn p rel lr None)"
| "r = None \<or> isServerDead (rq_endname (ca_req (thr s ! i))) sn p (net s) \<Longrightarrow> pc_step s i (PGot sn p rel lr r) (PReplied no_reply)"
| "pc_step s i (PGot sn p False lr (Some r)) (PReplied no_reply)"
| "\<not> isServerDead (rq_endname (ca_req (thr s ! i))) sn p (net s) \<Longrightarrow> pc_step s i (PGot sn p rel True (Some r)) (PDelayed r)"
| "\<not> isServerDead (rq_endname (ca_req (thr s ! i))) sn p (net s) \<Longrightarrow> pc_step s i (PGot sn p rel lr (Some r)) (PReplied r)"
| "pc_step s i (PDelayed r) (PReplied r)"
| "pc_step s i PDown (PReplied no_reply)"
| "rm_ok r \<Longrightarrow> pc_step s i (PReplied r) (PReturned True (rm_reply r))"
| "\<not> rm_ok r \<Longrightarrow> pc_step s i (PReplied r) (PReturned False None)"

lemma rpc_pc_step:
  assumes "rpc_step glen s s'" and "i < length (thr s)"
  shows "pc_step s i (ca_pc (thr s ! i)) (ca_pc (thr s' ! i)) \<and> ca_req (thr s' ! i) = ca_req (thr s ! i)"
  using assms(1)
proof cases
  case (invoke req)
  then show ?thesis using assms(2) by (simp add: nth_append pc_step.intros(1))
qed (use assms(2) in \<open>auto simp: thread_simps nth_list_update intro: pc_step.intros\<close>)

lemma pc_lost_step:
  assumes "pc_step s i p p'" and "pc_lost s p"
  shows "pc_lost s p'"
  using assms by cases (auto simp: no_reply_def isServerDead_def gone_def go_get_def split: option.splits)

lemma pc_lost_frame:
  assumes "pc_lost s p" and "\<And>sn q. gone sn q s \<Longrightarrow> gone sn q s'"
  shows "pc_lost s' p"
  using assms by (cases p) auto

lemma lost_step:
  assumes "net_step glen s s'" and "i < length (thr s)" and "pc_lost s (ca_pc (thr s ! i))"
  shows "i < length (thr s') \<and> pc_lost s' (ca_pc (thr s' ! i))"
proof (cases "rpc_step glen s s'")
  case True
  have "pc_lost s (ca_pc (thr s' ! i))" using pc_lost_step rpc_pc_step [OF True assms(2)] assms(3) by blast
  then have "pc_lost s' (ca_pc (thr s' ! i))" by (rule pc_lost_frame) (use rpc_step_frame [OF True] in \<open>auto simp: gone_def\<close>)
  then show ?thesis using rpc_step_frame [OF True] assms(2) by simp
next
  case False
  then obtain op where op: "net_change op s s'" using assms(1) by (auto simp: net_step_def)
  note c = net_change_cases [OF op]
  have "pc_lost s' (ca_pc (thr s ! i))" using assms(3) by (rule pc_lost_frame) (use c in \<open>fastforce simp: gone_def\<close>)
  then show ?thesis using c assms(2) by simp
qed

text \<open>C17: once a server has been taken off the network (\<open>DeleteServer\<close>) or replaced by a new instance, no call that is
  still on its way to it or in it returns true: the caller gets no reply, so that nothing the old instance does
  from then on, such as an update of a superseded \<open>Persister\<close>, is ever acknowledged.\<close>
theorem deleted_server_never_replies:
  assumes "net_reachable glen w s" and "at_pc i pc s" and "pc = PUp sn p rel lr \<or> pc = PWait sn p rel lr \<or> pc = PGot sn p rel lr r"
    and "rn_servers (net s) sn \<noteq> Some (Some p)" and "(net_step glen)\<^sup>*\<^sup>* s s'" and "at_pc i (PReturned b v) s'"
  shows "\<not> b \<and> v = None"
proof -
  have "thread_ok i s pc (ca_h (thr s ! i))" using inv_at_pc [OF net_reachable_inv [OF assms(1)] assms(2)] by blast
  then have "p \<in> dom (heap s)" using assms(3) by auto
  then have "pc_lost s pc" using assms(3,4) by (auto simp: gone_def)
  then have "i < length (thr s) \<and> pc_lost s (ca_pc (thr s ! i))" using assms(2) by (simp add: at_pc_def)
  with assms(5) have "i < length (thr s') \<and> pc_lost s' (ca_pc (thr s' ! i))"
    by (induction rule: rtranclp_induct) (use lost_step in blast)+
  then show ?thesis using assms(6) by (simp add: at_pc_def)
qed

text \<open>A call on an enabled, connected end of a reliable network.\<close>

definition link_up :: "string \<Rightarrow> string \<Rightarrow> nat \<Rightarrow> Network \<Rightarrow> bool" where
  "link_up e sn p n \<longleftrightarrow> rn_reliable n \<and> \<not> rn_done n \<and> rn_enabled n e = Some True \<and> rn_connections n e = Some (Some sn) \<and>
     rn_servers n sn = Some (Some p)"

fun pc_good :: "string \<Rightarrow> nat \<Rightarrow> 'v pc \<Rightarrow> bool" where
  "pc_good sn p (PUp sn' p' rel lr) \<longleftrightarrow> sn' = sn \<and> p' = p \<and> rel"
| "pc_good sn p (PWait sn' p' rel lr) \<longleftrightarrow> sn' = sn \<and> p' = p \<and> rel"
| "pc_good sn p (PGot sn' p' rel lr r) \<longleftrightarrow> sn' = sn \<and> p' = p \<and> rel \<and> (\<exists>x. r = Some x \<and> rm_ok x)"
| "pc_good sn p (PDelayed r) \<longleftrightarrow> rm_ok r"
| "pc_good sn p (PReplied r) \<longleftrightarrow> rm_ok r"
| "pc_good sn p (PReturned b v) \<longleftrightarrow> b"
| "pc_good sn p PDown \<longleftrightarrow> False"
| "pc_good sn p _ \<longleftrightarrow> True"

lemma pc_good_step:
  assumes "pc_step s i pc pc'" and "pc_good sn p pc" and "link_up (rq_endname (ca_req (thr s ! i))) sn p (net s)" and "h_ok i s (ca_h (thr s ! i))"
  shows "pc_good sn p pc'"
  using assms(1)
  by cases (use assms(2-4) in \<open>auto simp: link_up_def route_def readEndnameInfo_def go_get_def isServerDead_def\<close>)

lemma good_step:
  assumes "rpc_step glen s s'" and "rpc_inv s" and "i < length (thr s)" and "pc_good sn p (ca_pc (thr s ! i))"
    and "link_up (rq_endname (ca_req (thr s ! i))) sn p (net s)"
  shows "rpc_inv s' \<and> i < length (thr s') \<and> pc_good sn p (ca_pc (thr s' ! i)) \<and> link_up (rq_endname (ca_req (thr s' ! i))) sn p (net s')"
proof -
  have h: "h_ok i s (ca_h (thr s ! i))" using assms(2,3) unfolding rpc_inv_def by blast
  have "rn_done (net s') = rn_done (net s)" using assms(1) by cases (auto simp: thread_simps)
  then show ?thesis
    using rpc_step_frame [OF assms(1)] rpc_pc_step [OF assms(1,3)] pc_good_step [OF _ assms(4,5) h] rpc_step_inv [OF assms(1,2)] assms(3,5)
    by (auto simp: link_up_def)
qed

lemma good_run:
  assumes "net_reachable glen w s" and "at_pc i PSend s" and "link_up (rq_endname (ca_req (thr s ! i))) sn p (net s)"
    and "(rpc_step glen)\<^sup>*\<^sup>* s s'" and "at_pc i (PReturned b v) s'"
  shows "b"
proof -
  have "rpc_inv s \<and> i < length (thr s) \<and> pc_good sn p (ca_pc (thr s ! i)) \<and> link_up (rq_endname (ca_req (thr s ! i))) sn p (net s)"
    using net_reachable_inv [OF assms(1)] assms(2,3) by (simp add: at_pc_def)
  with assms(4) have "rpc_inv s' \<and> i < length (thr s') \<and> pc_good sn p (ca_pc (thr s' ! i)) \<and> link_up (rq_endname (ca_req (thr s' ! i))) sn p (net s')"
    by (induction rule: rtranclp_induct) (use good_step in blast)+
  then show ?thesis using assms(5) by (simp add: at_pc_def)
qed

text \<open>On a reliable network a call loses nothing: when its end is enabled and connected to a server that is on the
  network, and the network does not change while the call is in progress, \<open>Call\<close> does not return false, however
  its steps interleave with those of other calls.\<close>
theorem reliable_Call_returns_true:
  assumes "net_reachable glen w s" and "at_pc i PSend s" and "link_up (rq_endname (ca_req (thr s ! i))) sn p (net s)"
    and "(rpc_step glen)\<^sup>*\<^sup>* s s'" and "at_pc i (PReturned b v) s'"
  shows "b"
  using good_run [OF assms] .

text \<open>Progress: each program counter has a step that brings the call closer to its return.\<close>

definition returns :: "('v \<Rightarrow> nat) \<Rightarrow> nat \<Rightarrow> ('v, 'w) rpc_sys \<Rightarrow> bool" where
  "returns glen i s \<longleftrightarrow> (\<exists>s' b v. (rpc_step glen)\<^sup>*\<^sup>* s s' \<and> at_pc i (PReturned b v) s')"

lemma returns_step: "rpc_step glen s s' \<Longrightarrow> returns glen i s' \<Longrightarrow> returns glen i s"
  unfolding returns_def by (meson converse_rtranclp_into_rtranclp)

lemma at_set_pc:
  "at_pc i p0 s \<Longrightarrow> at_pc i p (set_pc i p s)" "at_pc i p0 s \<Longrightarrow> at_pc i p (set_pc i p (add_bytes k s))"
  "at_pc i p0 s \<Longrightarrow> at_pc i p (set_pc i p (add_bytes k (s\<lparr>net := n\<rparr>)))" "at_pc i p0 s \<Longrightarrow> at_pc i p (set_h i h (set_pc i p s))"
  by (auto simp: thread_simps)

lemma returns_replied: "at_pc i (PReplied r) s \<Longrightarrow> returns glen i s"
  using returns_step [OF rpc_step.return] at_set_pc(1) unfolding returns_def by blast

lemma returns_down: "at_pc i PDown s \<Longrightarrow> returns glen i s"
  using returns_step [OF rpc_step.down] returns_replied at_set_pc(1) by blast

lemma returns_delayed: "at_pc i (PDelayed r) s \<Longrightarrow> returns glen i s"
  using returns_step [OF rpc_step.delayed] returns_replied at_set_pc(2) by blast

lemma returns_got: "at_pc i (PGot sn p rel lr r) s \<Longrightarrow> returns glen i s"
proof (cases "r = None \<or> isServerDead (rq_endname (ca_req (thr s ! i))) sn p (net s)")
  case True
  assume "at_pc i (PGot sn p rel lr r) s"
  then show ?thesis using returns_step [OF rpc_step.failed [OF _ True]] returns_replied at_set_pc(1) by blast
next
  case False
  assume pc: "at_pc i (PGot sn p rel lr r) s"
  obtain x where x: "r = Some x" using False by auto
  show ?thesis
    using returns_step [OF rpc_step.reply [of i sn p rel lr x s]] pc False returns_replied at_set_pc(2) unfolding x by blast
qed

text \<open>The servers of the network know the method of call \<open>i\<close>.\<close>

definition served :: "nat \<Rightarrow> ('v, 'w) rpc_sys \<Rightarrow> bool" where
  "served i s \<longleftrightarrow> (\<forall>p rs w. heap s p = Some rs \<longrightarrow> (\<exists>x. Server_dispatch (ca_req (thr s ! i)) rs w = Inr x))"

lemma returns_wait:
  assumes "rpc_inv s" and "served i s" and "at_pc i (PWait sn p rel lr) s"
  shows "returns glen i s"
proof -
  have ready: "returns glen i s1" if "at_pc i (PWait sn p rel lr) s1" "ca_h (thr s1 ! i) = HReady r" for s1 :: "('a, 'b) rpc_sys" and r
    using returns_step [OF rpc_step.received [OF that]] returns_got at_set_pc(4) [OF that(1)] by blast
  obtain rs where rs: "heap s p = Some rs" and h: "ca_h (thr s ! i) = HRun p \<or> (\<exists>r. ca_h (thr s ! i) = HReady r)"
    using inv_at_pc [OF assms(1,3)] by auto
  have i: "i < length (thr s)" using assms(3) by (simp add: at_pc_def)
  show ?thesis
  proof (cases "ca_h (thr s ! i) = HRun p")
    case True
    obtain r rs' w' where d: "Server_dispatch (ca_req (thr s ! i)) rs (world s) = Inr (r, rs', w')"
      using assms(2) rs unfolding served_def by (metis prod_cases3)
    obtain v where v: "rm_reply r = Some v" using Server_dispatch_cases [OF d] by auto
    show ?thesis
      by (rule returns_step [OF rpc_step.handler [OF i True rs d v]], rule ready [of _ r]) (use assms(3) i in \<open>simp_all add: thread_simps\<close>)
  next
    case False
    then show ?thesis using h ready [OF assms(3)] by blast
  qed
qed

lemma returns_up:
  assumes "rpc_inv s" and "served i s" and "at_pc i (PUp sn p rel lr) s"
  shows "returns glen i s"
proof -
  let ?s = "set_h i (HRun p) (set_pc i (PWait sn p rel lr) s)"
  have st: "rpc_step glen s ?s" using assms(3) by (rule rpc_step.execute)
  have "served i ?s" using assms(2,3) by (simp add: served_def thread_simps)
  then show ?thesis using returns_step [OF st] returns_wait rpc_step_inv [OF st assms(1)] at_set_pc(4) [OF assms(3)] by blast
qed

lemma returns_read:
  assumes "rpc_inv s" and "served i s" and "at_pc i PRead s"
  shows "returns glen i s"
proof -
  let ?p = "route (rq_endname (ca_req (thr s ! i))) (net s)"
  have st: "rpc_step glen s (set_pc i ?p s)" using assms(3) by (rule rpc_step.read)
  have sv: "served i (set_pc i ?p s)" using assms(2,3) by (simp add: served_def thread_simps)
  have "?p = PDown \<or> (\<exists>sn p rel lr. ?p = PUp sn p rel lr)" by (auto simp: route_def readEndnameInfo_def Let_def split: option.splits)
  then show ?thesis
    using returns_step [OF st] returns_up [OF rpc_step_inv [OF st assms(1)] sv] returns_down at_set_pc(1) [OF assms(3)] by metis
qed

lemma returns_send:
  assumes "rpc_inv s" and "served i s" and "at_pc i PSend s"
  shows "returns glen i s"
proof -
  let ?s = "set_pc i PRead (add_bytes (glen (rq_args (ca_req (thr s ! i)))) (s\<lparr>net := (net s)\<lparr>rn_count := rn_count (net s) + 1\<rparr>\<rparr>))"
  have st: "rpc_step glen s ?s" using assms(3) by (rule rpc_step.sent)
  have "served i ?s" using assms(2,3) by (simp add: served_def thread_simps)
  then show ?thesis using returns_step [OF st] returns_read rpc_step_inv [OF st assms(1)] at_set_pc(3) [OF assms(3)] by blast
qed

text \<open>A call can always return: from every state of the network, and wherever the call is, there are further
  steps of the calls alone after which \<open>Call\<close> has returned, provided its method exists at the servers (an
  unknown service or method ends the process, and a handler that does not return is the documented exception).\<close>
theorem Call_can_return:
  assumes "net_reachable glen w s" and "i < length (thr s)" and "served i s"
  shows "\<exists>s' b v. (rpc_step glen)\<^sup>*\<^sup>* s s' \<and> at_pc i (PReturned b v) s'"
proof -
  note inv = net_reachable_inv [OF assms(1)]
  have "returns glen i s"
  proof (cases "ca_pc (thr s ! i)")
    case (PReturned b v)
    then show ?thesis using assms(2) by (auto simp: returns_def at_pc_def)
  qed (use assms(2,3) inv returns_send returns_read returns_up returns_wait returns_got returns_delayed returns_down returns_replied
    in \<open>metis at_pc_def\<close>)+
  then show ?thesis by (simp add: returns_def)
qed

section \<open>A network with one server and one call\<close>

definition demo_server :: "(nat, nat) Server" where
  "demo_server = AddService (MakeService ''Counter''
     [\<lparr>mi_Name = ''Add'', mi_PkgPath = '''', mi_NumIn = 3, mi_In2_ptr = True, mi_NumOut = 0, mi_Func = (\<lambda>v w. (w + v, w + v))\<rparr>,
      \<lparr>mi_Name = ''Kill'', mi_PkgPath = '''', mi_NumIn = 1, mi_In2_ptr = False, mi_NumOut = 0, mi_Func = (\<lambda>v w. (0, 0))\<rparr>]) MakeServer"

definition demo_net :: Network where
  "demo_net = MakeNetwork\<lparr>rn_ends := {''e''}, rn_enabled := [''e'' \<mapsto> True], rn_connections := [''e'' \<mapsto> Some ''s''], rn_servers := [''s'' \<mapsto> Some 0]\<rparr>"

definition demo_req :: "nat reqMsg" where
  "demo_req = \<lparr>rq_endname = ''e'', rq_svcMeth = ''Counter.Add'', rq_args = 2\<rparr>"

definition demo_sys :: "nat pc \<Rightarrow> Network \<Rightarrow> (nat, nat) rpc_sys" where
  "demo_sys pc n = \<lparr>net = n, heap = [0 \<mapsto> demo_server], world = 5, thr = [\<lparr>ca_req = demo_req, ca_pc = pc, ca_h = HNone\<rparr>], execs = []\<rparr>"

lemma demo_dispatch:
  "Server_dispatch demo_req demo_server w = Inr (\<lparr>rm_ok = True, rm_reply = Some (w + 2)\<rparr>, demo_server\<lparr>sv_count := 1\<rparr>, w + 2)"
proof -
  have dot: "last_dot ''Counter.Add'' = 7" by simp
  show ?thesis
    unfolding Server_dispatch_Inr_iff
    by (simp add: demo_req_def dot demo_server_def AddService_def MakeService_def MakeServer_def suitable_def)
qed

lemma net_reach: "net_reachable glen w s \<Longrightarrow> net_step glen s s' \<Longrightarrow> net_reachable glen w s'"
  unfolding net_reachable_def by (rule rtranclp.rtrancl_into_rtrancl)

lemma net_reach_change: "net_reachable glen w s \<Longrightarrow> net_change op s s' \<Longrightarrow> net_reachable glen w s'"
  by (rule net_reach) (auto simp: net_step_def)

lemma demo_reachable: "net_reachable glen 5 (demo_sys PSend demo_net)"
proof -
  let ?s = "\<lambda>n h. \<lparr>net = n, heap = h, world = 5, thr = [], execs = []\<rparr> :: (nat, nat) rpc_sys"
  let ?n1 = "MakeNetwork\<lparr>rn_ends := {''e''}, rn_enabled := [''e'' \<mapsto> False], rn_connections := [''e'' \<mapsto> None]\<rparr>"
  have "MakeEnd ''e'' (net (?s MakeNetwork Map.empty)) = Inr ?n1" by (simp add: MakeEnd_def MakeNetwork_def)
  from net_change.intros(1) [OF this] have 1: "net_reachable glen 5 (?s ?n1 Map.empty)"
    using net_reach_change [of glen 5 "?s MakeNetwork Map.empty"] by (auto simp: net_reachable_def rpc_init_def)
  let ?n2 = "Connect ''e'' ''s'' ?n1" and ?n3 = "Enable ''e'' True (Connect ''e'' ''s'' ?n1)"
  have 2: "net_reachable glen 5 (?s ?n2 Map.empty)"
    using net_reach_change [OF 1 net_change.intros(5) [of "''e''" "''s''"]] by simp
  have 3: "net_reachable glen 5 (?s ?n3 Map.empty)"
    using net_reach_change [OF 2 net_change.intros(6) [of "''e''" True]] by simp
  have 4: "net_reachable glen 5 (?s (AddServer ''s'' 0 ?n3) [0 \<mapsto> demo_server])"
    using net_reach_change [OF 3 net_change.intros(3) [of _ 0 "''s''" demo_server]] by simp
  have "AddServer ''s'' 0 ?n3 = demo_net"
    by (simp add: demo_net_def MakeNetwork_def AddServer_def Enable_def Connect_def)
  moreover have "net_step glen (?s demo_net [0 \<mapsto> demo_server]) (demo_sys PSend demo_net)"
    using rpc_step.invoke [of glen "?s demo_net [0 \<mapsto> demo_server]" demo_req] by (simp add: net_step_def demo_sys_def)
  ultimately show ?thesis using net_reach 4 by simp
qed

lemma demo_served: "served 0 (demo_sys pc n)"
  using demo_dispatch by (auto simp: served_def demo_sys_def split: if_splits)

lemma demo_link: "link_up ''e'' ''s'' 0 demo_net"
  by (simp add: link_up_def demo_net_def MakeNetwork_def)

lemma demo_at: "at_pc 0 pc (demo_sys pc n)" "rq_endname (ca_req (thr (demo_sys pc n) ! 0)) = ''e''" "net (demo_sys pc n) = n"
  by (simp_all add: at_pc_def demo_sys_def demo_req_def)

lemma demo_returns: "\<exists>s' b v. (rpc_step glen)\<^sup>*\<^sup>* (demo_sys PSend demo_net) s' \<and> at_pc 0 (PReturned b v) s'"
  using returns_send [OF net_reachable_inv [OF demo_reachable] demo_served demo_at(1)] unfolding returns_def .

lemma rpc_steps_reachable: "(rpc_step glen)\<^sup>*\<^sup>* s s' \<Longrightarrow> net_reachable glen w s \<Longrightarrow> net_reachable glen w s'"
  by (induction rule: rtranclp_induct) (auto intro: net_reach simp: net_step_def)

lemma demo_returns_true:
  "\<exists>s' v. (rpc_step glen)\<^sup>*\<^sup>* (demo_sys PSend demo_net) s' \<and> at_pc 0 (PReturned True v) s' \<and> net_reachable glen 5 s'"
  using demo_returns [of glen] good_run [OF demo_reachable demo_at(1)] demo_link rpc_steps_reachable [OF _ demo_reachable] demo_at(2,3)
  by metis

definition demo_net1 :: Network where
  "demo_net1 = demo_net\<lparr>rn_count := 1, rn_bytes := 1\<rparr>"

lemma demo_deleted: "net_reachable (\<lambda>_. 1) 5 (demo_sys (PUp ''s'' 0 True False) (DeleteServer ''s'' demo_net1))"
proof -
  let ?g = "\<lambda>_ :: nat. 1 :: nat"
  have "rpc_step ?g (demo_sys PSend demo_net) (demo_sys PRead demo_net1)"
    using rpc_step.sent [OF demo_at(1), of ?g demo_net]
    by (simp add: demo_sys_def thread_simps demo_net1_def demo_net_def MakeNetwork_def)
  moreover have "route ''e'' demo_net1 = (PUp ''s'' 0 True False :: nat pc)"
    by (simp add: route_def readEndnameInfo_def demo_net1_def demo_net_def MakeNetwork_def go_get_def)
  then have "rpc_step ?g (demo_sys PRead demo_net1) (demo_sys (PUp ''s'' 0 True False) demo_net1)"
    using rpc_step.read [OF demo_at(1), of ?g demo_net1] by (simp add: demo_sys_def thread_simps demo_req_def)
  ultimately have "net_reachable ?g 5 (demo_sys (PUp ''s'' 0 True False) demo_net1)"
    using demo_reachable by (meson net_reach net_step_def)
  then show ?thesis
    using net_reach_change [OF _ net_change.intros(4) [of "''s''" "demo_sys (PUp ''s'' 0 True False) demo_net1"]] by (simp add: demo_sys_def)
qed

text \<open>The call of \<open>Counter.Add\<close> at the counter server.\<close>
theorem Call_at_most_once_witness:
  "\<exists>(s :: (nat, nat) rpc_sys) v p rs w0 v' rs' w'. net_reachable (\<lambda>_. 1) 5 s \<and> ca_pc (thr s ! 0) = PReturned True v \<and> v = Some v' \<and>
     execs_of 0 s = [(\<lparr>ex_call = 0, ex_server = p, ex_world = w0\<rparr>, v')] \<and> heap s p = Some rs \<and>
     Server_dispatch (ca_req (thr s ! 0)) rs w0 = Inr (\<lparr>rm_ok = True, rm_reply = Some v'\<rparr>, rs', w')"
proof -
  obtain s :: "(nat, nat) rpc_sys" and v where s: "net_reachable (\<lambda>_. 1) 5 s" "at_pc 0 (PReturned True v) s"
    using demo_returns_true [of "\<lambda>_. 1"] by blast
  then show ?thesis using Call_at_most_once [OF s(1), of 0 v] unfolding at_pc_def by metis
qed

text \<open>The same call on the reliable network.\<close>
theorem reliable_Call_returns_true_witness:
  "\<exists>s' b v. (rpc_step (\<lambda>_. 1))\<^sup>*\<^sup>* (demo_sys PSend demo_net) s' \<and> at_pc 0 (PReturned b v) s' \<and> b"
proof -
  obtain s' b v where s': "(rpc_step (\<lambda>_. 1))\<^sup>*\<^sup>* (demo_sys PSend demo_net) s'" "at_pc 0 (PReturned b v) s'"
    using demo_returns [of "\<lambda>_. 1"] by blast
  have "link_up (rq_endname (ca_req (thr (demo_sys PSend demo_net) ! 0))) ''s'' 0 (net (demo_sys PSend demo_net))"
    using demo_link demo_at by simp
  from reliable_Call_returns_true [OF demo_reachable demo_at(1) this s'] s' show ?thesis by blast
qed

text \<open>The same call, before it is sent.\<close>
theorem Call_can_return_witness:
  "\<exists>s' b v. (rpc_step (\<lambda>_. 1))\<^sup>*\<^sup>* (demo_sys PSend demo_net) s' \<and> at_pc 0 (PReturned b v) s'"
  by (rule Call_can_return [OF demo_reachable _ demo_served]) (simp add: demo_sys_def)

text \<open>The same call when its server is deleted just after \<open>readEndnameInfo\<close>.\<close>
theorem deleted_server_never_replies_witness:
  "\<exists>s' b v. (net_step (\<lambda>_. 1))\<^sup>*\<^sup>* (demo_sys (PUp ''s'' 0 True False) (DeleteServer ''s'' demo_net1)) s' \<and>
     at_pc 0 (PReturned b v) s' \<and> \<not> b \<and> v = None"
proof -
  let ?s = "demo_sys (PUp ''s'' 0 True False) (DeleteServer ''s'' demo_net1)" and ?g = "\<lambda>_ :: nat. 1 :: nat"
  have reach: "net_reachable ?g 5 ?s" by (rule demo_deleted)
  obtain s' b v where s': "(rpc_step ?g)\<^sup>*\<^sup>* ?s s'" "at_pc 0 (PReturned b v) s'"
    using returns_up [OF net_reachable_inv [OF reach] demo_served demo_at(1), of ?g] unfolding returns_def by blast
  have steps: "(net_step ?g)\<^sup>*\<^sup>* ?s s'" using s'(1) by (rule rtranclp_mono [THEN predicate2D, rotated]) (auto simp: net_step_def)
  have del: "rn_servers (net ?s) ''s'' \<noteq> Some (Some 0)" by (simp add: demo_at DeleteServer_def)
  show ?thesis
    using deleted_server_never_replies [OF reach demo_at(1) disjI1 [OF refl] del steps s'(2)] steps s'(2) by blast
qed

end
