(* ===== verification/TestNet.thy ===== *)
theory TestNet
  imports LabRpc Persist
begin

text \<open>
  How the tester sets up servers and clients on the simulated network: \<open>src/tester1/srv.go\<close> (one server),
  \<open>src/tester1/group.go\<close> (a group of servers and how it is partitioned) and \<open>src/tester1/clnts.go\<close> (the client
  ends of a clerk).

  The network is threaded through the operations.  Names from \<open>Randstring(20)\<close> and the addresses of new server
  objects are arguments.  A service is a value of type \<open>'sv\<close>; \<open>mks\<close> and \<open>svc_of\<close> are what the tested program
  supplies to start a server and the \<open>labrpc.Service\<close> of a started service.
\<close>

section \<open>One server\<close>

text \<open>\<open>clntEnds\<close> are the ends that the network made for \<open>endNames\<close>.\<close>

record ('c, 'b, 'sv) TServer =
  ts_saved :: "('c, 'b) Persister option"
  ts_svcs :: "'sv list"
  ts_endNames :: "string list"

definition ServerName :: "int \<Rightarrow> int \<Rightarrow> string" where
  "ServerName gid i = ''server-'' @ itoa gid @ ''-'' @ itoa i"

fun make_ends :: "int \<Rightarrow> int \<Rightarrow> string list \<Rightarrow> Network \<Rightarrow> Network go" where
  "make_ends gid j [] n = Inr n"
| "make_ends gid j (e # es) n = go_bind (MakeEnd e n) (\<lambda>n. make_ends gid (j + 1) es (Connect e (ServerName gid j) n))"

definition makeServer :: "int \<Rightarrow> string list \<Rightarrow> Network \<Rightarrow> (('c, 'b, 'sv) TServer \<times> Network) go" where
  "makeServer gid names n =
     go_bind (make_ends gid 0 names n) (\<lambda>n. Inr (\<lparr>ts_saved = None, ts_svcs = [], ts_endNames = names\<rparr>, n))"

definition startServer ::
  "int \<Rightarrow> string list \<Rightarrow> ('c, 'b, 'sv) TServer \<Rightarrow> Network \<Rightarrow> (('c, 'b, 'sv) TServer \<times> Network) go" where
  "startServer gid names s n =
     go_bind (makeServer gid names n) (\<lambda>(srv, n).
       Inr (srv\<lparr>ts_saved := Some (case ts_saved s of Some ps \<Rightarrow> Persister_Copy ps | None \<Rightarrow> MakePersister)\<rparr>, n))"

fun Server_connect :: "bool list \<Rightarrow> string list \<Rightarrow> int list \<Rightarrow> Network \<Rightarrow> Network go" where
  "Server_connect conn endNames [] n = Inr n"
| "Server_connect conn endNames (j # to_js) n =
     go_bind (go_nth conn j) (\<lambda>c.
       if c then go_bind (go_nth endNames j) (\<lambda>e. Server_connect conn endNames to_js (Enable e True n))
       else Server_connect conn endNames to_js n)"

fun Server_disconnect :: "string list \<Rightarrow> int list \<Rightarrow> Network \<Rightarrow> Network go" where
  "Server_disconnect endNames [] n = Inr n"
| "Server_disconnect endNames (j # from_js) n =
     go_bind (go_nth endNames j) (\<lambda>e. Server_disconnect endNames from_js (Enable e False n))"

text \<open>The second component is the services that are told to stop.\<close>

definition shutdownServer :: "('c, 'b, 'sv) TServer \<Rightarrow> ('c, 'b, 'sv) TServer \<times> 'sv list" where
  "shutdownServer s =
     (s\<lparr>ts_saved := (case ts_saved s of Some ps \<Rightarrow> Some (Persister_Copy ps) | None \<Rightarrow> None), ts_svcs := []\<rparr>, ts_svcs s)"

section \<open>A group of servers\<close>

record ('c, 'b, 'sv) ServerGrp =
  sg_srvs :: "('c, 'b, 'sv) TServer list"
  sg_servernames :: "string list"
  sg_gid :: int
  sg_connected :: "bool list"

fun make_servers :: "int \<Rightarrow> string list list \<Rightarrow> Network \<Rightarrow> (('c, 'b, 'sv) TServer list \<times> Network) go" where
  "make_servers gid [] n = Inr ([], n)"
| "make_servers gid (names # nss) n =
     go_bind (makeServer gid names n) (\<lambda>(s, n). go_bind (make_servers gid nss n) (\<lambda>(ss, n). Inr (s # ss, n)))"

definition makeSrvGrp :: "int \<Rightarrow> string list list \<Rightarrow> Network \<Rightarrow> (('c, 'b, 'sv) ServerGrp \<times> Network) go" where
  "makeSrvGrp gid nss n =
     go_bind (make_servers gid nss n) (\<lambda>(ss, n).
       Inr (\<lparr>sg_srvs = ss, sg_servernames = map (\<lambda>i. ServerName gid (int i)) [0..<length nss], sg_gid = gid,
             sg_connected = replicate (length nss) False\<rparr>, n))"

definition grp_N :: "('c, 'b, 'sv) ServerGrp \<Rightarrow> int" where
  "grp_N sg = go_len (sg_srvs sg)"

fun SrvNamesTo :: "('c, 'b, 'sv) ServerGrp \<Rightarrow> int list \<Rightarrow> string list go" where
  "SrvNamesTo sg [] = Inr []"
| "SrvNamesTo sg (i # is') = go_bind (go_nth (sg_servernames sg) i) (\<lambda>s. go_bind (SrvNamesTo sg is') (\<lambda>ns. Inr (s # ns)))"

definition all_servers :: "('c, 'b, 'sv) ServerGrp \<Rightarrow> int list" where
  "all_servers sg = map int [0..<length (sg_srvs sg)]"

definition IsConnected :: "int \<Rightarrow> ('c, 'b, 'sv) ServerGrp \<Rightarrow> bool go" where
  "IsConnected i sg = go_nth (sg_connected sg) i"

fun connect_incoming :: "int \<Rightarrow> ('c, 'b, 'sv) ServerGrp \<Rightarrow> int list \<Rightarrow> Network \<Rightarrow> Network go" where
  "connect_incoming i sg [] n = Inr n"
| "connect_incoming i sg (j # to_js) n =
     go_bind (IsConnected j sg) (\<lambda>c.
       if c then go_bind (go_nth (sg_srvs sg) j) (\<lambda>s. go_bind (go_nth (ts_endNames s) i) (\<lambda>e.
              connect_incoming i sg to_js (Enable e True n)))
       else connect_incoming i sg to_js n)"

fun disconnect_incoming :: "int \<Rightarrow> ('c, 'b, 'sv) ServerGrp \<Rightarrow> int list \<Rightarrow> Network \<Rightarrow> Network go" where
  "disconnect_incoming i sg [] n = Inr n"
| "disconnect_incoming i sg (j # from_js) n =
     go_bind (go_nth (sg_srvs sg) j) (\<lambda>s. go_bind (go_nth (ts_endNames s) i) (\<lambda>e.
       disconnect_incoming i sg from_js (Enable e False n)))"

type_synonym ('c, 'b, 'sv) grp_net = "('c, 'b, 'sv) ServerGrp \<times> Network"

definition grp_connect :: "int \<Rightarrow> int list \<Rightarrow> ('c, 'b, 'sv) grp_net \<Rightarrow> ('c, 'b, 'sv) grp_net go" where
  "grp_connect i to_js = (\<lambda>(sg, n).
     go_bind (go_update (sg_connected sg) i True) (\<lambda>conn.
       let sg = sg\<lparr>sg_connected := conn\<rparr>
       in go_bind (go_nth (sg_srvs sg) i) (\<lambda>s.
          go_bind (Server_connect conn (ts_endNames s) to_js n) (\<lambda>n.
          go_bind (connect_incoming i sg to_js n) (\<lambda>n. Inr (sg, n))))))"

definition grp_disconnect :: "int \<Rightarrow> int list \<Rightarrow> ('c, 'b, 'sv) grp_net \<Rightarrow> ('c, 'b, 'sv) grp_net go" where
  "grp_disconnect i from_js = (\<lambda>(sg, n).
     go_bind (go_update (sg_connected sg) i False) (\<lambda>conn.
       let sg = sg\<lparr>sg_connected := conn\<rparr>
       in go_bind (go_nth (sg_srvs sg) i) (\<lambda>s.
          go_bind (Server_disconnect (ts_endNames s) from_js n) (\<lambda>n.
          go_bind (disconnect_incoming i sg from_js n) (\<lambda>n. Inr (sg, n))))))"

definition ConnectOne :: "int \<Rightarrow> ('c, 'b, 'sv) grp_net \<Rightarrow> ('c, 'b, 'sv) grp_net go" where
  "ConnectOne i gn = grp_connect i (all_servers (fst gn)) gn"

definition DisconnectAll :: "int \<Rightarrow> ('c, 'b, 'sv) grp_net \<Rightarrow> ('c, 'b, 'sv) grp_net go" where
  "DisconnectAll i gn = grp_disconnect i (all_servers (fst gn)) gn"

fun go_fold :: "('a \<Rightarrow> 's \<Rightarrow> 's go) \<Rightarrow> 'a list \<Rightarrow> 's \<Rightarrow> 's go" where
  "go_fold f [] s = Inr s"
| "go_fold f (x # xs) s = go_bind (f x s) (go_fold f xs)"

definition ConnectAll :: "('c, 'b, 'sv) grp_net \<Rightarrow> ('c, 'b, 'sv) grp_net go" where
  "ConnectAll gn = go_fold ConnectOne (all_servers (fst gn)) gn"

definition LogSize :: "('c gob_value \<Rightarrow> nat) \<Rightarrow> ('c, 'b, 'sv) ServerGrp \<Rightarrow> nat go" where
  "LogSize gob_size sg =
     go_fold (\<lambda>s m. case ts_saved s of
                 None \<Rightarrow> Inl (GoPanic ''nil pointer'')
               | Some ps \<Rightarrow> Inr (if RaftStateSize gob_size ps > m then RaftStateSize gob_size ps else m)) (sg_srvs sg) 0"

definition grp_SnapshotSize :: "('c, 'b, 'sv) ServerGrp \<Rightarrow> nat go" where
  "grp_SnapshotSize sg =
     go_fold (\<lambda>s m. case ts_saved s of
                 None \<Rightarrow> Inl (GoPanic ''nil pointer'')
               | Some ps \<Rightarrow> Inr (if SnapshotSize ps > m then SnapshotSize ps else m)) (sg_srvs sg) 0"

text \<open>Partitions: the loop of \<open>MakePartition\<close> over \<open>i\<close>, with the counter \<open>j\<close>.\<close>

fun mp_loop :: "int \<Rightarrow> int list \<Rightarrow> int \<Rightarrow> int list \<Rightarrow> int list \<Rightarrow> (int list \<times> int list) go" where
  "mp_loop l [] j p1 p2 = Inr (p1, p2)"
| "mp_loop l (i # is') j p1 p2 =
     (if i \<noteq> l then
        (if j < go_len p1
         then go_bind (go_update p1 j i) (\<lambda>p1. mp_loop l is' (j + 1) p1 p2)
         else go_bind (go_update p2 (j - go_len p1) i) (\<lambda>p2. mp_loop l is' (j + 1) p1 p2))
      else mp_loop l is' j p1 p2)"

definition MakePartition :: "int \<Rightarrow> ('c, 'b, 'sv) ServerGrp \<Rightarrow> (int list \<times> int list) go" where
  "MakePartition l sg =
     (let n = length (sg_srvs sg); p1 = replicate (n div 2 + 1) 0; p2 = replicate (n div 2) 0
      in go_bind (mp_loop l (map int [0..<n]) 0 p1 p2) (\<lambda>(p1, p2).
         go_bind (go_update p2 (go_len p2 - 1) l) (\<lambda>p2. Inr (p1, p2))))"

definition part_step :: "int list \<Rightarrow> int list \<Rightarrow> int \<Rightarrow> ('c, 'b, 'sv) grp_net \<Rightarrow> ('c, 'b, 'sv) grp_net go" where
  "part_step own other i gn = go_bind (grp_disconnect i other gn) (grp_connect i own)"

definition Partition :: "int list \<Rightarrow> int list \<Rightarrow> ('c, 'b, 'sv) grp_net \<Rightarrow> ('c, 'b, 'sv) grp_net go" where
  "Partition p1 p2 gn = go_bind (go_fold (part_step p1 p2) p1 gn) (go_fold (part_step p2 p1) p2)"

text \<open>Starting and stopping server \<open>i\<close>: on the network and the heap of server objects.\<close>

type_synonym ('c, 'b, 'sv, 'v, 'w) grp_sys = "('c, 'b, 'sv) ServerGrp \<times> ('v, 'w) rpc_sys"

definition StartServer :: "(string list \<Rightarrow> int \<Rightarrow> int \<Rightarrow> ('c, 'b) Persister \<Rightarrow> 'sv list) \<Rightarrow> ('sv \<Rightarrow> ('v, 'w) Service) \<Rightarrow>
    string list \<Rightarrow> nat \<Rightarrow> int \<Rightarrow> ('c, 'b, 'sv, 'v, 'w) grp_sys \<Rightarrow> ('c, 'b, 'sv, 'v, 'w) grp_sys go" where
  "StartServer mks svc_of names p i = (\<lambda>(sg, s).
     go_bind (go_nth (sg_srvs sg) i) (\<lambda>old.
     go_bind (startServer (sg_gid sg) names old (net s)) (\<lambda>(srv, n).
       let srv = srv\<lparr>ts_svcs := mks names (sg_gid sg) i (the (ts_saved srv))\<rparr>;
           labsrv = fold (\<lambda>svc ls. AddService (svc_of svc) ls) (ts_svcs srv) MakeServer
       in Inr (sg\<lparr>sg_srvs := (sg_srvs sg)[nat i := srv]\<rparr>,
               s\<lparr>net := AddServer (ServerName (sg_gid sg) i) p n, heap := (heap s)(p \<mapsto> labsrv)\<rparr>))))"

definition ShutdownServer :: "int \<Rightarrow> ('c, 'b, 'sv, 'v, 'w) grp_sys \<Rightarrow> (('c, 'b, 'sv, 'v, 'w) grp_sys \<times> 'sv list) go" where
  "ShutdownServer i = (\<lambda>(sg, s).
     go_bind (grp_disconnect i (all_servers sg) (sg, net s)) (\<lambda>(sg, n).
       let n = DeleteServer (ServerName (sg_gid sg) i) n
       in go_bind (go_nth (sg_srvs sg) i) (\<lambda>srv.
            let (srv, killed) = shutdownServer srv
            in Inr ((sg\<lparr>sg_srvs := (sg_srvs sg)[nat i := srv]\<rparr>, s\<lparr>net := n\<rparr>), killed))))"

section \<open>The client ends of a clerk\<close>

text \<open>\<open>cl_ends\<close> maps a server name to the name of the end to it; \<open>cl_srvs\<close> is \<open>None\<close> for a nil slice.\<close>

record Clnt =
  cl_ends :: "(string \<times> string) list"
  cl_srvs :: "string list option"

definition makeClntTo :: "string list option \<Rightarrow> Clnt" where
  "makeClntTo srvs = \<lparr>cl_ends = [], cl_srvs = srvs\<rparr>"

definition allowedL :: "string \<Rightarrow> Clnt \<Rightarrow> bool" where
  "allowedL server clnt = (case cl_srvs clnt of None \<Rightarrow> True | Some srvs \<Rightarrow> server \<in> set srvs)"

definition Clnt_makeEnd :: "string \<Rightarrow> string \<Rightarrow> Clnt \<times> Network \<Rightarrow> (string \<times> Clnt \<times> Network) go" where
  "Clnt_makeEnd name server = (\<lambda>(clnt, n).
     (case map_of (cl_ends clnt) server of
        Some e \<Rightarrow> Inr (e, clnt, n)
      | None \<Rightarrow> go_bind (MakeEnd name n) (\<lambda>n.
          Inr (name, clnt\<lparr>cl_ends := cl_ends clnt @ [(server, name)]\<rparr>, Enable name (allowedL server clnt) (Connect name server n)))))"

definition Clnt_ConnectAll :: "Clnt \<times> Network \<Rightarrow> Clnt \<times> Network" where
  "Clnt_ConnectAll = (\<lambda>(clnt, n). (clnt\<lparr>cl_srvs := None\<rparr>, fold (\<lambda>(s, e) n. Enable e True n) (cl_ends clnt) n))"

definition ConnectTo :: "string list \<Rightarrow> Clnt \<times> Network \<Rightarrow> Clnt \<times> Network" where
  "ConnectTo srvs = (\<lambda>(clnt, n).
     let clnt = clnt\<lparr>cl_srvs := Some srvs\<rparr>
     in (clnt, fold (\<lambda>(s, e) n. if allowedL s clnt then Enable e True n else n) (cl_ends clnt) n))"

definition Clnt_Disconnect :: "string \<Rightarrow> Clnt \<times> Network \<Rightarrow> Clnt \<times> Network" where
  "Clnt_Disconnect srv = (\<lambda>(clnt, n). (clnt, fold (\<lambda>(s, e) n. if s = srv then Enable e False n else n) (cl_ends clnt) n))"

definition Clnt_DisconnectAll :: "Clnt \<times> Network \<Rightarrow> Clnt \<times> Network" where
  "Clnt_DisconnectAll = (\<lambda>(clnt, n). (clnt\<lparr>cl_srvs := Some []\<rparr>, fold (\<lambda>(s, e) n. Enable e False n) (cl_ends clnt) n))"

definition Clnt_remove :: "Clnt \<times> Network \<Rightarrow> Network go" where
  "Clnt_remove = (\<lambda>(clnt, n). go_fold (\<lambda>(s, e). DeleteEnd e) (cl_ends clnt) n)"

text \<open>The set of clients, by their address.\<close>

type_synonym Clnts = "(nat \<times> Clnt) list"

definition Clnts_makeEnd :: "string \<Rightarrow> string \<Rightarrow> Network \<Rightarrow> (string \<times> Network) go" where
  "Clnts_makeEnd name servername n =
     go_bind (MakeEnd name n) (\<lambda>n. Inr (name, Enable name True (Connect name servername n)))"

definition MakeClientTo :: "nat \<Rightarrow> string list option \<Rightarrow> Clnts \<Rightarrow> Clnts" where
  "MakeClientTo p srvs clerks = (p, makeClntTo srvs) # clerks"

definition MakeClient :: "nat \<Rightarrow> Clnts \<Rightarrow> Clnts" where
  "MakeClient p clerks = MakeClientTo p None clerks"

definition Clnts_cleanup :: "Clnts \<Rightarrow> Network \<Rightarrow> Network go" where
  "Clnts_cleanup clerks n = go_fold (\<lambda>(p, c) n. Clnt_remove (c, n)) clerks n"

definition DeleteClient :: "nat \<Rightarrow> Clnts \<Rightarrow> Network \<Rightarrow> (Clnts \<times> Network) go" where
  "DeleteClient p clerks n =
     (case map_of clerks p of
        None \<Rightarrow> Inr (clerks, n)
      | Some c \<Rightarrow> go_bind (Clnt_remove (c, n)) (\<lambda>n. Inr (filter (\<lambda>(q, c). q \<noteq> p) clerks, n)))"

section \<open>Links inside a group\<close>

definition end_of :: "('c, 'b, 'sv) ServerGrp \<Rightarrow> int \<Rightarrow> int \<Rightarrow> string" where
  "end_of sg a b = ts_endNames (sg_srvs sg ! nat a) ! nat b"

abbreviation in_grp :: "('c, 'b, 'sv) ServerGrp \<Rightarrow> int \<Rightarrow> bool" where
  "in_grp sg a \<equiv> 0 \<le> a \<and> a < grp_N sg"

text \<open>Every server has an end to every server, and all ends differ.\<close>

definition wf_grp :: "('c, 'b, 'sv) ServerGrp \<Rightarrow> bool" where
  "wf_grp sg \<longleftrightarrow> length (sg_connected sg) = length (sg_srvs sg) \<and>
     (\<forall>s \<in> set (sg_srvs sg). length (ts_endNames s) = length (sg_srvs sg)) \<and>
     distinct (concat (map ts_endNames (sg_srvs sg)))"

definition enabled :: "Network \<Rightarrow> ('c, 'b, 'sv) ServerGrp \<Rightarrow> int \<Rightarrow> int \<Rightarrow> bool" where
  "enabled n sg a b \<longleftrightarrow> rn_enabled n (end_of sg a b) = Some True"

text \<open>The network after a change of which ends are enabled.\<close>

definition switch :: "(string \<Rightarrow> bool) \<Rightarrow> bool \<Rightarrow> Network \<Rightarrow> Network" where
  "switch P b n = n\<lparr>rn_enabled := (\<lambda>e. if P e then Some b else rn_enabled n e)\<rparr>"

lemma switch_simps:
  "switch (\<lambda>_. False) b n = n" "Enable e b n = switch ((=) e) b n"
  "switch P b (switch Q b n) = switch (\<lambda>e. P e \<or> Q e) b n" "rn_enabled (switch P b n) e = (if P e then Some b else rn_enabled n e)"
  by (auto simp: switch_def Enable_def fun_eq_iff)

lemma distinct_concat_nth:
  assumes "distinct (concat xss)" and "i < length xss" and "j < length xss" and "x \<in> set (xss ! i)" and "x \<in> set (xss ! j)"
  shows "i = j"
  using assms
proof (induction xss arbitrary: i j)
  case (Cons xs xss)
  have "x \<notin> set xs" if "k < length xss" "x \<in> set (xss ! k)" for k
    using that(2) Cons.prems(1) nth_mem [OF that(1)] by (simp add: disjoint_iff) blast
  then show ?case using Cons by (cases i; cases j) auto
qed simp

lemma wf_grp_ends: "wf_grp sg \<Longrightarrow> in_grp sg a \<Longrightarrow> length (ts_endNames (sg_srvs sg ! nat a)) = length (sg_srvs sg)"
  by (auto simp: wf_grp_def grp_N_def nat_less_iff)

lemma end_of_inj:
  assumes "wf_grp sg" and "in_grp sg a" "in_grp sg b" "in_grp sg c" "in_grp sg d"
  shows "end_of sg a b = end_of sg c d \<longleftrightarrow> a = c \<and> b = d"
proof
  assume eq: "end_of sg a b = end_of sg c d"
  let ?E = "map ts_endNames (sg_srvs sg)"
  have E: "distinct (concat ?E)" using assms(1) by (simp add: wf_grp_def)
  have len: "nat x < length ?E" "?E ! nat x = ts_endNames (sg_srvs sg ! nat x)" "nat x < length (ts_endNames (sg_srvs sg ! nat y))"
    if "in_grp sg x" "in_grp sg y" for x y
    using that wf_grp_ends [OF assms(1) that(2)] by (auto simp: grp_N_def nat_less_iff)
  have mem: "end_of sg x y \<in> set (?E ! nat x)" if "in_grp sg x" "in_grp sg y" for x y
    using len(2) [OF that] len(3) [OF that(2,1)] by (simp add: end_of_def)
  have "nat a = nat c"
    using distinct_concat_nth [OF E len(1) [OF assms(2,3)] len(1) [OF assms(4,5)] mem [OF assms(2,3)]] mem [OF assms(4,5)] eq by simp
  then have ac: "a = c" using assms(2,4) by (simp add: eq_nat_nat_iff)
  have "?E ! nat a \<in> set ?E" using len(1) [OF assms(2,3)] by (rule nth_mem)
  then have "distinct (ts_endNames (sg_srvs sg ! nat a))" using E len(2) [OF assms(2,3)] by (simp add: distinct_concat_iff)
  then have "nat b = nat d"
    using eq ac len(3) [OF assms(3,2)] len(3) [OF assms(5,2)] by (simp add: end_of_def nth_eq_iff_index_eq)
  then show "a = c \<and> b = d" using ac assms(3,5) by (simp add: eq_nat_nat_iff)
qed simp

lemma Server_connect_eq:
  assumes "\<forall>j \<in> set js. 0 \<le> j \<and> j < go_len conn \<and> j < go_len es"
  shows "Server_connect conn es js n = Inr (switch (\<lambda>e. \<exists>j \<in> set js. conn ! nat j \<and> e = es ! nat j) True n)"
  using assms
proof (induction js arbitrary: n)
  case (Cons j js)
  have "switch (\<lambda>e. \<exists>j \<in> set js. conn ! nat j \<and> e = es ! nat j) True (if conn ! nat j then Enable (es ! nat j) True n else n) =
    switch (\<lambda>e. \<exists>j \<in> set (j # js). conn ! nat j \<and> e = es ! nat j) True n"
    by (auto simp: switch_simps intro!: arg_cong [of _ _ "\<lambda>P. switch P True n"])
  then show ?case using Cons by auto
qed (simp add: switch_simps)

lemma Server_disconnect_eq:
  assumes "\<forall>j \<in> set js. 0 \<le> j \<and> j < go_len es"
  shows "Server_disconnect es js n = Inr (switch (\<lambda>e. \<exists>j \<in> set js. e = es ! nat j) False n)"
  using assms
proof (induction js arbitrary: n)
  case (Cons j js)
  have "switch (\<lambda>e. \<exists>j \<in> set js. e = es ! nat j) False (Enable (es ! nat j) False n) =
    switch (\<lambda>e. \<exists>j \<in> set (j # js). e = es ! nat j) False n"
    by (auto simp: switch_simps intro!: arg_cong [of _ _ "\<lambda>P. switch P False n"])
  then show ?case using Cons by auto
qed (simp add: switch_simps)

lemma connect_incoming_eq:
  assumes "wf_grp sg" and "in_grp sg i" and "\<forall>j \<in> set js. in_grp sg j"
  shows "connect_incoming i sg js n = Inr (switch (\<lambda>e. \<exists>j \<in> set js. sg_connected sg ! nat j \<and> e = end_of sg j i) True n)"
  using assms(3)
proof (induction js arbitrary: n)
  case (Cons j js)
  have "switch (\<lambda>e. \<exists>j \<in> set js. sg_connected sg ! nat j \<and> e = end_of sg j i) True (if sg_connected sg ! nat j then Enable (end_of sg j i) True n else n) =
    switch (\<lambda>e. \<exists>j \<in> set (j # js). sg_connected sg ! nat j \<and> e = end_of sg j i) True n"
    by (auto simp: switch_simps intro!: arg_cong [of _ _ "\<lambda>P. switch P True n"])
  moreover have "j < go_len (sg_connected sg)" "j < go_len (sg_srvs sg)" "i < go_len (ts_endNames (sg_srvs sg ! nat j))"
    using assms(1,2) Cons.prems wf_grp_ends [OF assms(1), of j] by (auto simp: wf_grp_def grp_N_def)
  ultimately show ?case using Cons assms(2) by (auto simp: IsConnected_def end_of_def)
qed (simp add: switch_simps)

lemma disconnect_incoming_eq:
  assumes "wf_grp sg" and "in_grp sg i" and "\<forall>j \<in> set js. in_grp sg j"
  shows "disconnect_incoming i sg js n = Inr (switch (\<lambda>e. \<exists>j \<in> set js. e = end_of sg j i) False n)"
  using assms(3)
proof (induction js arbitrary: n)
  case (Cons j js)
  have "switch (\<lambda>e. \<exists>j \<in> set js. e = end_of sg j i) False (Enable (end_of sg j i) False n) =
    switch (\<lambda>e. \<exists>j \<in> set (j # js). e = end_of sg j i) False n"
    by (auto simp: switch_simps intro!: arg_cong [of _ _ "\<lambda>P. switch P False n"])
  moreover have "j < go_len (sg_srvs sg)" "i < go_len (ts_endNames (sg_srvs sg ! nat j))"
    using assms(1,2) Cons.prems wf_grp_ends [OF assms(1), of j] by (auto simp: wf_grp_def grp_N_def)
  ultimately show ?case using Cons assms(2) by (auto simp: end_of_def)
qed (simp add: switch_simps)

text \<open>The links after \<open>connect\<close> and \<open>disconnect\<close>.\<close>

lemma wf_connected [simp]: "length conn = length (sg_connected sg) \<Longrightarrow> wf_grp (sg\<lparr>sg_connected := conn\<rparr>) = wf_grp sg"
  "end_of (sg\<lparr>sg_connected := conn\<rparr>) = end_of sg" "grp_N (sg\<lparr>sg_connected := conn\<rparr>) = grp_N sg"
  by (auto simp: wf_grp_def end_of_def grp_N_def fun_eq_iff)

lemma grp_connect_links:
  assumes "wf_grp sg" and "in_grp sg i" and "\<forall>j \<in> set js. in_grp sg j"
  shows "\<exists>n'. grp_connect i js (sg, n) = Inr (sg\<lparr>sg_connected := (sg_connected sg)[nat i := True]\<rparr>, n') \<and>
    (\<forall>a b. in_grp sg a \<and> in_grp sg b \<longrightarrow> rn_enabled n' (end_of sg a b) =
       (if a = i \<and> b \<in> set js \<and> (b = i \<or> sg_connected sg ! nat b) \<or> b = i \<and> a \<in> set js \<and> (a = i \<or> sg_connected sg ! nat a)
        then Some True else rn_enabled n (end_of sg a b)))"
proof -
  let ?conn = "(sg_connected sg)[nat i := True]"
  let ?sg = "sg\<lparr>sg_connected := ?conn\<rparr>" and ?s = "sg_srvs sg ! nat i"
  let ?n1 = "switch (\<lambda>e. \<exists>j \<in> set js. ?conn ! nat j \<and> e = ts_endNames ?s ! nat j) True n"
  let ?n2 = "switch (\<lambda>e. \<exists>j \<in> set js. ?conn ! nat j \<and> e = end_of sg j i) True ?n1"
  have len: "length (sg_connected sg) = length (sg_srvs sg)" using assms(1) by (simp add: wf_grp_def)
  have c: "?conn ! nat b \<longleftrightarrow> b = i \<or> sg_connected sg ! nat b" if "in_grp sg b" for b
    using that assms(2) len by (auto simp: nth_list_update grp_N_def nat_less_iff eq_nat_nat_iff)
  have 1: "Server_connect ?conn (ts_endNames ?s) js n = Inr ?n1"
    using assms len wf_grp_ends [OF assms(1,2)] by (intro Server_connect_eq) (auto simp: grp_N_def)
  have 2: "connect_incoming i ?sg js ?n1 = Inr ?n2"
    using connect_incoming_eq [of ?sg i js ?n1] assms by simp
  have "grp_connect i js (sg, n) = Inr (?sg, ?n2)"
    using assms(2) len 1 2 by (simp add: grp_connect_def grp_N_def Let_def)
  moreover have "rn_enabled ?n2 (end_of sg a b) =
       (if a = i \<and> b \<in> set js \<and> (b = i \<or> sg_connected sg ! nat b) \<or> b = i \<and> a \<in> set js \<and> (a = i \<or> sg_connected sg ! nat a)
        then Some True else rn_enabled n (end_of sg a b))" if ab: "in_grp sg a" "in_grp sg b" for a b
  proof -
    have "(\<exists>j \<in> set js. ?conn ! nat j \<and> end_of sg a b = ts_endNames ?s ! nat j) \<longleftrightarrow> a = i \<and> b \<in> set js \<and> ?conn ! nat b"
      using end_of_inj [OF assms(1) ab assms(2)] assms(3) by (auto simp: end_of_def)
    moreover have "(\<exists>j \<in> set js. ?conn ! nat j \<and> end_of sg a b = end_of sg j i) \<longleftrightarrow> b = i \<and> a \<in> set js \<and> ?conn ! nat a"
      using end_of_inj [OF assms(1) ab _ assms(2)] assms(3) by auto
    ultimately show ?thesis using c ab by (auto simp: switch_simps)
  qed
  ultimately show ?thesis by blast
qed

lemma grp_disconnect_links:
  assumes "wf_grp sg" and "in_grp sg i" and "\<forall>j \<in> set js. in_grp sg j"
  shows "\<exists>n'. grp_disconnect i js (sg, n) = Inr (sg\<lparr>sg_connected := (sg_connected sg)[nat i := False]\<rparr>, n') \<and>
    rn_servers n' = rn_servers n \<and>
    (\<forall>a b. in_grp sg a \<and> in_grp sg b \<longrightarrow> rn_enabled n' (end_of sg a b) =
       (if a = i \<and> b \<in> set js \<or> b = i \<and> a \<in> set js then Some False else rn_enabled n (end_of sg a b)))"
proof -
  let ?conn = "(sg_connected sg)[nat i := False]"
  let ?sg = "sg\<lparr>sg_connected := ?conn\<rparr>" and ?s = "sg_srvs sg ! nat i"
  let ?n1 = "switch (\<lambda>e. \<exists>j \<in> set js. e = ts_endNames ?s ! nat j) False n"
  let ?n2 = "switch (\<lambda>e. \<exists>j \<in> set js. e = end_of sg j i) False ?n1"
  have len: "length (sg_connected sg) = length (sg_srvs sg)" using assms(1) by (simp add: wf_grp_def)
  have 1: "Server_disconnect (ts_endNames ?s) js n = Inr ?n1"
    using assms wf_grp_ends [OF assms(1,2)] by (intro Server_disconnect_eq) (auto simp: grp_N_def)
  have 2: "disconnect_incoming i ?sg js ?n1 = Inr ?n2"
    using disconnect_incoming_eq [of ?sg i js ?n1] assms by simp
  have "grp_disconnect i js (sg, n) = Inr (?sg, ?n2)"
    using assms(2) len 1 2 by (simp add: grp_disconnect_def grp_N_def Let_def)
  moreover have "rn_servers ?n2 = rn_servers n" by (simp add: switch_def)
  moreover have "rn_enabled ?n2 (end_of sg a b) =
       (if a = i \<and> b \<in> set js \<or> b = i \<and> a \<in> set js then Some False else rn_enabled n (end_of sg a b))" if ab: "in_grp sg a" "in_grp sg b" for a b
  proof -
    have "(\<exists>j \<in> set js. end_of sg a b = ts_endNames ?s ! nat j) \<longleftrightarrow> a = i \<and> b \<in> set js"
      using end_of_inj [OF assms(1) ab assms(2)] assms(3) by (auto simp: end_of_def)
    moreover have "(\<exists>j \<in> set js. end_of sg a b = end_of sg j i) \<longleftrightarrow> b = i \<and> a \<in> set js"
      using end_of_inj [OF assms(1) ab _ assms(2)] assms(3) by auto
    ultimately show ?thesis by (simp add: switch_simps)
  qed
  ultimately show ?thesis by blast
qed

section \<open>Partitions\<close>

lemma part_step_links:
  assumes "wf_grp sg" and "\<forall>j \<in> set own \<union> set other. in_grp sg j" and "i \<in> set own"
  shows "\<exists>n'. part_step own other i (sg, n) = Inr (sg\<lparr>sg_connected := (sg_connected sg)[nat i := True]\<rparr>, n') \<and>
    (\<forall>a b. in_grp sg a \<and> in_grp sg b \<longrightarrow> rn_enabled n' (end_of sg a b) =
       (if a = i \<and> b \<in> set own \<and> (b = i \<or> sg_connected sg ! nat b) \<or> b = i \<and> a \<in> set own \<and> (a = i \<or> sg_connected sg ! nat a)
        then Some True
        else if a = i \<and> b \<in> set other \<or> b = i \<and> a \<in> set other then Some False else rn_enabled n (end_of sg a b)))"
proof -
  have i: "in_grp sg i" and js: "\<forall>j \<in> set other. in_grp sg j" "\<forall>j \<in> set own. in_grp sg j" using assms(2,3) by auto
  let ?sg = "sg\<lparr>sg_connected := (sg_connected sg)[nat i := False]\<rparr>"
  obtain n1 where n1: "grp_disconnect i other (sg, n) = Inr (?sg, n1)"
    "\<forall>a b. in_grp sg a \<and> in_grp sg b \<longrightarrow> rn_enabled n1 (end_of sg a b) =
       (if a = i \<and> b \<in> set other \<or> b = i \<and> a \<in> set other then Some False else rn_enabled n (end_of sg a b))"
    using grp_disconnect_links [OF assms(1) i js(1), of n] by blast
  have conn: "sg_connected ?sg ! nat b \<longleftrightarrow> sg_connected sg ! nat b" if "in_grp sg b" "b \<noteq> i" for b
    using that i by (auto simp: nth_list_update eq_nat_nat_iff)
  obtain n2 where n2: "grp_connect i own (?sg, n1) = Inr (?sg\<lparr>sg_connected := (sg_connected ?sg)[nat i := True]\<rparr>, n2)"
    "\<forall>a b. in_grp sg a \<and> in_grp sg b \<longrightarrow> rn_enabled n2 (end_of sg a b) =
       (if a = i \<and> b \<in> set own \<and> (b = i \<or> sg_connected ?sg ! nat b) \<or> b = i \<and> a \<in> set own \<and> (a = i \<or> sg_connected ?sg ! nat a)
        then Some True else rn_enabled n1 (end_of sg a b))"
    using grp_connect_links [of ?sg i own n1] assms(1) i js(2) by (simp only: wf_connected length_list_update) blast
  have "part_step own other i (sg, n) = Inr (sg\<lparr>sg_connected := (sg_connected sg)[nat i := True]\<rparr>, n2)"
    using n1(1) n2(1) by (simp add: part_step_def)
  moreover have "rn_enabled n2 (end_of sg a b) =
       (if a = i \<and> b \<in> set own \<and> (b = i \<or> sg_connected sg ! nat b) \<or> b = i \<and> a \<in> set own \<and> (a = i \<or> sg_connected sg ! nat a)
        then Some True
        else if a = i \<and> b \<in> set other \<or> b = i \<and> a \<in> set other then Some False else rn_enabled n (end_of sg a b))"
    if ab: "in_grp sg a" "in_grp sg b" for a b
  proof -
    have c: "(b = i \<or> sg_connected ?sg ! nat b) \<longleftrightarrow> (b = i \<or> sg_connected sg ! nat b)" "(a = i \<or> sg_connected ?sg ! nat a) \<longleftrightarrow> (a = i \<or> sg_connected sg ! nat a)"
      using conn ab by blast+
    show ?thesis unfolding n2(2) [rule_format, OF conjI [OF ab]] c n1(2) [rule_format, OF conjI [OF ab]] ..
  qed
  ultimately show ?thesis by blast
qed

text \<open>The servers \<open>D\<close> of one side are linked with each other and cut off from the other side.\<close>

definition side_ok :: "int set \<Rightarrow> int set \<Rightarrow> ('c, 'b, 'sv) ServerGrp \<Rightarrow> Network \<Rightarrow> bool" where
  "side_ok D other sg n \<longleftrightarrow> (\<forall>a \<in> D. sg_connected sg ! nat a) \<and>
     (\<forall>a \<in> D. \<forall>b \<in> D. rn_enabled n (end_of sg a b) = Some True) \<and>
     (\<forall>a \<in> D. \<forall>b \<in> other. rn_enabled n (end_of sg a b) = Some False \<and> rn_enabled n (end_of sg b a) = Some False)"

lemma part_loop:
  assumes "wf_grp sg" and "\<forall>j \<in> set own \<union> set other. in_grp sg j" and "set own \<inter> set other = {}" and "D \<union> set xs \<subseteq> set own"
    and "side_ok D (set other) sg n"
  shows "\<exists>conn n'. go_fold (part_step own other) xs (sg, n) = Inr (sg\<lparr>sg_connected := conn\<rparr>, n') \<and>
    length conn = length (sg_connected sg) \<and> side_ok (D \<union> set xs) (set other) (sg\<lparr>sg_connected := conn\<rparr>) n' \<and>
    (\<forall>a b. a \<in> set other \<and> b \<in> set other \<longrightarrow> rn_enabled n' (end_of sg a b) = rn_enabled n (end_of sg a b))"
  using assms
proof (induction xs arbitrary: D sg n)
  case Nil
  then show ?case by (intro exI [of _ "sg_connected sg"] exI [of _ n]) simp
next
  case (Cons i xs)
  have i: "i \<in> set own" "in_grp sg i" using Cons.prems(2,4) by auto
  let ?sg = "sg\<lparr>sg_connected := (sg_connected sg)[nat i := True]\<rparr>"
  obtain n1 where n1: "part_step own other i (sg, n) = Inr (?sg, n1)"
    "\<forall>a b. in_grp sg a \<and> in_grp sg b \<longrightarrow> rn_enabled n1 (end_of sg a b) =
       (if a = i \<and> b \<in> set own \<and> (b = i \<or> sg_connected sg ! nat b) \<or> b = i \<and> a \<in> set own \<and> (a = i \<or> sg_connected sg ! nat a)
        then Some True
        else if a = i \<and> b \<in> set other \<or> b = i \<and> a \<in> set other then Some False else rn_enabled n (end_of sg a b))"
    using part_step_links [OF Cons.prems(1,2) i(1), of n] by blast
  have grp: "in_grp sg a" if "a \<in> D \<or> a = i \<or> a \<in> set other" for a using that Cons.prems(2,4) by auto
  have c: "sg_connected ?sg ! nat a" if "a \<in> insert i D" for a
  proof -
    have "nat i < length (sg_connected sg)" using i(2) Cons.prems(1) by (auto simp: wf_grp_def grp_N_def nat_less_iff)
    then show ?thesis using that Cons.prems(5) by (cases "nat a = nat i") (auto simp: side_ok_def)
  qed
  have "side_ok (insert i D) (set other) ?sg n1"
    unfolding side_ok_def
  proof (intro conjI ballI)
    show "sg_connected ?sg ! nat a" if "a \<in> insert i D" for a using c that .
    have D: "x \<in> set own" "x = i \<or> sg_connected sg ! nat x" if "x \<in> insert i D" for x
      using that Cons.prems(4,5) i(1) by (auto simp: side_ok_def)
    have same: "rn_enabled n (end_of sg a b) = Some True" if "a \<in> D" "b \<in> D" for a b
      using Cons.prems(5) that by (simp add: side_ok_def)
    have cross: "rn_enabled n (end_of sg a b) = Some False" "rn_enabled n (end_of sg b a) = Some False" if "a \<in> D" "b \<in> set other" for a b
      using Cons.prems(5) that by (simp_all add: side_ok_def)
    have own: "x \<notin> set own" if "x \<in> set other" for x using that Cons.prems(3) by auto
    show "rn_enabled n1 (end_of ?sg a b) = Some True" if "a \<in> insert i D" "b \<in> insert i D" for a b
    proof -
      have ab: "in_grp sg a" "in_grp sg b" using grp that by blast+
      show ?thesis
        unfolding wf_connected n1(2) [rule_format, OF conjI [OF ab]] using D [OF that(1)] D [OF that(2)] same that by auto
    qed
    show "rn_enabled n1 (end_of ?sg a b) = Some False" "rn_enabled n1 (end_of ?sg b a) = Some False"
      if "a \<in> insert i D" "b \<in> set other" for a b
    proof -
      have ab: "in_grp sg a" "in_grp sg b" using grp that by blast+
      have "b \<noteq> i" "b \<notin> set own" using own that(2) i(1) by auto
      then show "rn_enabled n1 (end_of ?sg a b) = Some False" "rn_enabled n1 (end_of ?sg b a) = Some False"
        unfolding wf_connected n1(2) [rule_format, OF conjI [OF ab]] n1(2) [rule_format, OF conjI [OF ab(2,1)]]
        using cross that by auto
    qed
  qed
  moreover have "rn_enabled n1 (end_of sg a b) = rn_enabled n (end_of sg a b)" if "a \<in> set other" "b \<in> set other" for a b
  proof -
    have ab: "in_grp sg a" "in_grp sg b" using grp that by blast+
    have "a \<noteq> i" "b \<noteq> i" using that Cons.prems(3) i(1) by auto
    then show ?thesis unfolding n1(2) [rule_format, OF conjI [OF ab]] by simp
  qed
  ultimately show ?case
    using Cons.IH [of ?sg "insert i D" n1] Cons.prems(1-4) n1(1) by auto
qed

lemma Partition_links:
  assumes "wf_grp sg" and "\<forall>j \<in> set p1 \<union> set p2. in_grp sg j" and "set p1 \<inter> set p2 = {}"
  shows "\<exists>conn n'. Partition p1 p2 (sg, n) = Inr (sg\<lparr>sg_connected := conn\<rparr>, n') \<and> length conn = length (sg_connected sg) \<and>
    (\<forall>a \<in> set p1 \<union> set p2. \<forall>b \<in> set p1 \<union> set p2. enabled n' sg a b \<longleftrightarrow> (a \<in> set p1 \<longleftrightarrow> b \<in> set p1))"
proof -
  have 0: "side_ok {} X sg n" for X by (simp add: side_ok_def)
  obtain c1 n1 where 1: "go_fold (part_step p1 p2) p1 (sg, n) = Inr (sg\<lparr>sg_connected := c1\<rparr>, n1)" "length c1 = length (sg_connected sg)"
    "side_ok (set p1) (set p2) (sg\<lparr>sg_connected := c1\<rparr>) n1"
    using part_loop [OF assms _ 0, of p1] by auto
  let ?sg = "sg\<lparr>sg_connected := c1\<rparr>"
  have wf: "wf_grp ?sg" "\<forall>j \<in> set p2 \<union> set p1. in_grp ?sg j" "set p2 \<inter> set p1 = {}" "side_ok {} (set p1) ?sg n1"
    using assms 1(2) by (auto simp: side_ok_def)
  obtain c2 n2 where 2: "go_fold (part_step p2 p1) p2 (?sg, n1) = Inr (?sg\<lparr>sg_connected := c2\<rparr>, n2)" "length c2 = length c1"
    "side_ok (set p2) (set p1) (?sg\<lparr>sg_connected := c2\<rparr>) n2"
    "\<forall>a b. a \<in> set p1 \<and> b \<in> set p1 \<longrightarrow> rn_enabled n2 (end_of sg a b) = rn_enabled n1 (end_of sg a b)"
    using part_loop [OF wf(1-3) _ wf(4), of p2] by auto
  have "enabled n2 sg a b \<longleftrightarrow> (a \<in> set p1 \<longleftrightarrow> b \<in> set p1)" if "a \<in> set p1 \<union> set p2" "b \<in> set p1 \<union> set p2" for a b
    using 1(3) 2(3,4) that assms(3) by (auto simp: side_ok_def enabled_def)
  then show ?thesis using 1(1,2) 2(1,2) by (auto simp: Partition_def)
qed

text \<open>The loop of \<open>MakePartition\<close> writes the servers other than \<open>l\<close> one after the other into the two slices.\<close>

lemma mp_loop_eq:
  assumes "j + length (filter (\<lambda>i. i \<noteq> l) is') \<le> length p1 + length p2"
  shows "\<exists>q1 q2. mp_loop l is' (int j) p1 p2 = Inr (q1, q2) \<and> length q1 = length p1 \<and> length q2 = length p2 \<and>
    q1 @ q2 = take j (p1 @ p2) @ filter (\<lambda>i. i \<noteq> l) is' @ drop (j + length (filter (\<lambda>i. i \<noteq> l) is')) (p1 @ p2)"
  using assms
proof (induction is' arbitrary: j p1 p2)
  case (Cons i is')
  show ?case
  proof (cases "i = l")
    case True
    then show ?thesis using Cons by simp
  next
    case False
    let ?r = "filter (\<lambda>i. i \<noteq> l) is'"
    have j: "j < length (p1 @ p2)" using Cons.prems False by simp
    obtain p1' p2' where p': "(if j < length p1 then p1' = p1[j := i] \<and> p2' = p2 else p1' = p1 \<and> p2' = p2[j - length p1 := i])"
      by (cases "j < length p1") auto
    then have len: "length p1' = length p1" "length p2' = length p2" and app: "p1' @ p2' = (p1 @ p2)[j := i]"
      by (auto simp: list_update_append split: if_splits)
    have "mp_loop l (i # is') (int j) p1 p2 = mp_loop l is' (int (j + 1)) p1' p2'"
      using False p' j by (auto simp: nat_diff_distrib add.commute split: if_splits)
    moreover obtain q1 q2 where "mp_loop l is' (int (j + 1)) p1' p2' = Inr (q1, q2)" "length q1 = length p1'" "length q2 = length p2'"
      "q1 @ q2 = take (j + 1) (p1' @ p2') @ ?r @ drop (j + 1 + length ?r) (p1' @ p2')"
      using Cons.IH [of "j + 1" p1' p2'] Cons.prems False len by auto
    moreover have "take (j + 1) ((p1 @ p2)[j := i]) = take j (p1 @ p2) @ [i]" using j by (simp add: take_Suc_conv_app_nth del: take_append)
    ultimately show ?thesis
      unfolding app using False len by (simp del: take_append drop_append)
  qed
qed (simp del: take_append drop_append)

lemma MakePartition_eq:
  assumes "length (sg_srvs sg) = 2 * m + 1" and "0 < m" and "0 \<le> l" and "l < int (2 * m + 1)"
  shows "MakePartition l sg = Inr (take (m + 1) (filter (\<lambda>i. i \<noteq> l) (map int [0..<2 * m + 1])),
    drop (m + 1) (filter (\<lambda>i. i \<noteq> l) (map int [0..<2 * m + 1])) @ [l])"
proof -
  let ?r = "filter (\<lambda>i. i \<noteq> l) (map int [0..<2 * m + 1])"
  let ?p1 = "replicate (m + 1) (0 :: int)" and ?p2 = "replicate m (0 :: int)"
  have "?r = remove1 l (map int [0..<2 * m + 1])"
    by (simp only: distinct_remove1_removeAll distinct_map distinct_upt removeAll_filter_not_eq inj_on_of_nat) (auto intro: filter_cong)
  moreover have "l \<in> set (map int [0..<2 * m + 1])" using assms(3,4) by (auto simp: image_iff intro!: bexI [of _ "nat l"])
  ultimately have len: "length ?r = 2 * m" by (simp only: length_remove1) simp
  obtain q1 q2 where q: "mp_loop l (map int [0..<2 * m + 1]) 0 ?p1 ?p2 = Inr (q1, q2)" "length q1 = m + 1" "length q2 = m"
    "q1 @ q2 = ?r @ drop (2 * m) (?p1 @ ?p2)"
    using mp_loop_eq [of 0 l "map int [0..<2 * m + 1]" ?p1 ?p2] len by (auto simp del: upt_Suc drop_append)
  have "?p1 @ ?p2 = replicate (2 * m + 1) 0" by (simp only: replicate_add [symmetric]) simp
  then have "q1 @ q2 = ?r @ [0]" using q(4) by (simp only: drop_replicate) simp
  then have "q1 = take (m + 1) (?r @ [0])" "q2 = drop (m + 1) (?r @ [0])" using q(2) by (simp_all only: append_eq_conv_conj)
  then have q12: "q1 = take (m + 1) ?r" "q2 = drop (m + 1) ?r @ [0]" using len assms(2) by (simp_all del: upt_Suc)
  have "go_update q2 (go_len q2 - 1) l = Inr (drop (m + 1) ?r @ [l])"
    using q(3) assms(2) q12(2) len by (simp add: go_update_def nat_diff_distrib list_update_append del: upt_Suc)
  moreover have "(2 * m + 1) div 2 = m" by simp
  ultimately show ?thesis
    using q(1) q12(1) by (simp add: MakePartition_def assms(1) Let_def del: upt_Suc replicate_Suc)
qed

text \<open>A group that was set up without a fatal error is well-formed: the network refuses a name that is taken.\<close>

lemma make_ends_Inr:
  assumes "make_ends gid j es n = Inr n'"
  shows "distinct es \<and> set es \<inter> rn_ends n = {} \<and> rn_ends n' = rn_ends n \<union> set es"
  using assms
proof (induction es arbitrary: j n)
  case (Cons e es)
  then obtain n1 where n1: "MakeEnd e n = Inr n1" "make_ends gid (j + 1) es (Connect e (ServerName gid j) n1) = Inr n'"
    by (auto simp: go_bind_eq_Inr_iff)
  then have "e \<notin> rn_ends n" "rn_ends (Connect e (ServerName gid j) n1) = insert e (rn_ends n)"
    by (auto simp: MakeEnd_def Connect_def split: if_splits)
  then show ?case using Cons.IH [OF n1(2)] by auto
qed simp

lemma make_servers_Inr:
  assumes "make_servers gid nss n = Inr (ss, n')"
  shows "map ts_endNames ss = nss \<and> distinct (concat nss) \<and> set (concat nss) \<inter> rn_ends n = {} \<and> rn_ends n' = rn_ends n \<union> set (concat nss)"
  using assms
proof (induction nss arbitrary: n ss)
  case (Cons es nss)
  then obtain s ss' n1 where 1: "makeServer gid es n = Inr (s, n1)" "make_servers gid nss n1 = Inr (ss', n')" "ss = s # ss'"
    by (auto simp: go_bind_eq_Inr_iff)
  have "make_ends gid 0 es n = Inr n1" "ts_endNames s = es" using 1(1) by (auto simp: makeServer_def go_bind_eq_Inr_iff)
  then show ?case using make_ends_Inr [of gid 0 es n n1] Cons.IH [OF 1(2)] 1(3) by auto
qed simp

lemma makeSrvGrp_wf:
  assumes "makeSrvGrp gid nss n = Inr (sg, n')" and "\<forall>ns \<in> set nss. length ns = length nss"
  shows "wf_grp sg \<and> length (sg_srvs sg) = length nss"
proof -
  obtain ss where ss: "make_servers gid nss n = Inr (ss, n')"
    "sg = \<lparr>sg_srvs = ss, sg_servernames = map (\<lambda>i. ServerName gid (int i)) [0..<length nss], sg_gid = gid, sg_connected = replicate (length nss) False\<rparr>"
    using assms(1) by (auto simp: makeSrvGrp_def go_bind_eq_Inr_iff)
  then have m: "map ts_endNames ss = nss" "distinct (concat nss)" using make_servers_Inr by blast+
  then have "length ss = length nss" by (metis length_map)
  moreover have "\<forall>s \<in> set ss. ts_endNames s \<in> set nss" using m(1) by auto
  ultimately show ?thesis using assms(2) m by (auto simp: wf_grp_def ss(2))
qed

section \<open>Properties\<close>


text \<open>Three servers, set up on a fresh network.\<close>

definition demo_names :: "string list list" where
  "demo_names = [[''aa'', ''ab'', ''ac''], [''ba'', ''bb'', ''bc''], [''ca'', ''cb'', ''cc'']]"

definition demo_grp :: "(nat, nat, nat) ServerGrp" where
  "demo_grp = \<lparr>sg_srvs = map (\<lambda>ns. \<lparr>ts_saved = None, ts_svcs = [], ts_endNames = ns\<rparr>) demo_names,
     sg_servernames = map (\<lambda>i. ServerName 0 (int i)) [0..<length demo_names], sg_gid = 0, sg_connected = [False, False, False]\<rparr>"

lemma demo_grp_made: "\<exists>n. makeSrvGrp 0 demo_names MakeNetwork = Inr (demo_grp, n)"
  by (simp add: makeSrvGrp_def demo_names_def makeServer_def MakeEnd_def MakeNetwork_def Connect_def demo_grp_def)

lemma demo_grp_wf: "wf_grp demo_grp" "length (sg_srvs demo_grp) = 2 * 1 + 1"
  using makeSrvGrp_wf [of 0 demo_names MakeNetwork demo_grp] demo_grp_made by (auto simp: demo_names_def)


text \<open>With an even number of servers the slices have one element too many, which keeps its initial value 0.\<close>

lemma MakePartition_of_four:
  "length (sg_srvs sg) = 4 \<Longrightarrow> MakePartition 1 sg = Inr ([0, 2, 3], [0, 1])"
proof -
  assume n: "length (sg_srvs sg) = 4"
  have "replicate 2 (0 :: int) = [0, 0]" by (simp add: numeral_2_eq_2)
  then show ?thesis by (simp add: MakePartition_def n Let_def go_update_def upt_rec)
qed

text \<open>\<open>ShutdownServer\<close> isolates a server before anything else can see its state: every link from and to it is
  disabled, its name is taken off the network, so that no call in progress can be acknowledged, its services are
  the ones told to stop, and what it had persisted is kept; the server that \<open>StartServer\<close> starts in its place, with
  new ends, gets exactly that persisted state.\<close>
theorem restart_keeps_persisted_state:
  assumes "wf_grp sg" and "in_grp sg i" and "ts_saved (sg_srvs sg ! nat i) = Some ps"
  shows "\<exists>sg1 s1. ShutdownServer i (sg, s) = Inr ((sg1, s1), ts_svcs (sg_srvs sg ! nat i)) \<and>
    rn_servers (net s1) (ServerName (sg_gid sg) i) = Some None \<and>
    (\<forall>a. in_grp sg a \<longrightarrow> \<not> enabled (net s1) sg i a \<and> \<not> enabled (net s1) sg a i) \<and>
    (\<forall>mks svc_of names p sg2 s2. StartServer mks svc_of names p i (sg1, s1) = Inr (sg2, s2) \<longrightarrow>
       ts_saved (sg_srvs sg2 ! nat i) = Some ps \<and> ts_svcs (sg_srvs sg2 ! nat i) = mks names (sg_gid sg) i ps \<and>
       rn_servers (net s2) (ServerName (sg_gid sg) i) = Some (Some p))"
proof -
  let ?sg = "sg\<lparr>sg_connected := (sg_connected sg)[nat i := False]\<rparr>" and ?nm = "ServerName (sg_gid sg) i"
  have all: "\<forall>j \<in> set (all_servers sg). in_grp sg j" "in_grp sg a \<Longrightarrow> a \<in> set (all_servers sg)" for a
    by (auto simp: all_servers_def grp_N_def image_iff intro!: bexI [of _ "nat a"])
  obtain n1 where n1: "grp_disconnect i (all_servers sg) (sg, net s) = Inr (?sg, n1)"
    "\<forall>a b. in_grp sg a \<and> in_grp sg b \<longrightarrow> rn_enabled n1 (end_of sg a b) =
       (if a = i \<and> b \<in> set (all_servers sg) \<or> b = i \<and> a \<in> set (all_servers sg) then Some False else rn_enabled (net s) (end_of sg a b))"
    using grp_disconnect_links [OF assms(1,2) all(1), of "net s"] by blast
  have off: "\<not> enabled n1 sg i a \<and> \<not> enabled n1 sg a i" if "in_grp sg a" for a
    using n1(2) assms(2) that all(2) [OF that] by (simp add: enabled_def)
  let ?srv = "(sg_srvs sg ! nat i)\<lparr>ts_saved := Some ps, ts_svcs := []\<rparr>"
  let ?sg1 = "?sg\<lparr>sg_srvs := (sg_srvs sg)[nat i := ?srv]\<rparr>" and ?s1 = "s\<lparr>net := DeleteServer ?nm n1\<rparr>"
  have i: "0 \<le> i" "i < go_len (sg_srvs sg)" "nat i < length (sg_srvs sg)" using assms(2) by (auto simp: grp_N_def nat_less_iff)
  have "ShutdownServer i (sg, s) = Inr ((?sg1, ?s1), ts_svcs (sg_srvs sg ! nat i))"
    using n1(1) i assms(3) by (simp add: ShutdownServer_def shutdownServer_def Let_def)
  moreover have "\<not> enabled (net ?s1) sg i a \<and> \<not> enabled (net ?s1) sg a i" if "in_grp sg a" for a
    using off [OF that] by (simp add: enabled_def DeleteServer_def)
  moreover have "rn_servers (net ?s1) ?nm = Some None" by (simp add: DeleteServer_def)
  moreover have "ts_saved (sg_srvs sg2 ! nat i) = Some ps \<and> ts_svcs (sg_srvs sg2 ! nat i) = mks names (sg_gid sg) i ps \<and>
       rn_servers (net s2) ?nm = Some (Some p)" if "StartServer mks svc_of names p i (?sg1, ?s1) = Inr (sg2, s2)" for mks svc_of names p sg2 s2
    using that i by (auto simp: StartServer_def startServer_def makeServer_def go_bind_eq_Inr_iff AddServer_def Let_def)
  ultimately show ?thesis by blast
qed

text \<open>The first of three servers, after it has persisted a snapshot.\<close>

definition demo_saved :: "(nat, nat, nat) ServerGrp" where
  "demo_saved = demo_grp\<lparr>sg_srvs := (sg_srvs demo_grp)[0 := (sg_srvs demo_grp ! 0)\<lparr>ts_saved := Some (MakePersister\<lparr>snapshot := [7]\<rparr>), ts_svcs := [1]\<rparr>]\<rparr>"

theorem restart_keeps_persisted_state_witness:
  "\<exists>sg1 s1 sg2 s2. ShutdownServer 0 (demo_saved, rpc_init () :: (unit, unit) rpc_sys) = Inr ((sg1, s1), [1]) \<and>
     StartServer (\<lambda>_ _ _ ps. [length (snapshot ps)]) (\<lambda>sv. MakeService ''KV'' []) [''x'', ''y'', ''z''] 9 0 (sg1, s1) = Inr (sg2, s2) \<and>
     ts_saved (sg_srvs sg2 ! 0) = Some (MakePersister\<lparr>snapshot := [7]\<rparr>) \<and> ts_svcs (sg_srvs sg2 ! 0) = [1] \<and>
     rn_servers (net s2) (ServerName 0 0) = Some (Some 9)"
proof -
  let ?mks = "\<lambda>_ _ _ ps. [length (snapshot ps)] :: nat list" and ?so = "\<lambda>sv :: nat. MakeService ''KV'' [] :: (unit, unit) Service"
  have wf: "wf_grp demo_saved" "in_grp demo_saved 0" "ts_saved (sg_srvs demo_saved ! nat 0) = Some (MakePersister\<lparr>snapshot := [7]\<rparr>)"
    by (simp_all add: wf_grp_def demo_saved_def demo_grp_def demo_names_def grp_N_def)
  obtain sg1 and s1 :: "(unit, unit) rpc_sys" where 1: "ShutdownServer 0 (demo_saved, rpc_init ()) = Inr ((sg1, s1), ts_svcs (sg_srvs demo_saved ! nat 0))"
    "\<forall>mks svc_of names p sg2 s2. StartServer mks svc_of names p 0 (sg1, s1) = Inr (sg2, s2) \<longrightarrow>
       ts_saved (sg_srvs sg2 ! nat 0) = Some (MakePersister\<lparr>snapshot := [7]\<rparr>) \<and>
       ts_svcs (sg_srvs sg2 ! nat 0) = mks names (sg_gid demo_saved) 0 (MakePersister\<lparr>snapshot := [7]\<rparr>) \<and>
       rn_servers (net s2) (ServerName (sg_gid demo_saved) 0) = Some (Some p)"
    using restart_keeps_persisted_state [OF wf, of "rpc_init ()"] by blast
  have "\<exists>sg2 s2. StartServer ?mks ?so [''x'', ''y'', ''z''] 9 0 (sg1, s1) = Inr (sg2, s2)"
    using 1(1) by (auto simp: ShutdownServer_def grp_disconnect_def shutdownServer_def StartServer_def startServer_def makeServer_def
        MakeEnd_def rpc_init_def MakeNetwork_def Connect_def demo_saved_def demo_grp_def demo_names_def all_servers_def Enable_def DeleteServer_def Let_def)
  then show ?thesis using 1 by (fastforce simp: demo_saved_def demo_grp_def demo_names_def MakePersister_def)
qed

text \<open>What a loop over the ends of a client does to an end.\<close>

lemma fold_Enable:
  "rn_enabled (fold (\<lambda>(s, e) n. if P s then Enable e b n else n) es n) x =
     (if \<exists>s. (s, x) \<in> set es \<and> P s then Some b else rn_enabled n x)"
  by (induction es arbitrary: n) (auto simp: Enable_def)

lemma fold_Enable_all:
  "rn_enabled (fold (\<lambda>(s, e) n. Enable e b n) es n) x = (if \<exists>s. (s, x) \<in> set es then Some b else rn_enabled n x)"
  using fold_Enable [of "\<lambda>_. True" b es n x] by simp

text \<open>After \<open>DisconnectAll\<close> a client reaches no server: every end it has is disabled, and so is every end it makes
  afterwards, until it is connected again; \<open>ConnectTo\<close> then enables exactly the ends to the servers it is given.
  On a client that is connected, however, \<open>ConnectTo\<close> disables nothing: an end to a server that is not among the given
  ones stays enabled, although the comment on the field \<open>srvs\<close> says that with an empty list the client cannot connect to
  any server.\<close>
theorem client_connectivity:
  assumes "Clnt_DisconnectAll (clnt, n) = (clnt1, n1)" and "ConnectTo srvs (clnt1, n1) = (clnt2, n2)"
    and "ConnectTo [] (clnt, n) = (clnt3, n3)"
  shows "(\<forall>s e. (s, e) \<in> set (cl_ends clnt) \<longrightarrow> rn_enabled n1 e = Some False) \<and>
    (\<forall>name server e clnt' n'. Clnt_makeEnd name server (clnt1, n1) = Inr (e, clnt', n') \<longrightarrow> rn_enabled n' e = Some False) \<and>
    (\<forall>s e. (s, e) \<in> set (cl_ends clnt) \<and> (\<forall>s'. (s', e) \<in> set (cl_ends clnt) \<longrightarrow> s' = s) \<longrightarrow> rn_enabled n2 e = Some (s \<in> set srvs)) \<and>
    (\<forall>s e. (s, e) \<in> set (cl_ends clnt) \<and> rn_enabled n e = Some True \<longrightarrow> rn_enabled n3 e = Some True)"
proof -
  have c1: "clnt1 = clnt\<lparr>cl_srvs := Some []\<rparr>" "n1 = fold (\<lambda>(s, e) n. Enable e False n) (cl_ends clnt) n"
    using assms(1) by (auto simp: Clnt_DisconnectAll_def)
  have n1: "rn_enabled n1 e = Some False" if "(s, e) \<in> set (cl_ends clnt)" for s e
    using that by (auto simp: c1(2) fold_Enable_all)
  have "n2 = fold (\<lambda>(s, e) n. if s \<in> set srvs then Enable e True n else n) (cl_ends clnt) n1"
    using assms(2) by (auto simp: ConnectTo_def c1(1) allowedL_def Let_def)
  then have fold2: "rn_enabled n2 e = (if \<exists>s. (s, e) \<in> set (cl_ends clnt) \<and> s \<in> set srvs then Some True else rn_enabled n1 e)" for e
    using fold_Enable [of "\<lambda>s. s \<in> set srvs" True "cl_ends clnt" n1 e] by simp
  have n2: "rn_enabled n2 e = Some (s \<in> set srvs)"
    if "(s, e) \<in> set (cl_ends clnt)" "\<forall>s'. (s', e) \<in> set (cl_ends clnt) \<longrightarrow> s' = s" for s e
  proof -
    have "(\<exists>s. (s, e) \<in> set (cl_ends clnt) \<and> s \<in> set srvs) \<longleftrightarrow> s \<in> set srvs" using that by blast
    then show ?thesis using fold2 [of e] n1 [OF that(1)] by simp
  qed
  have "n3 = fold (\<lambda>(s, e) n. if False then Enable e True n else n) (cl_ends clnt) n"
    using assms(3) by (auto simp: ConnectTo_def allowedL_def Let_def)
  then have n3: "rn_enabled n3 e = rn_enabled n e" for e using fold_Enable [of "\<lambda>_. False" True "cl_ends clnt" n e] by simp
  have "rn_enabled n' e = Some False" if "Clnt_makeEnd name server (clnt1, n1) = Inr (e, clnt', n')" for name server e clnt' n'
  proof (cases "map_of (cl_ends clnt) server")
    case None
    then show ?thesis using that by (auto simp: Clnt_makeEnd_def c1(1) go_bind_eq_Inr_iff allowedL_def Enable_def)
  next
    case (Some x)
    then show ?thesis using that n1 [OF map_of_SomeD [OF Some]] by (auto simp: Clnt_makeEnd_def c1(1))
  qed
  then show ?thesis using n1 n2 n3 by (intro conjI) metis+
qed

text \<open>A client with one enabled end.\<close>
theorem client_connectivity_witness:
  "let clnt = \<lparr>cl_ends = [(''s'', ''e'')], cl_srvs = None\<rparr>;
       (clnt1, n1) = Clnt_DisconnectAll (clnt, Enable ''e'' True MakeNetwork);
       (clnt2, n2) = ConnectTo [''s''] (clnt1, n1);
       (clnt3, n3) = ConnectTo [] (clnt, Enable ''e'' True MakeNetwork)
   in rn_enabled n1 ''e'' = Some False \<and> rn_enabled n2 ''e'' = Some True \<and> rn_enabled n3 ''e'' = Some True"
proof -
  let ?c = "\<lparr>cl_ends = [(''s'', ''e'')], cl_srvs = None\<rparr>" and ?n = "Enable ''e'' True MakeNetwork"
  obtain c1 n1 where 1: "Clnt_DisconnectAll (?c, ?n) = (c1, n1)" by fastforce
  obtain c2 n2 where 2: "ConnectTo [''s''] (c1, n1) = (c2, n2)" by fastforce
  obtain c3 n3 where 3: "ConnectTo [] (?c, ?n) = (c3, n3)" by fastforce
  note c = client_connectivity [OF 1 2 3]
  have "rn_enabled n1 ''e'' = Some False" using conjunct1 [OF c] by (metis Clnt.select_convs(1) list.set_intros(1))
  moreover have "rn_enabled n2 ''e'' = Some True" using conjunct1 [OF conjunct2 [OF conjunct2 [OF c]], rule_format, of "''s''" "''e''"] by simp
  moreover have "rn_enabled n3 ''e'' = Some True" using conjunct2 [OF conjunct2 [OF conjunct2 [OF c]], rule_format, of "''s''" "''e''"] by (simp add: Enable_def)
  ultimately show ?thesis by (simp only: Let_def 1 2 3 prod.case)
qed

end
