(* ===== verification/RaftTest.thy ===== *)
theory RaftTest
  imports RaftLog TestNet "HOL-Library.AList"
begin

text \<open>
  The test servers of \<open>src/raft1/server.go\<close> and the checks of \<open>src/raft1/test.go\<close>: what a server does
  with each message of its Raft peer, the snapshots it makes and ingests, the comparison of what the
  servers have applied, and the checks for a single leader and for agreement on the term.

  \<open>rs.raft\<close> points to a peer that runs on its own, so the operations take the peer as it is at that
  moment beside the server; \<open>rs.persister\<close> is the persister of that peer.  \<open>rs_raft\<close> says that the
  pointer is not nil.  The bytes of a snapshot are the values that were encoded.  The annotations of
  \<open>src/tester1/annotation.go\<close> are left out; \<open>log.Fatalf\<close> and \<open>ts.Fatalf\<close> end the program and are the
  error \<open>LogFatal\<close>.
\<close>

section \<open>Test servers\<close>

datatype 'c snap_value = SnapInt int | SnapLog "'c option list"

type_synonym 'c test_raft = "('c, 'c snap_value) Raft"
type_synonym 'c test_msg = "('c, 'c snap_value) ApplyMsg"

text \<open>The error strings of the checks, which the code compares with the empty one.\<close>

datatype 'c apply_err =
    CommitMismatch int int "'c option" int "'c option"  \<comment> \<open>index, server and command, other server and command\<close>
  | OutOfOrder int int                                  \<comment> \<open>server, index\<close>
  | OutOfOrderExpected int int int                      \<comment> \<open>server, expected index, index\<close>
  | SnapshotMismatch int                                \<comment> \<open>server\<close>

record 'c rfsrv =
  rs_me :: int
  rs_applyErr :: "'c apply_err option"
  rs_lastApplied :: int
  rs_raft :: bool
  rs_logs :: "int \<rightharpoonup> 'c option"

record 'c Test =
  t_n :: nat
  t_srvs :: "'c rfsrv option list"
  t_maxIndex :: int
  t_snapshot :: bool

definition SnapShotInterval :: int where
  "SnapShotInterval = 10"

text \<open>A dereference of \<open>ts.srvs[i]\<close>.\<close>

definition test_srv :: "int \<Rightarrow> 'c Test \<Rightarrow> 'c rfsrv go" where
  "test_srv i ts = go_bind (go_nth (t_srvs ts) i) (\<lambda>p. case p of None \<Rightarrow> Inl (GoPanic ''nil pointer'') | Some rs \<Rightarrow> Inr rs)"

definition set_srv :: "int \<Rightarrow> 'c rfsrv \<Rightarrow> 'c Test \<Rightarrow> 'c Test" where
  "set_srv i rs ts = ts\<lparr>t_srvs := (t_srvs ts)[nat i := Some rs]\<rparr>"

definition Logs :: "int \<Rightarrow> 'c rfsrv \<Rightarrow> 'c option option" where
  "Logs i rs = rs_logs rs i"

definition rs_GetState :: "'c test_raft \<Rightarrow> 'c rfsrv \<Rightarrow> (int \<times> bool) go" where
  "rs_GetState rf rs = (if rs_raft rs then Inr (GetState rf) else Inl (GoPanic ''nil pointer''))"

text \<open>Kill also saves what the persister holds.\<close>

definition rs_Kill :: "'c rfsrv \<Rightarrow> 'c test_raft \<Rightarrow> 'c rfsrv \<times> 'c test_raft" where
  "rs_Kill rs rf =
     (rs\<lparr>rs_raft := False\<rparr>,
      rf\<lparr>persister := Persister_Save (ReadRaftState (persister rf)) (Some (ReadSnapshot (persister rf))) (persister rf)\<rparr>)"

section \<open>Checking what was applied\<close>

text \<open>The loop of \<open>checkLogs\<close> over the servers: the last conflict.\<close>

fun logs_loop :: "int \<Rightarrow> 'c test_msg \<Rightarrow> int \<Rightarrow> 'c rfsrv option list \<Rightarrow> 'c apply_err option \<Rightarrow> 'c apply_err option go" where
  "logs_loop i m j [] err = Inr err"
| "logs_loop i m j (None # ss) err = Inl (GoPanic ''nil pointer'')"
| "logs_loop i m j (Some rs # ss) err =
     logs_loop i m (j + 1) ss
       (case Logs (CommandIndex m) rs of
          Some old \<Rightarrow> if old \<noteq> am_Command m then Some (CommitMismatch (CommandIndex m) i (am_Command m) j old) else err
        | None \<Rightarrow> err)"

definition checkLogs :: "int \<Rightarrow> 'c test_msg \<Rightarrow> 'c Test \<Rightarrow> ('c apply_err option \<times> bool \<times> 'c Test) go" where
  "checkLogs i m ts =
     go_bind (go_nth (t_srvs ts) i) (\<lambda>_.
     go_bind (logs_loop i m 0 (t_srvs ts) None) (\<lambda>err.
     go_bind (test_srv i ts) (\<lambda>me.
       let prevok = (rs_logs me (CommandIndex m - 1) \<noteq> None);
           ts = set_srv i (me\<lparr>rs_logs := (rs_logs me)(CommandIndex m \<mapsto> am_Command m)\<rparr>) ts;
           ts = (if CommandIndex m > t_maxIndex ts then ts\<lparr>t_maxIndex := CommandIndex m\<rparr> else ts)
       in Inr (err, prevok, ts))))"

text \<open>The body of the loop of \<open>applier\<close>.\<close>

definition applier :: "int \<Rightarrow> 'c test_msg \<Rightarrow> 'c Test \<Rightarrow> 'c Test go" where
  "applier i m ts =
     (if CommandValid m = False then Inr ts
      else go_bind (checkLogs i m ts) (\<lambda>(err, prevok, ts).
        let err = (if CommandIndex m > 1 \<and> prevok = False then Some (OutOfOrder i (CommandIndex m)) else err)
        in if err \<noteq> None then Inl (LogFatal ''apply error'') else Inr ts))"

section \<open>Snapshots\<close>

fun DecodeSnapInt :: "'c snap_value list \<Rightarrow> (int \<times> 'c snap_value list) option" where
  "DecodeSnapInt (SnapInt x # r) = Some (x, r)"
| "DecodeSnapInt _ = None"

fun DecodeSnapLog :: "'c snap_value list \<Rightarrow> ('c option list \<times> 'c snap_value list) option" where
  "DecodeSnapLog (SnapLog x # r) = Some (x, r)"
| "DecodeSnapLog _ = None"

text \<open>\<open>for j := 0; j < len(xlog); j++ { rs.logs[j] = xlog[j] }\<close> on an empty map.\<close>

definition logs_of :: "'c option list \<Rightarrow> int \<rightharpoonup> 'c option" where
  "logs_of xlog = fold (\<lambda>j m. m(int j \<mapsto> xlog ! j)) [0..<length xlog] Map.empty"

definition ingestSnap :: "'c snap_value list option \<Rightarrow> int \<Rightarrow> 'c rfsrv \<Rightarrow> ('c apply_err option \<times> 'c rfsrv) go" where
  "ingestSnap snap index rs =
     (case snap of
        None \<Rightarrow> Inl (LogFatal ''nil snapshot'')
      | Some r \<Rightarrow>
          (case Option.bind (DecodeSnapInt r) (\<lambda>(lastIncludedIndex, r).
                  Option.bind (DecodeSnapLog r) (\<lambda>(xlog, r). Some (lastIncludedIndex, xlog))) of
             None \<Rightarrow> Inl (LogFatal ''snapshot decode error'')
           | Some (lastIncludedIndex, xlog) \<Rightarrow>
               if index \<noteq> - 1 \<and> index \<noteq> lastIncludedIndex then Inr (Some (SnapshotMismatch (rs_me rs)), rs)
               else Inr (None, rs\<lparr>rs_logs := logs_of xlog, rs_lastApplied := lastIncludedIndex\<rparr>)))"

text \<open>The bytes that \<open>applierSnap\<close> encodes after applying the command at \<open>index\<close>.\<close>

definition encode_snap :: "int \<Rightarrow> (int \<rightharpoonup> 'c option) \<Rightarrow> 'c snap_value list" where
  "encode_snap index logs =
     [SnapInt index, SnapLog (map (\<lambda>j. case logs (int j) of Some v \<Rightarrow> v | None \<Rightarrow> None) [0..<nat (index + 1)])]"

definition applierSnap :: "int \<Rightarrow> 'c test_msg \<Rightarrow> 'c Test \<times> 'c test_raft \<Rightarrow> ('c Test \<times> 'c test_raft) go" where
  "applierSnap i m = (\<lambda>(ts, rf).
     go_bind (test_srv i ts) (\<lambda>rs.
     go_bind
       (if SnapshotValid m
        then go_bind (ingestSnap (Some (am_Snapshot m)) (SnapshotIndex m) rs) (\<lambda>(err, rs). Inr (err, set_srv i rs ts, rf))
        else if CommandValid m
        then
          go_bind (if CommandIndex m \<noteq> rs_lastApplied rs + 1
                   then Inr (Some (OutOfOrderExpected (rs_me rs) (rs_lastApplied rs + 1) (CommandIndex m)), ts)
                   else go_bind (checkLogs i m ts) (\<lambda>(err, prevok, ts).
                     Inr (if CommandIndex m > 1 \<and> prevok = False then Some (OutOfOrder i (CommandIndex m)) else err, ts)))
            (\<lambda>(err, ts).
          go_bind (test_srv i ts) (\<lambda>rs.
          let rs = rs\<lparr>rs_lastApplied := CommandIndex m\<rparr>;
              ts = set_srv i rs ts
          in go_bind (if (CommandIndex m + 1) mod SnapShotInterval = 0
                      then if rs_raft rs
                           then Raft_Snapshot (CommandIndex m) (Some (encode_snap (CommandIndex m) (rs_logs rs))) rf
                           else Inl (GoPanic ''nil pointer'')
                      else Inr rf) (\<lambda>rf. Inr (err, ts, rf))))
        else Inr (None, ts, rf)) (\<lambda>(err, ts, rf).
     if err \<noteq> None then Inl (LogFatal ''apply error'') else Inr (ts, rf))))"

definition newRfsrv ::
  "nat \<Rightarrow> int \<Rightarrow> ('c, 'c snap_value) Persister \<Rightarrow> bool \<Rightarrow> ('c rfsrv \<times> 'c test_raft) go" where
  "newRfsrv n srv ps snap =
     (let s = \<lparr>rs_me = srv, rs_applyErr = None, rs_lastApplied = 0, rs_raft = True, rs_logs = Map.empty\<rparr>;
          rf = Make n srv ps
      in if snap \<and> length (ReadSnapshot ps) > 0
         then go_bind (ingestSnap (Some (ReadSnapshot ps)) (- 1) s) (\<lambda>(err, s).
                if err \<noteq> None then Inl (LogFatal ''failed to ingest snapshot'') else Inr (s, rf))
         else Inr (s, rf))"

definition mksrv ::
  "int \<Rightarrow> ('c, 'c snap_value) Persister \<Rightarrow> 'c Test \<Rightarrow> ('c Test \<times> 'c test_raft) go" where
  "mksrv srv ps ts =
     go_bind (newRfsrv (t_n ts) srv ps (t_snapshot ts)) (\<lambda>(s, rf).
     go_bind (go_update (t_srvs ts) srv (Some s)) (\<lambda>ss. Inr (ts\<lparr>t_srvs := ss\<rparr>, rf)))"

definition makeTest :: "nat \<Rightarrow> bool \<Rightarrow> 'c Test" where
  "makeTest n snap = \<lparr>t_n = n, t_srvs = replicate n None, t_maxIndex = 0, t_snapshot = snap\<rparr>"

text \<open>\<open>nCommitted\<close>: the servers that applied \<open>index\<close>, and what they applied.\<close>

fun committed_loop :: "int \<Rightarrow> 'c rfsrv option list \<Rightarrow> int \<Rightarrow> 'c option \<Rightarrow> (int \<times> 'c option) go" where
  "committed_loop index [] cnt cmd = Inr (cnt, cmd)"
| "committed_loop index (None # ss) cnt cmd = Inl (GoPanic ''nil pointer'')"
| "committed_loop index (Some rs # ss) cnt cmd =
     (if rs_applyErr rs \<noteq> None then Inl (LogFatal ''apply error'')
      else case Logs index rs of
             Some cmd1 \<Rightarrow>
               if cnt > 0 \<and> cmd \<noteq> cmd1 then Inl (LogFatal ''committed values do not match'')
               else committed_loop index ss (cnt + 1) cmd1
           | None \<Rightarrow> committed_loop index ss cnt cmd)"

definition nCommitted :: "int \<Rightarrow> 'c Test \<Rightarrow> (int \<times> 'c option) go" where
  "nCommitted index ts = committed_loop index (t_srvs ts) 0 None"

definition checkNoAgreement :: "int \<Rightarrow> 'c Test \<Rightarrow> unit go" where
  "checkNoAgreement index ts =
     go_bind (nCommitted index ts) (\<lambda>(n, _). if n > 0 then Inl (LogFatal ''committed but no majority'') else Inr ())"

section \<open>Checking leaders and terms\<close>

text \<open>\<open>seen i\<close> is what \<open>ts.srvs[i].GetState()\<close> returns when the loop asks server \<open>i\<close>.\<close>

fun leaders_loop :: "('c, 'b, 'sv) ServerGrp \<Rightarrow> (int \<Rightarrow> int \<times> bool) \<Rightarrow> int list \<Rightarrow> (int \<times> int list) list \<Rightarrow> (int \<times> int list) list go" where
  "leaders_loop sg seen [] leaders = Inr leaders"
| "leaders_loop sg seen (i # is) leaders =
     go_bind (IsConnected i sg) (\<lambda>conn.
       leaders_loop sg seen is
         (if conn \<and> snd (seen i)
          then AList.update (fst (seen i))
                 ((case map_of leaders (fst (seen i)) of None \<Rightarrow> [] | Some l \<Rightarrow> l) @ [i]) leaders
          else leaders))"

text \<open>The loop over the map; \<open>order\<close> is the order in which it visits the keys.\<close>

fun terms_loop :: "(int \<times> int list) list \<Rightarrow> int list \<Rightarrow> int \<Rightarrow> int go" where
  "terms_loop leaders [] lastTerm = Inr lastTerm"
| "terms_loop leaders (term # order) lastTerm =
     (if length (the (map_of leaders term)) > 1 then Inl (LogFatal ''more than one leader'')
      else terms_loop leaders order (if term > lastTerm then term else lastTerm))"

definition leader_round ::
  "nat \<Rightarrow> ('c, 'b, 'sv) ServerGrp \<Rightarrow> (int \<Rightarrow> int \<times> bool) \<Rightarrow> (int list \<Rightarrow> int list) \<Rightarrow> int option go" where
  "leader_round n sg seen order =
     go_bind (leaders_loop sg seen (map int [0..<n]) []) (\<lambda>leaders.
     go_bind (terms_loop leaders (order (map fst leaders)) (- 1)) (\<lambda>lastTerm.
       if leaders \<noteq> []
       then go_bind (go_nth (case map_of leaders lastTerm of None \<Rightarrow> [] | Some l \<Rightarrow> l) 0) (\<lambda>l. Inr (Some l))
       else Inr None))"

text \<open>Ten rounds at most, each with what its servers answer.\<close>

fun checkOneLeader ::
  "nat \<Rightarrow> nat \<Rightarrow> ('c, 'b, 'sv) ServerGrp \<Rightarrow> (nat \<Rightarrow> int \<Rightarrow> int \<times> bool) \<Rightarrow> (int list \<Rightarrow> int list) \<Rightarrow> int go" where
  "checkOneLeader 0 n sg seen order = Inl (LogFatal ''expected one leader, got none'')"
| "checkOneLeader (Suc k) n sg seen order =
     go_bind (leader_round n sg (seen k) order) (\<lambda>r.
       case r of Some l \<Rightarrow> Inr l | None \<Rightarrow> checkOneLeader k n sg seen order)"

fun checkTerms_loop :: "('c, 'b, 'sv) ServerGrp \<Rightarrow> (int \<Rightarrow> int \<times> bool) \<Rightarrow> int list \<Rightarrow> int \<Rightarrow> int go" where
  "checkTerms_loop sg seen [] term = Inr term"
| "checkTerms_loop sg seen (i # is) term =
     go_bind (IsConnected i sg) (\<lambda>conn.
       if conn
       then if term = - 1 then checkTerms_loop sg seen is (fst (seen i))
            else if term \<noteq> fst (seen i) then Inl (LogFatal ''servers disagree on term'')
            else checkTerms_loop sg seen is term
       else checkTerms_loop sg seen is term)"

definition checkTerms :: "nat \<Rightarrow> ('c, 'b, 'sv) ServerGrp \<Rightarrow> (int \<Rightarrow> int \<times> bool) \<Rightarrow> int go" where
  "checkTerms n sg seen = checkTerms_loop sg seen (map int [0..<n]) (- 1)"

fun checkNoLeader_loop :: "('c, 'b, 'sv) ServerGrp \<Rightarrow> (int \<Rightarrow> int \<times> bool) \<Rightarrow> int list \<Rightarrow> unit go" where
  "checkNoLeader_loop sg seen [] = Inr ()"
| "checkNoLeader_loop sg seen (i # is) =
     go_bind (IsConnected i sg) (\<lambda>conn.
       if conn \<and> snd (seen i) then Inl (LogFatal ''leader'') else checkNoLeader_loop sg seen is)"

definition checkNoLeader :: "nat \<Rightarrow> ('c, 'b, 'sv) ServerGrp \<Rightarrow> (int \<Rightarrow> int \<times> bool) \<Rightarrow> unit go" where
  "checkNoLeader n sg seen = checkNoLeader_loop sg seen (map int [0..<n])"

section \<open>The checks are sound\<close>

text \<open>A test without snapshots: servers are made and made again, and receive messages that pass the
  checks.\<close>

inductive test_run :: "nat \<Rightarrow> 'c Test \<Rightarrow> bool" for n :: nat where
  start: "test_run n (makeTest n False)"
| make: "test_run n ts \<Longrightarrow> mksrv i ps ts = Inr (ts', rf) \<Longrightarrow> test_run n ts'"
| message: "test_run n ts \<Longrightarrow> applier i m ts = Inr ts' \<Longrightarrow> test_run n ts'"

definition logs_agree :: "'c Test \<Rightarrow> bool" where
  "logs_agree ts \<longleftrightarrow> (\<forall>rs rs' k v w. Some rs \<in> set (t_srvs ts) \<longrightarrow> Some rs' \<in> set (t_srvs ts) \<longrightarrow>
     rs_logs rs k = Some v \<longrightarrow> rs_logs rs' k = Some w \<longrightarrow> v = w)"

definition no_gap :: "'c rfsrv \<Rightarrow> bool" where
  "no_gap rs \<longleftrightarrow> rs_applyErr rs = None \<and> (\<forall>k > 1. rs_logs rs k \<noteq> None \<longrightarrow> rs_logs rs (k - 1) \<noteq> None)"

definition test_ok :: "'c Test \<Rightarrow> bool" where
  "test_ok ts \<longleftrightarrow> \<not> t_snapshot ts \<and> logs_agree ts \<and> (\<forall>rs. Some rs \<in> set (t_srvs ts) \<longrightarrow> no_gap rs)"

lemma logs_agreeD:
  "logs_agree ts \<Longrightarrow> Some rs \<in> set (t_srvs ts) \<Longrightarrow> Some rs' \<in> set (t_srvs ts) \<Longrightarrow>
   rs_logs rs k = Some v \<Longrightarrow> rs_logs rs' k = Some w \<Longrightarrow> v = w"
  unfolding logs_agree_def by blast

lemma logs_loop_None:
  "logs_loop i m j ss err = Inr None \<longleftrightarrow>
   None \<notin> set ss \<and> err = None \<and> (\<forall>rs. Some rs \<in> set ss \<longrightarrow> rs_logs rs (CommandIndex m) \<in> {None, Some (am_Command m)})"
  by (induction i m j ss err rule: logs_loop.induct) (auto simp: Logs_def split: option.splits)

lemma applier_Inr:
  assumes "applier i m ts = Inr ts'" and "CommandValid m"
  obtains rs where "0 \<le> i" "i < go_len (t_srvs ts)" "t_srvs ts ! nat i = Some rs"
    "\<forall>rs. Some rs \<in> set (t_srvs ts) \<longrightarrow> rs_logs rs (CommandIndex m) \<in> {None, Some (am_Command m)}"
    "CommandIndex m > 1 \<longrightarrow> rs_logs rs (CommandIndex m - 1) \<noteq> None"
    "t_srvs ts' = (t_srvs ts)[nat i := Some (rs\<lparr>rs_logs := (rs_logs rs)(CommandIndex m \<mapsto> am_Command m)\<rparr>)]"
    "t_snapshot ts' = t_snapshot ts"
proof -
  from assms obtain err prevok ts1 where c: "checkLogs i m ts = Inr (err, prevok, ts1)"
    and e: "err = None" "CommandIndex m > 1 \<longrightarrow> prevok" "ts' = ts1"
    by (auto simp: applier_def go_bind_eq_Inr_iff Let_def split: if_splits)
  from c e(1) obtain rs where l: "logs_loop i m 0 (t_srvs ts) None = Inr None" and rs: "test_srv i ts = Inr rs"
    and p: "prevok \<longleftrightarrow> rs_logs rs (CommandIndex m - 1) \<noteq> None"
    and t: "t_srvs ts1 = (t_srvs ts)[nat i := Some (rs\<lparr>rs_logs := (rs_logs rs)(CommandIndex m \<mapsto> am_Command m)\<rparr>)]"
      "t_snapshot ts1 = t_snapshot ts"
    by (auto simp: checkLogs_def go_bind_eq_Inr_iff Let_def set_srv_def split: if_splits)
  from rs have "0 \<le> i" "i < go_len (t_srvs ts)" "t_srvs ts ! nat i = Some rs"
    by (auto simp: test_srv_def go_bind_eq_Inr_iff go_nth_eq_Inr_iff split: option.splits)
  with l p t e show thesis by (intro that) (auto simp: logs_loop_None)
qed

lemma applier_keeps:
  assumes "applier i m ts = Inr ts'" and ok: "test_ok ts"
  shows "test_ok ts'"
proof (cases "CommandValid m")
  case False
  then show ?thesis using assms by (simp add: applier_def)
next
  case True
  from assms(1) True obtain rs where i: "0 \<le> i" "i < go_len (t_srvs ts)" "t_srvs ts ! nat i = Some rs"
    and cons: "\<forall>rs. Some rs \<in> set (t_srvs ts) \<longrightarrow> rs_logs rs (CommandIndex m) \<in> {None, Some (am_Command m)}"
    and prev: "CommandIndex m > 1 \<longrightarrow> rs_logs rs (CommandIndex m - 1) \<noteq> None"
    and ts': "t_srvs ts' = (t_srvs ts)[nat i := Some (rs\<lparr>rs_logs := (rs_logs rs)(CommandIndex m \<mapsto> am_Command m)\<rparr>)]"
      "t_snapshot ts' = t_snapshot ts"
    by (rule applier_Inr)
  let ?rs = "rs\<lparr>rs_logs := (rs_logs rs)(CommandIndex m \<mapsto> am_Command m)\<rparr>"
  have mem: "Some rs \<in> set (t_srvs ts)" using i nth_mem [of "nat i" "t_srvs ts"] by auto
  have new: "r = ?rs \<or> Some r \<in> set (t_srvs ts)" if "Some r \<in> set (t_srvs ts')" for r
    using that set_update_subset_insert [of "t_srvs ts" "nat i" "Some ?rs"] by (auto simp: ts')
  have la: "logs_agree ts" using ok by (simp add: test_ok_def)
  have src: "if k = CommandIndex m then v = am_Command m else \<exists>r0. Some r0 \<in> set (t_srvs ts) \<and> rs_logs r0 k = Some v"
    if "Some r \<in> set (t_srvs ts')" "rs_logs r k = Some v" for r k v
    using new [OF that(1)]
  proof
    assume "r = ?rs"
    then show ?thesis using that(2) mem by (auto split: if_splits)
  next
    assume r: "Some r \<in> set (t_srvs ts)"
    then show ?thesis using cons [rule_format, OF r] that(2) by auto
  qed
  have "logs_agree ts'"
    unfolding logs_agree_def
  proof (intro allI impI)
    fix r r' k v w assume r: "Some r \<in> set (t_srvs ts')" "Some r' \<in> set (t_srvs ts')" "rs_logs r k = Some v" "rs_logs r' k = Some w"
    show "v = w" using src [OF r(1,3)] src [OF r(2,4)] logs_agreeD [OF la] by (auto split: if_splits)
  qed
  moreover have "no_gap ?rs" using prev ok mem by (auto simp: test_ok_def no_gap_def)
  ultimately show ?thesis using ok new by (auto simp: test_ok_def ts'(2))
qed

lemma mksrv_keeps:
  assumes "mksrv i ps ts = Inr (ts', rf)" and ok: "test_ok ts"
  shows "test_ok ts'"
proof -
  let ?rs = "\<lparr>rs_me = i, rs_applyErr = None, rs_lastApplied = 0, rs_raft = True, rs_logs = Map.empty\<rparr>"
  have ts': "t_srvs ts' = (t_srvs ts)[nat i := Some ?rs]" "t_snapshot ts' = t_snapshot ts"
    using assms by (auto simp: mksrv_def newRfsrv_def test_ok_def Let_def go_bind_eq_Inr_iff go_update_eq_Inr_iff)
  have new: "r = ?rs \<or> Some r \<in> set (t_srvs ts)" if "Some r \<in> set (t_srvs ts')" for r
    using that set_update_subset_insert [of "t_srvs ts" "nat i" "Some ?rs"] by (auto simp: ts')
  have la: "logs_agree ts" using ok by (simp add: test_ok_def)
  have "logs_agree ts'"
    unfolding logs_agree_def
  proof (intro allI impI)
    fix r r' k v w assume r: "Some r \<in> set (t_srvs ts')" "Some r' \<in> set (t_srvs ts')" "rs_logs r k = Some v" "rs_logs r' k = Some w"
    then show "v = w" using new [OF r(1)] new [OF r(2)] logs_agreeD [OF la, of r r' k v w] by auto
  qed
  moreover have "no_gap ?rs" by (simp add: no_gap_def)
  ultimately show ?thesis using ok new by (auto simp: test_ok_def ts'(2))
qed

lemma test_run_ok: "test_run n ts \<Longrightarrow> test_ok ts"
proof (induction rule: test_run.induct)
  case start
  then show ?case by (simp add: test_ok_def logs_agree_def makeTest_def)
qed (blast intro: applier_keeps mksrv_keeps)+

definition applied :: "int \<Rightarrow> 'c rfsrv option \<Rightarrow> bool" where
  "applied k p \<longleftrightarrow> (case p of None \<Rightarrow> False | Some rs \<Rightarrow> rs_logs rs k \<noteq> None)"

lemma applied_simps [simp]: "\<not> applied k None" "applied k (Some rs) \<longleftrightarrow> rs_logs rs k \<noteq> None"
  by (simp_all add: applied_def)

text \<open>No error, and nothing but \<open>c\<close> at index \<open>k\<close>.\<close>

definition clean :: "int \<Rightarrow> 'c option \<Rightarrow> 'c rfsrv option \<Rightarrow> bool" where
  "clean k c p \<longleftrightarrow> (case p of None \<Rightarrow> False
     | Some rs \<Rightarrow> rs_applyErr rs = None \<and> (rs_logs rs k = None \<or> rs_logs rs k = Some c))"

lemma committed_loop_ok:
  assumes "\<forall>p \<in> set ss. clean k c p" and "0 \<le> cnt" and "cnt > 0 \<longrightarrow> cmd = c"
  shows "committed_loop k ss cnt cmd =
    Inr (cnt + int (length (filter (applied k) ss)), if \<exists>p \<in> set ss. applied k p then c else cmd)"
  using assms
proof (induction ss arbitrary: cnt cmd)
  case (Cons p ss)
  then obtain rs where p: "p = Some rs" and rs: "rs_applyErr rs = None" "rs_logs rs k = None \<or> rs_logs rs k = Some c"
    by (cases p) (simp_all add: clean_def)
  have ss: "\<forall>p \<in> set ss. clean k c p" using Cons.prems(1) by simp
  from rs(2) show ?case
  proof
    assume "rs_logs rs k = None"
    then show ?thesis using Cons.IH [OF ss Cons.prems(2,3)] rs(1) by (simp add: p Logs_def)
  next
    assume "rs_logs rs k = Some c"
    then show ?thesis
      using Cons.IH [OF ss, of "cnt + 1" c] Cons.prems(2,3) rs(1) by (auto simp: p Logs_def)
  qed
qed simp

lemma no_gap_below:
  assumes "no_gap rs" and "rs_logs rs k \<noteq> None" and "1 \<le> j" and "j \<le> k"
  shows "rs_logs rs j \<noteq> None"
proof -
  have "1 \<le> k - int d \<Longrightarrow> rs_logs rs (k - int d) \<noteq> None" for d
  proof (induction d)
    case (Suc d)
    then have "k - int d > 1" "rs_logs rs (k - int d) \<noteq> None" by auto
    then have "rs_logs rs (k - int d - 1) \<noteq> None" using assms(1) unfolding no_gap_def by blast
    then show ?case by (simp add: algebra_simps)
  qed (use assms(2) in simp)
  from this [of "nat (k - j)"] show ?thesis using assms(3,4) by simp
qed

text \<open>C22: in a test without snapshots in which no check has failed, after any number of restarts,
  the servers agree: \<open>nCommitted\<close> succeeds for every index, returns how many servers have applied it
  and the command they all applied, and what a server has applied has no gap.\<close>
theorem applied_logs_agree:
  assumes "test_run n ts" and "None \<notin> set (t_srvs ts)"
  shows "\<exists>c. nCommitted k ts = Inr (int (length (filter (applied k) (t_srvs ts))), c) \<and>
    (\<forall>rs. Some rs \<in> set (t_srvs ts) \<longrightarrow> rs_logs rs k \<in> {None, Some c} \<and>
       (\<forall>j. rs_logs rs k \<noteq> None \<longrightarrow> 1 \<le> j \<longrightarrow> j \<le> k \<longrightarrow> rs_logs rs j \<noteq> None))"
proof -
  have ok: "test_ok ts" by (rule test_run_ok [OF assms(1)])
  have la: "logs_agree ts" and ng: "no_gap rs" if "Some rs \<in> set (t_srvs ts)" for rs
    using ok that by (auto simp: test_ok_def)
  have "\<exists>c. \<forall>rs. Some rs \<in> set (t_srvs ts) \<longrightarrow> rs_logs rs k \<in> {None, Some c}"
  proof (cases "\<exists>rs c. Some rs \<in> set (t_srvs ts) \<and> rs_logs rs k = Some c")
    case True
    then obtain rs c where rs: "Some rs \<in> set (t_srvs ts)" "rs_logs rs k = Some c" by blast
    have "rs_logs r k \<in> {None, Some c}" if "Some r \<in> set (t_srvs ts)" for r
      using logs_agreeD [OF la rs(1) that rs(2)] rs that by (cases "rs_logs r k") auto
    then show ?thesis by blast
  qed auto
  then obtain c where c: "\<forall>rs. Some rs \<in> set (t_srvs ts) \<longrightarrow> rs_logs rs k \<in> {None, Some c}" by blast
  have cl: "clean k c p" if "p \<in> set (t_srvs ts)" for p
  proof (cases p)
    case (Some rs)
    have "rs_applyErr rs = None" "rs_logs rs k \<in> {None, Some c}" using ng [of rs] c that Some by (auto simp: no_gap_def)
    then show ?thesis by (simp add: clean_def Some)
  qed (use that assms(2) in simp)
  let ?c = "if \<exists>p \<in> set (t_srvs ts). applied k p then c else None"
  have "nCommitted k ts = Inr (int (length (filter (applied k) (t_srvs ts))), ?c)"
    unfolding nCommitted_def by (subst committed_loop_ok [of _ k c]) (use cl in simp_all)
  moreover have "rs_logs rs k \<in> {None, Some ?c}" if "Some rs \<in> set (t_srvs ts)" for rs
    using c that by (fastforce simp: applied_def)
  ultimately show ?thesis using no_gap_below [OF ng] by blast
qed

section \<open>The check for one leader passes\<close>

text \<open>The connected servers among \<open>is\<close> seen as leaders of a term.\<close>

definition seen_leaders :: "('c, 'b, 'sv) ServerGrp \<Rightarrow> (int \<Rightarrow> int \<times> bool) \<Rightarrow> int list \<Rightarrow> int \<Rightarrow> int list" where
  "seen_leaders sg seen is t = filter (\<lambda>i. sg_connected sg ! nat i \<and> seen i = (t, True)) is"

lemma seen_leaders_simps [simp]:
  "seen_leaders sg seen [] t = []"
  "seen_leaders sg seen (is @ js) t = seen_leaders sg seen is t @ seen_leaders sg seen js t"
  "seen_leaders sg seen (i # is) t =
    (if sg_connected sg ! nat i \<and> seen i = (t, True) then [i] else []) @ seen_leaders sg seen is t"
  by (simp_all add: seen_leaders_def)

definition collected :: "(int \<times> int list) list \<Rightarrow> (int \<Rightarrow> int list) \<Rightarrow> bool" where
  "collected leaders f \<longleftrightarrow> (\<forall>t. map_of leaders t = (if f t = [] then None else Some (f t)))"

lemma leaders_loop_collected:
  assumes "\<forall>i \<in> set is. 0 \<le> i \<and> i < go_len (sg_connected sg)" and "collected leaders (seen_leaders sg seen js)"
  shows "\<exists>leaders'. leaders_loop sg seen is leaders = Inr leaders' \<and> collected leaders' (seen_leaders sg seen (js @ is))"
  using assms
proof (induction "is" arbitrary: leaders js)
  case (Cons i "is")
  let ?leaders = "if sg_connected sg ! nat i \<and> snd (seen i)
    then AList.update (fst (seen i)) ((case map_of leaders (fst (seen i)) of None \<Rightarrow> [] | Some l \<Rightarrow> l) @ [i]) leaders
    else leaders"
  have "collected ?leaders (seen_leaders sg seen (js @ [i]))"
    using Cons.prems(2) by (cases "seen i") (auto simp: collected_def update_conv)
  from Cons.IH [OF _ this] Cons.prems(1) show ?case by (simp add: IsConnected_def)
qed simp

lemma terms_loop_max:
  assumes "\<forall>t \<in> set order. length (the (map_of leaders t)) \<le> 1"
  shows "\<exists>m. terms_loop leaders order lt = Inr m \<and> m \<in> insert lt (set order) \<and> (\<forall>t \<in> insert lt (set order). t \<le> m)"
  using assms
proof (induction order arbitrary: lt)
  case (Cons t order)
  then obtain m where "terms_loop leaders order (if t > lt then t else lt) = Inr m"
    "m \<in> insert (if t > lt then t else lt) (set order)"
    "\<forall>u \<in> insert (if t > lt then t else lt) (set order). u \<le> m"
    by (metis list.set_intros(2))
  then show ?case using Cons.prems by (intro exI [of _ m]) (auto split: if_splits)
qed simp

lemma distinct_singleton: "distinct xs \<Longrightarrow> set xs = {x} \<Longrightarrow> xs = [x]"
proof (cases xs)
  case (Cons y ys)
  moreover assume "distinct xs" "set xs = {x}"
  ultimately show ?thesis by (cases ys) auto
qed simp

text \<open>What the loop of one round collects, and what the round returns, when the leaders it can see
  have different terms.\<close>

definition leaders_seen :: "nat \<Rightarrow> ('c, 'b, 'sv) ServerGrp \<Rightarrow> (int \<Rightarrow> int \<times> bool) \<Rightarrow> int set" where
  "leaders_seen n sg seen = {i. 0 \<le> i \<and> i < int n \<and> sg_connected sg ! nat i \<and> snd (seen i)}"

definition one_per_term :: "nat \<Rightarrow> (int \<Rightarrow> int \<times> bool) \<Rightarrow> bool" where
  "one_per_term n seen \<longleftrightarrow> (\<forall>i j. 0 \<le> i \<longrightarrow> i < j \<longrightarrow> j < int n \<longrightarrow> snd (seen i) \<longrightarrow> snd (seen j) \<longrightarrow> fst (seen i) \<noteq> fst (seen j))"

lemma leaders_collected:
  fixes sg :: "('c, 'b, 'sv) ServerGrp"
  assumes conn: "length (sg_connected sg) = n" and one: "one_per_term n seen"
  defines "L \<equiv> leaders_seen n sg seen"
  obtains ls where "leaders_loop sg seen (map int [0..<n]) [] = Inr ls"
    "\<And>t. t \<in> set (map fst ls) \<longleftrightarrow> (\<exists>i \<in> L. fst (seen i) = t)" "\<And>i. i \<in> L \<Longrightarrow> map_of ls (fst (seen i)) = Some [i]"
proof -
  let ?is = "map int [0..<n]"
  have is_set: "i \<in> set ?is \<longleftrightarrow> 0 \<le> i \<and> i < int n" for i using image_int_atLeastLessThan [of 0 n] by auto
  obtain ls where ls: "leaders_loop sg seen ?is [] = Inr ls" "collected ls (seen_leaders sg seen ?is)"
    using leaders_loop_collected [of ?is sg "[]" seen "[]"] conn is_set by (auto simp: collected_def)
  have sl: "i \<in> set (seen_leaders sg seen ?is t) \<longleftrightarrow> i \<in> L \<and> fst (seen i) = t" for i t
    using is_set by (cases "seen i") (auto simp: seen_leaders_def L_def leaders_seen_def)
  have "t \<in> set (map fst ls) \<longleftrightarrow> (\<exists>i \<in> L. fst (seen i) = t)" for t
  proof -
    have "t \<in> set (map fst ls) \<longleftrightarrow> map_of ls t \<noteq> None" by (simp add: map_of_eq_None_iff)
    also have "\<dots> \<longleftrightarrow> (\<exists>i. i \<in> set (seen_leaders sg seen ?is t))"
      using ls(2) by (cases "seen_leaders sg seen ?is t") (simp_all add: collected_def del: map_map, blast)
    finally show ?thesis by (auto simp: sl)
  qed
  moreover have "map_of ls (fst (seen i)) = Some [i]" if i: "i \<in> L" for i
  proof -
    have "i = j" if "j \<in> L" "fst (seen i) = fst (seen j)" for j
      using one [unfolded one_per_term_def, rule_format, of i j] one [unfolded one_per_term_def, rule_format, of j i] i that
      by (cases i j rule: linorder_cases) (auto simp: L_def leaders_seen_def)
    then have "set (seen_leaders sg seen ?is (fst (seen i))) = {i}" using sl i by force
    moreover have "distinct (seen_leaders sg seen ?is (fst (seen i)))"
      by (simp add: seen_leaders_def distinct_map inj_on_def)
    ultimately have "seen_leaders sg seen ?is (fst (seen i)) = [i]" by (rule distinct_singleton [rotated])
    then show ?thesis using ls(2) by (simp add: collected_def)
  qed
  ultimately show thesis by (rule that [OF ls(1)])
qed

lemma leader_round_returns:
  fixes sg :: "('c, 'b, 'sv) ServerGrp"
  assumes conn: "length (sg_connected sg) = n" and order: "\<And>xs. set (order xs) = set xs"
    and pos: "\<And>i. 0 \<le> i \<Longrightarrow> i < int n \<Longrightarrow> 0 \<le> fst (seen i)"
    and one: "one_per_term n seen"
  defines "L \<equiv> leaders_seen n sg seen"
  shows "if L = {} then leader_round n sg seen order = Inr None
    else \<exists>l \<in> L. leader_round n sg seen order = Inr (Some l) \<and> (\<forall>i \<in> L. fst (seen i) \<le> fst (seen l))"
proof -
  obtain ls where ls: "leaders_loop sg seen (map int [0..<n]) [] = Inr ls"
    and keys: "\<And>t. t \<in> set (map fst ls) \<longleftrightarrow> (\<exists>i \<in> L. fst (seen i) = t)"
    and single: "\<And>i. i \<in> L \<Longrightarrow> map_of ls (fst (seen i)) = Some [i]"
    using leaders_collected [OF conn one, folded L_def] by blast
  have len: "\<forall>t \<in> set (order (map fst ls)). length (the (map_of ls t)) \<le> 1"
  proof
    fix t assume "t \<in> set (order (map fst ls))"
    then obtain i where "i \<in> L" "fst (seen i) = t" using keys order by blast
    then show "length (the (map_of ls t)) \<le> 1" using single by fastforce
  qed
  obtain m where m: "terms_loop ls (order (map fst ls)) (- 1) = Inr m" "m \<in> insert (- 1) (set (map fst ls))"
    "\<And>t. t \<in> set (map fst ls) \<Longrightarrow> t \<le> m" using terms_loop_max [OF len, of "- 1"] order by auto
  show ?thesis
  proof (cases "L = {}")
    case True
    then have "ls = []" using keys by (cases ls) auto
    then show ?thesis using True ls m(1) by (simp add: leader_round_def)
  next
    case False
    then obtain i where i: "i \<in> L" by blast
    then have "0 \<le> fst (seen i)" "fst (seen i) \<le> m" using pos m(3) keys by (auto simp: L_def leaders_seen_def)
    then obtain l where l: "l \<in> L" "fst (seen l) = m" using m(2) keys by auto
    have "ls \<noteq> []" using single [OF i] by auto
    then have "leader_round n sg seen order = Inr (Some l)"
      using ls m(1) single [OF l(1)] l(2) by (simp add: leader_round_def)
    then show ?thesis using False l m(3) keys by auto
  qed
qed

text \<open>Server \<open>i\<close> is asked when the cluster is in state \<open>\<sigma> i\<close>, one after the other.\<close>

definition asked_in_turn :: "'b \<Rightarrow> nat \<Rightarrow> (nat \<Rightarrow> ('c, 'b) cluster) \<Rightarrow> bool" where
  "asked_in_turn zero n \<sigma> \<longleftrightarrow> cluster_reachable zero n (\<sigma> 0) \<and>
     (\<forall>i. Suc i < n \<longrightarrow> (cluster_step zero n)\<^sup>*\<^sup>* (\<sigma> i) (\<sigma> (Suc i)))"

definition states_seen :: "(nat \<Rightarrow> ('c, 'b) cluster) \<Rightarrow> int \<Rightarrow> int \<times> bool" where
  "states_seen \<sigma> i = GetState (nodes (\<sigma> (nat i)) i)"

lemma asked_run:
  assumes "asked_in_turn zero n \<sigma>" and "i \<le> j" and "j < n"
  shows "cluster_reachable zero n (\<sigma> i) \<and> (cluster_step zero n)\<^sup>*\<^sup>* (\<sigma> i) (\<sigma> j)"
proof -
  have reach: "cluster_reachable zero n (\<sigma> k)" if "k < n" for k
    using that
  proof (induction k)
    case (Suc k)
    then show ?case using assms(1) run_grows [of zero n "\<sigma> k" "\<sigma> (Suc k)"] by (simp add: asked_in_turn_def)
  qed (use assms(1) in \<open>simp add: asked_in_turn_def\<close>)
  have "(cluster_step zero n)\<^sup>*\<^sup>* (\<sigma> i) (\<sigma> (i + d))" if "i + d < n" for d
    using that
  proof (induction d)
    case (Suc d)
    then show ?case using assms(1) rtranclp_trans [of _ "\<sigma> i" "\<sigma> (i + d)" "\<sigma> (Suc (i + d))"] by (simp add: asked_in_turn_def)
  qed simp
  from this [of "j - i"] reach [of i] assms(2,3) show ?thesis by simp
qed

lemma states_seen_ok:
  assumes "asked_in_turn zero n \<sigma>"
  shows "one_per_term n (states_seen \<sigma>)" and "0 \<le> i \<Longrightarrow> i < int n \<Longrightarrow> 0 \<le> fst (states_seen \<sigma> i)"
proof -
  show "one_per_term n (states_seen \<sigma>)"
    unfolding one_per_term_def
  proof (intro allI impI notI)
    fix i j :: int
    assume ij: "0 \<le> i" "i < j" "j < int n" and L: "snd (states_seen \<sigma> i)" "snd (states_seen \<sigma> j)"
      and t: "fst (states_seen \<sigma> i) = fst (states_seen \<sigma> j)"
    have "nat i \<le> nat j" "nat j < n" using ij by auto
    note r = asked_run [OF assms this]
    have "i = j"
      by (rule leaders_over_time [OF r [THEN conjunct1] r [THEN conjunct2]]) (use ij L t in \<open>auto simp: states_seen_def GetState_def\<close>)
    with ij(2) show False by simp
  qed
  assume i: "0 \<le> i" "i < int n"
  then have "nat i < n" by auto
  from asked_run [OF assms order_refl this] show "0 \<le> fst (states_seen \<sigma> i)"
    using reachable_term [of zero n "\<sigma> (nat i)" i] i(1) by (simp add: states_seen_def GetState_def)
qed

text \<open>C21: \<open>checkOneLeader\<close> never finds two leaders of one term, although it asks the servers one after
  the other while the cluster runs on.  If in some of its rounds a connected server answers that it
  is the leader, the check returns a connected server that said so in a round, with the highest term
  among those that said so in that round; otherwise it fails because it found none.\<close>
theorem checkOneLeader_passes:
  fixes sg :: "('c2, 'b2, 'sv) ServerGrp" and \<sigma> :: "nat \<Rightarrow> nat \<Rightarrow> ('c, 'b) cluster"
  assumes "\<And>k. k < rounds \<Longrightarrow> asked_in_turn zero n (\<sigma> k)"
    and "length (sg_connected sg) = n" and "\<And>xs. set (order xs) = set xs"
  shows "if \<forall>k < rounds. leaders_seen n sg (states_seen (\<sigma> k)) = {}
    then checkOneLeader rounds n sg (\<lambda>k. states_seen (\<sigma> k)) order = Inl (LogFatal ''expected one leader, got none'')
    else \<exists>k < rounds. \<exists>l \<in> leaders_seen n sg (states_seen (\<sigma> k)).
      checkOneLeader rounds n sg (\<lambda>k. states_seen (\<sigma> k)) order = Inr l \<and>
      (\<forall>i \<in> leaders_seen n sg (states_seen (\<sigma> k)). fst (states_seen (\<sigma> k) i) \<le> fst (states_seen (\<sigma> k) l))"
  using assms(1)
proof (induction rounds)
  case (Suc k)
  let ?L = "leaders_seen n sg (states_seen (\<sigma> k))"
  have "asked_in_turn zero n (\<sigma> k)" using Suc.prems by simp
  note r = leader_round_returns [OF assms(2,3) states_seen_ok(2,1) [OF this]]
  show ?case
  proof (cases "?L = {}")
    case True
    then have "leader_round n sg (states_seen (\<sigma> k)) order = Inr None" using r by simp
    then have eq: "checkOneLeader (Suc k) n sg (\<lambda>k. states_seen (\<sigma> k)) order = checkOneLeader k n sg (\<lambda>k. states_seen (\<sigma> k)) order"
      by simp
    have all: "(\<forall>j < Suc k. leaders_seen n sg (states_seen (\<sigma> j)) = {}) \<longleftrightarrow> (\<forall>j < k. leaders_seen n sg (states_seen (\<sigma> j)) = {})"
      using True by (auto simp: less_Suc_eq)
    have "\<And>j. j < k \<Longrightarrow> asked_in_turn zero n (\<sigma> j)" using Suc.prems by simp
    note ih = Suc.IH [OF this]
    show ?thesis
      unfolding eq all using ih by (cases "\<forall>j < k. leaders_seen n sg (states_seen (\<sigma> j)) = {}") (simp, metis less_SucI)
  next
    case False
    then show ?thesis using r by (auto simp: less_Suc_eq)
  qed
qed simp

section \<open>Snapshots\<close>

lemma logs_of_nth: "logs_of xlog k = (if 0 \<le> k \<and> k < go_len xlog then Some (xlog ! nat k) else None)"
proof -
  have "fold (\<lambda>j m. m(int j \<mapsto> xlog ! j)) [0..<d] Map.empty k = (if 0 \<le> k \<and> k < int d then Some (xlog ! nat k) else None)" for d
  proof (induction d)
    case (Suc d)
    then show ?case by (cases "k = int d") auto
  qed simp
  then show ?thesis by (simp add: logs_of_def)
qed

lemma ingest_encoded:
  assumes "0 \<le> index" and "idx = - 1 \<or> idx = index"
  shows "ingestSnap (Some (encode_snap index logs)) idx rs =
    Inr (None, rs\<lparr>rs_lastApplied := index,
      rs_logs := (\<lambda>j. if 0 \<le> j \<and> j \<le> index then Some (case logs j of Some v \<Rightarrow> v | None \<Rightarrow> None) else None)\<rparr>)"
proof -
  have "logs_of (map (\<lambda>j. case logs (int j) of Some v \<Rightarrow> v | None \<Rightarrow> None) [0..<nat (index + 1)]) =
    (\<lambda>j. if 0 \<le> j \<and> j \<le> index then Some (case logs j of Some v \<Rightarrow> v | None \<Rightarrow> None) else None)"
    using assms(1) by (intro ext) (auto simp: logs_of_nth)
  then show ?thesis using assms(2) by (auto simp: ingestSnap_def encode_snap_def)
qed

lemma applierSnap_snapshot:
  assumes "applierSnap i m (ts, rf) = Inr (ts', rf')" and "CommandValid m" "\<not> SnapshotValid m"
    and "(CommandIndex m + 1) mod SnapShotInterval = 0"
  obtains rs where "test_srv i ts' = Inr rs" "rs_lastApplied rs = CommandIndex m"
    "Raft_Snapshot (CommandIndex m) (Some (encode_snap (CommandIndex m) (rs_logs rs))) rf = Inr rf'"
proof -
  from assms obtain ts1 rs where rs: "test_srv i ts1 = Inr rs"
    and ts': "ts' = set_srv i (rs\<lparr>rs_lastApplied := CommandIndex m\<rparr>) ts1"
    and snap: "Raft_Snapshot (CommandIndex m) (Some (encode_snap (CommandIndex m) (rs_logs rs))) rf = Inr rf'"
    by (auto simp: applierSnap_def go_bind_eq_Inr_iff Let_def split: if_splits)
  have "test_srv i ts' = Inr (rs\<lparr>rs_lastApplied := CommandIndex m\<rparr>)"
    using rs by (auto simp: ts' test_srv_def set_srv_def go_bind_eq_Inr_iff go_nth_eq_Inr_iff split: option.splits)
  then show thesis by (rule that) (use snap in simp_all)
qed

text \<open>C25: when a test server has applied a command at which it makes a snapshot and its peer takes
  the snapshot, a server started again on the persisted state has the same last applied index and
  everything it had applied up to it, and its new peer will apply the commands right after it.\<close>
theorem snapshot_restores_server:
  assumes "applierSnap i m (ts, rf) = Inr (ts', rf')" and "CommandValid m" "\<not> SnapshotValid m"
    and "(CommandIndex m + 1) mod SnapShotInterval = 0"
    and "wf_raft rf" and "lastSnapshotIndex rf < CommandIndex m" and "CommandIndex m \<le> GetLastIndex rf"
  shows "\<exists>rs rs' rf''. test_srv i ts' = Inr rs \<and>
    newRfsrv n i (Persister_Copy (persister rf')) True = Inr (rs', rf'') \<and>
    rs_lastApplied rs' = rs_lastApplied rs \<and> lastApplied rf'' = rs_lastApplied rs \<and>
    (\<forall>j v. 0 \<le> j \<longrightarrow> j \<le> rs_lastApplied rs \<longrightarrow> rs_logs rs j = Some v \<longrightarrow> rs_logs rs' j = Some v)"
proof -
  obtain rs where rs: "test_srv i ts' = Inr rs" "rs_lastApplied rs = CommandIndex m"
    and snap: "Raft_Snapshot (CommandIndex m) (Some (encode_snap (CommandIndex m) (rs_logs rs))) rf = Inr rf'"
    using applierSnap_snapshot [OF assms(1-4)] .
  have pos: "0 \<le> CommandIndex m" using wf_raftD(2) [OF assms(5)] assms(6) by simp
  let ?snap = "encode_snap (CommandIndex m) (rs_logs rs)"
  have rf': "lastSnapshotIndex rf' = CommandIndex m" "snapshot (persister rf') = ?snap"
    using snap Raft_Snapshot_eq [OF assms(6,7), of "Some ?snap"] by (auto simp: Let_def persist_def)
  have wf: "persisted_ok rf'" "log rf' \<noteq> []"
    using Raft_Snapshot_keeps [OF assms(5) snap] wf_raftD(1,4) [of rf'] by blast+
  have "length ?snap > 0" by (simp add: encode_snap_def)
  then obtain rs' where new: "newRfsrv n i (Persister_Copy (persister rf')) True = Inr (rs', Make n i (Persister_Copy (persister rf')))"
    and rs': "rs_lastApplied rs' = CommandIndex m"
      "rs_logs rs' = (\<lambda>j. if 0 \<le> j \<and> j \<le> CommandIndex m then Some (case rs_logs rs j of Some v \<Rightarrow> v | None \<Rightarrow> None) else None)"
    using ingest_encoded [OF pos, of "- 1" "rs_logs rs"] by (simp add: newRfsrv_def ReadSnapshot_def rf'(2))
  have "lastApplied (Make n i (Persister_Copy (persister rf'))) = CommandIndex m"
    using Make_fields(6) [OF wf, of "Persister_Copy (persister rf')" n i] rf'(1) by simp
  with rs new rs' show ?thesis by auto
qed

subsection \<open>Examples\<close>

definition demo_srv :: "int \<Rightarrow> int \<Rightarrow> nat rfsrv" where
  "demo_srv i k = \<lparr>rs_me = i, rs_applyErr = None, rs_lastApplied = 0, rs_raft = True,
     rs_logs = (\<lambda>j. if 1 \<le> j \<and> j \<le> k then Some (Some 7) else None)\<rparr>"

definition demo_test :: "int \<Rightarrow> nat Test" where
  "demo_test k = \<lparr>t_n = 2, t_srvs = [Some (demo_srv 0 k), Some (demo_srv 1 0)], t_maxIndex = k, t_snapshot = False\<rparr>"

lemma demo_test_run: "test_run 2 (demo_test 1)"
proof -
  have srv: "newRfsrv 2 i MakePersister False = Inr (demo_srv i 0, Make 2 i MakePersister)" for i
    by (simp add: newRfsrv_def demo_srv_def fun_eq_iff)
  have replicate_2: "replicate 2 None = [None, None :: nat rfsrv option]" by (simp add: numeral_2_eq_2)
  have "test_run 2 (makeTest 2 False)" by (rule test_run.start)
  then have "test_run 2 (\<lparr>t_n = 2, t_srvs = [Some (demo_srv 0 0), None], t_maxIndex = 0, t_snapshot = False\<rparr>)"
    by (rule test_run.make [of _ _ 0 MakePersister]) (simp add: mksrv_def srv makeTest_def replicate_2)
  then have "test_run 2 (demo_test 0)"
    by (rule test_run.make [of _ _ 1 MakePersister]) (simp add: mksrv_def srv demo_test_def)
  then show ?thesis
    by (rule test_run.message [of _ _ 0 "command_msg 1 (Some 7)"])
      (auto simp: applier_def command_msg_def checkLogs_def test_srv_def set_srv_def demo_test_def demo_srv_def Logs_def fun_eq_iff)
qed

theorem applied_logs_agree_witness: "\<exists>c. nCommitted 1 (demo_test 1) = Inr (1, c) \<and> c = Some 7"
proof -
  have "None \<notin> set (t_srvs (demo_test 1))" by (simp add: demo_test_def)
  from applied_logs_agree [OF demo_test_run this, of 1] obtain c where
    "nCommitted 1 (demo_test 1) = Inr (int (length (filter (applied 1) (t_srvs (demo_test 1)))), c)"
    "rs_logs (demo_srv 0 1) 1 \<in> {None, Some c}" by (auto simp: demo_test_def)
  then show ?thesis by (auto simp: demo_test_def demo_srv_def)
qed

theorem checkOneLeader_passes_witness:
  "\<exists>(s :: (nat, nat) cluster) l. checkOneLeader 10 3 (demo_grp\<lparr>sg_connected := [True, True, True]\<rparr>) (\<lambda>k. states_seen (\<lambda>i. s)) id = Inr l \<and>
     state (nodes s l) = Leader"
proof -
  obtain s :: "(nat, nat) cluster" where s: "cluster_reachable 0 3 s" "nodes s 0 = demo_lead" using demo_elected by blast
  let ?sg = "demo_grp\<lparr>sg_connected := [True, True, True]\<rparr>"
  have a: "asked_in_turn 0 3 (\<lambda>i. s)" by (simp add: asked_in_turn_def s(1))
  have "0 \<in> leaders_seen 3 ?sg (states_seen (\<lambda>i. s))"
    by (simp add: leaders_seen_def states_seen_def GetState_def s(2) demo_lead_fields)
  then have ne: "\<not> (\<forall>k < (10 :: nat). leaders_seen 3 ?sg (states_seen (\<lambda>i. s)) = {})"
    by (metis empty_iff zero_less_numeral)
  have "length (sg_connected ?sg) = 3" "\<And>xs. set (id xs) = (set xs :: int set)" by simp_all
  note passes = checkOneLeader_passes [of 10 0 3 "\<lambda>k i. s" ?sg id, OF a this]
  from passes [unfolded if_not_P [OF ne]] obtain l where "l \<in> leaders_seen 3 ?sg (states_seen (\<lambda>i. s))"
    "checkOneLeader 10 3 ?sg (\<lambda>k. states_seen (\<lambda>i. s)) id = Inr l" by blast
  then show ?thesis by (intro exI [of _ s] exI [of _ l]) (simp add: leaders_seen_def states_seen_def GetState_def)
qed

definition demo_peer :: "nat test_raft" where
  "demo_peer = persist None ((Make 1 0 MakePersister)\<lparr>log := nilEntry 0 # replicate 9 \<lparr>Term = 1, Command = Some 7\<rparr>\<rparr>)"

theorem snapshot_restores_server_witness:
  "\<exists>ts' rf' rs'. applierSnap 0 (command_msg 9 (Some 7))
       (\<lparr>t_n = 1, t_srvs = [Some ((demo_srv 0 8)\<lparr>rs_lastApplied := 8\<rparr>)], t_maxIndex = 8, t_snapshot = True\<rparr>, demo_peer) = Inr (ts', rf') \<and>
     newRfsrv 1 0 (Persister_Copy (persister rf')) True = Inr rs'"
proof -
  let ?ts = "\<lparr>t_n = 1, t_srvs = [Some ((demo_srv 0 8)\<lparr>rs_lastApplied := 8\<rparr>)], t_maxIndex = 8, t_snapshot = True\<rparr>"
  have wf: "wf_raft demo_peer"
    by (simp add: wf_raft_def demo_peer_def Make_fresh elected_def)
  have li: "lastSnapshotIndex demo_peer = 0" "GetLastIndex demo_peer = 9"
    by (simp_all add: demo_peer_def GetLastIndex_def Make_fresh)
  obtain rf' where rf': "Raft_Snapshot 9 snap demo_peer = Inr (rf' snap)" for snap
    using Raft_Snapshot_eq [of demo_peer 9] li by (simp add: Let_def)
  have "\<exists>ts' rf'. applierSnap 0 (command_msg 9 (Some 7)) (?ts, demo_peer) = Inr (ts', rf')"
    by (simp add: applierSnap_def command_msg_def test_srv_def set_srv_def checkLogs_def demo_srv_def Logs_def SnapShotInterval_def rf')
  then obtain ts' rf' where ap: "applierSnap 0 (command_msg 9 (Some 7)) (?ts, demo_peer) = Inr (ts', rf')" by blast
  show ?thesis
    using ap snapshot_restores_server [OF ap _ _ _ wf, of 1] li by (auto simp: command_msg_def SnapShotInterval_def)
qed

text \<open>A server whose \<open>Kill\<close> has cleared \<open>rs.raft\<close> while its applier still reads: the next command at
  which it makes a snapshot ends the program.\<close>

lemma applierSnap_after_Kill:
  "applierSnap 0 (command_msg 9 (Some 7))
     (\<lparr>t_n = 1, t_srvs = [Some (fst (rs_Kill ((demo_srv 0 8)\<lparr>rs_lastApplied := 8\<rparr>) demo_peer))], t_maxIndex = 8, t_snapshot = True\<rparr>, demo_peer) =
   Inl (GoPanic ''nil pointer'')"
  by (simp add: applierSnap_def command_msg_def test_srv_def set_srv_def checkLogs_def demo_srv_def Logs_def SnapShotInterval_def rs_Kill_def)

end
