(* ===== verification/LabGob.thy ===== *)
theory LabGob
  imports Prelude
begin

text \<open>
  The checks that \<open>src/labgob/labgob.go\<close> makes before it calls the standard library's gob: \<open>checkType\<close> reports every
  field whose name does not start with a capital letter (gob does not send it), and \<open>checkDefault\<close> warns about
  decoding into a variable that already holds something.

  A Go type is a number that stands for its \<open>reflect.Type\<close>; the table \<open>env\<close> gives its kind and its component types, so
  that recursive types are cycles in the table.  \<open>checkType\<close> is recursive through the global map \<open>checked\<close>, which is
  what ends it: the model takes a bound on the depth of the recursion and \<open>None\<close> when it is not enough, and the
  properties show that one more than the number of types always is.
\<close>

section \<open>Types\<close>

datatype tkind =
    KStruct "(string \<times> nat) list"
  | KSlice nat
  | KArray nat
  | KPtr nat
  | KMap nat nat     \<comment> \<open>element and key\<close>
  | KOther

record gob_checks =
  errorCount :: int
  checked :: "nat set"

definition IsUpper :: "string \<Rightarrow> bool" where
  "IsUpper name = (case name of [] \<Rightarrow> False | c # _ \<Rightarrow> (let k = of_char c :: nat in 65 \<le> k \<and> k \<le> 90))"

fun opt_fold :: "('a \<Rightarrow> 's \<Rightarrow> 's option) \<Rightarrow> 'a list \<Rightarrow> 's \<Rightarrow> 's option" where
  "opt_fold f [] s = Some s"
| "opt_fold f (x # xs) s = (case f x s of None \<Rightarrow> None | Some s \<Rightarrow> opt_fold f xs s)"

primrec checkType :: "nat \<Rightarrow> tkind list \<Rightarrow> nat \<Rightarrow> gob_checks \<Rightarrow> gob_checks option" where
  "checkType 0 env t s = None"
| "checkType (Suc d) env t s =
     (if t \<in> checked s then Some s
      else let s = s\<lparr>checked := insert t (checked s)\<rparr>
           in case env ! t of
                KStruct fs \<Rightarrow>
                  opt_fold (\<lambda>(name, ft) s.
                    checkType d env ft (if IsUpper name = False then s\<lparr>errorCount := errorCount s + 1\<rparr> else s)) fs s
              | KSlice e \<Rightarrow> checkType d env e s
              | KArray e \<Rightarrow> checkType d env e s
              | KPtr e \<Rightarrow> checkType d env e s
              | KMap e k \<Rightarrow> (case checkType d env e s of None \<Rightarrow> None | Some s \<Rightarrow> checkType d env k s)
              | KOther \<Rightarrow> Some s)"

definition checkValue :: "tkind list \<Rightarrow> nat \<Rightarrow> gob_checks \<Rightarrow> gob_checks option" where
  "checkValue env t s = checkType (length env + 1) env t s"

section \<open>Values\<close>

text \<open>A value as \<open>checkDefault1\<close> looks at it: a basic value is its type's zero value or not.\<close>

datatype gval =
    VStruct "(string \<times> gval) list"
  | VPtr "gval option"
  | VBasic string bool     \<comment> \<open>the name of its type, and whether it is zero\<close>
  | VOther

text \<open>The state is \<open>errorCount\<close> and the names in the warnings printed so far; the counter allows one warning.\<close>

type_synonym warn_state = "int \<times> string list"

fun checkDefault1 :: "gval \<Rightarrow> int \<Rightarrow> string \<Rightarrow> warn_state \<Rightarrow> warn_state"
  and checkDefault_fields :: "(string \<times> gval) list \<Rightarrow> int \<Rightarrow> string \<Rightarrow> warn_state \<Rightarrow> warn_state" where
  "checkDefault1 (VStruct fs) depth name s = (if depth > 3 then s else checkDefault_fields fs depth name s)"
| "checkDefault1 (VPtr None) depth name s = s"
| "checkDefault1 (VPtr (Some v)) depth name s = (if depth > 3 then s else checkDefault1 v (depth + 1) name s)"
| "checkDefault1 (VBasic ty zero) depth name s =
     (if depth > 3 then s
      else if zero then s
      else (fst s + 1, if fst s < 1 then snd s @ [if name = '''' then ty else name] else snd s))"
| "checkDefault1 VOther depth name s = s"
| "checkDefault_fields [] depth name s = s"
| "checkDefault_fields ((n, v) # fs) depth name s =
     checkDefault_fields fs depth name (checkDefault1 v (depth + 1) (if name \<noteq> '''' then name @ ''.'' @ n else n) s)"

definition checkDefault :: "gval option \<Rightarrow> warn_state \<Rightarrow> warn_state" where
  "checkDefault value s = (case value of None \<Rightarrow> s | Some v \<Rightarrow> checkDefault1 v 1 '''' s)"

section \<open>Encoders and decoders\<close>

text \<open>
  The wrappers around the standard library's \<open>gob\<close>, which is a parameter: what \<open>Encode\<close>, \<open>Decode\<close> and
  \<open>Register\<close> of gob do to a stream or table and whether they succeed.  \<open>errorCount\<close> is one variable for both checks.
\<close>

definition LabEncoder_Encode ::
  "('v \<Rightarrow> 'w \<Rightarrow> bool \<times> 'w) \<Rightarrow> tkind list \<Rightarrow> nat \<Rightarrow> 'v \<Rightarrow> gob_checks \<times> 'w \<Rightarrow> (bool \<times> gob_checks \<times> 'w) option" where
  "LabEncoder_Encode gobEncode env t e = (\<lambda>(s, w).
     case checkValue env t s of None \<Rightarrow> None | Some s \<Rightarrow> let (ok, w) = gobEncode e w in Some (ok, s, w))"

text \<open>\<open>cur\<close> is the value the variable holds, \<open>warns\<close> the warnings so far.\<close>

definition LabDecoder_Decode ::
  "('r \<Rightarrow> bool \<times> 'v \<times> 'r) \<Rightarrow> tkind list \<Rightarrow> nat \<Rightarrow> gval option \<Rightarrow> gob_checks \<times> string list \<times> 'r \<Rightarrow>
    (bool \<times> 'v \<times> gob_checks \<times> string list \<times> 'r) option" where
  "LabDecoder_Decode gobDecode env t cur = (\<lambda>(s, warns, r).
     case checkValue env t s of
       None \<Rightarrow> None
     | Some s \<Rightarrow> let (n, warns) = checkDefault cur (errorCount s, warns); (ok, v, r) = gobDecode r
                 in Some (ok, v, s\<lparr>errorCount := n\<rparr>, warns, r))"

definition Register :: "('v \<Rightarrow> 'g \<Rightarrow> 'g) \<Rightarrow> tkind list \<Rightarrow> nat \<Rightarrow> 'v \<Rightarrow> gob_checks \<times> 'g \<Rightarrow> (gob_checks \<times> 'g) option" where
  "Register gobRegister env t v = (\<lambda>(s, g). case checkValue env t s of None \<Rightarrow> None | Some s \<Rightarrow> Some (s, gobRegister v g))"

section \<open>What \<open>checkType\<close> visits\<close>

fun components :: "tkind \<Rightarrow> nat set" where
  "components (KStruct fs) = snd ` set fs"
| "components (KSlice e) = {e}"
| "components (KArray e) = {e}"
| "components (KPtr e) = {e}"
| "components (KMap e k) = {e, k}"
| "components KOther = {}"

definition wf_env :: "tkind list \<Rightarrow> bool" where
  "wf_env env \<longleftrightarrow> (\<forall>k \<in> set env. \<forall>t \<in> components k. t < length env)"

fun lower_fields :: "tkind \<Rightarrow> int" where
  "lower_fields (KStruct fs) = int (length (filter (\<lambda>f. \<not> IsUpper (fst f)) fs))"
| "lower_fields _ = 0"

text \<open>The types a type is made of.\<close>

inductive reaches :: "tkind list \<Rightarrow> nat \<Rightarrow> nat \<Rightarrow> bool" for env where
  refl: "reaches env t t"
| step: "reaches env t u \<Longrightarrow> u < length env \<Longrightarrow> v \<in> components (env ! u) \<Longrightarrow> reaches env t v"

text \<open>
  One call from \<open>s\<close> to \<open>s'\<close>, with the types \<open>pend\<close> whose components are still being visited by enclosing calls:
  types are only added, every type added has its components checked, and the errors are those of the types added.
\<close>

definition visited :: "tkind list \<Rightarrow> gob_checks \<Rightarrow> gob_checks \<Rightarrow> bool" where
  "visited env s s' \<longleftrightarrow> checked s \<subseteq> checked s' \<and> checked s' \<subseteq> checked s \<union> {..<length env} \<and>
     (\<forall>u \<in> checked s' - checked s. components (env ! u) \<subseteq> checked s') \<and>
     errorCount s' = errorCount s + (\<Sum>u \<in> checked s' - checked s. lower_fields (env ! u))"

lemma visited_refl: "visited env s s"
  by (simp add: visited_def)

lemma visited_trans:
  assumes "visited env s s1" and "visited env s1 s2"
  shows "visited env s s2"
proof -
  let ?A = "checked s1 - checked s" and ?B = "checked s2 - checked s1"
  have sub: "checked s \<subseteq> checked s1" "checked s1 \<subseteq> checked s2" using assms by (auto simp: visited_def)
  have split: "checked s2 - checked s = ?A \<union> ?B" using sub by auto
  have "finite ?A" "finite ?B" by (rule finite_subset [of _ "{..<length env}"]; use assms in \<open>auto simp: visited_def\<close>)+
  then have "(\<Sum>u \<in> checked s2 - checked s. lower_fields (env ! u)) = (\<Sum>u \<in> ?A. lower_fields (env ! u)) + (\<Sum>u \<in> ?B. lower_fields (env ! u))"
    unfolding split by (intro sum.union_disjoint) auto
  moreover have "\<forall>u \<in> checked s2 - checked s. components (env ! u) \<subseteq> checked s2"
    using assms unfolding visited_def by blast
  ultimately show ?thesis using assms by (auto simp: visited_def)
qed

definition remaining :: "tkind list \<Rightarrow> gob_checks \<Rightarrow> nat" where
  "remaining env s = card ({..<length env} - checked s)"

lemma remaining_mono: "checked s \<subseteq> checked s' \<Longrightarrow> remaining env s' \<le> remaining env s"
  unfolding remaining_def by (intro card_mono) auto

definition checks_ok :: "nat \<Rightarrow> tkind list \<Rightarrow> bool" where
  "checks_ok d env \<longleftrightarrow> (\<forall>t s. t < length env \<and> remaining env s < d \<longrightarrow>
     (\<exists>s'. checkType d env t s = Some s' \<and> visited env s s' \<and> t \<in> checked s'))"

definition plus_errors :: "int \<Rightarrow> gob_checks \<Rightarrow> gob_checks" where
  "plus_errors k s = s\<lparr>errorCount := errorCount s + k\<rparr>"

lemma plus_errors_simps [simp]:
  "checked (plus_errors k s) = checked s" "errorCount (plus_errors k s) = errorCount s + k"
  "visited env (plus_errors k s) (plus_errors k s') = visited env s s'" "plus_errors j (plus_errors k s) = plus_errors (j + k) s"
  "remaining env (plus_errors k s) = remaining env s" "plus_errors 0 s = s"
  by (auto simp: plus_errors_def visited_def remaining_def)

text \<open>The loop over the fields of a struct.\<close>

lemma fields_loop:
  assumes "checks_ok d env" and "remaining env s < d" and "\<forall>f \<in> set fs. snd f < length env"
  shows "\<exists>s'. opt_fold (\<lambda>(name, ft) s. checkType d env ft (if IsUpper name = False then s\<lparr>errorCount := errorCount s + 1\<rparr> else s)) fs s
      = Some (plus_errors (lower_fields (KStruct fs)) s') \<and> visited env s s' \<and> snd ` set fs \<subseteq> checked s'"
  using assms(2,3)
proof (induction fs arbitrary: s)
  case Nil
  then show ?case by (auto simp: visited_refl)
next
  case (Cons f fs)
  obtain name ft where f: "f = (name, ft)" by fastforce
  let ?k = "if IsUpper name then 0 else 1 :: int"
  have start: "(if IsUpper name = False then s\<lparr>errorCount := errorCount s + 1\<rparr> else s) = plus_errors ?k s" by (simp add: plus_errors_def)
  obtain s1' where s1': "checkType d env ft (plus_errors ?k s) = Some s1'" "visited env (plus_errors ?k s) s1'" "ft \<in> checked s1'"
  proof -
    have "ft < length env \<and> remaining env (plus_errors ?k s) < d" using Cons.prems by (simp add: f)
    then show ?thesis using assms(1) that unfolding checks_ok_def by blast
  qed
  define s1 where "s1 = plus_errors (- ?k) s1'"
  have s1: "s1' = plus_errors ?k s1" "visited env s s1" "ft \<in> checked s1" using s1'(2,3) by (auto simp: s1_def visited_def)
  have "remaining env s1' < d" using Cons.prems(1) remaining_mono [of s s1' env] s1'(2) by (auto simp: visited_def)
  then obtain s2' where s2': "opt_fold (\<lambda>(name, ft) s. checkType d env ft (if IsUpper name = False then s\<lparr>errorCount := errorCount s + 1\<rparr> else s)) fs s1'
      = Some (plus_errors (lower_fields (KStruct fs)) s2')" "visited env s1' s2'" "snd ` set fs \<subseteq> checked s2'"
    using Cons.IH [of s1'] Cons.prems(2) by auto
  define s2 where "s2 = plus_errors (- ?k) s2'"
  have s2: "s2' = plus_errors ?k s2" "visited env s1 s2" "checked s2 = checked s2'" using s2'(2) by (auto simp: s2_def s1_def visited_def)
  have "visited env s s2" using s1(2) s2(2) by (rule visited_trans)
  moreover have "snd ` set (f # fs) \<subseteq> checked s2" using s1(3) s2'(3) s2(2,3) by (auto simp: f visited_def)
  moreover have "plus_errors (lower_fields (KStruct fs)) s2' = plus_errors (lower_fields (KStruct (f # fs))) s2"
    unfolding s2(1) by (simp add: f)
  moreover have "opt_fold (\<lambda>(name, ft) s. checkType d env ft (if IsUpper name = False then s\<lparr>errorCount := errorCount s + 1\<rparr> else s)) (f # fs) s
      = Some (plus_errors (lower_fields (KStruct fs)) s2')"
    using s1'(1) s2'(1) by (simp only: opt_fold.simps f prod.case start option.case)
  ultimately show ?case by (intro exI [of _ s2]) (simp only: simp_thms)
qed

text \<open>Adding the type itself to what its components contribute.\<close>

lemma visited_type:
  assumes "t \<notin> checked s" and "t < length env" and "visited env (s\<lparr>checked := insert t (checked s)\<rparr>) s'" and "components (env ! t) \<subseteq> checked s'"
  shows "visited env s (plus_errors (lower_fields (env ! t)) s') \<and> t \<in> checked s'"
proof -
  let ?B = "checked s' - insert t (checked s)"
  have t: "t \<in> checked s'" "checked s \<subseteq> checked s'" using assms(3) by (auto simp: visited_def)
  have split: "checked s' - checked s = insert t ?B" using assms(1) t by auto
  have "finite ?B" by (rule finite_subset [of _ "{..<length env}"]) (use assms(3) in \<open>auto simp: visited_def\<close>)
  then have "(\<Sum>u \<in> checked s' - checked s. lower_fields (env ! u)) = lower_fields (env ! t) + (\<Sum>u \<in> ?B. lower_fields (env ! u))"
    unfolding split by simp
  then show ?thesis using assms t by (auto simp: visited_def)
qed

lemma checkType_ok:
  assumes "wf_env env"
  shows "checks_ok d env"
proof (induction d)
  case 0
  show ?case by (simp add: checks_ok_def)
next
  case (Suc d)
  have "\<exists>s'. checkType (Suc d) env t s = Some s' \<and> visited env s s' \<and> t \<in> checked s'"
    if t: "t < length env" and u: "remaining env s < Suc d" for t s
  proof (cases "t \<in> checked s")
    case True
    then show ?thesis by (auto simp: visited_refl)
  next
    case False
    let ?s = "s\<lparr>checked := insert t (checked s)\<rparr>"
    have "remaining env ?s < remaining env s"
      unfolding remaining_def using t False by (intro psubset_card_mono) auto
    then have u1: "remaining env ?s < d" using u by simp
    have comp: "x < length env" if "x \<in> components (env ! t)" for x using assms t that nth_mem by (auto simp: wf_env_def)
    have one: "\<exists>s'. checkType d env e s1 = Some s' \<and> visited env s1 s' \<and> e \<in> checked s'" if "e \<in> components (env ! t)" "checked ?s \<subseteq> checked s1" for e s1
      using Suc.IH comp [OF that(1)] u1 remaining_mono [OF that(2), of env] unfolding checks_ok_def by auto
    have "\<exists>s'. checkType (Suc d) env t s = Some (plus_errors (lower_fields (env ! t)) s') \<and> visited env ?s s' \<and> components (env ! t) \<subseteq> checked s'"
    proof (cases "env ! t")
      case (KStruct fs)
      then show ?thesis using fields_loop [OF Suc.IH u1, of fs] comp False by (simp del: lower_fields.simps)
    next
      case (KMap e k)
      obtain s1 where s1: "checkType d env e ?s = Some s1" "visited env ?s s1" "e \<in> checked s1" using one [of e ?s] KMap by auto
      then obtain s2 where s2: "checkType d env k s1 = Some s2" "visited env s1 s2" "k \<in> checked s2"
        using one [of k s1] KMap by (auto simp: visited_def)
      then show ?thesis using s1 visited_trans [OF s1(2) s2(2)] KMap False by (auto simp: visited_def)
    next
      case KOther
      then show ?thesis using False by (auto simp: visited_refl)
    qed (use one [of _ ?s] False in \<open>auto\<close>)
    then show ?thesis using visited_type [OF False t] by fastforce
  qed
  then show ?case by (simp only: checks_ok_def) blast
qed

lemma reaches_closed:
  assumes "reaches env t v" and "t \<in> C" and "\<forall>u \<in> C. u < length env \<longrightarrow> components (env ! u) \<subseteq> C"
  shows "v \<in> C"
  using assms by (induction rule: reaches.induct) auto

section \<open>Properties\<close>



text \<open>Decoding into a fresh variable gives no warning.\<close>

fun all_zero :: "gval \<Rightarrow> bool" and fields_zero :: "(string \<times> gval) list \<Rightarrow> bool" where
  "all_zero (VStruct fs) = fields_zero fs"
| "all_zero (VPtr None) = True"
| "all_zero (VPtr (Some v)) = all_zero v"
| "all_zero (VBasic ty zero) = zero"
| "all_zero VOther = True"
| "fields_zero [] = True"
| "fields_zero ((n, v) # fs) = (all_zero v \<and> fields_zero fs)"

lemma checkDefault_zero:
  "all_zero v \<Longrightarrow> checkDefault1 v d name s = s" "fields_zero fs \<Longrightarrow> checkDefault_fields fs d name s = s"
  by (induction v d name s and fs d name s rule: checkDefault1_checkDefault_fields.induct) auto

text \<open>For a type without lower-case fields, and a variable that holds its zero value, the wrappers are transparent:
  the stream and the result are those of gob, and nothing is reported.\<close>

lemma gob_transparent:
  assumes "wf_env env" and "t < length env" and "\<forall>k \<in> set env. lower_fields k = 0" and "checked s \<subseteq> {..<length env}"
  shows "\<exists>s'. LabEncoder_Encode gobEncode env t e (s, w) = Some (fst (gobEncode e w), s', snd (gobEncode e w)) \<and> errorCount s' = errorCount s"
    and "all_zero v \<Longrightarrow> \<exists>s'. LabDecoder_Decode gobDecode env t (Some v) (s, warns, r) =
      Some (fst (gobDecode r), fst (snd (gobDecode r)), s', warns, snd (snd (gobDecode r))) \<and> errorCount s' = errorCount s"
proof -
  have "remaining env s < length env + 1" by (simp add: remaining_def card_Diff_subset_Int)
  then obtain s' where s': "checkValue env t s = Some s'" "visited env s s'"
    using checkType_ok [OF assms(1), of "length env + 1"] assms(2) unfolding checks_ok_def checkValue_def by blast
  have "lower_fields (env ! u) = 0" if "u \<in> checked s' - checked s" for u
    using assms(3) s'(2) that by (auto simp: visited_def)
  then have "errorCount s' = errorCount s" using s'(2) by (simp add: visited_def)
  then show "\<exists>s'. LabEncoder_Encode gobEncode env t e (s, w) = Some (fst (gobEncode e w), s', snd (gobEncode e w)) \<and> errorCount s' = errorCount s"
    and "all_zero v \<Longrightarrow> \<exists>s'. LabDecoder_Decode gobDecode env t (Some v) (s, warns, r) =
      Some (fst (gobDecode r), fst (snd (gobDecode r)), s', warns, snd (snd (gobDecode r))) \<and> errorCount s' = errorCount s"
    by (simp_all add: LabEncoder_Encode_def LabDecoder_Decode_def s'(1) split_beta Let_def checkDefault_def checkDefault_zero)
qed

end
