(* ===== verification/TestCfg.thy ===== *)
theory TestCfg
  imports TestNet "HOL-Library.AList" "HOL-Library.Multiset"
begin

text \<open>
  The configuration of a test (\<open>src/tester1/config.go\<close>) and the rest of \<open>src/tester1/group.go\<close>: the set of server
  groups, and starting and stopping whole groups.

  \<open>mks\<close> and \<open>svc_of\<close> are as in \<open>TestNet\<close>.  For each server that is started, the random names of its ends and
  the address of its server object are arguments.  Times are arguments; the test has failed when \<open>cfg_failed\<close>
  is set.  \<open>t.Fatal\<close> is the error \<open>LogFatal\<close>.
\<close>

section \<open>Operations of a group\<close>

definition SrvNames :: "('c, 'b, 'sv) ServerGrp \<Rightarrow> string list" where
  "SrvNames sg = sg_servernames sg"

definition SrvName :: "int \<Rightarrow> ('c, 'b, 'sv) ServerGrp \<Rightarrow> string go" where
  "SrvName i sg = go_nth (sg_servernames sg) i"

definition Services :: "('c, 'b, 'sv) ServerGrp \<Rightarrow> 'sv list list" where
  "Services sg = map ts_svcs (sg_srvs sg)"

text \<open>The services that are told to stop.\<close>

definition grp_cleanup :: "('c, 'b, 'sv) ServerGrp \<Rightarrow> 'sv list" where
  "grp_cleanup sg = concat (map ts_svcs (sg_srvs sg))"

definition GetConnected :: "('c, 'b, 'sv) ServerGrp \<Rightarrow> bool list" where
  "GetConnected sg = sg_connected sg"

type_synonym ('c, 'b, 'sv) mks = "string list \<Rightarrow> int \<Rightarrow> int \<Rightarrow> ('c, 'b) Persister \<Rightarrow> 'sv list"

text \<open>\<open>nps\<close> are, for each server, the names of its ends and the address of its server object.\<close>

definition grp_start :: "('c, 'b, 'sv) mks \<Rightarrow> ('sv \<Rightarrow> ('v, 'w) Service) \<Rightarrow> (string list \<times> nat) list \<Rightarrow>
    ('c, 'b, 'sv, 'v, 'w) grp_sys \<Rightarrow> ('c, 'b, 'sv, 'v, 'w) grp_sys go" where
  "grp_start mks svc_of nps gs =
     go_fold (\<lambda>(i, names, p). StartServer mks svc_of names p i) (zip (all_servers (fst gs)) nps) gs"

definition StartServers :: "('c, 'b, 'sv) mks \<Rightarrow> ('sv \<Rightarrow> ('v, 'w) Service) \<Rightarrow> (string list \<times> nat) list \<Rightarrow>
    ('c, 'b, 'sv, 'v, 'w) grp_sys \<Rightarrow> ('c, 'b, 'sv, 'v, 'w) grp_sys go" where
  "StartServers mks svc_of nps gs =
     go_bind (grp_start mks svc_of nps gs) (\<lambda>(sg, s).
     go_bind (ConnectAll (sg, net s)) (\<lambda>(sg, n). Inr (sg, s\<lparr>net := n\<rparr>)))"

definition Shutdown :: "('c, 'b, 'sv, 'v, 'w) grp_sys \<Rightarrow> (('c, 'b, 'sv, 'v, 'w) grp_sys \<times> 'sv list) go" where
  "Shutdown gs =
     go_fold (\<lambda>i (gs, killed). go_bind (ShutdownServer i gs) (\<lambda>(gs, svcs). Inr (gs, killed @ svcs))) (all_servers (fst gs)) (gs, [])"

definition RpcCount :: "int \<Rightarrow> ('c, 'b, 'sv, 'v, 'w) grp_sys \<Rightarrow> int go" where
  "RpcCount server = (\<lambda>(sg, s). GetCount (ServerName (sg_gid sg) server) s)"

section \<open>The groups\<close>

type_synonym ('c, 'b, 'sv) Groups = "(int \<times> ('c, 'b, 'sv) ServerGrp) list"

definition newGroups :: "('c, 'b, 'sv) Groups" where
  "newGroups = []"

definition MakeGroup :: "int \<Rightarrow> string list list \<Rightarrow> ('c, 'b, 'sv) Groups \<times> Network \<Rightarrow> (('c, 'b, 'sv) Groups \<times> Network) go" where
  "MakeGroup gid nss = (\<lambda>(gs, n). go_bind (makeSrvGrp gid nss n) (\<lambda>(sg, n). Inr (AList.update gid sg gs, n)))"

text \<open>\<open>None\<close> is the nil pointer.\<close>

definition lookupGroup :: "int \<Rightarrow> ('c, 'b, 'sv) Groups \<Rightarrow> ('c, 'b, 'sv) ServerGrp option" where
  "lookupGroup gid gs = map_of gs gid"

definition Groups_delete :: "int \<Rightarrow> ('c, 'b, 'sv) Groups \<Rightarrow> ('c, 'b, 'sv) Groups" where
  "Groups_delete gid gs = AList.delete gid gs"

definition Groups_cleanup :: "('c, 'b, 'sv) Groups \<Rightarrow> 'sv list" where
  "Groups_cleanup gs = concat (map (\<lambda>(gid, sg). grp_cleanup sg) gs)"

section \<open>The configuration\<close>

definition GRP0 :: int where
  "GRP0 = 0"

record ('c, 'b, 'sv, 'v, 'w) Config =
  cfg_Clnts :: Clnts
  cfg_Groups :: "('c, 'b, 'sv) Groups"
  cfg_sys :: "('v, 'w) rpc_sys"
  cfg_start :: int
  cfg_t0 :: int
  cfg_rpcs0 :: int
  cfg_ops :: "32 word"
  cfg_failed :: bool

definition cfg_Group :: "int \<Rightarrow> ('c, 'b, 'sv, 'v, 'w) Config \<Rightarrow> ('c, 'b, 'sv) ServerGrp option" where
  "cfg_Group gid cfg = lookupGroup gid (cfg_Groups cfg)"

definition set_group :: "int \<Rightarrow> ('c, 'b, 'sv, 'v, 'w) grp_sys \<Rightarrow> ('c, 'b, 'sv, 'v, 'w) Config \<Rightarrow> ('c, 'b, 'sv, 'v, 'w) Config" where
  "set_group gid gs cfg = cfg\<lparr>cfg_Groups := AList.update gid (fst gs) (cfg_Groups cfg), cfg_sys := snd gs\<rparr>"

definition MakeGroupStart :: "('c, 'b, 'sv) mks \<Rightarrow> ('sv \<Rightarrow> ('v, 'w) Service) \<Rightarrow> int \<Rightarrow> string list list \<Rightarrow> (string list \<times> nat) list \<Rightarrow>
    ('c, 'b, 'sv, 'v, 'w) Config \<Rightarrow> ('c, 'b, 'sv, 'v, 'w) Config go" where
  "MakeGroupStart mks svc_of gid nss nps cfg =
     go_bind (MakeGroup gid nss (cfg_Groups cfg, net (cfg_sys cfg))) (\<lambda>(gs, n).
       let cfg = cfg\<lparr>cfg_Groups := gs, cfg_sys := (cfg_sys cfg)\<lparr>net := n\<rparr>\<rparr>
       in case cfg_Group gid cfg of
            None \<Rightarrow> Inl (GoPanic ''nil pointer'')
          | Some sg \<Rightarrow> go_bind (StartServers mks svc_of nps (sg, cfg_sys cfg)) (\<lambda>gs. Inr (set_group gid gs cfg)))"

definition MakeConfig :: "('c, 'b, 'sv) mks \<Rightarrow> ('sv \<Rightarrow> ('v, 'w) Service) \<Rightarrow> string list list \<Rightarrow> (string list \<times> nat) list \<Rightarrow> bool \<Rightarrow> 'w \<Rightarrow> int \<Rightarrow>
    ('c, 'b, 'sv, 'v, 'w) Config go" where
  "MakeConfig mks svc_of nss nps reliable w now =
     (let cfg = \<lparr>cfg_Clnts = [], cfg_Groups = newGroups, cfg_sys = rpc_init w, cfg_start = 0, cfg_t0 = 0, cfg_rpcs0 = 0,
                 cfg_ops = 0, cfg_failed = False\<rparr>
      in go_bind (MakeGroupStart mks svc_of GRP0 nss nps cfg) (\<lambda>cfg.
           let s = cfg_sys cfg
           in Inr (cfg\<lparr>cfg_start := now, cfg_sys := s\<lparr>net := Reliable reliable (net s)\<rparr>\<rparr>)))"

definition map_net :: "(Network \<Rightarrow> Network) \<Rightarrow> ('c, 'b, 'sv, 'v, 'w) Config \<Rightarrow> ('c, 'b, 'sv, 'v, 'w) Config" where
  "map_net f cfg = cfg\<lparr>cfg_sys := (cfg_sys cfg)\<lparr>net := f (net (cfg_sys cfg))\<rparr>\<rparr>"

definition SetReliable :: "bool \<Rightarrow> ('c, 'b, 'sv, 'v, 'w) Config \<Rightarrow> ('c, 'b, 'sv, 'v, 'w) Config" where
  "SetReliable reliable cfg = map_net (Reliable reliable) cfg"

definition cfg_IsReliable :: "('c, 'b, 'sv, 'v, 'w) Config \<Rightarrow> bool" where
  "cfg_IsReliable cfg = IsReliable (net (cfg_sys cfg))"

definition SetLongReordering :: "bool \<Rightarrow> ('c, 'b, 'sv, 'v, 'w) Config \<Rightarrow> ('c, 'b, 'sv, 'v, 'w) Config" where
  "SetLongReordering longrel cfg = map_net (LongReordering longrel) cfg"

definition SetLongDelays :: "bool \<Rightarrow> ('c, 'b, 'sv, 'v, 'w) Config \<Rightarrow> ('c, 'b, 'sv, 'v, 'w) Config" where
  "SetLongDelays longdel cfg = map_net (LongDelays longdel) cfg"

definition CheckTimeout :: "int \<Rightarrow> ('c, 'b, 'sv, 'v, 'w) Config \<Rightarrow> unit go" where
  "CheckTimeout now cfg =
     (if \<not> cfg_failed cfg \<and> now - cfg_start cfg > 120 * 10 ^ 9 then Inl (LogFatal ''test took longer than 120 seconds'') else Inr ())"

text \<open>The services that are told to stop; the annotations are finished in between.\<close>

definition cfg_Cleanup :: "int \<Rightarrow> ('c, 'b, 'sv, 'v, 'w) Config \<Rightarrow> (('c, 'b, 'sv, 'v, 'w) Config \<times> 'sv list) go" where
  "cfg_Cleanup now cfg =
     go_bind (Clnts_cleanup (cfg_Clnts cfg) (net (cfg_sys cfg))) (\<lambda>n.
       let killed = Groups_cleanup (cfg_Groups cfg)
       in go_bind (Cleanup n) (\<lambda>n.
          let cfg = map_net (\<lambda>_. n) cfg
          in go_bind (CheckTimeout now cfg) (\<lambda>_. Inr (cfg, killed))))"

definition ExitGroup :: "int \<Rightarrow> ('c, 'b, 'sv, 'v, 'w) Config \<Rightarrow> (('c, 'b, 'sv, 'v, 'w) Config \<times> 'sv list) go" where
  "ExitGroup gid cfg =
     (case cfg_Group gid cfg of
        None \<Rightarrow> Inl (GoPanic ''nil pointer'')
      | Some sg \<Rightarrow> go_bind (Shutdown (sg, cfg_sys cfg)) (\<lambda>((sg, s), killed).
          Inr (cfg\<lparr>cfg_sys := s, cfg_Groups := Groups_delete gid (cfg_Groups cfg)\<rparr>, killed)))"

definition RpcTotal :: "('c, 'b, 'sv, 'v, 'w) Config \<Rightarrow> int" where
  "RpcTotal cfg = GetTotalCount (net (cfg_sys cfg))"

definition BytesTotal :: "('c, 'b, 'sv, 'v, 'w) Config \<Rightarrow> int" where
  "BytesTotal cfg = GetTotalBytes (net (cfg_sys cfg))"

text \<open>The first component is what is printed.\<close>

definition Begin :: "string \<Rightarrow> int \<Rightarrow> ('c, 'b, 'sv, 'v, 'w) Config \<Rightarrow> string \<times> ('c, 'b, 'sv, 'v, 'w) Config" where
  "Begin description now cfg =
     (let rel = (if \<not> cfg_IsReliable cfg then ''unreliable'' else ''reliable'')
      in (description @ '' ('' @ rel @ '' network)...'' @ [CHR 0x0A], cfg\<lparr>cfg_t0 := now, cfg_rpcs0 := RpcTotal cfg, cfg_ops := 0\<rparr>))"

definition cfg_Op :: "('c, 'b, 'sv, 'v, 'w) Config \<Rightarrow> ('c, 'b, 'sv, 'v, 'w) Config" where
  "cfg_Op cfg = cfg\<lparr>cfg_ops := cfg_ops cfg + 1\<rparr>"

text \<open>The numbers that are printed: nanoseconds, peers, RPCs, operations.\<close>

definition End :: "int \<Rightarrow> ('c, 'b, 'sv, 'v, 'w) Config \<Rightarrow> (int \<times> int \<times> int \<times> int) option go" where
  "End now cfg =
     go_bind (CheckTimeout now cfg) (\<lambda>_.
       if cfg_failed cfg = False
       then (case cfg_Group GRP0 cfg of
               None \<Rightarrow> Inl (GoPanic ''nil pointer'')
             | Some sg \<Rightarrow> Inr (Some (now - cfg_t0 cfg, grp_N sg, RpcTotal cfg - cfg_rpcs0 cfg, sint (cfg_ops cfg))))
       else Inr None)"

section \<open>Random strings and handles\<close>

definition b64url :: string where
  "b64url = ''ABCDEFGHIJKLMNOPQRSTUVWXYZabcdefghijklmnopqrstuvwxyz0123456789-_''"

text \<open>\<open>base64.URLEncoding\<close>, with padding.\<close>

fun EncodeToString :: "nat list \<Rightarrow> string" where
  "EncodeToString (a # b # c # bs) =
     (let v = a * 65536 + b * 256 + c
      in b64url ! (v div 262144 mod 64) # b64url ! (v div 4096 mod 64) # b64url ! (v div 64 mod 64) # b64url ! (v mod 64) # EncodeToString bs)"
| "EncodeToString [a, b] =
     (let v = a * 65536 + b * 256
      in [b64url ! (v div 262144 mod 64), b64url ! (v div 4096 mod 64), b64url ! (v div 64 mod 64), CHR ''=''])"
| "EncodeToString [a] =
     (let v = a * 65536 in [b64url ! (v div 262144 mod 64), b64url ! (v div 4096 mod 64), CHR ''='', CHR ''=''])"
| "EncodeToString [] = []"

text \<open>\<open>b\<close> are the \<open>2 * n\<close> random bytes.\<close>

definition Randstring :: "nat \<Rightarrow> nat list \<Rightarrow> string go" where
  "Randstring n b = go_upto (EncodeToString b) (int n)"

text \<open>\<open>js\<close> are the random numbers: \<open>js ! i\<close> is at most \<open>i\<close>.\<close>

fun shuffle_loop :: "nat list \<Rightarrow> nat \<Rightarrow> 'a list \<Rightarrow> 'a list" where
  "shuffle_loop [] i sa = sa"
| "shuffle_loop (j # js) i sa = shuffle_loop js (i + 1) (sa[i := sa ! j, j := sa ! i])"

definition random_handles :: "nat list \<Rightarrow> 'a list \<Rightarrow> 'a list" where
  "random_handles js kvh = shuffle_loop js 0 kvh"


section \<open>Starting a group\<close>

lemma go_fold_invar:
  assumes "\<And>k s. k < length xs \<Longrightarrow> I k s \<Longrightarrow> \<exists>s'. f (xs ! k) s = Inr s' \<and> I (Suc k) s'" and "I 0 s"
  shows "\<exists>s'. go_fold f xs s = Inr s' \<and> I (length xs) s'"
  using assms
proof (induction xs arbitrary: I s)
  case (Cons x xs)
  obtain s1 where s1: "f x s = Inr s1" "I (Suc 0) s1" using Cons.prems(1) [of 0 s] Cons.prems(2) by auto
  have "\<exists>s'. go_fold f xs s1 = Inr s' \<and> I (Suc (length xs)) s'"
    by (rule Cons.IH [where I = "\<lambda>k. I (Suc k)"]) (use Cons.prems(1) s1(2) in force)+
  then show ?case using s1(1) by simp
qed simp

text \<open>Two networks that differ in their ends only.\<close>

definition same_but_ends :: "Network \<Rightarrow> Network \<Rightarrow> bool" where
  "same_but_ends n n' \<longleftrightarrow> rn_servers n' = rn_servers n \<and> rn_done n' = rn_done n \<and> rn_reliable n' = rn_reliable n"

lemma make_ends_ok:
  assumes "distinct es" and "set es \<inter> rn_ends n = {}"
  shows "\<exists>n'. make_ends gid j es n = Inr n' \<and> rn_ends n' = rn_ends n \<union> set es \<and> same_but_ends n n' \<and>
    (\<forall>k < length es. rn_connections n' (es ! k) = Some (Some (ServerName gid (j + int k)))) \<and>
    (\<forall>e. e \<notin> set es \<longrightarrow> rn_connections n' e = rn_connections n e)"
  using assms
proof (induction es arbitrary: j n)
  case (Cons e es)
  let ?n1 = "n\<lparr>rn_ends := insert e (rn_ends n), rn_enabled := (rn_enabled n)(e \<mapsto> False), rn_connections := (rn_connections n)(e \<mapsto> None)\<rparr>"
  let ?n2 = "Connect e (ServerName gid j) ?n1"
  have m: "MakeEnd e n = Inr ?n1" using Cons.prems(2) by (simp add: MakeEnd_def)
  have "set es \<inter> rn_ends ?n2 = {}" using Cons.prems by (auto simp: Connect_def)
  then obtain n' where n': "make_ends gid (j + 1) es ?n2 = Inr n'" "rn_ends n' = rn_ends ?n2 \<union> set es" "same_but_ends ?n2 n'"
      "\<forall>k < length es. rn_connections n' (es ! k) = Some (Some (ServerName gid (j + 1 + int k)))"
      "\<forall>e. e \<notin> set es \<longrightarrow> rn_connections n' e = rn_connections ?n2 e"
    using Cons.IH [of ?n2 "j + 1"] Cons.prems(1) by auto
  have "rn_connections n' ((e # es) ! k) = Some (Some (ServerName gid (j + int k)))" if "k < length (e # es)" for k
    using that n'(4,5) Cons.prems(1) by (cases k) (simp_all add: Connect_def algebra_simps)
  then show ?case using n' m by (auto simp: same_but_ends_def Connect_def)
qed (simp add: same_but_ends_def)

lemma make_servers_ok:
  assumes "distinct (concat nss)" and "set (concat nss) \<inter> rn_ends n = {}"
  shows "\<exists>(ss :: ('c, 'b, 'sv) TServer list) n'. make_servers gid nss n = Inr (ss, n') \<and> same_but_ends n n' \<and> length ss = length nss \<and> rn_ends n' = rn_ends n \<union> set (concat nss)"
  using assms
proof (induction nss arbitrary: n)
  case (Cons es nss)
  obtain n1 where n1: "make_ends gid 0 es n = Inr n1" "rn_ends n1 = rn_ends n \<union> set es" "same_but_ends n n1"
    using make_ends_ok [of es n gid 0] Cons.prems by auto
  have dj: "set (concat nss) \<inter> rn_ends n1 = {}" using Cons.prems n1(2) by auto
  obtain ss :: "('c, 'b, 'sv) TServer list" and n' where "make_servers gid nss n1 = Inr (ss, n')" "same_but_ends n1 n'" "length ss = length nss"
      "rn_ends n' = rn_ends n1 \<union> set (concat nss)"
    using Cons.IH [OF _ dj] Cons.prems(1) by auto
  then show ?case using n1 by (auto simp: makeServer_def same_but_ends_def)
qed (simp add: same_but_ends_def)

lemma StartServer_ok:
  assumes "0 \<le> i" and "i < grp_N sg" and "distinct names" and "set names \<inter> rn_ends (net s) = {}"
  shows "\<exists>srv s'. StartServer mks svc_of names p i (sg, s) = Inr (sg\<lparr>sg_srvs := (sg_srvs sg)[nat i := srv]\<rparr>, s') \<and>
    ts_endNames srv = names \<and> rn_ends (net s') = rn_ends (net s) \<union> set names \<and>
    rn_servers (net s') = (rn_servers (net s))(ServerName (sg_gid sg) i \<mapsto> Some p) \<and>
    rn_done (net s') = rn_done (net s) \<and> rn_reliable (net s') = rn_reliable (net s) \<and>
    (\<forall>k < length names. rn_connections (net s') (names ! k) = Some (Some (ServerName (sg_gid sg) (int k)))) \<and>
    (\<forall>e. e \<notin> set names \<longrightarrow> rn_connections (net s') e = rn_connections (net s) e)"
proof -
  obtain n' where n': "make_ends (sg_gid sg) 0 names (net s) = Inr n'" "rn_ends n' = rn_ends (net s) \<union> set names" "same_but_ends (net s) n'"
      "\<forall>k < length names. rn_connections n' (names ! k) = Some (Some (ServerName (sg_gid sg) (int k)))"
      "\<forall>e. e \<notin> set names \<longrightarrow> rn_connections n' e = rn_connections (net s) e"
    using make_ends_ok [OF assms(3,4), of "sg_gid sg" 0] by auto
  moreover have "go_nth (sg_srvs sg) i = Inr (sg_srvs sg ! nat i)" using assms(1,2) by (simp add: grp_N_def)
  ultimately show ?thesis
    by (auto simp: StartServer_def startServer_def makeServer_def same_but_ends_def AddServer_def Let_def)
qed

lemma ServerName_inj [simp]: "ServerName gid (int i) = ServerName gid (int j) \<longleftrightarrow> i = j"
  by (simp add: ServerName_def)

text \<open>After the first \<open>k\<close> servers of the group have been started.\<close>

definition started :: "(string list \<times> nat) list \<Rightarrow> ('c, 'b, 'sv) ServerGrp \<Rightarrow> Network \<Rightarrow> nat \<Rightarrow> ('c, 'b, 'sv, 'v, 'w) grp_sys \<Rightarrow> bool" where
  "started nps sg0 n0 k gs \<longleftrightarrow>
     (let sg = fst gs; n = net (snd gs)
      in sg_gid sg = sg_gid sg0 \<and> sg_connected sg = sg_connected sg0 \<and> length (sg_srvs sg) = length (sg_srvs sg0) \<and>
         rn_done n = rn_done n0 \<and> rn_reliable n = rn_reliable n0 \<and> rn_ends n = rn_ends n0 \<union> set (concat (take k (map fst nps))) \<and>
         (\<forall>i < k. ts_endNames (sg_srvs sg ! i) = fst (nps ! i) \<and> rn_servers n (ServerName (sg_gid sg0) (int i)) = Some (Some (snd (nps ! i))) \<and>
            (\<forall>j < length (fst (nps ! i)). rn_connections n (fst (nps ! i) ! j) = Some (Some (ServerName (sg_gid sg0) (int j))))))"


lemma started_step:
  assumes dist: "distinct (concat (map fst nps))" "set (concat (map fst nps)) \<inter> rn_ends n0 = {}" and len: "length nps = length (sg_srvs sg0)"
    and k: "k < length nps" and I: "started nps sg0 n0 k gs"
  shows "\<exists>gs'. StartServer mks svc_of (fst (nps ! k)) (snd (nps ! k)) (int k) gs = Inr gs' \<and> started nps sg0 n0 (Suc k) gs'"
proof -
  obtain sg s where gs: "gs = (sg, s)" by (cases gs)
  note I' = I [unfolded started_def Let_def gs fst_conv snd_conv]
  let ?E = "map fst nps"
  have E: "concat ?E = concat (take k ?E) @ fst (nps ! k) @ concat (drop (Suc k) ?E)"
    using k by (subst id_take_nth_drop [of k ?E]) simp_all
  then have d: "distinct (fst (nps ! k))" "set (concat (take k ?E)) \<inter> set (fst (nps ! k)) = {}" "set (fst (nps ! k)) \<subseteq> set (concat ?E)"
    using dist(1) by auto
  have "set (fst (nps ! k)) \<inter> rn_ends (net s) = {}" using d(2,3) dist(2) I' by blast
  then obtain srv s' where st: "StartServer mks svc_of (fst (nps ! k)) (snd (nps ! k)) (int k) (sg, s) =
        Inr (sg\<lparr>sg_srvs := (sg_srvs sg)[nat (int k) := srv]\<rparr>, s')"
      "ts_endNames srv = fst (nps ! k)" "rn_ends (net s') = rn_ends (net s) \<union> set (fst (nps ! k))"
      "rn_servers (net s') = (rn_servers (net s))(ServerName (sg_gid sg) (int k) \<mapsto> Some (snd (nps ! k)))"
      "rn_done (net s') = rn_done (net s)" "rn_reliable (net s') = rn_reliable (net s)"
      "\<forall>j < length (fst (nps ! k)). rn_connections (net s') (fst (nps ! k) ! j) = Some (Some (ServerName (sg_gid sg) (int j)))"
      "\<forall>e. e \<notin> set (fst (nps ! k)) \<longrightarrow> rn_connections (net s') e = rn_connections (net s) e"
    using StartServer_ok [of "int k" sg "fst (nps ! k)" s mks svc_of "snd (nps ! k)"] d(1) k len I' unfolding grp_N_def by auto
  have old: "rn_connections (net s') (fst (nps ! i) ! j) = rn_connections (net s) (fst (nps ! i) ! j)" if "i < k" "j < length (fst (nps ! i))" for i j
  proof -
    have "fst (nps ! i) = take k ?E ! i" "i < length (take k ?E)" using that(1) k by simp_all
    then have "fst (nps ! i) \<in> set (take k ?E)" by (metis nth_mem)
    then have "fst (nps ! i) ! j \<in> set (concat (take k ?E))" using nth_mem [OF that(2)] by auto
    then show ?thesis using d(2) st(8) by blast
  qed
  have tk: "take (Suc k) ?E = take k ?E @ [fst (nps ! k)]" using k by (simp add: take_Suc_conv_app_nth)
  have "started nps sg0 n0 (Suc k) (sg\<lparr>sg_srvs := (sg_srvs sg)[nat (int k) := srv]\<rparr>, s')"
    unfolding started_def Let_def fst_conv snd_conv
  proof (intro conjI allI impI)
    show "rn_ends (net s') = rn_ends n0 \<union> set (concat (take (Suc k) ?E))" using I' st(3) by (auto simp: tk)
    fix i assume i: "i < Suc k"
    have kl: "k < length (sg_srvs sg)" using k len I' by simp
    show "ts_endNames (sg_srvs (sg\<lparr>sg_srvs := (sg_srvs sg)[nat (int k) := srv]\<rparr>) ! i) = fst (nps ! i)"
      using i I' st(2) kl by (cases "i = k") auto
    show "rn_servers (net s') (ServerName (sg_gid sg0) (int i)) = Some (Some (snd (nps ! i)))"
      using i I' st(4) by (cases "i = k") auto
    fix j assume j: "j < length (fst (nps ! i))"
    show "rn_connections (net s') (fst (nps ! i) ! j) = Some (Some (ServerName (sg_gid sg0) (int j)))"
      using i j I' st(7) old [of i j] by (cases "i = k") auto
  qed (use I' st in auto)
  then show ?thesis using st(1) gs by blast
qed

lemma grp_start_ok:
  fixes sg :: "('c, 'b, 'sv) ServerGrp" and s :: "('v, 'w) rpc_sys"
  assumes "distinct (concat (map fst nps))" "set (concat (map fst nps)) \<inter> rn_ends (net s) = {}" and len: "length nps = length (sg_srvs sg)"
  shows "\<exists>gs. grp_start mks svc_of nps (sg, s) = Inr gs \<and> started nps sg (net s) (length nps) gs"
proof -
  let ?xs = "zip (all_servers sg) nps"
  have l: "length ?xs = length nps" by (simp add: all_servers_def len)
  have "\<exists>gs. go_fold (\<lambda>(i, names, p). StartServer mks svc_of names p i) ?xs (sg, s) = Inr gs \<and> started nps sg (net s) (length ?xs) gs"
  proof (rule go_fold_invar)
    fix k and gs :: "('c, 'b, 'sv, 'v, 'w) grp_sys"
    assume k: "k < length ?xs" and I: "started nps sg (net s) k gs"
    have "?xs ! k = (int k, nps ! k)" using k l len by (simp add: all_servers_def)
    then show "\<exists>gs'. (case ?xs ! k of (i, names, p) \<Rightarrow> StartServer mks svc_of names p i) gs = Inr gs' \<and> started nps sg (net s) (Suc k) gs'"
      using started_step [OF assms _ I, of mks svc_of] k l by (simp add: split_beta)
  qed (simp add: started_def)
  then show ?thesis unfolding grp_start_def l fst_conv .
qed

text \<open>Connecting changes only which ends are enabled.\<close>

lemma Server_connect_only: "Server_connect conn es js n = Inr n' \<Longrightarrow> \<exists>f. n' = n\<lparr>rn_enabled := f\<rparr>"
proof (induction js arbitrary: n)
  case Nil
  then show ?case by (auto intro!: exI [of _ "rn_enabled n"])
next
  case (Cons j js)
  then show ?case by (fastforce simp: go_bind_eq_Inr_iff Enable_def split: if_splits)
qed

lemma connect_incoming_only: "connect_incoming i sg js n = Inr n' \<Longrightarrow> \<exists>f. n' = n\<lparr>rn_enabled := f\<rparr>"
proof (induction js arbitrary: n)
  case Nil
  then show ?case by (auto intro!: exI [of _ "rn_enabled n"])
next
  case (Cons j js)
  then show ?case by (fastforce simp: go_bind_eq_Inr_iff Enable_def split: if_splits)
qed

lemma grp_connect_only: "grp_connect i js (sg, n) = Inr (sg', n') \<Longrightarrow> \<exists>f. n' = n\<lparr>rn_enabled := f\<rparr>"
  using Server_connect_only connect_incoming_only
  by (fastforce simp: grp_connect_def go_bind_eq_Inr_iff Let_def)


lemma ConnectAll_links:
  assumes wf: "wf_grp sg"
  shows "\<exists>conn f. ConnectAll (sg, n) = Inr (sg\<lparr>sg_connected := conn\<rparr>, n\<lparr>rn_enabled := f\<rparr>) \<and> length conn = length (sg_connected sg) \<and>
    (\<forall>a b. in_grp sg a \<and> in_grp sg b \<longrightarrow> f (end_of sg a b) = Some True)"
proof -
  define I where "I = (\<lambda>k gn. \<exists>conn f. gn = (sg\<lparr>sg_connected := conn\<rparr>, n\<lparr>rn_enabled := f\<rparr>) \<and> length conn = length (sg_connected sg) \<and>
    (\<forall>i < k. conn ! i) \<and> (\<forall>a b. 0 \<le> a \<and> a < int k \<and> 0 \<le> b \<and> b < int k \<longrightarrow> f (end_of sg a b) = Some True))"
  have all: "all_servers sg = map int [0..<length (sg_srvs sg)]" by (simp add: all_servers_def)
  have "\<exists>gn. go_fold ConnectOne (all_servers sg) (sg, n) = Inr gn \<and> I (length (all_servers sg)) gn"
  proof (rule go_fold_invar)
    show "I 0 (sg, n)" unfolding I_def by (intro exI [of _ "sg_connected sg"] exI [of _ "rn_enabled n"]) auto
    fix k gn assume k: "k < length (all_servers sg)" and "I k gn"
    then obtain conn f where I: "gn = (sg\<lparr>sg_connected := conn\<rparr>, n\<lparr>rn_enabled := f\<rparr>)" "length conn = length (sg_connected sg)"
        "\<forall>i < k. conn ! i" "\<forall>a b. 0 \<le> a \<and> a < int k \<and> 0 \<le> b \<and> b < int k \<longrightarrow> f (end_of sg a b) = Some True"
      unfolding I_def by blast
    let ?sg = "sg\<lparr>sg_connected := conn\<rparr>" and ?js = "all_servers sg"
    have k': "k < length (sg_srvs sg)" using k by (simp add: all)
    have wf': "wf_grp ?sg" "in_grp ?sg (int k)" "\<forall>j \<in> set ?js. in_grp ?sg j"
      using wf I(2) k' by (auto simp: grp_N_def all)
    obtain n' where n': "grp_connect (int k) ?js (?sg, n\<lparr>rn_enabled := f\<rparr>) = Inr (?sg\<lparr>sg_connected := conn[k := True]\<rparr>, n')"
      "\<forall>a b. in_grp sg a \<and> in_grp sg b \<longrightarrow> rn_enabled n' (end_of sg a b) =
       (if a = int k \<and> b \<in> set ?js \<and> (b = int k \<or> conn ! nat b) \<or> b = int k \<and> a \<in> set ?js \<and> (a = int k \<or> conn ! nat a)
        then Some True else f (end_of sg a b))"
      using grp_connect_links [OF wf', of "n\<lparr>rn_enabled := f\<rparr>"] I(2) by (auto cong: if_cong)
    obtain g where g: "n' = n\<lparr>rn_enabled := g\<rparr>" using grp_connect_only [OF n'(1)] by auto
    have mem: "a \<in> set ?js \<longleftrightarrow> in_grp sg a" for a by (auto simp: all grp_N_def image_iff intro: bexI [of _ "nat a"])
    have con: "conn ! nat a" if "0 \<le> a" "a < int k" for a using I(3) that by (simp add: nat_less_iff)
    have grp: "in_grp sg a" if "0 \<le> a" "a < int (Suc k)" for a using that k' by (simp add: grp_N_def)
    have "g (end_of sg a b) = Some True" if ab: "0 \<le> a" "a < int (Suc k)" "0 \<le> b" "b < int (Suc k)" for a b
    proof -
      have "rn_enabled n' (end_of sg a b) =
       (if a = int k \<and> (b = int k \<or> conn ! nat b) \<or> b = int k \<and> (a = int k \<or> conn ! nat a) then Some True else f (end_of sg a b))"
        using n'(2) grp [OF ab(1,2)] grp [OF ab(3,4)] by (simp only: mem) simp
      moreover have "f (end_of sg a b) = Some True" if "a \<noteq> int k" "b \<noteq> int k" using I(4) ab that by simp
      ultimately show ?thesis using con [of a] con [of b] ab by (cases "a = int k"; cases "b = int k") (simp_all add: g)
    qed
    moreover have "\<forall>i < Suc k. conn[k := True] ! i"
      using I(2,3) k' wf by (auto simp: nth_list_update less_Suc_eq wf_grp_def)
    ultimately have "I (Suc k) (sg\<lparr>sg_connected := conn[k := True]\<rparr>, n\<lparr>rn_enabled := g\<rparr>)"
      unfolding I_def using I(2) by (intro exI [of _ "conn[k := True]"] exI [of _ g]) simp
    moreover have "ConnectOne (?js ! k) gn = Inr (sg\<lparr>sg_connected := conn[k := True]\<rparr>, n\<lparr>rn_enabled := g\<rparr>)"
      using n'(1) k' unfolding g I(1) ConnectOne_def by (simp add: all_servers_def)
    ultimately show "\<exists>gn'. ConnectOne (?js ! k) gn = Inr gn' \<and> I (Suc k) gn'" by blast
  qed
  then obtain conn f where "ConnectAll (sg, n) = Inr (sg\<lparr>sg_connected := conn\<rparr>, n\<lparr>rn_enabled := f\<rparr>)" "length conn = length (sg_connected sg)"
      "\<forall>a b. 0 \<le> a \<and> a < grp_N sg \<and> 0 \<le> b \<and> b < grp_N sg \<longrightarrow> f (end_of sg a b) = Some True"
    unfolding I_def ConnectAll_def by (auto simp: all grp_N_def)
  then show ?thesis by blast
qed


lemma started_wf:
  assumes "started nps sg0 n0 (length nps) (sg, s)" and "length nps = length (sg_srvs sg0)" and "distinct (concat (map fst nps))"
    and "\<forall>x \<in> set nps. length (fst x) = length nps" and "length (sg_connected sg0) = length nps"
  shows "wf_grp sg" and "map ts_endNames (sg_srvs sg) = map fst nps"
proof -
  have st: "length (sg_srvs sg) = length nps" "\<forall>i < length nps. ts_endNames (sg_srvs sg ! i) = fst (nps ! i)" "sg_connected sg = sg_connected sg0"
    using assms(1,2) by (simp_all add: started_def Let_def)
  then show m: "map ts_endNames (sg_srvs sg) = map fst nps" by (intro nth_equalityI) simp_all
  have "ts_endNames ` set (sg_srvs sg) = fst ` set nps" using arg_cong [OF m, of set] by simp
  then have "\<forall>x \<in> set (sg_srvs sg). length (ts_endNames x) = length nps" using assms(4) by (metis (no_types, opaque_lifting) imageE imageI)
  then show "wf_grp sg" using assms(3,5) st by (simp add: wf_grp_def m)
qed

text \<open>What \<open>MakeGroupStart\<close> gives: every server of the group reaches every server, under the name and at the
  address it was started with.\<close>

definition all_linked :: "int \<Rightarrow> (string list \<times> nat) list \<Rightarrow> ('c, 'b, 'sv) ServerGrp \<Rightarrow> Network \<Rightarrow> bool" where
  "all_linked gid nps sg n \<longleftrightarrow> wf_grp sg \<and> length (sg_srvs sg) = length nps \<and>
     (\<forall>a < length nps. \<forall>b < length nps. link_up (end_of sg (int a) (int b)) (ServerName gid (int b)) (snd (nps ! b)) (Reliable True n))"

lemma StartServers_linked:
  fixes sg :: "('c, 'b, 'sv) ServerGrp" and s :: "('v, 'w) rpc_sys"
  assumes "distinct (concat (map fst nps))" "set (concat (map fst nps)) \<inter> rn_ends (net s) = {}" "length nps = length (sg_srvs sg)"
    and "\<forall>x \<in> set nps. length (fst x) = length nps" and "length (sg_connected sg) = length nps" and "\<not> rn_done (net s)"
  shows "\<exists>sg' s'. StartServers mks svc_of nps (sg, s) = Inr (sg', s') \<and> all_linked (sg_gid sg) nps sg' (net s')"
proof -
  obtain sg1 s1 where 1: "grp_start mks svc_of nps (sg, s) = Inr (sg1, s1)" "started nps sg (net s) (length nps) (sg1, s1)"
    using grp_start_ok [OF assms(1-3), of mks svc_of] by (metis surj_pair)
  note wf = started_wf [OF 1(2) assms(3,1,4,5)]
  have len: "length (sg_srvs sg1) = length nps" using arg_cong [OF wf(2), of length] by simp
  obtain conn f where 2: "ConnectAll (sg1, net s1) = Inr (sg1\<lparr>sg_connected := conn\<rparr>, (net s1)\<lparr>rn_enabled := f\<rparr>)"
      "length conn = length (sg_connected sg1)" "\<forall>a b. in_grp sg1 a \<and> in_grp sg1 b \<longrightarrow> f (end_of sg1 a b) = Some True"
    using ConnectAll_links [OF wf(1), of "net s1"] by blast
  have "link_up (end_of sg1 (int a) (int b)) (ServerName (sg_gid sg) (int b)) (snd (nps ! b)) (Reliable True ((net s1)\<lparr>rn_enabled := f\<rparr>))"
    if ab: "a < length nps" "b < length nps" for a b
  proof -
    have "end_of sg1 (int a) (int b) = fst (nps ! a) ! b" using ab(1) 1(2) by (simp add: end_of_def started_def Let_def)
    moreover have "b < length (fst (nps ! a))" using assms(4) ab by simp
    moreover have "f (end_of sg1 (int a) (int b)) = Some True" using 2(3) ab len by (simp add: grp_N_def)
    ultimately show ?thesis
      using 1(2) ab assms(6) by (simp add: link_up_def Reliable_def started_def Let_def)
  qed
  then have "all_linked (sg_gid sg) nps (sg1\<lparr>sg_connected := conn\<rparr>) ((net s1)\<lparr>rn_enabled := f\<rparr>)"
    using wf(1) 2(2) len by (simp add: all_linked_def)
  then show ?thesis using 1(1) 2(1) by (simp add: StartServers_def)
qed

lemma lookup_update [simp]: "lookupGroup gid (AList.update gid sg gs) = Some sg"
  "gid' \<noteq> gid \<Longrightarrow> lookupGroup gid' (AList.update gid sg gs) = lookupGroup gid' gs"
  by (simp_all add: lookupGroup_def update_conv')

lemma MakeGroupStart_linked:
  fixes cfg :: "('c, 'b, 'sv, 'v, 'w) Config"
  assumes "distinct (concat nss @ concat (map fst nps))" and "set (concat nss @ concat (map fst nps)) \<inter> rn_ends (net (cfg_sys cfg)) = {}"
    and "length nss = length nps" and "\<forall>x \<in> set nps. length (fst x) = length nps" and "\<not> rn_done (net (cfg_sys cfg))"
  shows "\<exists>cfg' sg. MakeGroupStart mks svc_of gid nss nps cfg = Inr cfg' \<and> cfg_Group gid cfg' = Some sg \<and>
    all_linked gid nps sg (net (cfg_sys cfg')) \<and> (\<forall>g. g \<noteq> gid \<longrightarrow> cfg_Group g cfg' = cfg_Group g cfg) \<and> cfg_failed cfg' = cfg_failed cfg"
proof -
  let ?n = "net (cfg_sys cfg)"
  obtain ss :: "('c, 'b, 'sv) TServer list" and n1 where 1: "make_servers gid nss ?n = Inr (ss, n1)" "same_but_ends ?n n1"
      "length ss = length nss" "rn_ends n1 = rn_ends ?n \<union> set (concat nss)"
    using make_servers_ok [of nss ?n gid] assms(1,2) by auto
  define sg where "sg = \<lparr>sg_srvs = ss, sg_servernames = map (\<lambda>i. ServerName gid (int i)) [0..<length nss], sg_gid = gid,
    sg_connected = replicate (length nss) False\<rparr>"
  let ?s = "(cfg_sys cfg)\<lparr>net := n1\<rparr>"
  have m: "MakeGroup gid nss (cfg_Groups cfg, ?n) = Inr (AList.update gid sg (cfg_Groups cfg), n1)"
    by (simp add: MakeGroup_def makeSrvGrp_def 1(1) sg_def)
  have fresh: "set (concat (map fst nps)) \<inter> rn_ends (net ?s) = {}" using assms(1,2) 1(4) by auto
  obtain sg' s' where 2: "StartServers mks svc_of nps (sg, ?s) = Inr (sg', s')" "all_linked (sg_gid sg) nps sg' (net s')"
    using StartServers_linked [OF _ fresh, of sg mks svc_of] assms 1(2,3) by (auto simp: sg_def same_but_ends_def)
  then show ?thesis
    by (simp add: MakeGroupStart_def m Let_def cfg_Group_def set_group_def sg_def)
qed


section \<open>Properties\<close>

text \<open>C28: a new test starts with a fully connected group: \<open>MakeConfig\<close> returns, group 0 exists and is well-formed,
  and every end from one of its servers to another is enabled, connected to that server's name and leads to the
  server object registered under it; the network is reliable as asked.  (Random names must not repeat:
  \<open>MakeEnd\<close> ends the test otherwise.)\<close>
theorem MakeConfig_links:
  fixes mks :: "('c, 'b, 'sv) mks" and svc_of :: "'sv \<Rightarrow> ('v, 'w) Service"
  assumes "distinct (concat nss @ concat (map fst nps))" and "length nss = length nps" and "\<forall>x \<in> set nps. length (fst x) = length nps"
  shows "\<exists>cfg sg. MakeConfig mks svc_of nss nps reliable w now = Inr cfg \<and> cfg_Group GRP0 cfg = Some sg \<and> wf_grp sg \<and>
    grp_N sg = go_len nps \<and> cfg_IsReliable cfg = reliable \<and> cfg_start cfg = now \<and> \<not> cfg_failed cfg \<and>
    (\<forall>a < length nps. \<forall>b < length nps.
       link_up (end_of sg (int a) (int b)) (ServerName GRP0 (int b)) (snd (nps ! b)) (net (cfg_sys (SetReliable True cfg))))"
proof -
  let ?cfg = "\<lparr>cfg_Clnts = [], cfg_Groups = newGroups, cfg_sys = rpc_init w, cfg_start = 0, cfg_t0 = 0, cfg_rpcs0 = 0,
    cfg_ops = 0, cfg_failed = False\<rparr> :: ('c, 'b, 'sv, 'v, 'w) Config"
  obtain cfg sg where "MakeGroupStart mks svc_of GRP0 nss nps ?cfg = Inr cfg" "cfg_Group GRP0 cfg = Some sg"
      "all_linked GRP0 nps sg (net (cfg_sys cfg))" "\<not> cfg_failed cfg"
    using MakeGroupStart_linked [OF assms(1) _ assms(2,3), of ?cfg mks svc_of GRP0] by (auto simp: rpc_init_def MakeNetwork_def)
  then show ?thesis
    by (simp add: MakeConfig_def cfg_Group_def all_linked_def cfg_IsReliable_def SetReliable_def map_net_def Reliable_def
        IsReliable_def grp_N_def Let_def)
qed

theorem MakeConfig_links_witness:
  "\<exists>cfg sg. MakeConfig (\<lambda>_ _ _ _. [0 :: nat]) (\<lambda>_. MakeService ''KV'' []) [[''a'', ''b''], [''c'', ''d'']]
      [([''e'', ''f''], 5), ([''g'', ''h''], 6)] False (0 :: nat) 7 = Inr (cfg :: (unit, unit, nat, nat, nat) Config) \<and>
    cfg_Group GRP0 cfg = Some sg \<and> link_up (end_of sg 0 1) (ServerName GRP0 1) 6 (net (cfg_sys (SetReliable True cfg)))"
proof -
  let ?nss = "[[''a'', ''b''], [''c'', ''d'']]" and ?nps = "[([''e'', ''f''], 5), ([''g'', ''h''], 6)] :: (string list \<times> nat) list"
  have "distinct (concat ?nss @ concat (map fst ?nps))" "length ?nss = length ?nps" "\<forall>x \<in> set ?nps. length (fst x) = length ?nps"
    by simp_all
  from MakeConfig_links [OF this, of "\<lambda>_ _ _ _. [0 :: nat]" "\<lambda>_. MakeService ''KV'' []" False 0 7]
  obtain cfg :: "(unit, unit, nat, nat, nat) Config" and sg where c: "MakeConfig (\<lambda>_ _ _ _. [0 :: nat]) (\<lambda>_. MakeService ''KV'' []) ?nss ?nps False 0 7 = Inr cfg"
      "cfg_Group GRP0 cfg = Some sg"
      "\<forall>a < length ?nps. \<forall>b < length ?nps.
       link_up (end_of sg (int a) (int b)) (ServerName GRP0 (int b)) (snd (?nps ! b)) (net (cfg_sys (SetReliable True cfg)))" by blast
  have "link_up (end_of sg (int 0) (int 1)) (ServerName GRP0 (int 1)) (snd (?nps ! 1)) (net (cfg_sys (SetReliable True cfg)))"
    using c(3) [rule_format, of 0 1] by simp
  with c(1,2) show ?thesis by auto
qed

lemma ShutdownServer_ok:
  assumes "wf_grp sg" and "in_grp sg i"
  shows "\<exists>srv s1. ShutdownServer i (sg, s) =
      Inr ((sg\<lparr>sg_connected := (sg_connected sg)[nat i := False], sg_srvs := (sg_srvs sg)[nat i := srv]\<rparr>, s1), ts_svcs (sg_srvs sg ! nat i)) \<and>
    ts_endNames srv = ts_endNames (sg_srvs sg ! nat i) \<and> rn_servers (net s1) = (rn_servers (net s))(ServerName (sg_gid sg) i \<mapsto> None) \<and>
    (\<forall>a b. in_grp sg a \<and> in_grp sg b \<longrightarrow>
       rn_enabled (net s1) (end_of sg a b) = (if a = i \<or> b = i then Some False else rn_enabled (net s) (end_of sg a b)))"
proof -
  have js: "\<forall>j \<in> set (all_servers sg). in_grp sg j" by (auto simp: all_servers_def grp_N_def)
  have mem: "a \<in> set (all_servers sg) \<longleftrightarrow> in_grp sg a" for a by (auto simp: all_servers_def grp_N_def image_iff intro: bexI [of _ "nat a"])
  obtain n' where n': "grp_disconnect i (all_servers sg) (sg, net s) = Inr (sg\<lparr>sg_connected := (sg_connected sg)[nat i := False]\<rparr>, n')"
      "rn_servers n' = rn_servers (net s)"
      "\<forall>a b. in_grp sg a \<and> in_grp sg b \<longrightarrow> rn_enabled n' (end_of sg a b) = (if a = i \<or> b = i then Some False else rn_enabled (net s) (end_of sg a b))"
    using grp_disconnect_links [OF assms js, of "net s"] by (auto simp: mem cong: if_cong)
  then show ?thesis
    using assms(2)
    by (intro exI [of _ "fst (shutdownServer (sg_srvs sg ! nat i))"])
      (simp add: ShutdownServer_def shutdownServer_def DeleteServer_def grp_N_def Let_def)
qed

lemma end_of_names: "map ts_endNames (sg_srvs sg') = map ts_endNames (sg_srvs sg) \<Longrightarrow> in_grp sg a \<Longrightarrow> end_of sg' a b = end_of sg a b"
  by (auto simp: end_of_def grp_N_def nat_less_iff dest: map_eq_imp_length_eq) (metis length_map nat_less_iff nth_map)


text \<open>After the servers before \<open>k\<close> have been shut down.\<close>

definition stopped :: "('c, 'b, 'sv) ServerGrp \<Rightarrow> nat \<Rightarrow> ('c, 'b, 'sv, 'v, 'w) grp_sys \<times> 'sv list \<Rightarrow> bool" where
  "stopped sg0 k x \<longleftrightarrow>
     (let sg = fst (fst x); n = net (snd (fst x))
      in map ts_endNames (sg_srvs sg) = map ts_endNames (sg_srvs sg0) \<and> sg_gid sg = sg_gid sg0 \<and>
         length (sg_connected sg) = length (sg_connected sg0) \<and> drop k (sg_srvs sg) = drop k (sg_srvs sg0) \<and>
         snd x = concat (map ts_svcs (take k (sg_srvs sg0))) \<and>
         (\<forall>i < k. rn_servers n (ServerName (sg_gid sg0) (int i)) = Some None \<and>
            (\<forall>b. in_grp sg0 b \<longrightarrow> rn_enabled n (end_of sg0 (int i) b) = Some False \<and> rn_enabled n (end_of sg0 b (int i)) = Some False)))"

lemma stopped_step:
  assumes wf: "wf_grp sg0" and k: "k < length (sg_srvs sg0)" and I: "stopped sg0 k ((sg, s), killed)"
  shows "\<exists>gs svcs. ShutdownServer (int k) (sg, s) = Inr (gs, svcs) \<and> stopped sg0 (Suc k) (gs, killed @ svcs)"
proof -
  note I' = I [unfolded stopped_def Let_def fst_conv snd_conv]
  have len: "length (sg_srvs sg) = length (sg_srvs sg0)" using I' map_eq_imp_length_eq by blast
  then have N: "grp_N sg = grp_N sg0" by (simp add: grp_N_def)
  have "set (map ts_endNames (sg_srvs sg)) = set (map ts_endNames (sg_srvs sg0))" using I' by simp
  then have "ts_endNames ` set (sg_srvs sg) = ts_endNames ` set (sg_srvs sg0)" by simp
  then have "\<forall>x \<in> set (sg_srvs sg). length (ts_endNames x) = length (sg_srvs sg)"
    using wf len unfolding wf_grp_def by (metis (no_types, opaque_lifting) imageE imageI)
  then have wf': "wf_grp sg" using wf I' len by (simp add: wf_grp_def)
  have ik: "in_grp sg (int k)" using k len by (simp add: grp_N_def)
  have e: "end_of sg a b = end_of sg0 a b" if "in_grp sg0 a" for a b using end_of_names [of sg sg0 a b] I' that by blast
  obtain srv s1 where 1: "ShutdownServer (int k) (sg, s) =
        Inr ((sg\<lparr>sg_connected := (sg_connected sg)[nat (int k) := False], sg_srvs := (sg_srvs sg)[nat (int k) := srv]\<rparr>, s1), ts_svcs (sg_srvs sg ! nat (int k)))"
      "ts_endNames srv = ts_endNames (sg_srvs sg ! nat (int k))" "rn_servers (net s1) = (rn_servers (net s))(ServerName (sg_gid sg) (int k) \<mapsto> None)"
      "\<forall>a b. in_grp sg a \<and> in_grp sg b \<longrightarrow>
       rn_enabled (net s1) (end_of sg a b) = (if a = int k \<or> b = int k then Some False else rn_enabled (net s) (end_of sg a b))"
    using ShutdownServer_ok [OF wf' ik, of s] by blast
  have en: "rn_enabled (net s1) (end_of sg0 a b) = (if a = int k \<or> b = int k then Some False else rn_enabled (net s) (end_of sg0 a b))"
    if "in_grp sg0 a" "in_grp sg0 b" for a b
    using 1(4) [unfolded N, rule_format, of a b] that unfolding e [OF that(1)] by blast
  have nth: "sg_srvs sg ! k = sg_srvs sg0 ! k" using I' k len by (metis Cons_nth_drop_Suc list.inject)
  have "stopped sg0 (Suc k) ((sg\<lparr>sg_connected := (sg_connected sg)[nat (int k) := False], sg_srvs := (sg_srvs sg)[nat (int k) := srv]\<rparr>, s1),
      killed @ ts_svcs (sg_srvs sg ! nat (int k)))"
    unfolding stopped_def Let_def fst_conv snd_conv
  proof (intro conjI allI impI)
    show "map ts_endNames (sg_srvs (sg\<lparr>sg_connected := (sg_connected sg)[nat (int k) := False], sg_srvs := (sg_srvs sg)[nat (int k) := srv]\<rparr>)) =
        map ts_endNames (sg_srvs sg0)"
      using I' 1(2) k len by (simp add: map_update) (metis length_map list_update_id nth_map)
    have "drop k (sg_srvs sg) = drop k (sg_srvs sg0)" using I' by blast
    from arg_cong [OF this, of tl] have "drop (Suc k) (sg_srvs sg) = drop (Suc k) (sg_srvs sg0)" by (simp add: drop_Suc tl_drop)
    then show "drop (Suc k) (sg_srvs (sg\<lparr>sg_connected := (sg_connected sg)[nat (int k) := False], sg_srvs := (sg_srvs sg)[nat (int k) := srv]\<rparr>)) =
        drop (Suc k) (sg_srvs sg0)" by simp
    show "killed @ ts_svcs (sg_srvs sg ! nat (int k)) = concat (map ts_svcs (take (Suc k) (sg_srvs sg0)))"
      using I' k nth by (simp add: take_Suc_conv_app_nth)
    fix i assume i: "i < Suc k"
    show "rn_servers (net s1) (ServerName (sg_gid sg0) (int i)) = Some None" using i I' 1(3) by (cases "i = k") simp_all
    fix b assume b: "in_grp sg0 b"
    have ig: "in_grp sg0 (int i)" using i k by (simp add: grp_N_def)
    show "rn_enabled (net s1) (end_of sg0 (int i) b) = Some False" "rn_enabled (net s1) (end_of sg0 b (int i)) = Some False"
      using en [OF ig b] en [OF b ig] I' i b by (cases "i = k"; simp)+
  qed (use I' in simp_all)
  then show ?thesis using 1(1) by blast
qed

lemma Shutdown_stops:
  fixes sg :: "('c, 'b, 'sv) ServerGrp" and s :: "('v, 'w) rpc_sys"
  assumes wf: "wf_grp sg"
  shows "\<exists>x. Shutdown (sg, s) = Inr x \<and> stopped sg (length (sg_srvs sg)) x"
proof -
  have "\<exists>x. go_fold (\<lambda>i (gs, killed). go_bind (ShutdownServer i gs) (\<lambda>(gs, svcs). Inr (gs, killed @ svcs))) (all_servers sg) ((sg, s), []) = Inr x \<and>
      stopped sg (length (all_servers sg)) x"
  proof (rule go_fold_invar)
    fix k and x :: "('c, 'b, 'sv, 'v, 'w) grp_sys \<times> 'sv list"
    assume k: "k < length (all_servers sg)" and I: "stopped sg k x"
    obtain sg' s' killed where x: "x = ((sg', s'), killed)" by (metis surj_pair)
    have "k < length (sg_srvs sg)" "all_servers sg ! k = int k" using k by (simp_all add: all_servers_def)
    then show "\<exists>y. (case x of (gs, killed) \<Rightarrow> go_bind (ShutdownServer (all_servers sg ! k) gs) (\<lambda>(gs, svcs). Inr (gs, killed @ svcs))) = Inr y \<and>
        stopped sg (Suc k) y"
      using stopped_step [OF wf _ I [unfolded x]] by (auto simp: x)
  qed (simp add: stopped_def Let_def)
  then show ?thesis by (simp add: Shutdown_def) (simp add: all_servers_def)
qed


text \<open>\<open>ExitGroup\<close> takes a group off the network for good: all of its services are told to stop, none of its servers
  can be reached under its name, every link between them is disabled, and the group is forgotten, while the other
  groups stay as they are.\<close>
theorem ExitGroup_removes:
  assumes "cfg_Group gid cfg = Some sg" and "wf_grp sg"
  shows "\<exists>cfg'. ExitGroup gid cfg = Inr (cfg', concat (Services sg)) \<and> cfg_Group gid cfg' = None \<and>
    (\<forall>g. g \<noteq> gid \<longrightarrow> cfg_Group g cfg' = cfg_Group g cfg) \<and>
    (\<forall>i. in_grp sg i \<longrightarrow> rn_servers (net (cfg_sys cfg')) (ServerName (sg_gid sg) i) = Some None \<and>
       (\<forall>j. in_grp sg j \<longrightarrow> \<not> enabled (net (cfg_sys cfg')) sg i j))"
proof -
  obtain sg' s' killed where x: "Shutdown (sg, cfg_sys cfg) = Inr ((sg', s'), killed)" "stopped sg (length (sg_srvs sg)) ((sg', s'), killed)"
    using Shutdown_stops [OF assms(2), of "cfg_sys cfg"] by (metis surj_pair)
  have off: "rn_servers (net s') (ServerName (sg_gid sg) i) = Some None \<and> (\<forall>j. in_grp sg j \<longrightarrow> \<not> enabled (net s') sg i j)" if "in_grp sg i" for i
  proof -
    from that have "nat i < length (sg_srvs sg)" "int (nat i) = i" by (simp_all add: grp_N_def nat_less_iff)
    then show ?thesis using x(2) unfolding stopped_def enabled_def Let_def by (metis fst_conv snd_conv option.inject)
  qed
  have "killed = concat (Services sg)" using x(2) by (simp add: stopped_def Services_def Let_def)
  moreover have "map_of (AList.delete gid (cfg_Groups cfg)) g = (if g = gid then None else map_of (cfg_Groups cfg) g)" for g
    by (simp add: delete_conv')
  ultimately show ?thesis
    using x(1) off assms(1) by (simp add: ExitGroup_def cfg_Group_def lookupGroup_def Groups_delete_def)
qed

theorem ExitGroup_removes_witness:
  "\<exists>cfg'. ExitGroup 0 \<lparr>cfg_Clnts = [], cfg_Groups = [(0, demo_saved)], cfg_sys = rpc_init () :: (unit, unit) rpc_sys, cfg_start = 0,
      cfg_t0 = 0, cfg_rpcs0 = 0, cfg_ops = 0, cfg_failed = False\<rparr> = Inr (cfg', concat (Services demo_saved)) \<and> cfg_Group 0 cfg' = None"
proof -
  let ?cfg = "\<lparr>cfg_Clnts = [], cfg_Groups = [(0, demo_saved)], cfg_sys = rpc_init () :: (unit, unit) rpc_sys, cfg_start = 0,
      cfg_t0 = 0, cfg_rpcs0 = 0, cfg_ops = 0, cfg_failed = False\<rparr>"
  have "cfg_Group 0 ?cfg = Some demo_saved" "wf_grp demo_saved"
    by (simp_all add: cfg_Group_def lookupGroup_def wf_grp_def demo_saved_def demo_grp_def demo_names_def)
  from ExitGroup_removes [OF this] show ?thesis by blast
qed

text \<open>\<open>random_handles\<close> permutes the handles, and \<open>Randstring(n)\<close> has \<open>n\<close> characters.\<close>

lemma shuffle_loop_mset:
  assumes "i + length js = length sa" and "\<forall>k < length js. js ! k \<le> i + k"
  shows "mset (shuffle_loop js i sa) = mset sa"
  using assms
proof (induction js arbitrary: i sa)
  case (Cons j js)
  have "js ! k \<le> i + 1 + k" if "k < length js" for k using Cons.prems(2) [rule_format, of "Suc k"] that by simp
  then have "mset (shuffle_loop js (i + 1) (sa[i := sa ! j, j := sa ! i])) = mset (sa[i := sa ! j, j := sa ! i])"
    using Cons.prems(1) by (intro Cons.IH) simp_all
  moreover have "j \<le> i" using Cons.prems(2) [rule_format, of 0] by simp
  ultimately show ?case using Cons.prems(1) by (simp add: mset_swap)
qed simp

lemma random_handles_permutes:
  "length js = length kvh \<Longrightarrow> \<forall>k < length js. js ! k \<le> k \<Longrightarrow> mset (random_handles js kvh) = mset kvh"
  by (simp add: random_handles_def shuffle_loop_mset)

lemma EncodeToString_length: "length (EncodeToString b) = 4 * ((length b + 2) div 3)"
proof (induction b rule: EncodeToString.induct)
  case (1 a b c bs)
  have "(length (a # b # c # bs) + 2) div 3 = Suc ((length bs + 2) div 3)" by simp
  with 1 show ?case by (simp add: Let_def)
qed (simp_all add: Let_def)

lemma Randstring_length:
  assumes "length b = 2 * n"
  shows "\<exists>s. Randstring n b = Inr s \<and> length s = n"
  using assms by (simp add: Randstring_def EncodeToString_length go_upto_def)

end
