(* ===== verification/KvHistory.thy ===== *)
theory KvHistory
  imports KVSrv "HOL-Library.Multiset"
begin

text \<open>
  Concurrent clients of the single key/value server, with the recording of their operations as the
  tests do it (\<open>Get\<close> and \<open>Put\<close> of \<open>src/kvtest1/porcupine.go\<close> around the clerk of
  \<open>src/kvsrv1/client.go\<close>).

  Each of \<open>n\<close> clients runs a program (\<open>workload\<close>) that makes clerk calls.  A call is recorded with the
  time at which it starts and the time at which it has returned; in between the clerk makes any
  number of attempts, whose requests and replies may be lost, other clients run, and the reply that
  ends the call may have been computed long before the call returns.  The clock is any
  non-decreasing one.

  The theorem is that every history recorded in this way, once no call is under way, is linearizable
  with respect to the model of \<open>src/models1/kv.go\<close>: for each key there is an order of its operations
  that respects their times and that the model accepts, which is what the porcupine checker decides.
\<close>

section \<open>Clients\<close>

record 'c workload =
  wl_call :: "nat \<Rightarrow> 'c \<Rightarrow> kvop option"   \<comment> \<open>the clerk call the client is at\<close>
  wl_local :: "nat \<Rightarrow> 'c \<Rightarrow> 'c list"       \<comment> \<open>its other steps\<close>
  wl_get :: "nat \<Rightarrow> GetReply \<Rightarrow> 'c \<Rightarrow> 'c"  \<comment> \<open>what follows a \<open>Get\<close>\<close>
  wl_put :: "nat \<Rightarrow> Err \<Rightarrow> 'c \<Rightarrow> 'c"       \<comment> \<open>what follows a \<open>Put\<close>\<close>

text \<open>The clerk call of a client: none, in its loop since a time with the local \<open>retry\<close> of \<open>Put\<close>, or
  with the reply it is about to return.\<close>

datatype flight = Idle | Waiting int bool | Returned int kvreply

record 'c clients_sys =
  cs_srv :: KVSrv
  cs_prog :: "nat \<Rightarrow> 'c"
  cs_flight :: "nat \<Rightarrow> flight"
  cs_clock :: int
  cs_log :: OpLog
  cs_puts :: nat  \<comment> \<open>performed \<open>Put\<close>s\<close>

definition clients_init :: "(nat \<Rightarrow> 'c) \<Rightarrow> 'c clients_sys" where
  "clients_init prog = \<lparr>cs_srv = MakeKVServer, cs_prog = prog, cs_flight = (\<lambda>_. Idle), cs_clock = 0, cs_log = [], cs_puts = 0\<rparr>"

definition set_flight :: "nat \<Rightarrow> flight \<Rightarrow> 'c clients_sys \<Rightarrow> 'c clients_sys" where
  "set_flight i f s = s\<lparr>cs_flight := (cs_flight s)(i := f)\<rparr>"

definition set_prog :: "nat \<Rightarrow> 'c \<Rightarrow> 'c clients_sys \<Rightarrow> 'c clients_sys" where
  "set_prog i c s = s\<lparr>cs_prog := (cs_prog s)(i := c)\<rparr>"

text \<open>One execution of the handler \<open>Put\<close>.\<close>

definition cs_exec :: "PutArgs \<Rightarrow> 'c clients_sys \<Rightarrow> 'c clients_sys" where
  "cs_exec a s =
     (let (r, kv) = KVServer_Put a (cs_srv s)
      in s\<lparr>cs_srv := kv, cs_puts := (if pr_Err r = OK then Suc (cs_puts s) else cs_puts s)\<rparr>)"

text \<open>A call that returns: the operation is recorded and the program goes on.\<close>

definition cs_return :: "Operation \<Rightarrow> nat \<Rightarrow> 'c \<Rightarrow> 'c clients_sys \<Rightarrow> 'c clients_sys" where
  "cs_return op i c s = set_prog i c (set_flight i Idle (s\<lparr>cs_log := OpLog_Append op (cs_log s)\<rparr>))"

inductive cs_step :: "bool \<Rightarrow> nat \<Rightarrow> 'c workload \<Rightarrow> 'c clients_sys \<Rightarrow> 'c clients_sys \<Rightarrow> bool"
  for reliable :: bool and n :: nat and w :: "'c workload" where
  time: "cs_clock s \<le> t \<Longrightarrow> cs_step reliable n w s (s\<lparr>cs_clock := t\<rparr>)"
| local: "i < n \<Longrightarrow> cs_flight s i = Idle \<Longrightarrow> c \<in> set (wl_local w i (cs_prog s i)) \<Longrightarrow>
     cs_step reliable n w s (set_prog i c s)"
| call: "i < n \<Longrightarrow> cs_flight s i = Idle \<Longrightarrow> wl_call w i (cs_prog s i) = Some op \<Longrightarrow>
     cs_step reliable n w s (set_flight i (Waiting (cs_clock s) False) s)"
| get: "i < n \<Longrightarrow> cs_flight s i = Waiting t r \<Longrightarrow> wl_call w i (cs_prog s i) = Some (OpGet a) \<Longrightarrow>
     cs_step reliable n w s (set_flight i (Returned t (RGet (KVServer_Get a (cs_srv s)))) s)"
| request_lost: "\<not> reliable \<Longrightarrow> i < n \<Longrightarrow> cs_flight s i = Waiting t r \<Longrightarrow> wl_call w i (cs_prog s i) = Some (OpPut p) \<Longrightarrow>
     cs_step reliable n w s (set_flight i (Waiting t True) s)"
| reply_lost: "\<not> reliable \<Longrightarrow> i < n \<Longrightarrow> cs_flight s i = Waiting t r \<Longrightarrow> wl_call w i (cs_prog s i) = Some (OpPut p) \<Longrightarrow>
     cs_step reliable n w s (set_flight i (Waiting t True) (cs_exec p s))"
| delivered: "i < n \<Longrightarrow> cs_flight s i = Waiting t r \<Longrightarrow> wl_call w i (cs_prog s i) = Some (OpPut p) \<Longrightarrow>
     err = clerk_result r (pr_Err (fst (KVServer_Put p (cs_srv s)))) \<Longrightarrow>
     cs_step reliable n w s (set_flight i (Returned t (RPut \<lparr>pr_Err = err\<rparr>)) (cs_exec p s))"
| got: "i < n \<Longrightarrow> cs_flight s i = Returned t (RGet gr) \<Longrightarrow> wl_call w i (cs_prog s i) = Some (OpGet a) \<Longrightarrow>
     cs_step reliable n w s
       (cs_return (kvtest_Get_op (ga_Key a) gr t (cs_clock s) (int i)) i (wl_get w i gr (cs_prog s i)) s)"
| put: "i < n \<Longrightarrow> cs_flight s i = Returned t (RPut pr) \<Longrightarrow> wl_call w i (cs_prog s i) = Some (OpPut p) \<Longrightarrow>
     cs_step reliable n w s
       (cs_return (kvtest_Put_op (pa_Key p) (pa_Value p) (pa_Version p) (pr_Err pr) t (cs_clock s) (int i)) i
         (wl_put w i (pr_Err pr) (cs_prog s i)) s)"

inductive cs_reachable :: "bool \<Rightarrow> nat \<Rightarrow> 'c workload \<Rightarrow> (nat \<Rightarrow> 'c) \<Rightarrow> 'c clients_sys \<Rightarrow> bool"
  for reliable n w prog where
  init: "cs_reachable reliable n w prog (clients_init prog)"
| step: "cs_reachable reliable n w prog s \<Longrightarrow> cs_step reliable n w s t \<Longrightarrow> cs_reachable reliable n w prog t"

text \<open>What the checker decides about the operations of one key.\<close>

definition linearizable :: "Operation list \<Rightarrow> bool" where
  "linearizable h \<longleftrightarrow> (\<exists>l. mset l = mset h \<and> (\<forall>i j. i < j \<longrightarrow> j < length l \<longrightarrow> \<not> op_Return (l ! j) < op_Call (l ! i)) \<and>
     model_accepts KvModel_Init l)"

section \<open>Runs of the model\<close>

type_synonym kvio = "KvInput \<times> KvOutput"

fun model_run :: "KvState \<Rightarrow> kvio list \<Rightarrow> KvState option" where
  "model_run st [] = Some st"
| "model_run st ((inp, out) # h) =
     (case KvModel_Step st inp out of (True, MState st') \<Rightarrow> model_run st' h | _ \<Rightarrow> None)"

lemma model_run_append: "model_run st (h @ h') = Option.bind (model_run st h) (\<lambda>st'. model_run st' h')"
  by (induction st h rule: model_run.induct) (auto split: prod.splits bool.splits model_state.splits)

definition op_io :: "Operation \<Rightarrow> kvio" where
  "op_io op = (op_Input op, op_Output op)"

lemma model_accepts_run: "model_run st (map op_io ops) \<noteq> None \<Longrightarrow> model_accepts st ops"
  by (induction ops arbitrary: st) (auto simp: op_io_def split: prod.splits bool.splits model_state.splits)

text \<open>A \<open>Put\<close> answered with \<open>ErrNoKey\<close>, which changes nothing and which the model rejects.\<close>

definition nokey :: "kvio \<Rightarrow> bool" where
  "nokey io \<longleftrightarrow> in_Op (fst io) = 1 \<and> out_Err (snd io) = ''ErrNoKey''"

abbreviation io_on :: "string \<Rightarrow> kvio \<Rightarrow> bool" where
  "io_on k io \<equiv> in_Key (fst io) = k \<and> \<not> nokey io"

section \<open>The invariant\<close>

text \<open>The operations in the order in which they took effect, with the time at which they did; those
  whose call has not returned yet have \<open>le_done\<close> unset.\<close>

record lin_ev =
  le_done :: bool
  le_point :: int
  le_op :: Operation

definition pend :: "nat \<Rightarrow> lin_ev \<Rightarrow> bool" where
  "pend i e \<longleftrightarrow> \<not> le_done e \<and> op_ClientId (le_op e) = int i"

abbreviation pending :: "nat \<Rightarrow> lin_ev list \<Rightarrow> lin_ev list" where
  "pending i lin \<equiv> filter (pend i) lin"

definition get_ev :: "nat \<Rightarrow> GetArgs \<Rightarrow> GetReply \<Rightarrow> int \<Rightarrow> int \<Rightarrow> lin_ev" where
  "get_ev i a g t pt = \<lparr>le_done = False, le_point = pt, le_op = kvtest_Get_op (ga_Key a) g t 0 (int i)\<rparr>"

definition put_ev :: "nat \<Rightarrow> PutArgs \<Rightarrow> Err \<Rightarrow> int \<Rightarrow> int \<Rightarrow> lin_ev" where
  "put_ev i p err t pt =
     \<lparr>le_done = False, le_point = pt, le_op = kvtest_Put_op (pa_Key p) (pa_Value p) (pa_Version p) err t 0 (int i)\<rparr>"

abbreviation version_of :: "'c clients_sys \<Rightarrow> string \<Rightarrow> Tversion" where
  "version_of s k \<equiv> kvsrv.cur_version (cs_srv s) k"

definition flight_ok :: "'c workload \<Rightarrow> 'c clients_sys \<Rightarrow> lin_ev list \<Rightarrow> nat \<Rightarrow> bool" where
  "flight_ok w s lin i =
     (case cs_flight s i of
        Idle \<Rightarrow> pending i lin = []
      | Waiting t r \<Rightarrow> t \<le> cs_clock s \<and>
          (pending i lin = [] \<or>
           r \<and> (\<exists>p pt. wl_call w i (cs_prog s i) = Some (OpPut p) \<and> pending i lin = [put_ev i p ErrMaybe t pt] \<and>
                 unat (pa_Version p) < unat (version_of s (pa_Key p))))
      | Returned t (RGet g) \<Rightarrow> \<exists>a pt. wl_call w i (cs_prog s i) = Some (OpGet a) \<and> pending i lin = [get_ev i a g t pt]
      | Returned t (RPut g) \<Rightarrow>
          \<exists>p pt. wl_call w i (cs_prog s i) = Some (OpPut p) \<and> pending i lin = [put_ev i p (pr_Err g) t pt])"

definition lin_times :: "int \<Rightarrow> lin_ev list \<Rightarrow> bool" where
  "lin_times clock lin \<longleftrightarrow> sorted (map le_point lin) \<and>
     (\<forall>e \<in> set lin. op_Call (le_op e) \<le> le_point e \<and> le_point e \<le> clock \<and> (le_done e \<longrightarrow> le_point e \<le> op_Return (le_op e)))"

definition lin_log :: "OpLog \<Rightarrow> lin_ev list \<Rightarrow> bool" where
  "lin_log l lin \<longleftrightarrow> mset l = mset (map le_op (filter le_done lin))"

definition key_io :: "string \<Rightarrow> lin_ev list \<Rightarrow> kvio list" where
  "key_io k lin = filter (io_on k) (map (\<lambda>e. op_io (le_op e)) lin)"

definition lin_model :: "KVSrv \<Rightarrow> lin_ev list \<Rightarrow> bool" where
  "lin_model kv lin \<longleftrightarrow> (\<forall>k. model_run KvModel_Init (key_io k lin) = Some (kvsrv.model_of kv k))"

definition cs_inv :: "nat \<Rightarrow> 'c workload \<Rightarrow> 'c clients_sys \<Rightarrow> lin_ev list \<Rightarrow> bool" where
  "cs_inv n w s lin \<longleftrightarrow> lin_times (cs_clock s) lin \<and> lin_log (cs_log s) lin \<and> lin_model (cs_srv s) lin \<and>
     (\<forall>i < n. flight_ok w s lin i) \<and> (\<forall>e \<in> set lin. \<exists>i < n. op_ClientId (le_op e) = int i) \<and>
     (\<forall>k. unat (version_of s k) \<le> cs_puts s)"

lemma cs_invD:
  assumes "cs_inv n w s lin"
  shows "lin_times (cs_clock s) lin" "lin_log (cs_log s) lin" "lin_model (cs_srv s) lin"
    "i < n \<Longrightarrow> flight_ok w s lin i" "e \<in> set lin \<Longrightarrow> \<exists>i < n. op_ClientId (le_op e) = int i"
    "unat (version_of s k) \<le> cs_puts s"
  using assms unfolding cs_inv_def by blast+

lemma cs_invI:
  assumes "lin_times (cs_clock s) lin" "lin_log (cs_log s) lin" "lin_model (cs_srv s) lin"
    and "\<And>i. i < n \<Longrightarrow> flight_ok w s lin i" "\<And>e. e \<in> set lin \<Longrightarrow> \<exists>i < n. op_ClientId (le_op e) = int i"
    and "\<And>k. unat (version_of s k) \<le> cs_puts s"
  shows "cs_inv n w s lin"
  using assms unfolding cs_inv_def by blast

lemma cs_fields [simp]:
  "cs_srv (set_flight i f s) = cs_srv s" "cs_prog (set_flight i f s) = cs_prog s"
  "cs_flight (set_flight i f s) = (cs_flight s)(i := f)" "cs_clock (set_flight i f s) = cs_clock s"
  "cs_log (set_flight i f s) = cs_log s" "cs_puts (set_flight i f s) = cs_puts s"
  "cs_srv (set_prog i c s) = cs_srv s" "cs_prog (set_prog i c s) = (cs_prog s)(i := c)"
  "cs_flight (set_prog i c s) = cs_flight s" "cs_clock (set_prog i c s) = cs_clock s"
  "cs_log (set_prog i c s) = cs_log s" "cs_puts (set_prog i c s) = cs_puts s"
  "cs_prog (cs_exec p s) = cs_prog s" "cs_flight (cs_exec p s) = cs_flight s"
  "cs_clock (cs_exec p s) = cs_clock s" "cs_log (cs_exec p s) = cs_log s"
  by (simp_all add: set_flight_def set_prog_def cs_exec_def split_beta Let_def)

lemma cs_return_fields [simp]:
  "cs_clock (cs_return op i c s) = cs_clock s" "cs_log (cs_return op i c s) = cs_log s @ [op]"
  "cs_srv (cs_return op i c s) = cs_srv s" "cs_puts (cs_return op i c s) = cs_puts s"
  "cs_flight (cs_return op i c s) = (cs_flight s)(i := Idle)" "cs_prog (cs_return op i c s) = (cs_prog s)(i := c)"
  by (simp_all add: cs_return_def OpLog_Append_def set_flight_def set_prog_def)

text \<open>A handler that performs a \<open>Put\<close> and one that refuses it.\<close>

lemma cs_exec_performed:
  assumes "pa_Version p = version_of s (pa_Key p)"
  shows "pr_Err (fst (KVServer_Put p (cs_srv s))) = OK" "cs_puts (cs_exec p s) = Suc (cs_puts s)"
    "version_of (cs_exec p s) k = (if k = pa_Key p then version_of s k + 1 else version_of s k)"
proof -
  show ok: "pr_Err (fst (KVServer_Put p (cs_srv s))) = OK" using kvsrv.put_ok_iff [where s = "cs_srv s" and p = p] assms by simp
  then show "cs_puts (cs_exec p s) = Suc (cs_puts s)" by (simp add: cs_exec_def split_beta Let_def)
  show "version_of (cs_exec p s) k = (if k = pa_Key p then version_of s k + 1 else version_of s k)"
    using kvsrv.put_version [where s = "cs_srv s" and p = p and k = k] ok by (simp add: cs_exec_def split_beta Let_def)
qed

lemma cs_exec_refused:
  assumes "pa_Version p \<noteq> version_of s (pa_Key p)"
  shows "cs_exec p s = s"
    "pr_Err (fst (KVServer_Put p (cs_srv s))) = (if data (cs_srv s) (pa_Key p) = None then ErrNoKey else ErrVersion)"
  using assms
  by (auto simp: cs_exec_def KVServer_Put_def kvsrv.cur_version_def split_beta Let_def split: option.splits)

section \<open>Events\<close>

lemma key_io_append [simp]: "key_io k (lin @ lin') = key_io k lin @ key_io k lin'"
  by (simp add: key_io_def)

lemma lin_log_pending: "lin_log l lin \<Longrightarrow> \<not> le_done e \<Longrightarrow> lin_log l (lin @ [e])"
  by (simp add: lin_log_def)

lemma lin_times_append:
  assumes "lin_times clock lin" and "le_point e = clock" and "op_Call (le_op e) \<le> clock" and "\<not> le_done e"
  shows "lin_times clock (lin @ [e])"
  using assms by (auto simp: lin_times_def sorted_append)

text \<open>An event of client \<open>i\<close> leaves the others as they are.\<close>

lemma flight_ok_other:
  assumes "flight_ok w s lin j" and "pending j lin' = pending j lin" and "cs_flight s' j = cs_flight s j"
    and "cs_prog s' j = cs_prog s j" and "cs_clock s \<le> cs_clock s'"
    and "\<And>k. unat (version_of s k) \<le> unat (version_of s' k)"
  shows "flight_ok w s' lin' j"
proof (cases "cs_flight s j")
  case (Waiting t r)
  then show ?thesis
    using assms(1,5) assms(6) order_less_le_trans
    unfolding flight_ok_def assms(2-4) by (fastforce simp: Waiting)
next
  case (Returned t x)
  then show ?thesis using assms(1) unfolding flight_ok_def assms(2-4) by (cases x) simp_all
qed (use assms(1) in \<open>simp add: flight_ok_def assms(2-4)\<close>)

lemma pending_snoc: "pending j (lin @ [e]) = pending j lin @ (if pend j e then [e] else [])"
  by simp

lemma ev_client [simp]:
  "pend j (get_ev i a g t pt) \<longleftrightarrow> j = i" "pend j (put_ev i p err t pt) \<longleftrightarrow> j = i"
  by (auto simp: pend_def get_ev_def put_ev_def kvtest_Get_op_def kvtest_Put_op_def)

lemma lin_model_snoc:
  assumes "lin_model kv lin" and "in_Key (op_Input (le_op e)) = key"
    and "\<And>k. k \<noteq> key \<Longrightarrow> kvsrv.model_of kv' k = kvsrv.model_of kv k"
    and "if nokey (op_io (le_op e)) then kvsrv.model_of kv' key = kvsrv.model_of kv key
      else KvModel_Step (kvsrv.model_of kv key) (op_Input (le_op e)) (op_Output (le_op e)) = (True, MState (kvsrv.model_of kv' key))"
  shows "lin_model kv' (lin @ [e])"
proof -
  have "model_run KvModel_Init (key_io k (lin @ [e])) = Some (kvsrv.model_of kv' k)" for k
  proof -
    have old: "model_run KvModel_Init (key_io k lin) = Some (kvsrv.model_of kv k)" using assms(1) by (simp add: lin_model_def)
    have "key_io k [e] = (if k = key \<and> \<not> nokey (op_io (le_op e)) then [op_io (le_op e)] else [])"
      using assms(2) by (auto simp: key_io_def op_io_def)
    then show ?thesis
      using old assms(3) [of k] assms(4) by (cases "k = key") (auto simp: model_run_append op_io_def split: if_splits)
  qed
  then show ?thesis by (simp add: lin_model_def)
qed

lemma lin_model_get:
  assumes "lin_model kv lin"
  shows "lin_model kv (lin @ [get_ev i a (KVServer_Get a kv) t pt])"
proof (rule lin_model_snoc [OF assms, where key = "ga_Key a"])
  have "\<not> nokey (op_io (kvtest_Get_op (ga_Key a) (KVServer_Get a kv) t 0 (int i)))"
    by (simp add: nokey_def op_io_def kvtest_Get_op_def)
  then show "if nokey (op_io (le_op (get_ev i a (KVServer_Get a kv) t pt))) then kvsrv.model_of kv (ga_Key a) = kvsrv.model_of kv (ga_Key a)
      else KvModel_Step (kvsrv.model_of kv (ga_Key a)) (op_Input (le_op (get_ev i a (KVServer_Get a kv) t pt)))
        (op_Output (le_op (get_ev i a (KVServer_Get a kv) t pt))) = (True, MState (kvsrv.model_of kv (ga_Key a)))"
    using kvsrv.get_accepted [of kv a t 0 "int i"] by (simp add: get_ev_def)
qed (simp_all add: get_ev_def kvtest_Get_op_def)

lemma lin_model_put:
  assumes "lin_model kv lin" and "kv' = snd (KVServer_Put p kv)"
    and "if pa_Version p = kvsrv.cur_version kv (pa_Key p) then err = OK \<or> err = ErrMaybe
      else err = ErrVersion \<or> err = ErrMaybe \<or> err = ErrNoKey"
  shows "lin_model kv' (lin @ [put_ev i p err t pt])"
proof (rule lin_model_snoc [OF assms(1), where key = "pa_Key p"])
  let ?k = "pa_Key p"
  show "in_Key (op_Input (le_op (put_ev i p err t pt))) = ?k" by (simp add: put_ev_def kvtest_Put_op_def)
  show "kvsrv.model_of kv' k = kvsrv.model_of kv k" if "k \<noteq> ?k" for k
    using kvsrv.model_of_other [where s = kv and a = p and k = k] that by (simp add: assms(2))
  show "if nokey (op_io (le_op (put_ev i p err t pt))) then kvsrv.model_of kv' ?k = kvsrv.model_of kv ?k
      else KvModel_Step (kvsrv.model_of kv ?k) (op_Input (le_op (put_ev i p err t pt))) (op_Output (le_op (put_ev i p err t pt))) =
        (True, MState (kvsrv.model_of kv' ?k))"
    using TrueI
  proof (cases rule: kvsrv.put_cases [where s = kv and p = p])
    case performed
    then have "kvsrv.model_of kv' ?k = \<lparr>st_Value = pa_Value p, st_Version = pa_Version p + 1\<rparr>"
      by (simp add: assms(2) kvsrv.model_of_def kvsrv.cur_value_def kvsrv.cur_version_def)
    then show ?thesis
      using performed(1) assms(3)
      by (auto simp: put_ev_def kvtest_Put_op_def nokey_def op_io_def KvModel_Step_def kvsrv.model_of_def)
  next
    case refused
    then have "kvsrv.model_of kv' ?k = kvsrv.model_of kv ?k"
      by (simp add: assms(2) kvsrv.model_of_def kvsrv.cur_value_def kvsrv.cur_version_def)
    then show ?thesis
      using refused(1) assms(3)
      by (auto simp: put_ev_def kvtest_Put_op_def nokey_def op_io_def KvModel_Step_def kvsrv.model_of_def)
  qed
qed

text \<open>A step in which an operation of client \<open>i\<close> takes effect, and one in which none does.\<close>

lemma inv_event:
  assumes inv: "cs_inv n w s lin" and i: "i < n"
    and e: "\<not> le_done e" "le_point e = cs_clock s" "op_Call (le_op e) \<le> cs_clock s" "op_ClientId (le_op e) = int i"
    and s': "cs_clock s' = cs_clock s" "cs_log s' = cs_log s" "cs_prog s' = cs_prog s"
      "\<And>j. j \<noteq> i \<Longrightarrow> cs_flight s' j = cs_flight s j"
    and "\<And>k. unat (version_of s k) \<le> unat (version_of s' k)" and "\<And>k. unat (version_of s' k) \<le> cs_puts s'"
    and "lin_model (cs_srv s') (lin @ [e])" and "flight_ok w s' (lin @ [e]) i"
  shows "cs_inv n w s' (lin @ [e])"
proof (rule cs_invI)
  show "lin_times (cs_clock s') (lin @ [e])"
    unfolding s'(1) by (rule lin_times_append [OF cs_invD(1) [OF inv] e(2,3,1)])
  show "lin_log (cs_log s') (lin @ [e])" unfolding s'(2) by (rule lin_log_pending [OF cs_invD(2) [OF inv] e(1)])
  show "flight_ok w s' (lin @ [e]) j" if "j < n" for j
  proof (cases "j = i")
    case False
    then have "\<not> pend j e" using e(4) by (simp add: pend_def)
    then show ?thesis
      by (intro flight_ok_other [OF cs_invD(4) [OF inv that]]) (use s' False assms(11) in simp_all)
  qed (use assms(14) in simp)
  show "\<exists>i < n. op_ClientId (le_op x) = int i" if "x \<in> set (lin @ [e])" for x
    using that cs_invD(5) [OF inv] i e(4) by auto
qed (use assms in simp_all)

lemma inv_same:
  assumes inv: "cs_inv n w s lin" and "cs_clock s \<le> cs_clock s'" "cs_log s' = cs_log s" "cs_srv s' = cs_srv s" "cs_puts s' = cs_puts s"
    and "\<And>j. j \<noteq> i \<Longrightarrow> cs_flight s' j = cs_flight s j" "\<And>j. j \<noteq> i \<Longrightarrow> cs_prog s' j = cs_prog s j"
    and "i < n \<Longrightarrow> flight_ok w s' lin i"
  shows "cs_inv n w s' lin"
proof (rule cs_invI)
  show "lin_times (cs_clock s') lin" using cs_invD(1) [OF inv] assms(2) by (fastforce simp: lin_times_def)
  show "flight_ok w s' lin j" if "j < n" for j
  proof (cases "j = i")
    case False
    then show ?thesis by (intro flight_ok_other [OF cs_invD(4) [OF inv that]]) (use assms in simp_all)
  qed (use assms(8) that in simp)
qed (use cs_invD [OF inv] assms in simp_all)

section \<open>The steps keep the invariant\<close>

lemma waiting_pending:
  assumes "flight_ok w s lin i" and "cs_flight s i = Waiting t r"
  shows "t \<le> cs_clock s"
    and "wl_call w i (cs_prog s i) = Some (OpGet a) \<Longrightarrow> pending i lin = []"
    and "wl_call w i (cs_prog s i) = Some (OpPut p) \<Longrightarrow> pending i lin = [] \<or>
      r \<and> unat (pa_Version p) < unat (version_of s (pa_Key p)) \<and> (\<exists>pt. pending i lin = [put_ev i p ErrMaybe t pt])"
  using assms by (auto simp: flight_ok_def)

lemma put_performed_inv:
  assumes inv: "cs_inv n w s lin" and i: "i < n" and f: "cs_flight s i = Waiting t r" "wl_call w i (cs_prog s i) = Some (OpPut p)"
    and ver: "pa_Version p = version_of s (pa_Key p)" and lt: "Suc (cs_puts s) < 2 ^ 64"
    and f': "f' = Waiting t True \<and> err = ErrMaybe \<or> f' = Returned t (RPut \<lparr>pr_Err = err\<rparr>) \<and> err = OK"
  shows "cs_inv n w (set_flight i f' (cs_exec p s)) (lin @ [put_ev i p err t (cs_clock s)])"
proof (rule inv_event [OF inv i])
  note w = waiting_pending [OF cs_invD(4) [OF inv i] f(1)]
  have none: "pending i lin = []" using w(3) [OF f(2)] ver by auto
  note ex = cs_exec_performed [OF ver]
  have up: "unat (version_of s (pa_Key p) + 1) = Suc (unat (version_of s (pa_Key p)))"
    using cs_invD(6) [OF inv, of "pa_Key p"] lt by (simp add: unat_word_ariths)
  show "unat (version_of s k) \<le> unat (version_of (set_flight i f' (cs_exec p s)) k)" for k
    using up by (simp add: ex(3))
  show "unat (version_of (set_flight i f' (cs_exec p s)) k) \<le> cs_puts (set_flight i f' (cs_exec p s))" for k
    using up cs_invD(6) [OF inv, of k] by (auto simp: ex(2,3))
  show "lin_model (cs_srv (set_flight i f' (cs_exec p s))) (lin @ [put_ev i p err t (cs_clock s)])"
    by (rule lin_model_put [OF cs_invD(3) [OF inv]]) (use ver f' in \<open>auto simp: cs_exec_def split_beta Let_def\<close>)
  show "flight_ok w (set_flight i f' (cs_exec p s)) (lin @ [put_ev i p err t (cs_clock s)]) i"
    using f' f(2) none w(1) up ver by (auto simp: flight_ok_def ex(3))
  show "op_Call (le_op (put_ev i p err t (cs_clock s))) \<le> cs_clock s" using w(1) by (simp add: put_ev_def kvtest_Put_op_def)
qed (simp_all add: put_ev_def kvtest_Put_op_def)

lemma put_refused_inv:
  assumes inv: "cs_inv n w s lin" and i: "i < n" and f: "cs_flight s i = Waiting t r" "wl_call w i (cs_prog s i) = Some (OpPut p)"
    and ver: "pa_Version p \<noteq> version_of s (pa_Key p)"
    and err: "err = clerk_result r (pr_Err (fst (KVServer_Put p (cs_srv s))))"
  shows "\<exists>lin. cs_inv n w (set_flight i (Returned t (RPut \<lparr>pr_Err = err\<rparr>)) s) lin"
proof (cases "pending i lin = []")
  case True
  note w = waiting_pending [OF cs_invD(4) [OF inv i] f(1)]
  let ?s = "set_flight i (Returned t (RPut \<lparr>pr_Err = err\<rparr>)) s"
  have e: "err = ErrVersion \<or> err = ErrMaybe \<or> err = ErrNoKey"
    unfolding err cs_exec_refused(2) [OF ver] by (auto simp: clerk_result_def)
  have kv: "cs_srv s = snd (KVServer_Put p (cs_srv s))"
    using cs_exec_refused(1) [OF ver] by (auto simp: cs_exec_def split_beta Let_def dest: arg_cong [where f = cs_srv])
  have "cs_inv n w ?s (lin @ [put_ev i p err t (cs_clock s)])"
  proof (rule inv_event [OF inv i])
    show "lin_model (cs_srv ?s) (lin @ [put_ev i p err t (cs_clock s)])"
      using lin_model_put [OF cs_invD(3) [OF inv] kv, of err i t "cs_clock s"] ver e by simp
    show "flight_ok w ?s (lin @ [put_ev i p err t (cs_clock s)]) i" using f(2) True by (auto simp: flight_ok_def)
    show "unat (version_of ?s k) \<le> cs_puts ?s" for k using cs_invD(6) [OF inv, of k] by simp
  qed (use w(1) in \<open>simp_all add: put_ev_def kvtest_Put_op_def\<close>)
  then show ?thesis by blast
next
  case False
  then obtain pt where r: "r" "unat (pa_Version p) < unat (version_of s (pa_Key p))" "pending i lin = [put_ev i p ErrMaybe t pt]"
    using waiting_pending(3) [OF cs_invD(4) [OF inv i] f] by auto
  then have "data (cs_srv s) (pa_Key p) \<noteq> None" by (auto simp: kvsrv.cur_version_def split: option.splits)
  then have "err = ErrMaybe" using r(1) unfolding err cs_exec_refused(2) [OF ver] by (simp add: clerk_result_def)
  then have "cs_inv n w (set_flight i (Returned t (RPut \<lparr>pr_Err = err\<rparr>)) s) lin"
    by (intro inv_same [OF inv, where i = i]) (use f(2) r(3) in \<open>auto simp: flight_ok_def\<close>)
  then show ?thesis by blast
qed

lemma retry_inv:
  assumes inv: "cs_inv n w s lin" and i: "i < n" and f: "cs_flight s i = Waiting t r"
  shows "cs_inv n w (set_flight i (Waiting t True) s) lin"
  by (rule inv_same [OF inv, where i = i]) (use cs_invD(4) [OF inv i] f in \<open>auto simp: flight_ok_def\<close>)

lemma get_inv:
  assumes inv: "cs_inv n w s lin" and i: "i < n" and f: "cs_flight s i = Waiting t r" "wl_call w i (cs_prog s i) = Some (OpGet a)"
  shows "cs_inv n w (set_flight i (Returned t (RGet (KVServer_Get a (cs_srv s)))) s) (lin @ [get_ev i a (KVServer_Get a (cs_srv s)) t (cs_clock s)])"
proof (rule inv_event [OF inv i])
  note w = waiting_pending [OF cs_invD(4) [OF inv i] f(1)]
  let ?s = "set_flight i (Returned t (RGet (KVServer_Get a (cs_srv s)))) s" and ?e = "get_ev i a (KVServer_Get a (cs_srv s)) t (cs_clock s)"
  show "lin_model (cs_srv ?s) (lin @ [?e])" using lin_model_get [OF cs_invD(3) [OF inv]] by simp
  show "flight_ok w ?s (lin @ [?e]) i" using f(2) w(2) [OF f(2)] by (auto simp: flight_ok_def)
  show "op_Call (le_op ?e) \<le> cs_clock s" using w(1) by (simp add: get_ev_def kvtest_Get_op_def)
  show "unat (version_of ?s k) \<le> cs_puts ?s" for k using cs_invD(6) [OF inv, of k] by simp
qed (simp_all add: get_ev_def kvtest_Get_op_def)

text \<open>The return of a call: its event is done.\<close>

lemma filter_single_split:
  assumes "filter P xs = [x]"
  obtains ys zs where "xs = ys @ x # zs" "filter P ys = []" "filter P zs = []" "P x"
proof -
  obtain ys zs where "xs = ys @ x # zs" "\<forall>u \<in> set ys. \<not> P u" "P x" "filter P zs = []"
    using assms by (auto simp: filter_eq_Cons_iff)
  then show thesis using that by (metis filter_False)
qed

lemma return_inv:
  assumes inv: "cs_inv n w s lin" and i: "i < n" and f: "cs_flight s i = Returned t x"
    and e: "pending i lin = [e]" and op: "op = (le_op e)\<lparr>op_Return := cs_clock s\<rparr>"
  shows "\<exists>lin. cs_inv n w (cs_return op i c s) lin"
proof -
  obtain ys zs where lin: "lin = ys @ e # zs" "pending i ys = []" "pending i zs = []" "pend i e"
    using filter_single_split [OF e] .
  define e' where "e' = \<lparr>le_done = True, le_point = le_point e, le_op = op\<rparr>"
  let ?s = "cs_return op i c s" and ?lin = "ys @ e' # zs"
  have "cs_inv n w ?s ?lin"
  proof (rule cs_invI)
    show "lin_times (cs_clock ?s) ?lin" using cs_invD(1) [OF inv] by (auto simp: lin_times_def lin(1) e'_def op)
    show "lin_log (cs_log ?s) ?lin"
      using cs_invD(2) [OF inv] lin(4) by (simp add: lin_log_def lin(1) e'_def pend_def)
    have "op_io op = op_io (le_op e)" by (simp add: op_io_def op)
    then show "lin_model (cs_srv ?s) ?lin" using cs_invD(3) [OF inv] by (simp add: lin_model_def key_io_def lin(1) e'_def)
    show "flight_ok w ?s ?lin j" if "j < n" for j
    proof (cases "j = i")
      case True
      then show ?thesis using lin(2,3) by (simp add: flight_ok_def pend_def e'_def)
    next
      case False
      then have "\<not> pend j e" "\<not> pend j e'" using lin(4) by (auto simp: pend_def e'_def op)
      then show ?thesis
        by (intro flight_ok_other [OF cs_invD(4) [OF inv that]]) (use False in \<open>simp_all add: lin(1)\<close>)
    qed
    show "\<exists>i < n. op_ClientId (le_op x) = int i" if "x \<in> set ?lin" for x
      using that cs_invD(5) [OF inv, of x] cs_invD(5) [OF inv, of e] by (auto simp: lin(1) e'_def op)
  qed (use cs_invD(6) [OF inv] in simp)
  then show ?thesis by blast
qed

lemma cs_step_inv:
  assumes "cs_step reliable n w s t" and inv: "cs_inv n w s lin" and lt: "cs_puts t < 2 ^ 64"
  shows "\<exists>lin. cs_inv n w t lin"
  using assms(1)
proof cases
  case (time t')
  have "cs_inv n w t lin"
    by (rule inv_same [OF inv, where i = n]) (use time in simp_all)
  then show ?thesis by blast
next
  case (local i c)
  have "cs_inv n w t lin"
    by (rule inv_same [OF inv, where i = i]) (use local cs_invD(4) [OF inv, of i] in \<open>simp_all add: flight_ok_def\<close>)
  then show ?thesis by blast
next
  case (call i op)
  have "cs_inv n w t lin"
    by (rule inv_same [OF inv, where i = i]) (use call cs_invD(4) [OF inv, of i] in \<open>simp_all add: flight_ok_def\<close>)
  then show ?thesis by blast
next
  case (get i t' r a)
  then show ?thesis using get_inv [OF inv get(2-4)] by blast
next
  case (request_lost i t' r p)
  then show ?thesis using retry_inv [OF inv] by blast
next
  case (reply_lost i t' r p)
  show ?thesis
  proof (cases "pa_Version p = version_of s (pa_Key p)")
    case True
    then show ?thesis
      using put_performed_inv [OF inv reply_lost(3-5) True, of "Waiting t' True" ErrMaybe] lt cs_exec_performed(2) [OF True]
      unfolding reply_lost(1) by auto
  next
    case False
    then show ?thesis using retry_inv [OF inv reply_lost(3,4)] cs_exec_refused(1) [OF False] unfolding reply_lost(1) by auto
  qed
next
  case (delivered i t' r p err)
  show ?thesis
  proof (cases "pa_Version p = version_of s (pa_Key p)")
    case True
    then have "err = OK" using delivered(5) cs_exec_performed(1) [OF True] by (simp add: clerk_result_def)
    then show ?thesis
      using put_performed_inv [OF inv delivered(2-4) True, of "Returned t' (RPut \<lparr>pr_Err = err\<rparr>)" err] lt cs_exec_performed(2) [OF True]
      unfolding delivered(1) by auto
  next
    case False
    then show ?thesis
      using put_refused_inv [OF inv delivered(2-4) False delivered(5)] cs_exec_refused(1) [OF False] unfolding delivered(1) by auto
  qed
next
  case (got i t' gr a)
  obtain a' pt where "pending i lin = [get_ev i a gr t' pt]"
    using cs_invD(4) [OF inv got(2)] got(3,4) by (auto simp: flight_ok_def)
  from return_inv [OF inv got(2,3) this] show ?thesis
    unfolding got(1) by (auto simp: get_ev_def kvtest_Get_op_def)
next
  case (put i t' pr p)
  obtain pt where "pending i lin = [put_ev i p (pr_Err pr) t' pt]"
    using cs_invD(4) [OF inv put(2)] put(3,4) by (auto simp: flight_ok_def)
  from return_inv [OF inv put(2,3) this] show ?thesis
    unfolding put(1) by (auto simp: put_ev_def kvtest_Put_op_def)
qed

lemma cs_step_puts: "cs_step reliable n w s t \<Longrightarrow> cs_puts s \<le> cs_puts t"
  by (cases rule: cs_step.cases) (auto simp: cs_exec_def cs_return_def split_beta Let_def)

lemma cs_reachable_inv:
  assumes "cs_reachable reliable n w prog s" and "cs_puts s < 2 ^ 64"
  shows "\<exists>lin. cs_inv n w s lin"
  using assms
proof induction
  case init
  have "cs_inv n w (clients_init prog) []"
    by (rule cs_invI)
      (simp_all add: clients_init_def lin_times_def lin_log_def lin_model_def key_io_def flight_ok_def KvModel_Init_def
        kvsrv.model_of_def kvsrv.cur_version_def kvsrv.cur_value_def)
  then show ?case by blast
next
  case (step s t)
  then show ?case using cs_step_puts [OF step(2)] cs_step_inv [OF step(2) _ step(4)] by auto
qed

section \<open>Linearizability\<close>

lemma idle_all_done:
  assumes inv: "cs_inv n w s lin" and "\<forall>i < n. cs_flight s i = Idle" and "e \<in> set lin"
  shows "le_done e"
proof (rule ccontr)
  assume "\<not> le_done e"
  moreover obtain i where "i < n" "op_ClientId (le_op e) = int i" using cs_invD(5) [OF inv assms(3)] by blast
  ultimately have "e \<in> set (pending i lin)" using assms(3) by (simp add: pend_def)
  moreover have "pending i lin = []" using cs_invD(4) [OF inv \<open>i < n\<close>] assms(2) \<open>i < n\<close> by (simp add: flight_ok_def)
  ultimately show False by simp
qed

lemma lin_times_order:
  assumes "lin_times clock lin" and "\<forall>e \<in> set lin. le_done e"
  shows "sorted_wrt (\<lambda>a b. \<not> op_Return b < op_Call a) (map le_op lin)"
proof -
  have "sorted_wrt (\<lambda>e e'. le_point e \<le> le_point e') lin" using assms(1) by (simp add: lin_times_def sorted_wrt_map)
  then have "sorted_wrt (\<lambda>e e'. \<not> op_Return (le_op e') < op_Call (le_op e)) lin"
  proof (rule sorted_wrt_mono_rel [rotated])
    fix e e' assume e: "e \<in> set lin" "e' \<in> set lin" "le_point e \<le> le_point e'"
    have "op_Call (le_op e) \<le> le_point e" "le_point e' \<le> op_Return (le_op e')"
      using assms e(1,2) unfolding lin_times_def by blast+
    with e(3) show "\<not> op_Return (le_op e') < op_Call (le_op e)" by simp
  qed
  then show ?thesis by (simp add: sorted_wrt_map)
qed

text \<open>The operations of each key have a legal order.\<close>

lemma concurrent_linearizable:
  assumes "cs_reachable reliable n w prog s" and "\<forall>i < n. cs_flight s i = Idle" and "cs_puts s < 2 ^ 64"
    and "\<forall>op \<in> set (cs_log s). in_Op (op_Input op) = 1 \<longrightarrow> out_Err (op_Output op) \<noteq> ''ErrNoKey''"
    and "part \<in> set (KvModel_Partition (cs_log s))"
  shows "linearizable part"
proof -
  obtain lin where inv: "cs_inv n w s lin" using cs_reachable_inv [OF assms(1,3)] by blast
  have all: "\<forall>e \<in> set lin. le_done e" using idle_all_done [OF inv assms(2)] by blast
  then have log: "mset (cs_log s) = mset (map le_op lin)" using cs_invD(2) [OF inv] by (simp add: lin_log_def)
  obtain k where k: "part = filter (on_key k) (cs_log s)" using assms(5) by (auto simp: KvModel_Partition_eq)
  let ?l = "filter (on_key k) (map le_op lin)"
  have "mset ?l = mset part" using log by (simp add: k mset_filter)
  moreover have "\<not> op_Return (?l ! j) < op_Call (?l ! i)" if "i < j" "j < length ?l" for i j
    using sorted_wrt_nth_less [OF sorted_wrt_filter [OF lin_times_order [OF cs_invD(1) [OF inv] all]] that] .
  moreover have "model_accepts KvModel_Init ?l"
  proof (rule model_accepts_run)
    have "\<not> nokey (op_io (le_op e))" if "e \<in> set lin" for e
    proof -
      have "le_op e \<in> set (cs_log s)" using mset_eq_setD [OF log] that by simp
      with assms(4) show ?thesis by (auto simp: nokey_def op_io_def)
    qed
    then have "map op_io ?l = key_io k lin"
      by (induction lin) (auto simp: key_io_def op_io_def)
    then show "model_run KvModel_Init (map op_io ?l) \<noteq> None" using cs_invD(3) [OF inv] by (simp add: lin_model_def)
  qed
  ultimately show ?thesis unfolding linearizable_def by blast
qed

text \<open>C8: linearizability of the key/value server under concurrent clients.  Any number of clients run
  any programs; their \<open>Get\<close>s and \<open>Put\<close>s overlap, and requests and replies are lost and retried by
  the clerks.  When no call is under way, the recorded operations of every key have an order that
  respects real time and that the specification of the tests accepts.  (The specification rejects
  \<open>Put\<close>s answered with \<open>ErrNoKey\<close>; they are excluded.)\<close>
theorem concurrent_history_linearizable:
  assumes "cs_reachable reliable n w prog s" and "\<forall>i < n. cs_flight s i = Idle" and "cs_puts s < 2 ^ 64"
    and "\<forall>op \<in> set (cs_log s). in_Op (op_Input op) = 1 \<longrightarrow> out_Err (op_Output op) \<noteq> ''ErrNoKey''"
    and "part \<in> set (KvModel_Partition (cs_log s))"
  shows "linearizable part"
  using concurrent_linearizable [OF assms] .

text \<open>Two clients \<open>Put\<close> to a fresh key with version 0.  The first is performed but its reply is lost,
  the second is refused, and the retry of the first answers \<open>ErrMaybe\<close>.\<close>

definition demo_wl :: "nat workload" where
  "demo_wl = \<lparr>wl_call = (\<lambda>i c. if c = 0 then Some (OpPut \<lparr>pa_Key = ''x'', pa_Value = ''a'', pa_Version = 0\<rparr>) else None),
     wl_local = (\<lambda>i c. []), wl_get = (\<lambda>i g c. c), wl_put = (\<lambda>i e c. 1)\<rparr>"

definition demo_ops :: OpLog where
  "demo_ops = [kvtest_Put_op ''x'' ''a'' 0 ErrVersion 0 0 1, kvtest_Put_op ''x'' ''a'' 0 ErrMaybe 0 0 0]"

lemma demo_history:
  "\<exists>s. cs_reachable False 2 demo_wl (\<lambda>_. 0) s \<and> (\<forall>i < 2. cs_flight s i = Idle) \<and> cs_puts s = 1 \<and> cs_log s = demo_ops"
proof -
  let ?R = "cs_reachable False 2 demo_wl (\<lambda>_. 0)" and ?p = "\<lparr>pa_Key = ''x'', pa_Value = ''a'', pa_Version = 0\<rparr>"
  define s0 where "s0 = clients_init (\<lambda>_. 0 :: nat)"
  define s1 where "s1 = set_flight 0 (Waiting (cs_clock s0) False) s0"
  define s2 where "s2 = set_flight 1 (Waiting (cs_clock s1) False) s1"
  define s3 where "s3 = set_flight 0 (Waiting 0 True) (cs_exec ?p s2)"
  define s4 where "s4 = set_flight 1 (Returned 0 (RPut \<lparr>pr_Err = ErrVersion\<rparr>)) (cs_exec ?p s3)"
  define s5 where "s5 = set_flight 0 (Returned 0 (RPut \<lparr>pr_Err = ErrMaybe\<rparr>)) (cs_exec ?p s4)"
  define s6 where "s6 = cs_return (kvtest_Put_op ''x'' ''a'' 0 ErrVersion 0 (cs_clock s5) (int 1)) 1 1 s5"
  define s7 where "s7 = cs_return (kvtest_Put_op ''x'' ''a'' 0 ErrMaybe 0 (cs_clock s6) (int 0)) 0 1 s6"
  note d = s0_def s1_def s2_def s3_def s4_def s5_def s6_def s7_def
  note sv = demo_wl_def clients_init_def cs_exec_def KVServer_Put_def MakeKVServer_def clerk_result_def
  have r0: "?R s0" unfolding s0_def by (rule cs_reachable.init)
  have r1: "?R s1" unfolding s1_def
    by (rule cs_reachable.step [OF r0 cs_step.call [where op = "OpPut ?p"]]) (simp_all add: d sv)
  have r2: "?R s2" unfolding s2_def
    by (rule cs_reachable.step [OF r1 cs_step.call [where op = "OpPut ?p"]]) (simp_all add: d sv)
  have r3: "?R s3" unfolding s3_def
    by (rule cs_reachable.step [OF r2 cs_step.reply_lost [where r = False]]) (simp_all add: d sv)
  have r4: "?R s4" unfolding s4_def
    by (rule cs_reachable.step [OF r3 cs_step.delivered [where r = False]]) (simp_all add: d sv)
  have r5: "?R s5" unfolding s5_def
    by (rule cs_reachable.step [OF r4 cs_step.delivered [where r = True]]) (simp_all add: d sv)
  have r6: "?R s6"
    using cs_step.put [of 1 2 s5 0 "\<lparr>pr_Err = ErrVersion\<rparr>" demo_wl ?p False]
    by (intro cs_reachable.step [OF r5]) (simp add: s6_def, simp add: d sv)
  have r7: "?R s7"
    using cs_step.put [of 0 2 s6 0 "\<lparr>pr_Err = ErrMaybe\<rparr>" demo_wl ?p False]
    by (intro cs_reachable.step [OF r6]) (simp add: s7_def, simp add: d sv)
  have "(\<forall>i < 2. cs_flight s7 i = Idle) \<and> cs_puts s7 = 1 \<and> cs_log s7 = demo_ops"
    by (auto simp: d sv demo_ops_def less_2_cases_iff)
  with r7 show ?thesis by blast
qed

theorem concurrent_history_linearizable_witness: "linearizable demo_ops"
proof -
  obtain s where s: "cs_reachable False 2 demo_wl (\<lambda>_. 0) s" "\<forall>i < 2. cs_flight s i = Idle" "cs_puts s = 1" "cs_log s = demo_ops"
    using demo_history by blast
  have "demo_ops \<in> set (KvModel_Partition (cs_log s))"
    by (simp add: s(4) demo_ops_def KvModel_Partition_def Let_def kvtest_Put_op_def)
  then show ?thesis
    using concurrent_history_linearizable [OF s(1,2)] s(3,4) by (simp add: demo_ops_def kvtest_Put_op_def)
qed

end
