(* ===== verification/KvTest.thy ===== *)
theory KvTest
  imports KvHistory Json TestNet
begin

text \<open>
  The test library of the key/value services (\<open>src/kvtest1/kvtest.go\<close>, and \<open>Get\<close> and \<open>Put\<close> of
  \<open>src/kvtest1/porcupine.go\<close>).

  The functions that one goroutine runs are functions of the state of the test (its log, its counter
  of operations, its clock) and of the state \<open>'s\<close> behind the clerk, an interface of two operations.
  \<open>ts.Fatalf\<close> is the error \<open>LogFatal\<close>; a loop without bound has fuel, and \<open>None\<close> says that it ran
  out.  Each reading of the clock is later than the one before.  Random choices are arguments.

  \<open>OneClientPut\<close>, which many goroutines run at once, is a workload of \<open>KvHistory\<close>.
\<close>

section \<open>The state of a test\<close>

record 's IKVClerk =
  ck_Get :: "string \<Rightarrow> 's \<Rightarrow> (string \<times> Tversion \<times> Err) \<times> 's"
  ck_Put :: "string \<Rightarrow> string \<Rightarrow> Tversion \<Rightarrow> 's \<Rightarrow> Err \<times> 's"

record kvTest =
  kt_oplog :: "OpLog option"
  kt_ops :: int
  kt_clock :: int
  kt_randomkeys :: bool

definition kvMakeTest :: "bool \<Rightarrow> kvTest" where
  "kvMakeTest randomkeys = \<lparr>kt_oplog = Some [], kt_ops = 0, kt_clock = 0, kt_randomkeys = randomkeys\<rparr>"

definition OpLog_Len :: "OpLog \<Rightarrow> int" where
  "OpLog_Len l = go_len l"

definition OpLog_Read :: "OpLog \<Rightarrow> Operation list" where
  "OpLog_Read l = map (\<lambda>i. l ! i) [0..<length l]"

definition letterBytes :: string where
  "letterBytes = ''abcdefghijklmnopqrstuvwxyzABCDEFGHIJKLMNOPQRSTUVWXYZ''"

text \<open>The random numbers, not negative, that \<open>RandValue(n)\<close> draws are \<open>rs\<close>.\<close>

definition RandValue :: "nat list \<Rightarrow> string" where
  "RandValue rs = map (\<lambda>r. letterBytes ! (r mod length letterBytes)) rs"

definition ts_Op :: "kvTest \<Rightarrow> kvTest" where
  "ts_Op ts = ts\<lparr>kt_ops := kt_ops ts + 1\<rparr>"

definition ts_log :: "Operation \<Rightarrow> kvTest \<Rightarrow> kvTest" where
  "ts_log op ts = (case kt_oplog ts of None \<Rightarrow> ts | Some l \<Rightarrow> ts\<lparr>kt_oplog := Some (OpLog_Append op l)\<rparr>)"

definition ts_Get :: "'s IKVClerk \<Rightarrow> string \<Rightarrow> int \<Rightarrow> kvTest \<times> 's \<Rightarrow> (string \<times> Tversion \<times> Err) \<times> kvTest \<times> 's" where
  "ts_Get ck key cli = (\<lambda>(ts, s).
     let start = kt_clock ts;
         ((val, ver, err), s) = ck_Get ck key s;
         fin = start + 1;
         ts = ts_Op (ts\<lparr>kt_clock := fin + 1\<rparr>);
         ts = ts_log (kvtest_Get_op key \<lparr>gr_Value = val, gr_Version = ver, gr_Err = err\<rparr> start fin cli) ts
     in ((val, ver, err), ts, s))"

definition ts_Put ::
  "'s IKVClerk \<Rightarrow> string \<Rightarrow> string \<Rightarrow> Tversion \<Rightarrow> int \<Rightarrow> kvTest \<times> 's \<Rightarrow> Err \<times> kvTest \<times> 's" where
  "ts_Put ck key value version cli = (\<lambda>(ts, s).
     let start = kt_clock ts;
         (err, s) = ck_Put ck key value version s;
         fin = start + 1;
         ts = ts_Op (ts\<lparr>kt_clock := fin + 1\<rparr>);
         ts = ts_log (kvtest_Put_op key value version err start fin cli) ts
     in (err, ts, s))"

section \<open>Operations of one goroutine\<close>

fun PutAtLeastOnce ::
  "nat \<Rightarrow> 's IKVClerk \<Rightarrow> string \<Rightarrow> string \<Rightarrow> Tversion \<Rightarrow> int \<Rightarrow> kvTest \<times> 's \<Rightarrow> ((Tversion \<times> kvTest \<times> 's) go) option" where
  "PutAtLeastOnce 0 ck key value ver cli ts = None"
| "PutAtLeastOnce (Suc fuel) ck key value ver cli ts =
     (let (err, ts) = ts_Put ck key value ver cli ts
      in if err = OK then Some (Inr (ver + 1, ts))
         else if err = ErrMaybe \<or> err = ErrVersion then PutAtLeastOnce fuel ck key value (ver + 1) cli ts
         else if ver \<noteq> 0 then Some (Inl (LogFatal ''Put''))
         else PutAtLeastOnce fuel ck key value ver cli ts)"

definition CheckGet :: "'s IKVClerk \<Rightarrow> string \<Rightarrow> string \<Rightarrow> Tversion \<Rightarrow> kvTest \<times> 's \<Rightarrow> (kvTest \<times> 's) go" where
  "CheckGet ck key value version ts =
     (let ((val, ver, err), ts) = ts_Get ck key 0 ts
      in if err \<noteq> OK then Inl (LogFatal ''Get returns error'')
         else if val \<noteq> value \<or> ver \<noteq> version then Inl (LogFatal ''Get returns another value'')
         else Inr ts)"

text \<open>\<open>json.Unmarshal\<close> and \<open>json.Marshal\<close> for the type of the value are \<open>dec\<close> and \<open>enc\<close>.\<close>

definition GetJson ::
  "(string \<Rightarrow> 'v option) \<Rightarrow> 's IKVClerk \<Rightarrow> string \<Rightarrow> int \<Rightarrow> kvTest \<times> 's \<Rightarrow> ((Tversion \<times> 'v) \<times> kvTest \<times> 's) go" where
  "GetJson dec ck key cli ts =
     (let ((val, ver, err), ts) = ts_Get ck key cli ts
      in if err = OK
         then (case dec val of None \<Rightarrow> Inl (LogFatal ''Unmarshal err'') | Some v \<Rightarrow> Inr ((ver, v), ts))
         else Inl (LogFatal ''Get err''))"

definition PutJson ::
  "('v \<Rightarrow> string) \<Rightarrow> 's IKVClerk \<Rightarrow> string \<Rightarrow> 'v \<Rightarrow> Tversion \<Rightarrow> int \<Rightarrow> kvTest \<times> 's \<Rightarrow> Err \<times> kvTest \<times> 's" where
  "PutJson enc ck key v ver cli ts = ts_Put ck key (enc v) ver cli ts"

text \<open>The loop puts with version 0 whatever \<open>ver\<close> is.\<close>

fun PutAtLeastOnceJson ::
  "nat \<Rightarrow> ('v \<Rightarrow> string) \<Rightarrow> 's IKVClerk \<Rightarrow> string \<Rightarrow> 'v \<Rightarrow> Tversion \<Rightarrow> int \<Rightarrow> kvTest \<times> 's \<Rightarrow> (Tversion \<times> kvTest \<times> 's) option" where
  "PutAtLeastOnceJson 0 enc ck key v ver cli ts = None"
| "PutAtLeastOnceJson (Suc fuel) enc ck key v ver cli ts =
     (let (err, ts) = PutJson enc ck key v 0 cli ts
      in if err \<noteq> ErrMaybe then Some (ver, ts)
         else PutAtLeastOnceJson fuel enc ck key v (ver + 1) cli ts)"

definition MakeKeys :: "nat \<Rightarrow> string list" where
  "MakeKeys n = map (\<lambda>i. ''k'' @ itoa (int i)) [0..<n]"

text \<open>\<open>va\<close> are the random strings.  The \<open>Put\<close>s go to the clerk, not through \<open>ts.Put\<close>.\<close>

fun spread_puts :: "'s IKVClerk \<Rightarrow> (string \<times> string) list \<Rightarrow> 's \<Rightarrow> 's" where
  "spread_puts ck [] s = s"
| "spread_puts ck ((k, v) # kvs) s = spread_puts ck kvs (snd (ck_Put ck k v 0 s))"

fun spread_gets :: "'s IKVClerk \<Rightarrow> (string \<times> string) list \<Rightarrow> kvTest \<times> 's \<Rightarrow> (kvTest \<times> 's) go" where
  "spread_gets ck [] ts = Inr ts"
| "spread_gets ck ((k, v) # kvs) ts = go_bind (CheckGet ck k v 1 ts) (spread_gets ck kvs)"

definition SpreadPutsSize ::
  "'s IKVClerk \<Rightarrow> nat \<Rightarrow> string list \<Rightarrow> kvTest \<times> 's \<Rightarrow> ((string list \<times> string list) \<times> kvTest \<times> 's) go" where
  "SpreadPutsSize ck n va = (\<lambda>(ts, s).
     let ka = MakeKeys n; s = spread_puts ck (zip ka va) s
     in go_bind (spread_gets ck (zip ka va) (ts, s)) (\<lambda>ts. Inr ((ka, va), ts)))"

section \<open>Results of clients\<close>

record ClntRes =
  Nok :: int
  Nmaybe :: int

fun sum_res :: "ClntRes list \<Rightarrow> ClntRes \<Rightarrow> ClntRes" where
  "sum_res [] res = res"
| "sum_res (r # rs) res = sum_res rs (res\<lparr>Nok := Nok res + Nok r, Nmaybe := Nmaybe res + Nmaybe r\<rparr>)"

text \<open>\<open>rpc.Tversion(x)\<close> is the conversion to 64 bits.\<close>

definition CheckPutConcurrent ::
  "(string \<Rightarrow> 'v option) \<Rightarrow> 's IKVClerk \<Rightarrow> string \<Rightarrow> ClntRes list \<Rightarrow> ClntRes \<Rightarrow> bool \<Rightarrow> kvTest \<times> 's \<Rightarrow> (ClntRes \<times> kvTest \<times> 's) go" where
  "CheckPutConcurrent dec ck key rs res reliable ts =
     go_bind (GetJson dec ck key (- 1) ts) (\<lambda>((ver0, e), ts).
       let res = sum_res rs res
       in if reliable
          then if ver0 \<noteq> word_of_int (Nok res) then Inl (LogFatal ''Reliable: Wrong number of puts'') else Inr (res, ts)
          else if ver0 > word_of_int (Nok res + Nmaybe res) then Inl (LogFatal ''Unreliable: Wrong number of puts'')
          else Inr (res, ts))"

section \<open>Clients\<close>

definition ConnectClnts :: "Clnt list \<Rightarrow> Network \<Rightarrow> Clnt list \<times> Network" where
  "ConnectClnts cs n = fold (\<lambda>c (cs, n). let (c, n) = Clnt_ConnectAll (c, n) in (cs @ [c], n)) cs ([], n)"

section \<open>\<open>OnePut\<close> and \<open>OneClientPut\<close>\<close>

record EntryV =
  ev_Id :: int
  ev_V :: Tversion

definition EntryV_json :: "EntryV \<Rightarrow> string" where
  "EntryV_json e = pr_json (JObj [(''Id'', JInt (ev_Id e)), (''V'', JInt (uint (ev_V e)))])"

definition EntryV_field :: "string \<Rightarrow> json \<Rightarrow> EntryV \<Rightarrow> EntryV option" where
  "EntryV_field k v e =
     (if k = ''Id'' then (case v of JInt i \<Rightarrow> Some (e\<lparr>ev_Id := i\<rparr>) | _ \<Rightarrow> None)
      else if k = ''V'' then (case v of JInt i \<Rightarrow> if 0 \<le> i \<and> i < 2 ^ 64 then Some (e\<lparr>ev_V := word_of_int i\<rparr>) else None | _ \<Rightarrow> None)
      else Some e)"

fun EntryV_fields :: "(string \<times> json) list \<Rightarrow> EntryV \<Rightarrow> EntryV option" where
  "EntryV_fields [] e = Some e"
| "EntryV_fields ((k, v) # kvs) e = Option.bind (EntryV_field k v e) (EntryV_fields kvs)"

definition EntryV_parse :: "string \<Rightarrow> EntryV option" where
  "EntryV_parse s = (case p_json s of Some (JObj kvs) \<Rightarrow> EntryV_fields kvs \<lparr>ev_Id = 0, ev_V = 0\<rparr> | _ \<Rightarrow> None)"

datatype put_pc =
    PSelect                      \<comment> \<open>\<open>OneClientPut\<close>: at the \<open>select\<close>\<close>
  | PPutting string Tversion     \<comment> \<open>\<open>OnePut\<close>: at \<open>PutJson\<close>, with the key and \<open>ver\<close>\<close>
  | PGetting string Tversion Err \<comment> \<open>\<open>OnePut\<close>: at \<open>GetJson\<close>, with the error of the \<open>Put\<close>\<close>
  | PStopped                     \<comment> \<open>\<open>OneClientPut\<close> has returned\<close>
  | PFailed                      \<comment> \<open>\<open>ts.Fatalf\<close>\<close>

record put_client =
  pc_pc :: put_pc
  pc_verm :: "string \<Rightarrow> Tversion"
  pc_res :: ClntRes

definition OneClientPut_start :: put_client where
  "OneClientPut_start = \<lparr>pc_pc = PSelect, pc_verm = (\<lambda>_. 0), pc_res = \<lparr>Nok = 0, Nmaybe = 0\<rparr>\<rparr>"

text \<open>The \<open>select\<close>: stop, or go on with \<open>ka[0]\<close> or a random key.\<close>

definition OneClientPut_select :: "bool \<Rightarrow> string list \<Rightarrow> put_client \<Rightarrow> put_client list" where
  "OneClientPut_select randomkeys ka c =
     (if pc_pc c = PSelect
      then c\<lparr>pc_pc := PStopped\<rparr> # map (\<lambda>k. c\<lparr>pc_pc := PPutting k (pc_verm c k)\<rparr>) (if randomkeys then ka else take 1 ka)
      else [])"

definition OnePut_call :: "nat \<Rightarrow> put_client \<Rightarrow> kvop option" where
  "OnePut_call me c =
     (case pc_pc c of
        PPutting k ver \<Rightarrow> Some (OpPut \<lparr>pa_Key = k, pa_Value = EntryV_json \<lparr>ev_Id = int me, ev_V = ver\<rparr>, pa_Version = ver\<rparr>)
      | PGetting k ver err \<Rightarrow> Some (OpGet \<lparr>ga_Key = k\<rparr>)
      | _ \<Rightarrow> None)"

definition OnePut_put :: "nat \<Rightarrow> Err \<Rightarrow> put_client \<Rightarrow> put_client" where
  "OnePut_put me err c =
     (case pc_pc c of
        PPutting k ver \<Rightarrow>
          if \<not> (err = OK \<or> err = ErrVersion \<or> err = ErrMaybe) then c\<lparr>pc_pc := PFailed\<rparr>
          else c\<lparr>pc_pc := PGetting k ver err\<rparr>
      | _ \<Rightarrow> c)"

text \<open>What \<open>OneClientPut\<close> does when \<open>OnePut\<close> returns \<open>(ver, ok)\<close> for key \<open>k\<close>.\<close>

definition OneClientPut_count :: "string \<Rightarrow> Tversion \<Rightarrow> bool \<Rightarrow> put_client \<Rightarrow> put_client" where
  "OneClientPut_count k ver ok c =
     c\<lparr>pc_pc := PSelect, pc_verm := (pc_verm c)(k := ver),
       pc_res := (if ok then (pc_res c)\<lparr>Nok := Nok (pc_res c) + 1\<rparr> else (pc_res c)\<lparr>Nmaybe := Nmaybe (pc_res c) + 1\<rparr>)\<rparr>"

definition OnePut_get :: "nat \<Rightarrow> GetReply \<Rightarrow> put_client \<Rightarrow> put_client" where
  "OnePut_get me g c =
     (case pc_pc c of
        PGetting k ver err \<Rightarrow>
          if gr_Err g \<noteq> OK then c\<lparr>pc_pc := PFailed\<rparr>
          else (case EntryV_parse (gr_Value g) of
                  None \<Rightarrow> c\<lparr>pc_pc := PFailed\<rparr>
                | Some e \<Rightarrow>
                    let ver0 = gr_Version g
                    in if err = OK \<and> ver0 = ver + 1 \<and> ev_Id e \<noteq> int me \<and> ev_V e \<noteq> ver then c\<lparr>pc_pc := PFailed\<rparr>
                       else if err = OK \<or> err = ErrMaybe then OneClientPut_count k ver0 (err = OK) c
                       else c\<lparr>pc_pc := PPutting k ver0\<rparr>)
      | _ \<Rightarrow> c)"

definition OneClientPut :: "bool \<Rightarrow> string list \<Rightarrow> put_client workload" where
  "OneClientPut randomkeys ka = \<lparr>wl_call = OnePut_call, wl_local = (\<lambda>me. OneClientPut_select randomkeys ka),
     wl_get = OnePut_get, wl_put = OnePut_put\<rparr>"

section \<open>The values are readable\<close>

lemma EntryV_parse_json [simp]: "EntryV_parse (EntryV_json e) = Some e"
proof -
  have "jascii (JObj [(''Id'', JInt (ev_Id e)), (''V'', JInt (uint (ev_V e)))])" by (simp add: ascii_def)
  from p_json_pr [OF this] have p: "p_json (EntryV_json e) = Some (JObj [(''Id'', JInt (ev_Id e)), (''V'', JInt (uint (ev_V e)))])"
    by (simp only: EntryV_json_def)
  have "0 \<le> uint (ev_V e)" "uint (ev_V e) < 2 ^ 64" using uint_lt2p [of "ev_V e"] by simp_all
  then show ?thesis by (simp add: EntryV_parse_def p EntryV_field_def)
qed

section \<open>Counting the \<open>Put\<close>s of concurrent clients\<close>

text \<open>\<open>D i\<close> counts the performed \<open>Put\<close>s of client \<open>i\<close>.  What a client knows about the key: an
  upper bound for the versions it has seen, and how \<open>D i\<close> relates to its results.\<close>

definition own_puts :: "nat \<Rightarrow> int \<Rightarrow> int \<Rightarrow> put_client \<Rightarrow> bool" where
  "own_puts d lo hi c \<longleftrightarrow> Nok (pc_res c) + lo \<le> int d \<and> int d \<le> Nok (pc_res c) + Nmaybe (pc_res c) + hi"

text \<open>After a \<open>Put\<close> of version \<open>v\<close> that returned \<open>err\<close>; \<open>x\<close> is the entry of the key.\<close>

definition put_done :: "bool \<Rightarrow> nat \<Rightarrow> KVEntry option \<Rightarrow> nat \<Rightarrow> Tversion \<Rightarrow> Err \<Rightarrow> put_client \<Rightarrow> bool" where
  "put_done reliable i x d v err c \<longleftrightarrow> x \<noteq> None \<and>
     (if err = OK then own_puts d 1 1 c \<and> unat v < unat (Version (the x)) \<and>
         (unat (Version (the x)) = Suc (unat v) \<longrightarrow> Value (the x) = EntryV_json \<lparr>ev_Id = int i, ev_V = v\<rparr>)
      else if err = ErrMaybe then \<not> reliable \<and> own_puts d 0 1 c
      else err = ErrVersion \<and> own_puts d 0 0 c)"

definition ver_nat :: "KVEntry option \<Rightarrow> nat" where
  "ver_nat x = (case x of None \<Rightarrow> 0 | Some e \<Rightarrow> unat (Version e))"

lemma ver_nat_simps [simp]: "ver_nat None = 0" "ver_nat (Some e) = unat (Version e)"
  by (simp_all add: ver_nat_def)

definition put_client_ok :: "bool \<Rightarrow> string \<Rightarrow> KVEntry option \<Rightarrow> nat \<Rightarrow> nat \<Rightarrow> flight \<Rightarrow> put_client \<Rightarrow> bool" where
  "put_client_ok reliable key x i d f c \<longleftrightarrow>
     (let n = ver_nat x
      in unat (pc_verm c key) \<le> n \<and> (reliable \<longrightarrow> Nmaybe (pc_res c) = 0) \<and>
      (case pc_pc c of
         PSelect \<Rightarrow> f = Idle \<and> own_puts d 0 0 c
       | PStopped \<Rightarrow> f = Idle \<and> own_puts d 0 0 c
       | PPutting k v \<Rightarrow> k = key \<and> unat v \<le> n \<and>
           (case f of
              Idle \<Rightarrow> own_puts d 0 0 c
            | Waiting t r \<Rightarrow> own_puts d 0 0 c \<or> r \<and> own_puts d 0 1 c \<and> unat v < n
            | Returned t (RPut g) \<Rightarrow> put_done reliable i x d v (pr_Err g) c
            | Returned t (RGet g) \<Rightarrow> False) \<and> (reliable \<longrightarrow> (\<forall>t. f \<noteq> Waiting t True))
       | PGetting k v err \<Rightarrow> k = key \<and> put_done reliable i x d v err c \<and>
           (case f of
              Returned t (RGet g) \<Rightarrow> gr_Err g = OK \<and> EntryV_parse (gr_Value g) \<noteq> None \<and> unat (gr_Version g) \<le> n \<and>
                (err = OK \<and> gr_Version g = v + 1 \<longrightarrow> gr_Value g = EntryV_json \<lparr>ev_Id = int i, ev_V = v\<rparr>)
            | Returned t (RPut g) \<Rightarrow> False
            | _ \<Rightarrow> True)
       | PFailed \<Rightarrow> False))"

definition put_test_inv :: "bool \<Rightarrow> nat \<Rightarrow> string \<Rightarrow> (nat \<Rightarrow> nat) \<Rightarrow> put_client clients_sys \<Rightarrow> bool" where
  "put_test_inv reliable n key D s \<longleftrightarrow>
     unat (version_of s key) = (\<Sum>i < n. D i) \<and>
     (\<forall>x. data (cs_srv s) key = Some x \<longrightarrow> EntryV_parse (Value x) \<noteq> None \<and> Version x \<noteq> 0) \<and>
     (\<forall>i < n. put_client_ok reliable key (data (cs_srv s) key) i (D i) (cs_flight s i) (cs_prog s i))"

lemma version_of_ver_nat: "unat (version_of s key) = ver_nat (data (cs_srv s) key)"
  by (simp add: kvsrv.cur_version_def split: option.split)

lemmas put_ok_defs = put_client_ok_def put_done_def own_puts_def Let_def

text \<open>Another client's \<open>Put\<close>.\<close>

lemma put_done_other:
  "put_done reliable i x d v err c \<Longrightarrow> unat (Version x') = Suc (ver_nat x) \<Longrightarrow> put_done reliable i (Some x') d v err c"
  by (auto simp: put_done_def)

lemma put_client_ok_other:
  assumes "put_client_ok reliable key x i d f c" and x': "unat (Version x') = Suc (ver_nat x)"
  shows "put_client_ok reliable key (Some x') i d f c"
proof -
  note pd = put_done_other [OF _ x', of reliable i d]
  show ?thesis
  proof (cases "pc_pc c")
    case (PPutting k v)
    then show ?thesis
      using assms pd by (cases f; cases "\<exists>t g. f = Returned t (RPut g)") (auto simp: put_client_ok_def Let_def split: kvreply.splits)
  next
    case (PGetting k v err)
    then show ?thesis
      using assms pd by (cases f) (auto simp: put_client_ok_def Let_def split: kvreply.splits)
  qed (use assms in \<open>auto simp: put_client_ok_def Let_def\<close>)
qed

text \<open>The client's own steps.\<close>

lemma OneClientPut_select_ok:
  assumes "put_client_ok reliable key x i d Idle c" and "c' \<in> set (OneClientPut_select rk [key] c)"
  shows "put_client_ok reliable key x i d Idle c'"
  using assms by (auto simp: OneClientPut_select_def put_client_ok_def own_puts_def Let_def split: if_splits)

lemma OnePut_call_ok:
  assumes "put_client_ok reliable key x i d Idle c" and "OnePut_call i c = Some op"
  shows "put_client_ok reliable key x i d (Waiting t False) c"
  using assms by (auto simp: OnePut_call_def put_client_ok_def Let_def split: put_pc.splits)

lemma OnePut_call_put:
  assumes "OnePut_call i c = Some (OpPut p)"
  obtains v where "pc_pc c = PPutting (pa_Key p) v" "pa_Version p = v" "pa_Value p = EntryV_json \<lparr>ev_Id = int i, ev_V = v\<rparr>"
  using assms by (auto simp: OnePut_call_def split: put_pc.splits)

lemma OnePut_retry_ok:
  assumes "put_client_ok reliable key x i d (Waiting t r) c" and "OnePut_call i c = Some (OpPut p)" and "\<not> reliable"
  shows "put_client_ok reliable key x i d (Waiting t True) c"
  using assms(2)
proof (rule OnePut_call_put)
  fix v assume "pc_pc c = PPutting (pa_Key p) v"
  then show ?thesis using assms(1,3) by (auto simp: put_client_ok_def Let_def)
qed

lemma OnePut_key:
  assumes "put_client_ok reliable key x i d f c" and "OnePut_call i c = Some (OpPut p)"
  shows "pa_Key p = key" and "unat (pa_Version p) \<le> ver_nat x"
  using assms by (auto elim!: OnePut_call_put simp: put_client_ok_def Let_def)

lemma OnePut_performed_ok:
  assumes ok: "put_client_ok reliable key x i d (Waiting t r) c" and call: "OnePut_call i c = Some (OpPut p)"
    and ver: "unat (pa_Version p) = ver_nat x" and x': "unat (Version x') = Suc (ver_nat x)" "Value x' = pa_Value p"
    and f': "f' = Waiting t True \<and> \<not> reliable \<or> f' = Returned t (RPut \<lparr>pr_Err = OK\<rparr>)"
  shows "put_client_ok reliable key (Some x') i (Suc d) f' c"
  using call
proof (rule OnePut_call_put)
  fix v assume v: "pc_pc c = PPutting (pa_Key p) v" "pa_Version p = v" "pa_Value p = EntryV_json \<lparr>ev_Id = int i, ev_V = v\<rparr>"
  have own: "own_puts d 0 0 c" "pa_Key p = key" using ok ver v by (auto simp: put_client_ok_def Let_def)
  from f' show ?thesis
  proof
    assume "f' = Waiting t True \<and> \<not> reliable"
    then show ?thesis using ok ver v own x' by (auto simp: put_client_ok_def own_puts_def Let_def)
  next
    assume "f' = Returned t (RPut \<lparr>pr_Err = OK\<rparr>)"
    then show ?thesis using ok ver v own x' by (auto simp: put_ok_defs)
  qed
qed

lemma OnePut_refused_ok:
  assumes ok: "put_client_ok reliable key (Some e) i d (Waiting t r) c" and call: "OnePut_call i c = Some (OpPut p)"
  shows "put_client_ok reliable key (Some e) i d (Returned t (RPut \<lparr>pr_Err = clerk_result r ErrVersion\<rparr>)) c"
  using call
proof (rule OnePut_call_put)
  fix v assume v: "pc_pc c = PPutting (pa_Key p) v"
  have "reliable \<longrightarrow> \<not> r" using ok v by (cases r) (auto simp: put_client_ok_def Let_def)
  then show ?thesis using ok v by (cases r) (auto simp: put_ok_defs clerk_result_def)
qed

lemma OnePut_get_ok:
  assumes ok: "put_client_ok reliable key (Some e) i d (Waiting t r) c" and "OnePut_call i c = Some (OpGet a)"
    and "EntryV_parse (Value e) \<noteq> None"
  shows "put_client_ok reliable key (Some e) i d (Returned t (RGet \<lparr>gr_Value = Value e, gr_Version = Version e, gr_Err = OK\<rparr>)) c"
proof -
  obtain k v err where c: "pc_pc c = PGetting k v err" using assms(2) by (auto simp: OnePut_call_def split: put_pc.splits)
  have "unat (v + 1) = Suc (unat v)" if "unat v < unat (Version e)" for v :: Tversion
    using that unsigned_less [of "Version e", where 'a = nat] by (simp add: unat_word_ariths)
  then show ?thesis using ok c assms(3) by (auto simp: put_client_ok_def put_done_def Let_def)
qed

lemma OnePut_put_return_ok:
  assumes "put_client_ok reliable key x i d (Returned t (RPut g)) c" and "OnePut_call i c = Some (OpPut p)"
  shows "put_client_ok reliable key x i d Idle (OnePut_put i (pr_Err g) c)"
  using assms(2)
proof (rule OnePut_call_put)
  fix v assume "pc_pc c = PPutting (pa_Key p) v"
  then show ?thesis using assms(1) by (auto simp: OnePut_put_def put_ok_defs split: if_splits)
qed

lemma OnePut_get_return_ok:
  assumes "put_client_ok reliable key x i d (Returned t (RGet g)) c" and "OnePut_call i c = Some (OpGet a)"
  shows "put_client_ok reliable key x i d Idle (OnePut_get i g c)"
proof -
  obtain k v err where c: "pc_pc c = PGetting k v err" using assms(2) by (auto simp: OnePut_call_def split: put_pc.splits)
  obtain e where e: "EntryV_parse (gr_Value g) = Some e" using assms(1) c by (auto simp: put_client_ok_def Let_def)
  have "err \<in> {OK, ErrMaybe, ErrVersion}" using assms(1) c by (auto simp: put_client_ok_def put_done_def Let_def split: if_splits)
  then show ?thesis
    using assms(1) c e by (auto simp: OnePut_get_def OneClientPut_count_def put_ok_defs)
qed


lemma put_test_same:
  assumes inv: "put_test_inv reliable n key D s" and i: "i < n" and srv: "cs_srv t = cs_srv s"
    and others: "\<And>j. j \<noteq> i \<Longrightarrow> cs_flight t j = cs_flight s j \<and> cs_prog t j = cs_prog s j"
    and own: "put_client_ok reliable key (data (cs_srv s) key) i (D i) (cs_flight t i) (cs_prog t i)"
  shows "put_test_inv reliable n key D t"
proof -
  have "put_client_ok reliable key (data (cs_srv s) key) j (D j) (cs_flight t j) (cs_prog t j)" if "j < n" for j
    using that own others [of j] inv by (cases "j = i") (simp_all add: put_test_inv_def)
  then show ?thesis using inv by (simp add: put_test_inv_def srv)
qed

lemma put_test_performed:
  assumes inv: "put_test_inv reliable n key D s" and i: "i < n"
    and f: "cs_flight s i = Waiting t r" "OnePut_call i (cs_prog s i) = Some (OpPut p)"
    and ver: "pa_Version p = version_of s (pa_Key p)" and up: "unat (version_of s (pa_Key p) + 1) = Suc (unat (version_of s (pa_Key p)))"
    and f': "f' = Waiting t True \<and> \<not> reliable \<or> f' = Returned t (RPut \<lparr>pr_Err = OK\<rparr>)"
  shows "put_test_inv reliable n key (D(i := Suc (D i))) (set_flight i f' (cs_exec p s))"
proof -
  let ?x = "data (cs_srv s) key" and ?x' = "\<lparr>Value = pa_Value p, Version = pa_Version p + 1\<rparr>"
  have ok: "put_client_ok reliable key ?x j (D j) (cs_flight s j) (cs_prog s j)" if "j < n" for j
    using inv that by (simp add: put_test_inv_def)
  have key: "pa_Key p = key" using OnePut_key(1) [OF ok [OF i] f(2)] .
  have x': "unat (Version ?x') = Suc (ver_nat ?x)" using up ver by (simp add: key version_of_ver_nat)
  have new: "data (cs_srv (cs_exec p s)) key = Some ?x'"
    using ver by (auto simp: cs_exec_def KVServer_Put_def key kvsrv.cur_version_def split_beta Let_def split: option.splits)
  have "put_client_ok reliable key (Some ?x') i (Suc (D i)) f' (cs_prog s i)"
    by (rule OnePut_performed_ok [OF ok [OF i, unfolded f(1)] f(2) _ x' _ f']) (use ver in \<open>simp_all add: version_of_ver_nat key\<close>)
  moreover have "put_client_ok reliable key (Some ?x') j (D j) (cs_flight s j) (cs_prog s j)" if "j < n" for j
    using put_client_ok_other [OF ok [OF that] x'] .
  moreover have "(\<Sum>j < n. (D(i := Suc (D i))) j) = Suc (\<Sum>j < n. D j)"
    using i by (simp add: sum.remove [of "{..<n}" i])
  moreover have "EntryV_parse (pa_Value p) \<noteq> None" using f(2) by (auto elim!: OnePut_call_put)
  moreover have "Version ?x' \<noteq> 0" using x' by (metis unat_0 nat.distinct(1))
  moreover have "unat (version_of s key) = (\<Sum>j < n. D j)" using inv by (simp add: put_test_inv_def)
  ultimately show ?thesis
    using new x' by (simp add: put_test_inv_def version_of_ver_nat)
qed

lemma put_test_refused:
  assumes inv: "put_test_inv reliable n key D s" and i: "i < n"
    and f: "OnePut_call i (cs_prog s i) = Some (OpPut p)" and ver: "pa_Version p \<noteq> version_of s (pa_Key p)"
  obtains e where "data (cs_srv s) key = Some e" "pr_Err (fst (KVServer_Put p (cs_srv s))) = ErrVersion"
proof -
  have ok: "put_client_ok reliable key (data (cs_srv s) key) i (D i) (cs_flight s i) (cs_prog s i)"
    using inv i by (simp add: put_test_inv_def)
  note key = OnePut_key [OF ok f]
  have "unat (pa_Version p) \<noteq> ver_nat (data (cs_srv s) key)"
    using ver by (simp add: key(1) word_unat_eq_iff flip: version_of_ver_nat)
  then obtain e where e: "data (cs_srv s) key = Some e" using key(2) by (cases "data (cs_srv s) key") auto
  then show thesis using that cs_exec_refused(2) [OF ver] by (simp add: key(1))
qed

text \<open>One attempt of a call.\<close>

lemma put_test_ok:
  "put_test_inv reliable n key D s \<Longrightarrow> i < n \<Longrightarrow> put_client_ok reliable key (data (cs_srv s) key) i (D i) (cs_flight s i) (cs_prog s i)"
  by (simp add: put_test_inv_def)

lemma put_test_get:
  assumes inv: "put_test_inv reliable n key D s" and i: "i < n" and f: "cs_flight s i = Waiting t r" "OnePut_call i (cs_prog s i) = Some (OpGet a)"
  shows "put_test_inv reliable n key D (set_flight i (Returned t (RGet (KVServer_Get a (cs_srv s)))) s)"
proof -
  note ok = put_test_ok [OF inv i]
  obtain k v err where c: "pc_pc (cs_prog s i) = PGetting k v err" "a = \<lparr>ga_Key = k\<rparr>"
    using f(2) by (auto simp: OnePut_call_def split: put_pc.splits)
  with ok obtain e where e: "data (cs_srv s) key = Some e" "k = key"
    by (auto simp: put_client_ok_def put_done_def Let_def)
  then have "EntryV_parse (Value e) \<noteq> None" using inv by (simp add: put_test_inv_def)
  from OnePut_get_ok [OF ok [unfolded f(1) e(1)] f(2) this] show ?thesis
    using i c e by (intro put_test_same [OF inv]) (auto simp: KVServer_Get_def)
qed

lemma put_test_reply_lost:
  assumes inv: "put_test_inv reliable n key D s" and i: "i < n" and f: "cs_flight s i = Waiting t r" "OnePut_call i (cs_prog s i) = Some (OpPut p)"
    and rel: "\<not> reliable" and up: "\<And>k. cs_puts (cs_exec p s) = Suc (cs_puts s) \<Longrightarrow> unat (version_of s k + 1) = Suc (unat (version_of s k))"
  shows "\<exists>D'. put_test_inv reliable n key D' (set_flight i (Waiting t True) (cs_exec p s))"
proof (cases "pa_Version p = version_of s (pa_Key p)")
  case True
  then show ?thesis
    using put_test_performed [OF inv i f True up, of "Waiting t True"] rel cs_exec_performed(2) [OF True] by auto
next
  case False
  then show ?thesis
    using OnePut_retry_ok [OF put_test_ok [OF inv i, unfolded f(1)] f(2) rel] i cs_exec_refused(1) [OF False]
    by (intro exI [of _ D] put_test_same [OF inv i]) auto
qed

lemma put_test_delivered:
  assumes inv: "put_test_inv reliable n key D s" and i: "i < n" and f: "cs_flight s i = Waiting t r" "OnePut_call i (cs_prog s i) = Some (OpPut p)"
    and err: "err = clerk_result r (pr_Err (fst (KVServer_Put p (cs_srv s))))"
    and up: "\<And>k. cs_puts (cs_exec p s) = Suc (cs_puts s) \<Longrightarrow> unat (version_of s k + 1) = Suc (unat (version_of s k))"
  shows "\<exists>D'. put_test_inv reliable n key D' (set_flight i (Returned t (RPut \<lparr>pr_Err = err\<rparr>)) (cs_exec p s))"
proof (cases "pa_Version p = version_of s (pa_Key p)")
  case True
  then have "err = OK" using err cs_exec_performed(1) [OF True] by (simp add: clerk_result_def)
  then show ?thesis
    using put_test_performed [OF inv i f True up, of "Returned t (RPut \<lparr>pr_Err = OK\<rparr>)"] cs_exec_performed(2) [OF True] by auto
next
  case False
  obtain e where e: "data (cs_srv s) key = Some e" "pr_Err (fst (KVServer_Put p (cs_srv s))) = ErrVersion"
    using put_test_refused [OF inv i f(2) False] .
  show ?thesis
    using OnePut_refused_ok [OF put_test_ok [OF inv i, unfolded f(1) e(1)] f(2)] i err e cs_exec_refused(1) [OF False]
    by (intro exI [of _ D] put_test_same [OF inv i]) auto
qed

lemma put_test_step:
  assumes step: "cs_step reliable n (OneClientPut rk [key]) s t" and inv: "put_test_inv reliable n key D s"
    and le: "\<And>k. unat (version_of s k) \<le> cs_puts s" and lt: "cs_puts t < 2 ^ 64"
  shows "\<exists>D'. put_test_inv reliable n key D' t"
proof -
  note ok = put_test_ok [OF inv] and same = put_test_same [OF inv]
  have up: "unat (version_of s k + 1) = Suc (unat (version_of s k))" if "cs_puts t = Suc (cs_puts s)" for k
    using le [of k] lt that by (simp add: unat_word_ariths)
  note wl [simp] = OneClientPut_def
  show ?thesis
    using step
  proof cases
    case (time t')
    then show ?thesis using inv by (auto simp: put_test_inv_def)
  next
    case (local i c)
    then show ?thesis
      using OneClientPut_select_ok [OF ok [OF local(2), unfolded local(3)]] by (intro exI [of _ D] same [of i]) auto
  next
    case (call i op)
    then show ?thesis
      using OnePut_call_ok [OF ok [OF call(2), unfolded call(3)]] by (intro exI [of _ D] same [of i]) auto
  next
    case (get i t' r a)
    then show ?thesis using put_test_get [OF inv get(2,3)] by auto
  next
    case (request_lost i t' r p)
    then show ?thesis
      using OnePut_retry_ok [OF ok [OF request_lost(3), unfolded request_lost(4)]]
      by (intro exI [of _ D] same [of i]) auto
  next
    case (reply_lost i t' r p)
    then show ?thesis using put_test_reply_lost [OF inv reply_lost(3,4)] up by simp
  next
    case (delivered i t' r p err)
    then show ?thesis using put_test_delivered [OF inv delivered(2,3)] up by simp
  next
    case (got i t' gr a)
    then show ?thesis
      using OnePut_get_return_ok [OF ok [OF got(2), unfolded got(3)]] by (intro exI [of _ D] same [of i]) auto
  next
    case (put i t' pr p)
    then show ?thesis
      using OnePut_put_return_ok [OF ok [OF put(2), unfolded put(3)]] by (intro exI [of _ D] same [of i]) auto
  qed
qed

lemma put_test_reachable:
  assumes "cs_reachable reliable n (OneClientPut rk [key]) (\<lambda>_. OneClientPut_start) s" and "cs_puts s < 2 ^ 64"
  shows "\<exists>D. put_test_inv reliable n key D s"
  using assms
proof induction
  case init
  have "put_test_inv reliable n key (\<lambda>_. 0) (clients_init (\<lambda>_. OneClientPut_start))"
    by (simp add: put_test_inv_def clients_init_def OneClientPut_start_def put_client_ok_def own_puts_def kvsrv.cur_version_def
        MakeKVServer_def)
  then show ?case by blast
next
  case (step s t)
  have lt: "cs_puts s < 2 ^ 64" using cs_step_puts [OF step(2)] step(4) by simp
  obtain lin where "cs_inv n (OneClientPut rk [key]) s lin" using cs_reachable_inv [OF step(1) lt] by blast
  from put_test_step [OF step(2) _ cs_invD(6) [OF this] step(4)] step(3) [OF lt] show ?case by blast
qed

lemma unat_eq_uint: "int (unat (v :: Tversion)) = uint v"
  by simp

lemma len_of_Tversion: "LENGTH(64) = 64"
  by simp

lemma sum_res_eq:
  "Nok (sum_res rs r) = Nok r + (\<Sum>x\<leftarrow>rs. Nok x)" "Nmaybe (sum_res rs r) = Nmaybe r + (\<Sum>x\<leftarrow>rs. Nmaybe x)"
  by (induction rs arbitrary: r) simp_all

text \<open>The clerk of \<open>src/kvsrv1/client.go\<close> when the network delivers.\<close>

definition srv_clerk :: "KVSrv IKVClerk" where
  "srv_clerk = (let ts = [\<lparr>att_others = [], att_net = Delivered\<rparr>]
     in \<lparr>ck_Get = (\<lambda>k s. the (Clerk_Get ts k s)), ck_Put = (\<lambda>k v ver s. the (Clerk_Put ts k v ver s))\<rparr>)"

lemma srv_clerk_Get:
  "ck_Get srv_clerk k s =
     (case data s k of None \<Rightarrow> ('''', 0, ErrNoKey) | Some e \<Rightarrow> (Value e, Version e, OK), s)"
  by (simp add: srv_clerk_def Clerk_Get_def Call_Get_def KVServer_Get_def split: option.split)


lemma GetJson_srv_clerk:
  assumes "data kv key = Some x" and "dec (Value x) = Some v"
  shows "\<exists>ts'. GetJson dec srv_clerk key cli (ts, kv) = Inr ((Version x, v), ts', kv)"
  using assms by (simp add: GetJson_def ts_Get_def srv_clerk_Get Let_def)

text \<open>When every client has stopped, its performed \<open>Put\<close>s are the counted ones.\<close>

lemma stopped_counts:
  assumes inv: "put_test_inv reliable n key D s" and stop: "\<forall>i < n. pc_pc (cs_prog s i) = PStopped"
  defines "rs \<equiv> map (\<lambda>i. pc_res (cs_prog s i)) [0..<n]"
  shows "(\<Sum>r\<leftarrow>rs. Nok r) \<le> int (unat (version_of s key))"
    and "int (unat (version_of s key)) \<le> (\<Sum>r\<leftarrow>rs. Nok r) + (\<Sum>r\<leftarrow>rs. Nmaybe r)"
    and "reliable \<Longrightarrow> (\<Sum>r\<leftarrow>rs. Nmaybe r) = 0"
proof -
  have own: "own_puts (D i) 0 0 (cs_prog s i)" "reliable \<longrightarrow> Nmaybe (pc_res (cs_prog s i)) = 0" if "i < n" for i
    using inv stop that by (auto simp: put_test_inv_def put_client_ok_def Let_def)
  have rs: "(\<Sum>r\<leftarrow>rs. f r) = (\<Sum>i < n. f (pc_res (cs_prog s i)))" for f :: "ClntRes \<Rightarrow> int"
    by (simp add: rs_def comp_def interv_sum_list_conv_sum_set_nat lessThan_atLeast0)
  have v: "int (unat (version_of s key)) = (\<Sum>i < n. int (D i))" using inv by (simp add: put_test_inv_def)
  show "(\<Sum>r\<leftarrow>rs. Nok r) \<le> int (unat (version_of s key))"
    unfolding rs v by (rule sum_mono) (use own(1) in \<open>auto simp: own_puts_def\<close>)
  show "int (unat (version_of s key)) \<le> (\<Sum>r\<leftarrow>rs. Nok r) + (\<Sum>r\<leftarrow>rs. Nmaybe r)"
    unfolding rs v sum.distrib [symmetric] by (rule sum_mono) (use own(1) in \<open>auto simp: own_puts_def\<close>)
  show "(\<Sum>r\<leftarrow>rs. Nmaybe r) = 0" if reliable
    unfolding rs by (rule sum.neutral) (use own(2) that in auto)
qed

text \<open>C10: the concurrent \<open>Put\<close> test passes on the single server.  \<open>n\<close> clients run \<open>OneClientPut\<close> on one key
  at once, over a reliable or unreliable network.  No client fails a check of \<open>OnePut\<close>, and when all
  have stopped, \<open>CheckPutConcurrent\<close> passes: on a reliable network the version of the key is the
  number of \<open>Put\<close>s counted as successful, otherwise it is at most this plus the number of \<open>ErrMaybe\<close>s.
  (Some \<open>Put\<close> must have created the key: the check fails on a missing key.)\<close>
theorem concurrent_puts_counted:
  assumes "cs_reachable reliable n (OneClientPut rk [key]) (\<lambda>_. OneClientPut_start) s" and "cs_puts s < 2 ^ 64"
  defines "rs \<equiv> map (\<lambda>i. pc_res (cs_prog s i)) [0..<n]"
  shows "(\<forall>i < n. pc_pc (cs_prog s i) \<noteq> PFailed) \<and>
    ((\<forall>i < n. pc_pc (cs_prog s i) = PStopped) \<longrightarrow> data (cs_srv s) key = Some x \<longrightarrow> (\<Sum>r\<leftarrow>rs. Nok r + Nmaybe r) < 2 ^ 64 \<longrightarrow>
     (\<exists>res ts'. CheckPutConcurrent EntryV_parse srv_clerk key rs \<lparr>Nok = 0, Nmaybe = 0\<rparr> reliable (ts, cs_srv s) = Inr (res, ts', cs_srv s) \<and>
        Nok res \<le> uint (Version x) \<and> uint (Version x) \<le> Nok res + Nmaybe res \<and> (reliable \<longrightarrow> uint (Version x) = Nok res)))"
proof -
  obtain D where inv: "put_test_inv reliable n key D s" using put_test_reachable [OF assms(1,2)] by blast
  have "\<exists>res ts'. CheckPutConcurrent EntryV_parse srv_clerk key rs \<lparr>Nok = 0, Nmaybe = 0\<rparr> reliable (ts, cs_srv s) = Inr (res, ts', cs_srv s) \<and>
      Nok res \<le> uint (Version x) \<and> uint (Version x) \<le> Nok res + Nmaybe res \<and> (reliable \<longrightarrow> uint (Version x) = Nok res)"
    if stop: "\<forall>i < n. pc_pc (cs_prog s i) = PStopped" and x: "data (cs_srv s) key = Some x"
    and lt: "(\<Sum>r\<leftarrow>rs. Nok r + Nmaybe r) < 2 ^ 64"
  proof -
    have "version_of s key = Version x" using x by (simp add: kvsrv.cur_version_def)
    note n = stopped_counts [OF inv stop, folded rs_def, unfolded this unat_eq_uint]
    have c: "(\<Sum>r\<leftarrow>rs. Nok r) \<le> uint (Version x)" "uint (Version x) \<le> (\<Sum>r\<leftarrow>rs. Nok r) + (\<Sum>r\<leftarrow>rs. Nmaybe r)"
        "reliable \<Longrightarrow> uint (Version x) = (\<Sum>r\<leftarrow>rs. Nok r)"
      using n by simp_all
    obtain v where v: "EntryV_parse (Value x) = Some v" using inv x by (auto simp: put_test_inv_def)
    let ?n = "(\<Sum>r\<leftarrow>rs. Nok r) + (\<Sum>r\<leftarrow>rs. Nmaybe r)"
    have "0 \<le> ?n" using c(2) uint_ge_0 [of "Version x"] by linarith
    moreover have "?n < 2 ^ 64" using lt by (simp add: sum_list_addf)
    ultimately have "uint (word_of_int ?n :: Tversion) = ?n" by (simp only: uint_word_of_int len_of_Tversion mod_pos_pos_trivial)
    then have "Version x \<le> word_of_int ?n" using c(2) by (simp add: word_le_def)
    moreover have "Version x = word_of_int (\<Sum>r\<leftarrow>rs. Nok r)" if reliable using c(3) [OF that] by (metis word_of_int_uint)
    ultimately show ?thesis
      using GetJson_srv_clerk [where dec = EntryV_parse, OF x v, of "- 1" ts] c
      by (auto simp: CheckPutConcurrent_def sum_res_eq Let_def intro!: exI [of _ "sum_res rs \<lparr>Nok = 0, Nmaybe = 0\<rparr>"])
  qed
  moreover have "\<forall>i < n. pc_pc (cs_prog s i) \<noteq> PFailed" using inv by (auto simp: put_test_inv_def put_client_ok_def Let_def)
  ultimately show ?thesis by blast
qed


text \<open>One client puts once and stops.\<close>

definition demo_entry :: KVEntry where
  "demo_entry = \<lparr>Value = EntryV_json \<lparr>ev_Id = 0, ev_V = 0\<rparr>, Version = 1\<rparr>"

lemma demo_put_test:
  "\<exists>s. cs_reachable True 1 (OneClientPut False [''k'']) (\<lambda>_. OneClientPut_start) s \<and> cs_puts s = 1 \<and>
     pc_pc (cs_prog s 0) = PStopped \<and> pc_res (cs_prog s 0) = \<lparr>Nok = 1, Nmaybe = 0\<rparr> \<and> data (cs_srv s) ''k'' = Some demo_entry"
proof -
  let ?w = "OneClientPut False [''k'']"
  let ?R = "cs_reachable True 1 ?w (\<lambda>_. OneClientPut_start)"
  let ?p = "\<lparr>pa_Key = ''k'', pa_Value = Value demo_entry, pa_Version = 0\<rparr>" and ?g = "\<lparr>ga_Key = ''k''\<rparr>"
  let ?r = "\<lparr>gr_Value = Value demo_entry, gr_Version = 1, gr_Err = OK\<rparr>"
  define c0 where "c0 = OneClientPut_start\<lparr>pc_pc := PPutting ''k'' 0\<rparr>"
  define s0 where "s0 = clients_init (\<lambda>_. OneClientPut_start)"
  define s1 where "s1 = set_prog 0 c0 s0"
  define s2 where "s2 = set_flight 0 (Waiting (cs_clock s1) False) s1"
  define s3 where "s3 = set_flight 0 (Returned 0 (RPut \<lparr>pr_Err = OK\<rparr>)) (cs_exec ?p s2)"
  define s4 where "s4 = cs_return (kvtest_Put_op ''k'' (Value demo_entry) 0 OK 0 (cs_clock s3) (int 0)) 0 (OnePut_put 0 OK c0) s3"
  define s5 where "s5 = set_flight 0 (Waiting (cs_clock s4) False) s4"
  define s6 where "s6 = set_flight 0 (Returned 0 (RGet (KVServer_Get ?g (cs_srv s5)))) s5"
  define s7 where "s7 = cs_return (kvtest_Get_op ''k'' ?r 0 (cs_clock s6) (int 0)) 0 (OnePut_get 0 ?r (OnePut_put 0 OK c0)) s6"
  define s8 where "s8 = set_prog 0 ((OnePut_get 0 ?r (OnePut_put 0 OK c0))\<lparr>pc_pc := PStopped\<rparr>) s7"
  note d = s0_def s1_def s2_def s3_def s4_def s5_def s6_def s7_def s8_def c0_def
  note sv = OneClientPut_def OneClientPut_start_def OneClientPut_select_def OnePut_call_def OnePut_put_def OnePut_get_def
    OneClientPut_count_def demo_entry_def clients_init_def cs_exec_def KVServer_Put_def KVServer_Get_def MakeKVServer_def clerk_result_def
  have r0: "?R s0" unfolding s0_def by (rule cs_reachable.init)
  have r1: "?R s1" unfolding s1_def by (rule cs_reachable.step [OF r0 cs_step.local]) (simp_all add: d sv)
  have r2: "?R s2" unfolding s2_def
    by (rule cs_reachable.step [OF r1 cs_step.call [where op = "OpPut ?p"]]) (simp_all add: d sv)
  have r3: "?R s3" unfolding s3_def
    by (rule cs_reachable.step [OF r2 cs_step.delivered [where r = False]]) (simp_all add: d sv)
  have r4: "?R s4"
    using cs_step.put [of 0 1 s3 0 "\<lparr>pr_Err = OK\<rparr>" ?w ?p True]
    by (intro cs_reachable.step [OF r3]) (simp add: s4_def, simp add: d sv)
  have r5: "?R s5" unfolding s5_def
    by (rule cs_reachable.step [OF r4 cs_step.call [where op = "OpGet ?g"]]) (simp_all add: d sv)
  have r6: "?R s6" unfolding s6_def
    by (rule cs_reachable.step [OF r5 cs_step.get [where r = False]]) (simp_all add: d sv)
  have r7: "?R s7"
    using cs_step.got [of 0 1 s6 0 ?r ?w ?g True]
    by (intro cs_reachable.step [OF r6]) (simp add: s7_def, simp add: d sv)
  have r8: "?R s8" unfolding s8_def by (rule cs_reachable.step [OF r7 cs_step.local]) (simp_all add: d sv)
  have "cs_puts s8 = 1 \<and> pc_pc (cs_prog s8 0) = PStopped \<and> pc_res (cs_prog s8 0) = \<lparr>Nok = 1, Nmaybe = 0\<rparr> \<and>
      data (cs_srv s8) ''k'' = Some demo_entry"
    by (simp add: d sv)
  with r8 show ?thesis by blast
qed

theorem concurrent_puts_counted_witness:
  "\<exists>s res ts'. data (cs_srv s) ''k'' = Some demo_entry \<and>
     CheckPutConcurrent EntryV_parse srv_clerk ''k'' [\<lparr>Nok = 1, Nmaybe = 0\<rparr>] \<lparr>Nok = 0, Nmaybe = 0\<rparr> True (kvMakeTest False, cs_srv s) =
       Inr (res, ts', cs_srv (s :: put_client clients_sys)) \<and> Nok res = 1"
proof -
  obtain s where s: "cs_reachable True 1 (OneClientPut False [''k'']) (\<lambda>_. OneClientPut_start) s" "cs_puts s = 1"
      "pc_pc (cs_prog s 0) = PStopped" "pc_res (cs_prog s 0) = \<lparr>Nok = 1, Nmaybe = 0\<rparr>" "data (cs_srv s) ''k'' = Some demo_entry"
    using demo_put_test by blast
  then show ?thesis
    using concurrent_puts_counted [OF s(1), of demo_entry "kvMakeTest False"]
    by (intro exI [of _ s]) (auto simp: demo_entry_def)
qed

end
