(* ===== verification/KvDrive.thy ===== *)
theory KvDrive
  imports KvTest KvRaft
begin

text \<open>
  What the tests of \<open>src/kvtest1/kvtest.go\<close> that one goroutine runs (\<open>PutAtLeastOnce\<close>, \<open>SpreadPuts\<close>)
  may expect of a clerk: the interface \<open>kv_clerk\<close>, the behaviour of the tests on every clerk that
  meets it, and the clerks of the single server and of the replicated service as instances.
\<close>

section \<open>The interface\<close>

locale kv_clerk =
  fixes ck :: "'s IKVClerk" and lookup :: "'s \<Rightarrow> string \<Rightarrow> KVEntry option" and wf :: "'s \<Rightarrow> bool"
  assumes get_result: "wf s \<Longrightarrow>
      fst (ck_Get ck k s) = (case lookup s k of None \<Rightarrow> ('''', 0, ErrNoKey) | Some e \<Rightarrow> (Value e, Version e, OK))"
    and get_keeps: "wf s \<Longrightarrow> lookup (snd (ck_Get ck k s)) = lookup s"
    and get_wf: "wf s \<Longrightarrow> wf (snd (ck_Get ck k s))"
    and put_create: "wf s \<Longrightarrow> lookup s k = None \<Longrightarrow>
      fst (ck_Put ck k v 0 s) = OK \<and> lookup (snd (ck_Put ck k v 0 s)) = (lookup s)(k \<mapsto> \<lparr>Value = v, Version = 1\<rparr>)"
    and put_update: "wf s \<Longrightarrow> lookup s k = Some e \<Longrightarrow> ver = Version e \<Longrightarrow>
      fst (ck_Put ck k v ver s) = OK \<and> lookup (snd (ck_Put ck k v ver s)) = (lookup s)(k \<mapsto> \<lparr>Value = v, Version = ver + 1\<rparr>)"
    and put_stale: "wf s \<Longrightarrow> lookup s k = Some e \<Longrightarrow> ver \<noteq> Version e \<Longrightarrow>
      fst (ck_Put ck k v ver s) = ErrVersion \<and> lookup (snd (ck_Put ck k v ver s)) = lookup s"
    and put_wf: "wf s \<Longrightarrow> wf (snd (ck_Put ck k v ver s))"
begin

lemma CheckGet_passes:
  assumes "wf s" and "lookup s k = Some \<lparr>Value = v, Version = ver\<rparr>"
  shows "\<exists>ts' s'. CheckGet ck k v ver (ts, s) = Inr (ts', s') \<and> wf s' \<and> lookup s' = lookup s"
  using assms get_result [of s k] get_keeps [of s k] get_wf [of s k]
  by (cases "ck_Get ck k s") (auto simp: CheckGet_def ts_Get_def Let_def)

lemma spread_gets_pass:
  assumes "wf s" and "\<forall>(k, v) \<in> set kvs. lookup s k = Some \<lparr>Value = v, Version = 1\<rparr>"
  shows "\<exists>ts' s'. spread_gets ck kvs (ts, s) = Inr (ts', s') \<and> wf s' \<and> lookup s' = lookup s"
  using assms
proof (induction kvs arbitrary: ts s)
  case (Cons kv kvs)
  obtain k v where kv: "kv = (k, v)" by (cases kv)
  obtain ts1 s1 where "CheckGet ck k v 1 (ts, s) = Inr (ts1, s1)" "wf s1" "lookup s1 = lookup s"
    using CheckGet_passes [of s k v 1 ts] Cons.prems by (auto simp: kv)
  moreover from this obtain ts2 s2 where "spread_gets ck kvs (ts1, s1) = Inr (ts2, s2)" "wf s2" "lookup s2 = lookup s1"
    using Cons.IH [of s1 ts1] Cons.prems(2) by auto
  ultimately show ?case by (auto simp: kv)
qed auto

lemma spread_puts_store:
  assumes "wf s" and "distinct (map fst kvs)" and "\<forall>k \<in> set (map fst kvs). lookup s k = None"
  shows "wf (spread_puts ck kvs s) \<and>
    lookup (spread_puts ck kvs s) = (\<lambda>k. case map_of kvs k of None \<Rightarrow> lookup s k | Some v \<Rightarrow> Some \<lparr>Value = v, Version = 1\<rparr>)"
  using assms
proof (induction kvs arbitrary: s)
  case (Cons kv kvs)
  obtain k v where kv: "kv = (k, v)" by (cases kv)
  let ?s = "snd (ck_Put ck k v 0 s)"
  have new: "lookup ?s = (lookup s)(k \<mapsto> \<lparr>Value = v, Version = 1\<rparr>)" "wf ?s"
    using put_create [of s k v] put_wf Cons.prems(1,3) by (simp_all add: kv)
  have "k \<notin> fst ` set kvs" using Cons.prems(2) by (simp add: kv)
  then have none: "map_of kvs k = None" by (simp add: map_of_eq_None_iff)
  have "\<forall>j \<in> set (map fst kvs). lookup ?s j = None" using Cons.prems(3) \<open>k \<notin> fst ` set kvs\<close> by (auto simp: kv new(1))
  then show ?case using Cons.IH [OF new(2)] Cons.prems(2) none by (auto simp: kv new(1) fun_eq_iff split: option.split)
qed auto

lemma SpreadPuts_ok:
  assumes "wf s" and "length va = n" and "\<forall>k \<in> set (MakeKeys n). lookup s k = None" and "distinct (MakeKeys n)"
  shows "\<exists>ts' s'. SpreadPutsSize ck n va (ts, s) = Inr ((MakeKeys n, va), ts', s') \<and> wf s' \<and>
    (\<forall>i < n. lookup s' (MakeKeys n ! i) = Some \<lparr>Value = va ! i, Version = 1\<rparr>)"
proof -
  let ?kvs = "zip (MakeKeys n) va" and ?s = "spread_puts ck (zip (MakeKeys n) va) s"
  have len: "length (MakeKeys n) = n" by (simp add: MakeKeys_def)
  then have fst: "map fst ?kvs = MakeKeys n" using assms(2) by simp
  have st: "wf ?s" "lookup ?s = (\<lambda>k. case map_of ?kvs k of None \<Rightarrow> lookup s k | Some v \<Rightarrow> Some \<lparr>Value = v, Version = 1\<rparr>)"
    using spread_puts_store [of s ?kvs] assms(1,3,4) by (simp_all add: fst)
  have all: "lookup ?s k = Some \<lparr>Value = v, Version = 1\<rparr>" if "(k, v) \<in> set ?kvs" for k v
    using map_of_is_SomeI [OF _ that] assms(4) by (simp add: fst st(2))
  then obtain ts' s' where "spread_gets ck ?kvs (ts, ?s) = Inr (ts', s')" "wf s'" "lookup s' = lookup ?s"
    using spread_gets_pass [OF st(1), of ?kvs ts] by blast
  moreover have "lookup ?s (MakeKeys n ! i) = Some \<lparr>Value = va ! i, Version = 1\<rparr>" if "i < n" for i
    using that len assms(2) by (intro all) (auto simp: set_zip)
  ultimately show ?thesis by (auto simp: SpreadPutsSize_def Let_def)
qed

text \<open>\<open>PutAtLeastOnce\<close> on a key nobody else writes ends after as many attempts as the version is behind.\<close>

lemma PutAtLeastOnce_ends:
  assumes "wf s" and "lookup s k = Some e" and "Version e = ver + of_nat d" and "d < fuel"
  shows "\<exists>ts' s'. PutAtLeastOnce fuel ck k v ver cli (ts, s) = Some (Inr (Version e + 1, ts', s')) \<and> wf s' \<and>
    lookup s' = (lookup s)(k \<mapsto> \<lparr>Value = v, Version = Version e + 1\<rparr>)"
  using assms
proof (induction d arbitrary: fuel ver ts s)
  case 0
  obtain f where "fuel = Suc f" using 0(4) by (cases fuel) auto
  then show ?case
    using put_update [of s k e ver v] put_wf [of s k v ver] 0 by (cases "ck_Put ck k v ver s") (auto simp: ts_Put_def Let_def)
next
  case (Suc d)
  obtain f where f: "fuel = Suc f" using Suc.prems(4) by (cases fuel) auto
  obtain err s1 where p: "ck_Put ck k v ver s = (err, s1)" by (cases "ck_Put ck k v ver s")
  show ?case
  proof (cases "ver = Version e")
    case True
    then show ?thesis
      using put_update [of s k e ver v] put_wf [of s k v ver] Suc.prems(1,2) by (auto simp: f ts_Put_def Let_def split_beta)
  next
    case False
    have "err = ErrVersion" "lookup s1 = lookup s" "wf s1"
      using put_stale [OF Suc.prems(1,2) False, of v] put_wf [OF Suc.prems(1), of k v ver] by (simp_all add: p)
    then show ?thesis using Suc.IH [of s1 "ver + 1" f] Suc.prems f
      by (auto simp: p ts_Put_def Let_def algebra_simps)
  qed
qed

end

section \<open>The clerks\<close>

lemma srv_clerk_Put:
  "ck_Put srv_clerk k v ver s =
    (pr_Err (fst (KVServer_Put \<lparr>pa_Key = k, pa_Value = v, pa_Version = ver\<rparr> s)), snd (KVServer_Put \<lparr>pa_Key = k, pa_Value = v, pa_Version = ver\<rparr> s))"
  by (simp add: srv_clerk_def Clerk_Put_def Call_Put_def split_beta)

interpretation srv_ck: kv_clerk srv_clerk data "\<lambda>_. True"
  by unfold_locales
    (auto simp: srv_clerk_Get srv_clerk_Put KVServer_Put_def split: option.split)

text \<open>The clerk of \<open>src/kvraft1/client.go\<close> when its first call is answered; its state is the clerk and
  the replicated map.\<close>

definition raft_clerk :: "(KvClerk \<times> KvRaft) IKVClerk" where
  "raft_clerk = \<lparr>
     ck_Get = (\<lambda>k (ck, kv). the (KvClerk_Get [\<lparr>call_others = [], call_local = kv, call_end = Answered\<rparr>] k ck kv)),
     ck_Put = (\<lambda>k v ver (ck, kv). the (KvClerk_Put [\<lparr>call_others = [], call_local = kv, call_end = Answered\<rparr>] k v ver ck kv))\<rparr>"

definition has_servers :: "KvClerk \<times> KvRaft \<Rightarrow> bool" where
  "has_servers s = (0 < numServer (fst s))"

lemma get_call:
  "rpc_call KvRaft_DoOp (KvRaft_Get a) \<lparr>call_others = [], call_local = l, call_end = Answered\<rparr> kv = (Some (kvraft_get a kv), kv)"
  by (simp add: rpc_call_def others_do_def KvRaft_Get_def do_op_def DoOp_get reply_of_def)


lemma raft_clerk_Get:
  assumes "0 < numServer ck"
  shows "\<exists>ck'. ck_Get raft_clerk k (ck, kv) =
      ((gr_Value (kvraft_get \<lparr>ga_Key = k\<rparr> kv), gr_Version (kvraft_get \<lparr>ga_Key = k\<rparr> kv), gr_Err (kvraft_get \<lparr>ga_Key = k\<rparr> kv)), ck', kv) \<and>
    numServer ck' = numServer ck"
proof -
  have "gr_Err (kvraft_get \<lparr>ga_Key = k\<rparr> kv) \<noteq> ErrWrongLeader"
    using kvraft.get_miss [OF TrueI, of kv "\<lparr>ga_Key = k\<rparr>"] kvraft.get_hit [OF TrueI, of kv "\<lparr>ga_Key = k\<rparr>"]
    by (cases "KV kv k") auto
  then show ?thesis using assms by (auto simp: raft_clerk_def KvClerk_Get_def server_loop_step get_call conclusive_def)
qed

lemma raft_clerk_Put:
  fixes k v :: string and ver :: Tversion
  assumes "0 < numServer ck"
  defines "p \<equiv> \<lparr>pa_Key = k, pa_Value = v, pa_Version = ver\<rparr>"
  shows "\<exists>ck'. ck_Put raft_clerk k v ver (ck, kv) = (pr_Err (fst (kvraft_put p kv)), ck', snd (kvraft_put p kv)) \<and>
    numServer ck' = numServer ck"
proof -
  have "pr_Err (fst (kvraft_put p kv)) \<noteq> ErrWrongLeader"
    by (cases rule: kvraft.put_cases [OF TrueI, of p kv]) simp_all
  then show ?thesis using assms by (auto simp: raft_clerk_def KvClerk_Put_def server_loop_step put_call conclusive_def)
qed

interpretation raft_ck: kv_clerk raft_clerk "\<lambda>s. KV (snd s)" has_servers
proof unfold_locales
  fix s :: "KvClerk \<times> KvRaft" and k v ver
  assume wf: "has_servers s"
  obtain ck kv where s: "s = (ck, kv)" by (cases s)
  let ?a = "\<lparr>ga_Key = k\<rparr>" and ?p = "\<lparr>pa_Key = k, pa_Value = v, pa_Version = ver\<rparr>"
  obtain c1 where g: "ck_Get raft_clerk k (ck, kv) =
      ((gr_Value (kvraft_get ?a kv), gr_Version (kvraft_get ?a kv), gr_Err (kvraft_get ?a kv)), c1, kv)" "numServer c1 = numServer ck"
    using raft_clerk_Get [of ck k kv] wf by (auto simp: s has_servers_def)
  show "fst (ck_Get raft_clerk k s) = (case KV (snd s) k of None \<Rightarrow> ('''', 0, ErrNoKey) | Some e \<Rightarrow> (Value e, Version e, OK))"
    using kvraft.get_miss [OF TrueI, of kv ?a] kvraft.get_hit [OF TrueI, of kv ?a] by (simp add: s g split: option.split)
  show "KV (snd (snd (ck_Get raft_clerk k s))) = KV (snd s)" "has_servers (snd (ck_Get raft_clerk k s))"
    using wf by (simp_all add: s g has_servers_def)
  obtain c2 where p: "ck_Put raft_clerk k v ver (ck, kv) = (pr_Err (fst (kvraft_put ?p kv)), c2, snd (kvraft_put ?p kv))"
      "numServer c2 = numServer ck"
    using raft_clerk_Put [of ck k v ver kv] wf by (auto simp: s has_servers_def)
  show "has_servers (snd (ck_Put raft_clerk k v ver s))" using wf by (simp add: s p has_servers_def)
  show "fst (ck_Put raft_clerk k v ver s) = OK \<and>
      KV (snd (snd (ck_Put raft_clerk k v ver s))) = (KV (snd s))(k \<mapsto> \<lparr>Value = v, Version = ver + 1\<rparr>)"
    if "KV (snd s) k = Some e" "ver = Version e" for e
    using kvraft.put_update [OF TrueI, of kv ?p e] that p(1) by (simp add: s)
  show "fst (ck_Put raft_clerk k v ver s) = ErrVersion \<and> KV (snd (snd (ck_Put raft_clerk k v ver s))) = KV (snd s)"
    if "KV (snd s) k = Some e" "ver \<noteq> Version e" for e
    using kvraft.put_stale [OF TrueI, of kv ?p e] that p(1) by (simp add: s)
next
  fix s :: "KvClerk \<times> KvRaft" and k v
  assume wf: "has_servers s" and none: "KV (snd s) k = None"
  obtain ck kv where s: "s = (ck, kv)" by (cases s)
  let ?p = "\<lparr>pa_Key = k, pa_Value = v, pa_Version = 0\<rparr>"
  obtain c2 where "ck_Put raft_clerk k v 0 (ck, kv) = (pr_Err (fst (kvraft_put ?p kv)), c2, snd (kvraft_put ?p kv))"
    using raft_clerk_Put [of ck k v 0 kv] wf by (auto simp: s has_servers_def)
  then show "fst (ck_Put raft_clerk k v 0 s) = OK \<and>
      KV (snd (snd (ck_Put raft_clerk k v 0 s))) = (KV (snd s))(k \<mapsto> \<lparr>Value = v, Version = 1\<rparr>)"
    using kvraft.put_create [OF TrueI, of kv ?p] none by (simp add: s)
qed


section \<open>The tests pass\<close>

lemma MakeKeys_distinct: "distinct (MakeKeys n)"
  by (auto simp: MakeKeys_def distinct_map intro!: inj_onI)

text \<open>\<open>SpreadPuts\<close> passes on the replicated service (and in the same way on the single server): from a
  store without the keys, the test writes \<open>n\<close> keys, reads each value back at version 1 and returns
  the keys and values, which are then in the store.\<close>
theorem SpreadPuts_passes:
  assumes "0 < numServer ck" and "length va = n" and "\<forall>k \<in> set (MakeKeys n). KV kv k = None"
  shows "\<exists>ts' ck' kv'. SpreadPutsSize raft_clerk n va (ts, ck, kv) = Inr ((MakeKeys n, va), ts', ck', kv') \<and>
    (\<forall>i < n. KV kv' (''k'' @ itoa (int i)) = Some \<lparr>Value = va ! i, Version = 1\<rparr>)"
  using raft_ck.SpreadPuts_ok [of "(ck, kv)" va n ts] assms MakeKeys_distinct
  by (auto simp: has_servers_def MakeKeys_def)

theorem SpreadPuts_passes_witness:
  "\<exists>ts' ck' kv'. SpreadPutsSize raft_clerk 2 [''a'', ''b''] (kvMakeTest False, \<lparr>numServer = 3, lastLeader = 1\<rparr>,
      \<lparr>kvr_me = 0, kvr_dead = 0, KV = Map.empty\<rparr>) = Inr ((MakeKeys 2, [''a'', ''b'']), ts', ck', kv') \<and>
    KV kv' (''k'' @ itoa 1) = Some \<lparr>Value = ''b'', Version = 1\<rparr>"
proof -
  have 0: "0 < numServer \<lparr>numServer = 3, lastLeader = 1\<rparr>" "length [''a'', ''b''] = 2"
    "\<forall>k \<in> set (MakeKeys 2). KV \<lparr>kvr_me = 0, kvr_dead = 0, KV = Map.empty\<rparr> k = None" by simp_all
  from SpreadPuts_passes [OF 0, of "kvMakeTest False"] show ?thesis by (fastforce dest: spec [of _ 1])
qed

text \<open>\<open>PutAtLeastOnce\<close> ends.  If the version of the key is \<open>d\<close> ahead of the one the test starts from,
  it makes at most \<open>d + 1\<close> attempts; it returns the version after its \<open>Put\<close>, which is performed once.\<close>
theorem PutAtLeastOnce_returns:
  assumes "0 < numServer ck" and "KV kv k = Some e" and "Version e = ver + of_nat d" and "d < fuel"
  shows "\<exists>ts' ck' kv'. PutAtLeastOnce fuel raft_clerk k v ver cli (ts, ck, kv) = Some (Inr (Version e + 1, ts', ck', kv')) \<and>
    KV kv' = (KV kv)(k \<mapsto> \<lparr>Value = v, Version = Version e + 1\<rparr>)"
  using raft_ck.PutAtLeastOnce_ends [of "(ck, kv)" k e ver d fuel v cli ts] assms by (auto simp: has_servers_def)

theorem PutAtLeastOnce_returns_witness:
  "\<exists>ts' ck' kv'. PutAtLeastOnce 4 raft_clerk ''x'' ''b'' 0 7 (kvMakeTest False, \<lparr>numServer = 3, lastLeader = 1\<rparr>,
      \<lparr>kvr_me = 0, kvr_dead = 0, KV = [''x'' \<mapsto> \<lparr>Value = ''a'', Version = 3\<rparr>]\<rparr>) = Some (Inr (4, ts', ck', kv')) \<and>
    KV kv' ''x'' = Some \<lparr>Value = ''b'', Version = 4\<rparr>"
proof -
  have "0 < numServer \<lparr>numServer = 3, lastLeader = 1\<rparr>"
    "KV \<lparr>kvr_me = 0, kvr_dead = 0, KV = [''x'' \<mapsto> \<lparr>Value = ''a'', Version = 3\<rparr>]\<rparr> ''x'' = Some \<lparr>Value = ''a'', Version = 3\<rparr>"
    "Version \<lparr>Value = ''a'', Version = 3\<rparr> = 0 + of_nat 3" "3 < (4 :: nat)" by simp_all
  from PutAtLeastOnce_returns [OF this, of "''b''" 7 "kvMakeTest False"] show ?thesis by force
qed

end
