(* ===== verification/Annot.thy ===== *)
theory Annot
  imports Prelude
begin

text \<open>
  The annotations that the tests collect for the visualisation of a run (\<open>src/tester1/annotation.go\<close>).

  The global variables \<open>annotation\<close> and \<open>finfo\<close> are the state; each function gets the time that
  \<open>timestamp()\<close> returns in it, and where it reads the clock again the second time too.  A nil \<open>finfo\<close> is
  \<open>None\<close>.  A range over a map visits its keys in an order that is an argument.  Environment variables and the
  outcome of opening the output file are arguments; the annotations handed to \<open>porcupine.Visualize\<close> are
  returned.
\<close>

section \<open>State\<close>

record pAnnotation =
  an_Tag :: string
  an_Start :: int
  an_End :: int
  an_Description :: string
  an_Details :: string
  an_BackgroundColor :: string

record Continuous =
  co_start :: int
  co_desp :: string
  co_details :: string
  co_bgcolor :: string

record Annotation =
  annotations :: "pAnnotation list"
  continuous :: "string \<rightharpoonup> Continuous"
  finalized :: bool

record CheckerBegin =
  cb_ts :: int
  cb_details :: string

record FrameworkInfo =
  nservers :: nat
  fi_connected :: "bool list"
  fi_crashed :: "bool list"
  ckbegin :: CheckerBegin

record ann_state =
  annotation :: Annotation
  finfo :: "FrameworkInfo option"

definition COLOR_INFO :: string where "COLOR_INFO = ''#FAFAFA''"
definition COLOR_NEUTRAL :: string where "COLOR_NEUTRAL = ''#FFECB3''"
definition COLOR_SUCCESS :: string where "COLOR_SUCCESS = ''#C8E6C9''"
definition COLOR_FAILURE :: string where "COLOR_FAILURE = ''#FFCDD2''"
definition COLOR_FAULT :: string where "COLOR_FAULT = ''#B3E5FC''"
definition COLOR_USER :: string where "COLOR_USER = ''#FFF176''"

definition TAG_CHECKER :: string where "TAG_CHECKER = ''$ Checker''"
definition TAG_PARTITION :: string where "TAG_PARTITION = ''$ Failure''"
definition TAG_INFO :: string where "TAG_INFO = ''$ Test Info''"

definition mkAnnotation :: Annotation where
  "mkAnnotation = \<lparr>annotations = [], continuous = Map.empty, finalized = False\<rparr>"

definition mkFrameworkInfo :: "nat \<Rightarrow> FrameworkInfo" where
  "mkFrameworkInfo n = \<lparr>nservers = n, fi_connected = replicate n True, fi_crashed = replicate n False,
     ckbegin = \<lparr>cb_ts = 0, cb_details = ''''\<rparr>\<rparr>"

section \<open>The collection of annotations\<close>

definition an_clear :: "Annotation \<Rightarrow> Annotation" where
  "an_clear an = an\<lparr>annotations := [], continuous := Map.empty, finalized := False\<rparr>"

definition annotatePointColor :: "int \<Rightarrow> string \<Rightarrow> string \<Rightarrow> string \<Rightarrow> string \<Rightarrow> Annotation \<Rightarrow> Annotation" where
  "annotatePointColor t tag desp details bgcolor an =
     (let a = \<lparr>an_Tag = tag, an_Start = t, an_End = 0, an_Description = desp, an_Details = details, an_BackgroundColor = bgcolor\<rparr>
      in an\<lparr>annotations := annotations an @ [a]\<rparr>)"

definition annotateIntervalColor :: "int \<Rightarrow> string \<Rightarrow> int \<Rightarrow> string \<Rightarrow> string \<Rightarrow> string \<Rightarrow> Annotation \<Rightarrow> Annotation" where
  "annotateIntervalColor t tag start desp details bgcolor an =
     (let a = \<lparr>an_Tag = tag, an_Start = start, an_End = t, an_Description = desp, an_Details = details, an_BackgroundColor = bgcolor\<rparr>
      in an\<lparr>annotations := annotations an @ [a]\<rparr>)"

text \<open>The annotation that ends \<open>cont\<close> at time \<open>t\<close>.\<close>

definition concretize :: "string \<Rightarrow> int \<Rightarrow> Continuous \<Rightarrow> pAnnotation" where
  "concretize tag t cont = \<lparr>an_Tag = tag, an_Start = co_start cont, an_End = t, an_Description = co_desp cont,
     an_Details = co_details cont, an_BackgroundColor = co_bgcolor cont\<rparr>"

definition annotateContinuousColor :: "int \<Rightarrow> string \<Rightarrow> string \<Rightarrow> string \<Rightarrow> string \<Rightarrow> Annotation \<Rightarrow> Annotation" where
  "annotateContinuousColor t tag desp details bgcolor an =
     (case continuous an tag of
        None \<Rightarrow> an\<lparr>continuous := (continuous an)(tag \<mapsto>
            \<lparr>co_start = t, co_desp = desp, co_details = details, co_bgcolor = bgcolor\<rparr>)\<rparr>
      | Some cont \<Rightarrow> an\<lparr>annotations := annotations an @ [concretize tag t cont],
            continuous := (continuous an)(tag \<mapsto>
              \<lparr>co_start = t + 1000, co_desp = desp, co_details = details, co_bgcolor = bgcolor\<rparr>)\<rparr>)"

text \<open>Without an annotation in progress \<open>cont\<close> is the zero value, and it is recorded all the same.\<close>

definition annotateContinuousEnd :: "int \<Rightarrow> string \<Rightarrow> Annotation \<Rightarrow> Annotation" where
  "annotateContinuousEnd t tag an =
     (let cont = (case continuous an tag of
                    Some cont \<Rightarrow> cont
                  | None \<Rightarrow> \<lparr>co_start = 0, co_desp = '''', co_details = '''', co_bgcolor = ''''\<rparr>)
      in an\<lparr>annotations := annotations an @ [concretize tag t cont], continuous := (continuous an)(tag := None)\<rparr>)"

definition an_finalize :: "string list \<Rightarrow> int \<Rightarrow> Annotation \<Rightarrow> pAnnotation list \<times> Annotation" where
  "an_finalize tags t an =
     (annotations an @ map (\<lambda>tag. concretize tag t (the (continuous an tag))) tags, an\<lparr>finalized := True\<rparr>)"

definition end_annotation :: "int \<Rightarrow> string \<Rightarrow> pAnnotation" where
  "end_annotation t text = \<lparr>an_Tag = TAG_INFO, an_Start = t, an_End = t + 1000, an_Description = text, an_Details = text,
     an_BackgroundColor = COLOR_INFO\<rparr>"

definition FinalizeAnnotations :: "string list \<Rightarrow> int \<Rightarrow> int \<Rightarrow> string \<Rightarrow> ann_state \<Rightarrow> pAnnotation list \<times> ann_state" where
  "FinalizeAnnotations tags t t' text s =
     (let (as, an) = an_finalize tags t (annotation s) in (as @ [end_annotation t' text], s\<lparr>annotation := an\<rparr>))"

text \<open>\<open>VIS_ENABLE\<close>, and the name of the opened file for \<open>VIS_FILE\<close>, or none when it cannot be opened.  The
  result are the annotations that are visualised.\<close>

definition an_cleanup ::
  "string \<Rightarrow> string option \<Rightarrow> string list \<Rightarrow> int \<Rightarrow> int \<Rightarrow> bool \<Rightarrow> string \<Rightarrow> Annotation \<Rightarrow> pAnnotation list option \<times> Annotation" where
  "an_cleanup vis_enable file tags t t' failed text an =
     (if vis_enable = ''never'' \<or> \<not> failed \<and> vis_enable \<noteq> ''always'' \<or> finalized an then (None, an_clear an)
      else let (as, an) = an_finalize tags t an
           in if as = [] then (None, an)
              else let as = as @ [end_annotation t' text]
                   in case file of None \<Rightarrow> (None, an) | Some f \<Rightarrow> (Some as, an))"

section \<open>The functions for the tests\<close>

definition on_annotation :: "(Annotation \<Rightarrow> Annotation) \<Rightarrow> ann_state \<Rightarrow> ann_state" where
  "on_annotation f s = s\<lparr>annotation := f (annotation s)\<rparr>"

definition AnnotatePointColor :: "int \<Rightarrow> string \<Rightarrow> string \<Rightarrow> string \<Rightarrow> string \<Rightarrow> ann_state \<Rightarrow> ann_state" where
  "AnnotatePointColor t tag desp details bgcolor = on_annotation (annotatePointColor t tag desp details bgcolor)"

definition AnnotateIntervalColor :: "int \<Rightarrow> string \<Rightarrow> int \<Rightarrow> string \<Rightarrow> string \<Rightarrow> string \<Rightarrow> ann_state \<Rightarrow> ann_state" where
  "AnnotateIntervalColor t tag start desp details bgcolor = on_annotation (annotateIntervalColor t tag start desp details bgcolor)"

definition AnnotateContinuousColor :: "int \<Rightarrow> string \<Rightarrow> string \<Rightarrow> string \<Rightarrow> string \<Rightarrow> ann_state \<Rightarrow> ann_state" where
  "AnnotateContinuousColor t tag desp details bgcolor = on_annotation (annotateContinuousColor t tag desp details bgcolor)"

definition AnnotateContinuousEnd :: "int \<Rightarrow> string \<Rightarrow> ann_state \<Rightarrow> ann_state" where
  "AnnotateContinuousEnd t tag = on_annotation (annotateContinuousEnd t tag)"

definition Annotate :: "int \<Rightarrow> string \<Rightarrow> string \<Rightarrow> string \<Rightarrow> ann_state \<Rightarrow> ann_state" where
  "Annotate t tag desp details = on_annotation (annotatePointColor t tag desp details COLOR_USER)"

definition AnnotateInterval :: "int \<Rightarrow> string \<Rightarrow> int \<Rightarrow> string \<Rightarrow> string \<Rightarrow> ann_state \<Rightarrow> ann_state" where
  "AnnotateInterval t tag start desp details = on_annotation (annotateIntervalColor t tag start desp details COLOR_USER)"

definition AnnotateContinuous :: "int \<Rightarrow> string \<Rightarrow> string \<Rightarrow> string \<Rightarrow> ann_state \<Rightarrow> ann_state" where
  "AnnotateContinuous t tag desp details = on_annotation (annotateContinuousColor t tag desp details COLOR_USER)"

definition AnnotateInfo :: "int \<Rightarrow> string \<Rightarrow> string \<Rightarrow> ann_state \<Rightarrow> ann_state" where
  "AnnotateInfo t desp details = AnnotatePointColor t TAG_INFO desp details COLOR_INFO"

definition AnnotateInfoInterval :: "int \<Rightarrow> int \<Rightarrow> string \<Rightarrow> string \<Rightarrow> ann_state \<Rightarrow> ann_state" where
  "AnnotateInfoInterval t start desp details = AnnotateIntervalColor t TAG_INFO start desp details COLOR_INFO"

definition AnnotateTest :: "int \<Rightarrow> string \<Rightarrow> nat \<Rightarrow> ann_state \<Rightarrow> ann_state" where
  "AnnotateTest t desp n s =
     (let details = desp @ '' ('' @ itoa (int n) @ '' servers)'';
          s = s\<lparr>finfo := Some (mkFrameworkInfo n), annotation := an_clear (annotation s)\<rparr>
      in AnnotateInfo t details details s)"

definition nil_pointer :: "'a go" where
  "nil_pointer = Inl (GoPanic ''nil pointer'')"

definition AnnotateCheckerBegin :: "int \<Rightarrow> string \<Rightarrow> ann_state \<Rightarrow> ann_state go" where
  "AnnotateCheckerBegin t details s =
     (case finfo s of None \<Rightarrow> nil_pointer | Some fi \<Rightarrow> Inr (s\<lparr>finfo := Some (fi\<lparr>ckbegin := \<lparr>cb_ts = t, cb_details = details\<rparr>\<rparr>)\<rparr>))"

text \<open>The last assignment, \<open>ckbegin.ts = 0\<close>, is to a local copy.\<close>

definition AnnotateCheckerEnd :: "int \<Rightarrow> string \<Rightarrow> string \<Rightarrow> string \<Rightarrow> ann_state \<Rightarrow> ann_state go" where
  "AnnotateCheckerEnd t desp details color s =
     (case finfo s of
        None \<Rightarrow> nil_pointer
      | Some fi \<Rightarrow>
          if cb_ts (ckbegin fi) = 0 then Inr (AnnotatePointColor t TAG_CHECKER desp details color s)
          else let d = cb_details (ckbegin fi) @ '': '' @ details
               in Inr (AnnotateIntervalColor t TAG_CHECKER (cb_ts (ckbegin fi)) desp d color s))"

definition AnnotateCheckerSuccess :: "int \<Rightarrow> string \<Rightarrow> string \<Rightarrow> ann_state \<Rightarrow> ann_state go" where
  "AnnotateCheckerSuccess t desp details = AnnotateCheckerEnd t desp details COLOR_SUCCESS"

definition AnnotateCheckerFailure :: "int \<Rightarrow> string \<Rightarrow> string \<Rightarrow> ann_state \<Rightarrow> ann_state go" where
  "AnnotateCheckerFailure t desp details = AnnotateCheckerEnd t desp details COLOR_FAILURE"

definition AnnotateCheckerNeutral :: "int \<Rightarrow> string \<Rightarrow> string \<Rightarrow> ann_state \<Rightarrow> ann_state go" where
  "AnnotateCheckerNeutral t desp details = AnnotateCheckerEnd t desp details COLOR_NEUTRAL"

definition SetAnnotationFinalized :: "ann_state \<Rightarrow> ann_state" where
  "SetAnnotationFinalized = on_annotation (\<lambda>an. an\<lparr>finalized := True\<rparr>)"

definition GetAnnotationFinalized :: "ann_state \<Rightarrow> bool" where
  "GetAnnotationFinalized s = finalized (annotation s)"


section \<open>Faults\<close>

text \<open>\<open>%v\<close> of a slice of integers, and \<open>copy\<close>.\<close>

fun join_ints :: "nat list \<Rightarrow> string" where
  "join_ints [] = ''''"
| "join_ints [x] = itoa (int x)"
| "join_ints (x # y # xs) = itoa (int x) @ '' '' @ join_ints (y # xs)"

definition fmt_ints :: "nat list \<Rightarrow> string" where
  "fmt_ints xs = ''['' @ join_ints xs @ '']''"

definition go_copy :: "'a list \<Rightarrow> 'a list \<Rightarrow> 'a list" where
  "go_copy dst src = take (length dst) src @ drop (length src) dst"

fun fault_loop :: "nat \<Rightarrow> bool list \<Rightarrow> bool list \<Rightarrow> nat list \<Rightarrow> nat list \<Rightarrow> string \<Rightarrow> (nat list \<times> nat list \<times> string) go" where
  "fault_loop k [] crashed conn crashes b = Inr (conn, crashes, b)"
| "fault_loop k (connected # cs) crashed conn crashes b =
     go_bind (go_nth crashed (int k)) (\<lambda>x.
       if x then fault_loop (k + 1) cs crashed conn (crashes @ [k]) b
       else if connected then fault_loop (k + 1) cs crashed (conn @ [k]) crashes b
       else fault_loop (k + 1) cs crashed conn crashes (b @ ''['' @ itoa (int k) @ ''] ''))"

definition fault_text :: "FrameworkInfo \<Rightarrow> string go" where
  "fault_text fi =
     go_bind (fault_loop 0 (fi_connected fi) (fi_crashed fi) [] [] ''partition = '') (\<lambda>(conn, crashes, b).
       let b = (if 0 < length conn then b @ fmt_ints conn else b);
           b = (if 0 < length crashes then b @ '' / crash = '' @ fmt_ints crashes else b)
       in Inr b)"

definition annotateFault :: "int \<Rightarrow> ann_state \<Rightarrow> ann_state go" where
  "annotateFault t s =
     (case finfo s of
        None \<Rightarrow> nil_pointer
      | Some fi \<Rightarrow>
          if replicate (nservers fi) True = fi_connected fi \<and> replicate (nservers fi) False = fi_crashed fi
          then Inr (AnnotateContinuousEnd t TAG_PARTITION s)
          else go_bind (fault_text fi) (\<lambda>text. Inr (AnnotateContinuousColor t TAG_PARTITION text text COLOR_FAULT s)))"

definition AnnotateConnection :: "int \<Rightarrow> bool list \<Rightarrow> ann_state \<Rightarrow> ann_state go" where
  "AnnotateConnection t connection s =
     (case finfo s of
        None \<Rightarrow> nil_pointer
      | Some fi \<Rightarrow>
          if fi_connected fi = connection then Inr s
          else annotateFault t (s\<lparr>finfo := Some (fi\<lparr>fi_connected := go_copy (fi_connected fi) connection\<rparr>)\<rparr>))"

definition AnnotateTwoPartitions :: "int \<Rightarrow> nat list \<Rightarrow> nat list \<Rightarrow> ann_state \<Rightarrow> ann_state" where
  "AnnotateTwoPartitions t p1 p2 s =
     (let text = ''partition = '' @ fmt_ints p1 @ '' '' @ fmt_ints p2
      in AnnotateContinuousColor t TAG_PARTITION text text COLOR_FAULT s)"

definition AnnotateClearFailure :: "int \<Rightarrow> ann_state \<Rightarrow> ann_state go" where
  "AnnotateClearFailure t s =
     (case finfo s of
        None \<Rightarrow> nil_pointer
      | Some fi \<Rightarrow>
          let fi = fi\<lparr>fi_crashed := map (\<lambda>_. False) (fi_crashed fi), fi_connected := map (\<lambda>_. True) (fi_connected fi)\<rparr>
          in Inr (AnnotateContinuousEnd t TAG_PARTITION (s\<lparr>finfo := Some fi\<rparr>)))"

text \<open>The loop of \<open>AnnotateShutdown\<close> (\<open>b\<close> true) and \<open>AnnotateRestart\<close> (\<open>b\<close> false) over the servers.\<close>

fun set_crashed :: "bool \<Rightarrow> int list \<Rightarrow> bool list \<Rightarrow> bool \<Rightarrow> (bool list \<times> bool) go" where
  "set_crashed b [] crashed changed = Inr (crashed, changed)"
| "set_crashed b (k # ids) crashed changed =
     go_bind (go_nth crashed k) (\<lambda>x.
     go_bind (go_update crashed k b) (\<lambda>crashed. set_crashed b ids crashed (changed \<or> x \<noteq> b)))"

definition annotate_crashes :: "bool \<Rightarrow> int \<Rightarrow> int list \<Rightarrow> ann_state \<Rightarrow> ann_state go" where
  "annotate_crashes b t servers s =
     (case finfo s of
        None \<Rightarrow> nil_pointer
      | Some fi \<Rightarrow> go_bind (set_crashed b servers (fi_crashed fi) False) (\<lambda>(crashed, changed).
          let s = s\<lparr>finfo := Some (fi\<lparr>fi_crashed := crashed\<rparr>)\<rparr>
          in if \<not> changed then Inr s else annotateFault t s))"

definition AnnotateShutdown :: "int \<Rightarrow> int list \<Rightarrow> ann_state \<Rightarrow> ann_state go" where
  "AnnotateShutdown = annotate_crashes True"

definition AnnotateRestart :: "int \<Rightarrow> int list \<Rightarrow> ann_state \<Rightarrow> ann_state go" where
  "AnnotateRestart = annotate_crashes False"

definition AnnotateShutdownAll :: "int \<Rightarrow> ann_state \<Rightarrow> ann_state go" where
  "AnnotateShutdownAll t s =
     (case finfo s of None \<Rightarrow> nil_pointer | Some fi \<Rightarrow> AnnotateShutdown t (map int [0..<nservers fi]) s)"

definition AnnotateRestartAll :: "int \<Rightarrow> ann_state \<Rightarrow> ann_state go" where
  "AnnotateRestartAll t s =
     (case finfo s of None \<Rightarrow> nil_pointer | Some fi \<Rightarrow> AnnotateRestart t (map int [0..<nservers fi]) s)"

definition AnnotateCheckerFailureBeforeExit ::
  "string \<Rightarrow> string option \<Rightarrow> string list \<Rightarrow> int \<Rightarrow> int \<Rightarrow> int \<Rightarrow> string \<Rightarrow> string \<Rightarrow> ann_state \<Rightarrow> (pAnnotation list option \<times> ann_state) go" where
  "AnnotateCheckerFailureBeforeExit vis_enable file tags t t1 t2 desp details s =
     go_bind (AnnotateCheckerFailure t desp details s) (\<lambda>s.
       let (out, an) = an_cleanup vis_enable file tags t1 t2 True ''test failed'' (annotation s)
       in Inr (out, s\<lparr>annotation := an\<rparr>))"

section \<open>The fault annotation follows the faults\<close>

text \<open>What a test may do: report the connections, crashes and restarts of its servers, clear them, run checks and
  annotate under its own tags.\<close>

inductive ann_step :: "nat \<Rightarrow> ann_state \<Rightarrow> ann_state \<Rightarrow> bool" for n where
  connection: "length conn = n \<Longrightarrow> AnnotateConnection t conn s = Inr s' \<Longrightarrow> ann_step n s s'"
| shutdown: "AnnotateShutdown t servers s = Inr s' \<Longrightarrow> ann_step n s s'"
| shutdown_all: "AnnotateShutdownAll t s = Inr s' \<Longrightarrow> ann_step n s s'"
| restart: "AnnotateRestart t servers s = Inr s' \<Longrightarrow> ann_step n s s'"
| restart_all: "AnnotateRestartAll t s = Inr s' \<Longrightarrow> ann_step n s s'"
| clear_failure: "AnnotateClearFailure t s = Inr s' \<Longrightarrow> ann_step n s s'"
| check_begin: "AnnotateCheckerBegin t details s = Inr s' \<Longrightarrow> ann_step n s s'"
| check_end: "AnnotateCheckerEnd t desp details color s = Inr s' \<Longrightarrow> ann_step n s s'"
| point: "ann_step n s (AnnotatePointColor t tag desp details color s)"
| interval: "ann_step n s (AnnotateIntervalColor t tag start desp details color s)"
| continuous: "tag \<noteq> TAG_PARTITION \<Longrightarrow> ann_step n s (AnnotateContinuousColor t tag desp details color s)"
| continuous_end: "tag \<noteq> TAG_PARTITION \<Longrightarrow> ann_step n s (AnnotateContinuousEnd t tag s)"

definition healthy :: "FrameworkInfo \<Rightarrow> bool" where
  "healthy fi \<longleftrightarrow> replicate (nservers fi) True = fi_connected fi \<and> replicate (nservers fi) False = fi_crashed fi"

text \<open>The annotation in progress under the tag for faults is there just when there is a fault, and describes it.\<close>

definition fault_ok :: "nat \<Rightarrow> ann_state \<Rightarrow> bool" where
  "fault_ok n s \<longleftrightarrow> (\<exists>fi. finfo s = Some fi \<and> nservers fi = n \<and> length (fi_connected fi) = n \<and> length (fi_crashed fi) = n \<and>
     (case continuous (annotation s) TAG_PARTITION of
        None \<Rightarrow> healthy fi
      | Some c \<Rightarrow> \<not> healthy fi \<and> fault_text fi = Inr (co_desp c)))"

lemma fault_loop_returns: "k + length cs \<le> length crashed \<Longrightarrow> \<exists>r. fault_loop k cs crashed conn crashes b = Inr r"
  by (induction k cs crashed conn crashes b rule: fault_loop.induct) auto

lemma fault_text_returns: "length (fi_connected fi) = length (fi_crashed fi) \<Longrightarrow> \<exists>text. fault_text fi = Inr text"
  using fault_loop_returns [of 0 "fi_connected fi" "fi_crashed fi" "[]" "[]" "''partition = ''"]
  by (auto simp: fault_text_def Let_def)

lemma annotateFault_ok:
  assumes "finfo s = Some fi" and "nservers fi = n" "length (fi_connected fi) = n" "length (fi_crashed fi) = n"
    and "annotateFault t s = Inr s'"
  shows "fault_ok n s'"
proof (cases "healthy fi")
  case True
  then show ?thesis
    using assms by (auto simp: annotateFault_def healthy_def fault_ok_def AnnotateContinuousEnd_def on_annotation_def annotateContinuousEnd_def)
next
  case False
  obtain descr where descr: "fault_text fi = Inr descr" using fault_text_returns [of fi] assms(3,4) by auto
  then show ?thesis
    using assms False
    by (auto simp: annotateFault_def healthy_def fault_ok_def AnnotateContinuousColor_def on_annotation_def annotateContinuousColor_def
        split: option.splits)
qed

lemma set_crashed_length: "set_crashed b ids crashed ch = Inr (crashed', ch') \<Longrightarrow> length crashed' = length crashed"
  by (induction b ids crashed ch rule: set_crashed.induct) (auto simp: go_bind_eq_Inr_iff go_update_eq_Inr_iff)

lemma set_crashed_unchanged: "set_crashed b ids crashed ch = Inr (crashed', False) \<Longrightarrow> crashed' = crashed \<and> \<not> ch"
proof (induction b ids crashed ch rule: set_crashed.induct)
  case (2 b k ids crashed changed)
  then obtain x c where x: "go_nth crashed k = Inr x" "go_update crashed k b = Inr c" "set_crashed b ids c (changed \<or> x \<noteq> b) = Inr (crashed', False)"
    by (auto simp: go_bind_eq_Inr_iff)
  from "2.IH" [OF x(3)] have "crashed' = c" "\<not> changed" "x = b" by auto
  then show ?case using x(1,2) by (auto simp: go_nth_eq_Inr_iff go_update_eq_Inr_iff)
qed simp

lemma annotate_crashes_ok:
  assumes "fault_ok n s" and "annotate_crashes b t servers s = Inr s'"
  shows "fault_ok n s'"
proof -
  obtain fi where fi: "finfo s = Some fi" "nservers fi = n" "length (fi_connected fi) = n" "length (fi_crashed fi) = n"
    using assms(1) by (auto simp: fault_ok_def)
  obtain crashed ch where c: "set_crashed b servers (fi_crashed fi) False = Inr (crashed, ch)"
    using assms(2) fi(1) by (auto simp: annotate_crashes_def go_bind_eq_Inr_iff)
  let ?s = "s\<lparr>finfo := Some (fi\<lparr>fi_crashed := crashed\<rparr>)\<rparr>"
  show ?thesis
  proof (cases ch)
    case True
    then have "annotateFault t ?s = Inr s'" using assms(2) fi(1) c by (simp add: annotate_crashes_def Let_def)
    from annotateFault_ok [OF _ _ _ _ this] show ?thesis using fi set_crashed_length [OF c] by simp
  next
    case False
    then have "crashed = fi_crashed fi" using set_crashed_unchanged [of b servers "fi_crashed fi" False crashed] c by simp
    then have "?s = s" using fi(1) by simp
    then show ?thesis using assms fi(1) c False by (simp add: annotate_crashes_def Let_def)
  qed
qed


lemma ann_step_ok:
  assumes "ann_step n s s'" and "fault_ok n s"
  shows "fault_ok n s'"
proof -
  obtain fi where fi: "finfo s = Some fi" "nservers fi = n" "length (fi_connected fi) = n" "length (fi_crashed fi) = n"
    using assms(2) by (auto simp: fault_ok_def)
  note plain = fault_ok_def on_annotation_def annotatePointColor_def annotateIntervalColor_def AnnotatePointColor_def AnnotateIntervalColor_def
  show ?thesis
    using assms(1)
  proof cases
    case (connection conn t)
    show ?thesis
    proof (cases "fi_connected fi = conn")
      case True
      then show ?thesis using connection assms(2) fi(1) by (simp add: AnnotateConnection_def)
    next
      case False
      then have "annotateFault t (s\<lparr>finfo := Some (fi\<lparr>fi_connected := go_copy (fi_connected fi) conn\<rparr>)\<rparr>) = Inr s'"
        using connection(2) fi(1) by (simp add: AnnotateConnection_def)
      from annotateFault_ok [OF _ _ _ _ this] show ?thesis using fi connection(1) by (simp add: go_copy_def)
    qed
  next
    case (shutdown t servers)
    then show ?thesis using annotate_crashes_ok [OF assms(2)] by (simp add: AnnotateShutdown_def)
  next
    case (shutdown_all t)
    then show ?thesis using annotate_crashes_ok [OF assms(2)] fi(1) by (auto simp: AnnotateShutdownAll_def AnnotateShutdown_def)
  next
    case (restart t servers)
    then show ?thesis using annotate_crashes_ok [OF assms(2)] by (simp add: AnnotateRestart_def)
  next
    case (restart_all t)
    then show ?thesis using annotate_crashes_ok [OF assms(2)] fi(1) by (auto simp: AnnotateRestartAll_def AnnotateRestart_def)
  next
    case (clear_failure t)
    then show ?thesis
      using fi by (auto simp: AnnotateClearFailure_def fault_ok_def healthy_def AnnotateContinuousEnd_def on_annotation_def
          annotateContinuousEnd_def map_replicate_const Let_def)
  next
    case (check_begin t details)
    then show ?thesis
      using assms(2) fi(1) by (auto simp: AnnotateCheckerBegin_def fault_ok_def healthy_def fault_text_def split: option.splits)
  next
    case (check_end t desp details color)
    then show ?thesis using assms(2) fi(1) by (auto simp: AnnotateCheckerEnd_def plain Let_def split: if_splits option.splits)
  next
    case (continuous tag t desp details color)
    then show ?thesis
      using assms(2) by (auto simp: AnnotateContinuousColor_def on_annotation_def fault_ok_def annotateContinuousColor_def split: option.splits)
  next
    case (continuous_end tag t)
    then show ?thesis
      using assms(2) by (auto simp: AnnotateContinuousEnd_def on_annotation_def fault_ok_def annotateContinuousEnd_def Let_def)
  qed (use assms(2) in \<open>auto simp: plain Let_def\<close>)
qed

lemma AnnotateTest_ok: "fault_ok n (AnnotateTest t desp n s)"
  by (simp add: fault_ok_def AnnotateTest_def AnnotateInfo_def AnnotatePointColor_def on_annotation_def annotatePointColor_def
      mkFrameworkInfo_def an_clear_def healthy_def Let_def)


text \<open>Server 1 of two is shut down.\<close>

definition demo_ann :: ann_state where
  "demo_ann = AnnotateTest 5 ''t'' 2 \<lparr>annotation = mkAnnotation, finfo = None\<rparr>"



section \<open>Where the code departs from its comments\<close>

text \<open>\<open>AnnotateCheckerEnd\<close> does not reset the begin time: the next end without a begin is recorded as an interval
  from the old begin, under the old description.\<close>
theorem stale_checker_begin:
  assumes "AnnotateCheckerBegin t0 d s = Inr s1" and "t0 \<noteq> 0" and "AnnotateCheckerEnd t1 desp1 details1 color1 s1 = Inr s2"
  shows "\<exists>s3. AnnotateCheckerEnd t2 desp2 details2 color2 s2 = Inr s3 \<and>
    last (annotations (annotation s3)) = \<lparr>an_Tag = TAG_CHECKER, an_Start = t0, an_End = t2, an_Description = desp2,
      an_Details = d @ '': '' @ details2, an_BackgroundColor = color2\<rparr>"
  using assms
  by (cases "finfo s")
    (auto simp: AnnotateCheckerBegin_def AnnotateCheckerEnd_def nil_pointer_def AnnotateIntervalColor_def on_annotation_def annotateIntervalColor_def Let_def)

text \<open>Ending a continuous annotation that is not in progress records an empty one from time 0, for instance at
  every \<open>AnnotateClearFailure\<close> of a test without faults.\<close>
theorem clear_without_fault_annotates:
  assumes "finfo s = Some fi" and "continuous (annotation s) TAG_PARTITION = None"
  shows "\<exists>s'. AnnotateClearFailure t s = Inr s' \<and> annotations (annotation s') = annotations (annotation s) @
    [\<lparr>an_Tag = TAG_PARTITION, an_Start = 0, an_End = t, an_Description = '''', an_Details = '''', an_BackgroundColor = ''''\<rparr>]"
  using assms
  by (simp add: AnnotateClearFailure_def AnnotateContinuousEnd_def on_annotation_def annotateContinuousEnd_def concretize_def Let_def)

end
