(* ===== verification/KvAppend.thy ===== *)
theory KvAppend
  imports KvDrive Annot "HOL-Library.AList"
begin

text \<open>
  The append test and the partitioner of \<open>src/kvtest1/kvtest.go\<close>: clients that append their entries to a
  list under one key (\<open>OneClientAppend\<close>), the check of the final list (\<open>CheckAppends\<close>) with what it
  decides, and one round of \<open>Partitioner\<close>.  The two struct types \<open>entry\<close> and \<open>EntryN\<close> are one record.
\<close>

section \<open>Appending\<close>

record EntryN =
  en_Id :: int
  en_N :: int

text \<open>\<open>SpreadPuts\<close> fixes the size of the random values, which are an argument.\<close>

definition SpreadPuts :: "'s IKVClerk \<Rightarrow> nat \<Rightarrow> string list \<Rightarrow> kvTest \<times> 's \<Rightarrow> ((string list \<times> string list) \<times> kvTest \<times> 's) go" where
  "SpreadPuts ck n va = SpreadPutsSize ck n va"

text \<open>The inner loop of \<open>OneClientAppend\<close>: whether the entry \<open>i\<close> of client \<open>cli\<close> was put, or may have been.\<close>

fun append_entry ::
  "nat \<Rightarrow> (EntryN list \<Rightarrow> string) \<Rightarrow> (string \<Rightarrow> EntryN list option) \<Rightarrow> 's IKVClerk \<Rightarrow> int \<Rightarrow> int \<Rightarrow> kvTest \<times> 's \<Rightarrow>
    ((bool \<times> kvTest \<times> 's) go) option" where
  "append_entry 0 enc dec ck cli i ts = None"
| "append_entry (Suc fuel) enc dec ck cli i ts =
     (case GetJson dec ck ''k'' cli ts of
        Inl e \<Rightarrow> Some (Inl e)
      | Inr ((ver, es), ts) \<Rightarrow>
          (let es = es @ [\<lparr>en_Id = cli, en_N = i\<rparr>];
               (err, ts) = PutJson enc ck ''k'' es ver cli ts
           in if err = OK then Some (Inr (True, ts))
              else if err = ErrMaybe then Some (Inr (False, ts))
              else append_entry fuel enc dec ck cli i ts))"

text \<open>The outer loop from iteration \<open>i\<close>, until the signal \<open>done\<close> arrives after \<open>n\<close> more iterations.\<close>

fun append_loop ::
  "nat \<Rightarrow> (EntryN list \<Rightarrow> string) \<Rightarrow> (string \<Rightarrow> EntryN list option) \<Rightarrow> 's IKVClerk \<Rightarrow> int \<Rightarrow> nat \<Rightarrow> int \<Rightarrow> int \<Rightarrow> int \<Rightarrow>
    kvTest \<times> 's \<Rightarrow> ((ClntRes \<times> kvTest \<times> 's) go) option" where
  "append_loop fuel enc dec ck cli 0 i nok nmay ts = Some (Inr (\<lparr>Nok = nok, Nmaybe = nmay\<rparr>, ts))"
| "append_loop fuel enc dec ck cli (Suc n) i nok nmay ts =
     (case append_entry fuel enc dec ck cli i ts of
        None \<Rightarrow> None
      | Some (Inl e) \<Rightarrow> Some (Inl e)
      | Some (Inr (ok, ts)) \<Rightarrow>
          (if ok then append_loop fuel enc dec ck cli n (i + 1) (nok + 1) nmay ts
           else append_loop fuel enc dec ck cli n (i + 1) nok (nmay + 1) ts))"

definition OneClientAppend ::
  "nat \<Rightarrow> (EntryN list \<Rightarrow> string) \<Rightarrow> (string \<Rightarrow> EntryN list option) \<Rightarrow> 's IKVClerk \<Rightarrow> int \<Rightarrow> nat \<Rightarrow> kvTest \<times> 's \<Rightarrow>
    ((ClntRes \<times> kvTest \<times> 's) go) option" where
  "OneClientAppend fuel enc dec ck cli n ts = append_loop fuel enc dec ck cli n 0 0 0 ts"

section \<open>Checking the list\<close>

text \<open>A \<open>map[int]int\<close>, whose iteration order is left to the list.\<close>

definition at_id :: "(int \<times> int) list \<Rightarrow> int \<Rightarrow> int" where
  "at_id m i = (case map_of m i of None \<Rightarrow> 0 | Some x \<Rightarrow> x)"

fun appends_loop :: "EntryN list \<Rightarrow> (int \<times> int) list \<Rightarrow> (int \<times> int) list \<Rightarrow> ((int \<times> int) list \<times> (int \<times> int) list) go" where
  "appends_loop [] expect skipped = Inr (expect, skipped)"
| "appends_loop (e # es) expect skipped =
     (if at_id expect (en_Id e) > en_N e then Inl (LogFatal ''wrong expecting'')
      else if at_id expect (en_Id e) = en_N e
      then appends_loop es (AList.update (en_Id e) (at_id expect (en_Id e) + 1) expect) skipped
      else (let s = en_N e - at_id expect (en_Id e)
            in appends_loop es (AList.update (en_Id e) (en_N e + 1) expect)
                 (AList.update (en_Id e) (at_id skipped (en_Id e) + s) skipped)))"

fun counts_loop :: "(int \<times> int) list \<Rightarrow> (int \<times> int) list \<Rightarrow> ClntRes list \<Rightarrow> unit go" where
  "counts_loop [] skipped rs = Inr ()"
| "counts_loop ((c, n) # expect) skipped rs =
     go_bind (go_nth rs c) (\<lambda>r.
       if at_id skipped c > Nmaybe r then Inl (LogFatal ''skipped puts on server > maybe'')
       else if n > Nok r + Nmaybe r then Inl (LogFatal ''puts on server > ok+maybe'')
       else counts_loop expect skipped rs)"

definition CheckAppends :: "EntryN list \<Rightarrow> nat \<Rightarrow> ClntRes list \<Rightarrow> Tversion \<Rightarrow> unit go" where
  "CheckAppends es nclnt rs ver =
     (let zeros = map (\<lambda>i. (int i, 0)) [0..<nclnt]
      in go_bind (appends_loop es zeros zeros) (\<lambda>(expect, skipped).
           if go_len es + 1 \<noteq> sint ver then Inl (LogFatal ''appends in val != puts on server'')
           else counts_loop expect skipped rs))"

section \<open>The partitioner\<close>

text \<open>One round of the loop of \<open>Partitioner\<close>: \<open>a\<close> are the random bits, one for each server.\<close>

definition Partitioner_parts :: "nat \<Rightarrow> nat list \<Rightarrow> nat list \<times> nat list" where
  "Partitioner_parts n a = (filter (\<lambda>j. a ! j = 0) [0..<n], filter (\<lambda>j. a ! j = 1) [0..<n])"

definition Partitioner_round ::
  "nat list \<Rightarrow> int \<Rightarrow> ('c, 'b, 'sv) grp_net \<times> ann_state \<Rightarrow> (('c, 'b, 'sv) grp_net \<times> ann_state) go" where
  "Partitioner_round a t = (\<lambda>(gn, ann).
     let (p0, p1) = Partitioner_parts (nat (grp_N (fst gn))) a
     in go_bind (Partition (map int p0) (map int p1) gn) (\<lambda>gn. Inr (gn, AnnotateTwoPartitions t p0 p1 ann)))"

section \<open>What \<open>CheckAppends\<close> decides\<close>

text \<open>The numbers of a client's entries, in the order of the list, and the number it should use next.\<close>

definition nums :: "int \<Rightarrow> EntryN list \<Rightarrow> int list" where
  "nums c es = map en_N (filter (\<lambda>e. en_Id e = c) es)"

definition next_num :: "int list \<Rightarrow> int" where
  "next_num ns = (if ns = [] then 0 else last ns + 1)"

text \<open>The numbers grow from 0 on.\<close>

definition growing :: "int list \<Rightarrow> bool" where
  "growing ns \<longleftrightarrow> sorted_wrt (<) ((- 1) # ns)"

lemma at_id_update [simp]: "at_id (AList.update k v m) i = (if i = k then v else at_id m i)"
  by (simp add: at_id_def update_conv')

lemma nums_simps [simp]:
  "nums c [] = []" "nums c (es @ [e]) = (if en_Id e = c then nums c es @ [en_N e] else nums c es)"
  by (simp_all add: nums_def)

lemma growing_snoc: "growing (ns @ [x]) \<longleftrightarrow> growing ns \<and> next_num ns \<le> x"
proof (cases ns rule: rev_cases)
  case (snoc ms y)
  then show ?thesis by (auto simp: growing_def next_num_def sorted_wrt_append)
qed (auto simp: growing_def next_num_def)


text \<open>The two maps after the entries \<open>es\<close>.\<close>

definition maps_after :: "int set \<Rightarrow> EntryN list \<Rightarrow> (int \<times> int) list \<Rightarrow> (int \<times> int) list \<Rightarrow> bool" where
  "maps_after ids es expect skipped \<longleftrightarrow> distinct (map fst expect) \<and> fst ` set expect = ids \<union> en_Id ` set es \<and>
     (\<forall>c. at_id expect c = next_num (nums c es) \<and> at_id skipped c = next_num (nums c es) - go_len (nums c es))"

lemma appends_loop_spec:
  assumes "maps_after ids es0 expect skipped" and "\<forall>c. growing (nums c es0)"
  shows "if \<forall>c. growing (nums c (es0 @ es))
    then \<exists>ex sk. appends_loop es expect skipped = Inr (ex, sk) \<and> maps_after ids (es0 @ es) ex sk
    else \<exists>e. appends_loop es expect skipped = Inl e"
  using assms
proof (induction es arbitrary: es0 expect skipped)
  case Nil
  then show ?case by simp
next
  case (Cons e es)
  let ?c = "en_Id e" and ?es = "es0 @ [e]"
  have x: "at_id expect ?c = next_num (nums ?c es0)" using Cons.prems(1) by (simp add: maps_after_def)
  have app: "es0 @ e # es = ?es @ es" by simp
  show ?case
  proof (cases "next_num (nums ?c es0) > en_N e")
    case True
    then have "\<not> growing (nums ?c ?es)" by (simp add: growing_snoc)
    moreover have "nums ?c (?es @ es) = nums ?c ?es @ nums ?c es" by (simp add: nums_def)
    ultimately have "\<not> growing (nums ?c (?es @ es))" by (auto simp: growing_def sorted_wrt_append)
    then show ?thesis unfolding app using True x by auto
  next
    case False
    then have g: "\<forall>c. growing (nums c ?es)" using Cons.prems(2) by (auto simp: growing_snoc)
    let ?ex = "AList.update ?c (en_N e + 1) expect"
    let ?sk = "if at_id expect ?c = en_N e then skipped else AList.update ?c (at_id skipped ?c + (en_N e - at_id expect ?c)) skipped"
    have ok: "maps_after ids ?es ?ex ?sk"
      using Cons.prems(1) by (auto simp: maps_after_def distinct_update dom_update next_num_def)
    have eq: "appends_loop (e # es) expect skipped = appends_loop es ?ex ?sk" using False x by (auto simp: Let_def)
    show ?thesis unfolding app eq by (rule Cons.IH [OF ok g])
  qed
qed

lemma counts_loop_iff:
  "counts_loop expect skipped rs = Inr () \<longleftrightarrow> (\<forall>(c, n) \<in> set expect. 0 \<le> c \<and> c < go_len rs \<and>
     at_id skipped c \<le> Nmaybe (rs ! nat c) \<and> n \<le> Nok (rs ! nat c) + Nmaybe (rs ! nat c))"
proof (induction expect)
  case (Cons x expect)
  obtain c n where x: "x = (c, n)" by (cases x)
  show ?case
  proof (cases "0 \<le> c \<and> c < go_len rs")
    case True
    then show ?thesis using Cons by (auto simp: x)
  next
    case False
    then have "go_nth rs c = Inl IndexOutOfRange" by (auto simp: go_nth_def)
    then show ?thesis using False by (auto simp: x)
  qed
qed simp

text \<open>The check passes exactly when every client's numbers grow along the list, the list has one entry
  for each \<open>Put\<close> after the first, and for every client the numbers it skipped are covered by its
  inconclusive \<open>Put\<close>s and the numbers it used by all its \<open>Put\<close>s.\<close>
theorem CheckAppends_iff:
  "CheckAppends es nclnt rs ver = Inr () \<longleftrightarrow>
     (\<forall>c. growing (nums c es)) \<and> go_len es + 1 = sint ver \<and>
     (\<forall>c \<in> int ` {0..<nclnt} \<union> en_Id ` set es. 0 \<le> c \<and> c < go_len rs \<and>
        next_num (nums c es) - go_len (nums c es) \<le> Nmaybe (rs ! nat c) \<and>
        next_num (nums c es) \<le> Nok (rs ! nat c) + Nmaybe (rs ! nat c))"
proof -
  let ?zeros = "map (\<lambda>i. (int i, 0 :: int)) [0..<nclnt]" and ?ids = "int ` {0..<nclnt}"
  have "at_id ?zeros c = 0" for c
    by (cases "map_of ?zeros c") (auto simp: at_id_def dest: map_of_SomeD)
  then have 0: "maps_after ?ids [] ?zeros ?zeros" "\<forall>c. growing (nums c [])"
    by (auto simp: maps_after_def next_num_def growing_def comp_def distinct_map inj_on_def image_image)
  show ?thesis
  proof (cases "\<forall>c. growing (nums c es)")
    case True
    then obtain ex sk where r: "appends_loop es ?zeros ?zeros = Inr (ex, sk)" "maps_after ?ids es ex sk"
      using appends_loop_spec [OF 0, of es] by auto
    then have d: "distinct (map fst ex)" "fst ` set ex = ?ids \<union> en_Id ` set es"
      "\<And>c. at_id ex c = next_num (nums c es)" "\<And>c. at_id sk c = next_num (nums c es) - go_len (nums c es)"
      by (auto simp: maps_after_def)
    have ex: "(\<forall>(c, n) \<in> set ex. P c n) \<longleftrightarrow> (\<forall>c \<in> ?ids \<union> en_Id ` set es. P c (next_num (nums c es)))" for P
    proof -
      have "n = next_num (nums c es)" if "(c, n) \<in> set ex" for c n
        using map_of_is_SomeI [OF d(1) that] d(3) [of c] by (simp add: at_id_def)
      then show ?thesis unfolding d(2) [symmetric] by fastforce
    qed
    have "CheckAppends es nclnt rs ver = Inr () \<longleftrightarrow> go_len es + 1 = sint ver \<and> counts_loop ex sk rs = Inr ()"
      by (simp add: CheckAppends_def Let_def r(1))
    then show ?thesis unfolding counts_loop_iff ex d(4) using True by simp
  next
    case False
    then obtain e where "appends_loop es ?zeros ?zeros = Inl e" using appends_loop_spec [OF 0, of es]
      by (simp only: append_Nil if_False False) blast
    then show ?thesis using False by (auto simp: CheckAppends_def Let_def)
  qed
qed

section \<open>The tests pass\<close>

context kv_clerk
begin

text \<open>A client that is alone appends its entries one after the other.\<close>

lemma append_alone:
  assumes "wf s" and "lookup s ''k'' = Some \<lparr>Value = enc es, Version = ver\<rparr>" and "\<And>v. dec (enc v) = Some v"
  shows "\<exists>ts' s'. append_loop (Suc fuel) enc dec ck cli n i nok nmay (ts, s) =
      Some (Inr (\<lparr>Nok = nok + int n, Nmaybe = nmay\<rparr>, ts', s')) \<and> wf s' \<and>
    lookup s' ''k'' = Some \<lparr>Value = enc (es @ map (\<lambda>j. \<lparr>en_Id = cli, en_N = i + int j\<rparr>) [0..<n]), Version = ver + of_nat n\<rparr>"
  using assms(1,2)
proof (induction n arbitrary: s ts es ver i nok)
  case (Suc n)
  obtain ts1 s1 where g: "GetJson dec ck ''k'' cli (ts, s) = Inr ((ver, es), ts1, s1)" "wf s1" "lookup s1 = lookup s"
    using get_result [OF Suc.prems(1), of "''k''"] get_keeps [OF Suc.prems(1), of "''k''"] get_wf [OF Suc.prems(1), of "''k''"] Suc.prems(2) assms(3)
    by (cases "ck_Get ck ''k'' s") (auto simp: GetJson_def ts_Get_def Let_def)
  let ?es = "es @ [\<lparr>en_Id = cli, en_N = i\<rparr>]"
  obtain ts2 s2 where p: "PutJson enc ck ''k'' ?es ver cli (ts1, s1) = (OK, ts2, s2)" "wf s2"
    "lookup s2 = (lookup s)(''k'' \<mapsto> \<lparr>Value = enc ?es, Version = ver + 1\<rparr>)"
    using put_update [OF g(2), of "''k''" "\<lparr>Value = enc es, Version = ver\<rparr>" ver "enc ?es"] put_wf [OF g(2), of "''k''" "enc ?es" ver] g(3) Suc.prems(2)
    by (cases "ck_Put ck ''k'' (enc ?es) ver s1") (auto simp: PutJson_def ts_Put_def Let_def)
  have e: "append_entry (Suc fuel) enc dec ck cli i (ts, s) = Some (Inr (True, ts2, s2))" by (simp add: g(1) p(1))
  have l: "lookup s2 ''k'' = Some \<lparr>Value = enc ?es, Version = ver + 1\<rparr>" by (simp add: p(3))
  have "[0..<Suc n] = 0 # map Suc [0..<n]" by (simp add: upt_conv_Cons map_Suc_upt)
  then have "?es @ map (\<lambda>j. \<lparr>en_Id = cli, en_N = i + 1 + int j\<rparr>) [0..<n] = es @ map (\<lambda>j. \<lparr>en_Id = cli, en_N = i + int j\<rparr>) [0..<Suc n]"
    by (simp del: upt_Suc add: comp_def add.assoc)
  with Suc.IH [OF p(2) l, of "i + 1" "nok + 1" ts2] e show ?case
    by (auto simp del: append_entry.simps upt_Suc simp: algebra_simps)
qed auto

end


text \<open>The append test with one client on the replicated service, from an empty list: all its \<open>Put\<close>s
  succeed and the check of the final list passes.\<close>
theorem append_test_alone:
  assumes "0 < numServer ck" and "KV kv ''k'' = Some \<lparr>Value = enc [], Version = 1\<rparr>" and "\<And>v. dec (enc v) = Some v"
    and "int n + 1 < 2 ^ 63"
  shows "\<exists>ts' ck' kv' es ver. OneClientAppend (Suc fuel) enc dec raft_clerk 0 n (ts, ck, kv) =
      Some (Inr (\<lparr>Nok = int n, Nmaybe = 0\<rparr>, ts', ck', kv')) \<and>
    KV kv' ''k'' = Some \<lparr>Value = enc es, Version = ver\<rparr> \<and> CheckAppends es 1 [\<lparr>Nok = int n, Nmaybe = 0\<rparr>] ver = Inr ()"
proof -
  let ?es = "map (\<lambda>j. \<lparr>en_Id = 0, en_N = int j\<rparr>) [0..<n]"
  have ns: "nums c ?es = (if c = 0 then map int [0..<n] else [])" for c
    by (auto simp: nums_def filter_map comp_def)
  have "sorted_wrt (<) (map int [0..<n])" by (simp add: sorted_wrt_map)
  then have g: "growing (nums c ?es)" for c by (auto simp: ns growing_def)
  have nx: "next_num (map int [0..<n]) = int n" by (cases n) (simp_all add: next_num_def)
  have "sint (word_of_int (1 + int n) :: Tversion) = 1 + int n"
    using assms(4) unfolding int_word_sint by simp
  then have "sint (1 + of_nat n :: Tversion) = 1 + int n" by simp
  then have "CheckAppends ?es 1 [\<lparr>Nok = int n, Nmaybe = 0\<rparr>] (1 + of_nat n) = Inr ()"
    using g nx by (auto simp: CheckAppends_iff ns)
  moreover obtain ts' s' where "append_loop (Suc fuel) enc dec raft_clerk 0 n 0 0 0 (ts, ck, kv) =
      Some (Inr (\<lparr>Nok = int n, Nmaybe = 0\<rparr>, ts', s'))" "KV (snd s') ''k'' = Some \<lparr>Value = enc ?es, Version = 1 + of_nat n\<rparr>"
    using raft_ck.append_alone [where s = "(ck, kv)" and es = "[]" and i = 0 and nok = 0 and nmay = 0 and dec = dec and enc = enc and ver = 1
        and n = n and fuel = fuel and cli = 0 and ts = ts] assms(1-3) by (auto simp: has_servers_def)
  ultimately show ?thesis unfolding OneClientAppend_def by (cases s') auto
qed

text \<open>One round of the partitioner splits the servers of a group: afterwards two servers are linked if
  and only if they drew the same bit.\<close>
theorem Partitioner_splits:
  assumes "wf_grp sg" and "length a = length (sg_srvs sg)" and "set a \<subseteq> {0, 1}"
  shows "\<exists>conn n' ann'. Partitioner_round a t ((sg, n), ann) = Inr ((sg\<lparr>sg_connected := conn\<rparr>, n'), ann') \<and>
    (\<forall>i < length a. \<forall>j < length a. enabled n' sg (int i) (int j) \<longleftrightarrow> a ! i = a ! j)"
proof -
  let ?p0 = "filter (\<lambda>j. a ! j = 0) [0..<length a]" and ?p1 = "filter (\<lambda>j. a ! j = 1) [0..<length a]"
  have bit: "a ! i = 0 \<or> a ! i = 1" if "i < length a" for i using assms(3) nth_mem [OF that] by auto
  have n: "nat (grp_N sg) = length a" by (simp add: grp_N_def assms(2))
  have in_grp: "\<forall>j \<in> set (map int ?p0) \<union> set (map int ?p1). in_grp sg j" by (auto simp: grp_N_def assms(2))
  have disj: "set (map int ?p0) \<inter> set (map int ?p1) = {}" by auto
  obtain conn n' where p: "Partition (map int ?p0) (map int ?p1) (sg, n) = Inr (sg\<lparr>sg_connected := conn\<rparr>, n')"
    "\<forall>x \<in> set (map int ?p0) \<union> set (map int ?p1). \<forall>y \<in> set (map int ?p0) \<union> set (map int ?p1).
       enabled n' sg x y \<longleftrightarrow> (x \<in> set (map int ?p0) \<longleftrightarrow> y \<in> set (map int ?p0))"
    using Partition_links [OF assms(1) in_grp disj, of n] by blast
  have mem: "int i \<in> set (map int ?p0) \<union> set (map int ?p1)" "int i \<in> set (map int ?p0) \<longleftrightarrow> a ! i = 0" if "i < length a" for i
    using that bit [OF that] by auto
  have "enabled n' sg (int i) (int j) \<longleftrightarrow> a ! i = a ! j" if "i < length a" "j < length a" for i j
    using p(2) mem [OF that(1)] mem [OF that(2)] bit [OF that(1)] bit [OF that(2)] by fastforce
  moreover have "Partitioner_round a t ((sg, n), ann) = Inr ((sg\<lparr>sg_connected := conn\<rparr>, n'), AnnotateTwoPartitions t ?p0 ?p1 ann)"
    using p(1) by (simp add: Partitioner_round_def Partitioner_parts_def n)
  ultimately show ?thesis by blast
qed

end
