(* ===== verification/KvCheck.thy ===== *)
theory KvCheck
  imports KvHistory Annot
begin

text \<open>
  The check of a recorded history (\<open>checkPorcupine\<close> of \<open>src/kvtest1/porcupine.go\<close>).  The porcupine package is
  not part of the repository: \<open>porcupine.CheckOperationsVerbose\<close> with its timeout is the parameter \<open>check\<close>, of
  which the documentation says that it answers \<open>Illegal\<close> only for a history that is not linearizable.
  Opening the output file and \<open>porcupine.Visualize\<close> succeed or fail as the arguments say.  What is printed is
  returned.
\<close>

datatype CheckResult = Illegal | Unknown | CheckOk

record vis_env =
  VIS_ENABLE :: string
  VIS_FILE :: string
  vis_open :: "string option"  \<comment> \<open>the name of the opened file\<close>
  vis_ok :: bool  \<comment> \<open>\<open>Visualize\<close> succeeds\<close>
  vis_tags :: "string list"
  vis_time :: int

text \<open>The block that writes the file, once it is open.\<close>

definition visualize :: "vis_env \<Rightarrow> string \<Rightarrow> string \<Rightarrow> ann_state \<Rightarrow> string list \<times> ann_state" where
  "visualize env f end_text s =
     (let (as, s) = FinalizeAnnotations (vis_tags env) (vis_time env) (vis_time env) end_text s
      in (if \<not> vis_ok env then [''info: failed to write history visualization to '' @ f]
          else [''info: wrote history visualization to '' @ f], s))"

definition open_failed :: "vis_env \<Rightarrow> string" where
  "open_failed env = ''info: failed to open visualization file '' @ VIS_FILE env"

text \<open>What is printed for an illegal history, and the annotations, before \<open>t.Fatal\<close>.\<close>

definition report_illegal :: "vis_env \<Rightarrow> ann_state \<Rightarrow> string list \<times> ann_state" where
  "report_illegal env s =
     (case vis_open env of
        None \<Rightarrow> ([open_failed env], s)
      | Some f \<Rightarrow> if VIS_ENABLE env \<noteq> ''never'' then visualize env f ''test failed'' s else ([], s))"

text \<open>What is printed, the annotations, and how the check ends: \<open>t.Fatal\<close> or a return.\<close>

definition checkPorcupine :: "(Operation list \<Rightarrow> CheckResult) \<Rightarrow> vis_env \<Rightarrow> OpLog \<Rightarrow> ann_state \<Rightarrow> string list \<times> ann_state \<times> unit go" where
  "checkPorcupine check env opLog s =
     (let res = check opLog
      in if res = Illegal
         then (let (msg, s) = report_illegal env s in (msg, s, Inl (LogFatal ''history is not linearizable'')))
         else let out = (if res = Unknown then [''info: linearizability check timed out, assuming history is ok''] else [])
              in if VIS_ENABLE env = ''always'' \<and> GetAnnotationFinalized s
                 then (case vis_open env of
                         None \<Rightarrow> (out @ [open_failed env], s, Inr ())
                       | Some f \<Rightarrow> let (msg, s) = visualize env f ''test passed'' s in (out @ msg, s, Inr ()))
                 else (out, s, Inr ()))"

section \<open>The check passes on the single server\<close>

text \<open>The documented behaviour of the checker.\<close>

definition sound_checker :: "(Operation list \<Rightarrow> CheckResult) \<Rightarrow> bool" where
  "sound_checker check \<longleftrightarrow> (\<forall>h. check h = Illegal \<longrightarrow> (\<exists>part \<in> set (KvModel_Partition h). \<not> linearizable part))"

text \<open>The linearizability check of the tests passes on every history of concurrent clients of the key/value
  server: whatever the clients do and the network loses, once all calls have returned \<open>checkPorcupine\<close> does not
  fail the test, and it leaves the annotations alone or finalizes them.\<close>
theorem checkPorcupine_passes:
  assumes "cs_reachable reliable n w prog s" and "\<forall>i < n. cs_flight s i = Idle" and "cs_puts s < 2 ^ 64"
    and "\<forall>op \<in> set (cs_log s). in_Op (op_Input op) = 1 \<longrightarrow> out_Err (op_Output op) \<noteq> ''ErrNoKey''"
    and "sound_checker check"
  shows "\<exists>out s'. checkPorcupine check env (cs_log s) a = (out, s', Inr ()) \<and> finfo s' = finfo a \<and>
    annotations (annotation s') = annotations (annotation a)"
proof -
  have "linearizable part" if "part \<in> set (KvModel_Partition (cs_log s))" for part
    using concurrent_linearizable [OF assms(1-4) that] .
  then have "check (cs_log s) \<noteq> Illegal" using assms(5) unfolding sound_checker_def by blast
  then show ?thesis
    by (auto simp: checkPorcupine_def visualize_def FinalizeAnnotations_def an_finalize_def Let_def split: option.split)
qed

text \<open>A checker that answers \<open>CheckOk\<close> for histories with few operations and gives up on others.\<close>

theorem checkPorcupine_passes_witness:
  "\<exists>out s'. checkPorcupine (\<lambda>h. if length h < 100 then CheckOk else Unknown)
      \<lparr>VIS_ENABLE = ''always'', VIS_FILE = '''', vis_open = Some ''f'', vis_ok = True, vis_tags = [], vis_time = 3\<rparr>
      demo_ops \<lparr>annotation = mkAnnotation, finfo = None\<rparr> = (out, s', Inr ())"
proof -
  obtain s where s: "cs_reachable False 2 demo_wl (\<lambda>_. 0) s" "\<forall>i < 2. cs_flight s i = Idle" "cs_puts s = 1" "cs_log s = demo_ops"
    using demo_history by blast
  have "sound_checker (\<lambda>h. if length h < 100 then CheckOk else Unknown)" by (simp add: sound_checker_def)
  from checkPorcupine_passes [OF s(1,2) _ _ this] s(3,4) show ?thesis by (fastforce simp: demo_ops_def kvtest_Put_op_def)
qed

end
