(* ===== verification/Spec2Isabelle.thy ===== *)
theory Spec2Isabelle
  imports Lock RaftPeer KvRaft ShardCtrler MrCoord MrApps RaftCommit RaftLive RaftRun RaftTest LabGob TestCfg KvDrive KvAppend KvCheck
begin

text \<open>
  A verification library for the 6.824 (6.5840) distributed-systems labs: a MapReduce system, a
  key/value server with a lock, Raft, a key/value service replicated with Raft and a sharded one, and
  the test framework they run in.  File names below are relative to the repository.

  \<^bold>\<open>The program and its parts.\<close>  Everything that communicates does so over the simulated network
  \<open>src/labrpc\<close>, which loses, delays and reorders calls; the framework \<open>src/tester1\<close> creates
  servers and client ends on it, partitions, crashes and restarts them.  \<open>src/kvsrv1\<close> is one server with
  versioned keys and a clerk that retries, on which \<open>src/kvsrv1/lock\<close> builds a lock.  \<open>src/raft1\<close> keeps a
  replicated log and persists its state; \<open>src/kvraft1/rsm\<close> feeds the committed commands of Raft to a
  state machine; \<open>src/kvraft1\<close> and \<open>src/shardkv1/shardgrp\<close> are such state machines with their clerks.
  \<open>src/shardkv1/shardcfg\<close> assigns shards to groups, \<open>src/shardkv1/shardctrler\<close> moves shards between
  groups and keeps the configuration in a key of \<open>src/kvsrv1\<close>, and \<open>src/shardkv1/client.go\<close> finds the
  group of a key.  \<open>src/mr\<close> is independent of these.  The tests record the operations of
  clients and check them against the model \<open>src/models1/kv.go\<close>.

  \<^bold>\<open>Conventions\<close> (theory \<open>Prelude\<close>).  A struct is a record, an enumeration a datatype, a map a function
  to options or an association list where its order matters.  \<open>int\<close> of Go is \<open>int\<close> where the code
  counts events that cannot overflow in practice; versions, configuration numbers and atomic counters are words of
  their width.  Each panic, \<open>log.Fatalf\<close> and index out of range is an error value
  (\<open>'a go = go_error + 'a\<close>, with \<open>go_bind\<close>).  Code under one lock is one function or one step; code that gives
  up the lock, or runs without it, is split into steps at these points, and a step relation
  interleaves them with the steps of the others.  Time does not occur: a timer may fire at any moment.  Random
  choices and fresh names are arguments.  A loop over the network is driven by a script (one
  element per attempt: what other clients do before it and what is lost), \<open>None\<close> means that the script ended
  before the loop did; a theorem that a loop returns says which script is enough.

  \<^bold>\<open>Key/value server, clerk and lock.\<close>
  \<^item> \<open>Rpc\<close>: the types of \<open>src/kvsrv1/rpc/rpc.go\<close> and the interface \<open>versioned_kv\<close> (a locale) of a store with
    versioned \<open>Put\<close>s: its laws, and what follows from them once for every store.
  \<^item> \<open>KvModel\<close>: the specification \<open>src/models1/kv.go\<close> and the recorded operations of
    \<open>src/kvtest1/porcupine.go\<close>; every run of a \<open>versioned_kv\<close> is accepted by the specification.
  \<^item> \<open>KVSrv\<close>: \<open>src/kvsrv1/server.go\<close> and \<open>client.go\<close>; an instance of the interface; a clerk's
    \<open>Put\<close> is performed at most once, and exactly once when it answers \<open>OK\<close>.
  \<^item> \<open>KvHistory\<close>: any number of concurrent clients with overlapping calls; the recorded history is
    linearizable.
  \<^item> \<open>Lock\<close>: \<open>src/kvsrv1/lock/lock.go\<close> for any number of clients, one server call per step; mutual exclusion.

  \<^bold>\<open>Raft.\<close>
  \<^item> \<open>Persist\<close>: \<open>src/tester1/persister.go\<close> and the encoded state.
  \<^item> \<open>RaftNode\<close>: one peer, \<open>src/raft1/raft.go\<close>, \<open>raft_vote.go\<close>, \<open>raft_append_entries.go\<close>,
    \<open>raft_install_snapshot.go\<close>: handlers, the goroutines that wait for replies, the ticker, and the goroutine
    that applies entries, the last two as steps with a program counter.
  \<^item> \<open>RaftProps\<close>: the invariant \<open>wf_raft\<close> of a peer, what each handler does, and that none panics.
  \<^item> \<open>RaftPeer\<close>: what a peer guarantees in any environment: delivery in order, commit by majority, recovery,
    and counterexamples for what it does not guarantee.
  \<^item> \<open>RaftCluster\<close>: a cluster with requests delayed, repeated and lost and peers restarted; election safety.
  \<^item> \<open>RaftLog\<close>: log matching across any two moments of a run.
  \<^item> \<open>RaftCommit\<close>: what a leader knows of its followers; committed entries were replicated on a majority.
  \<^item> \<open>RaftLive\<close>: from every reachable state, any majority of the peers can elect a leader.
  \<^item> \<open>RaftRun\<close>: an interpreter that runs a cluster on a schedule, sound for the cluster's steps, and two computed runs: a
    committed command is replaced by another one, and a command is skipped by the applier.
  \<^item> \<open>RaftTest\<close>: the test server \<open>src/raft1/server.go\<close> and the checks of \<open>src/raft1/test.go\<close>, which pass.

  \<^bold>\<open>Services on Raft.\<close>
  \<^item> \<open>Rsm\<close>: \<open>src/kvraft1/rsm\<close>: the reader of committed commands and concurrent \<open>Submit\<close>s over shared
    channels; the interface \<open>state_machine\<close> (a locale: replies depend on the abstract state only, snapshots restore it).
  \<^item> \<open>RsmLog\<close>: all servers together, fed by Raft from one log or from snapshots and restarted at any time; whatever a
    \<open>Submit\<close> returns on any of them is the reply of one sequential execution of the log.
  \<^item> \<open>Clerks\<close>: the loop of a clerk over the servers of a group, with the calls as scripts.
  \<^item> \<open>KvRaft\<close>: \<open>src/kvraft1\<close>, an instance of \<open>state_machine\<close> and of \<open>versioned_kv\<close>.
  \<^item> \<open>ShardGrp\<close>: \<open>src/shardkv1/shardgrp\<close>, with freezing, installing and deleting of shards.
  \<^item> \<open>Fnv\<close>, \<open>ShardCfg\<close>, \<open>Json\<close>, \<open>CfgString\<close>: \<open>src/shardkv1/shardcfg/shardcfg.go\<close>: hash, joining, leaving and
    rebalancing, and the JSON text of a configuration with its round trip.
  \<^item> \<open>ShardCtrler\<close>: \<open>src/shardkv1/shardctrler\<close> and \<open>src/shardkv1/client.go\<close>: moving shards keeps all data, a
    controller that restarts completes the move, a client reads the current value.

  \<^bold>\<open>MapReduce.\<close>
  \<^item> \<open>MrTasks\<close>: the two task handlers of \<open>src/mr/worker.go\<close> on a file system of named contents,
    \<open>src/main/mrsequential.go\<close>, and the applications of \<open>src/mrapps\<close> that are functions.
  \<^item> \<open>MrCoord\<close>: \<open>src/mr/coordinator.go\<close> with any number of workers that crash and time out; the output of a finished run
    is that of the sequential program, and a run can always be finished.
  \<^item> \<open>MrApps\<close>: the applications of \<open>src/mrapps\<close> that crash, count their calls or count the workers at work.

  \<^bold>\<open>Network and tests.\<close>
  \<^item> \<open>LabRpc\<close>: \<open>src/labrpc/labrpc.go\<close>: tables, dispatch and a call as steps of its goroutines; a handler runs
    at most once per call, and no reply of a deleted server arrives.
  \<^item> \<open>LabGob\<close>: the checks of \<open>src/labgob/labgob.go\<close> on types and values; they terminate on recursive types.
  \<^item> \<open>TestNet\<close>, \<open>TestCfg\<close>: \<open>srv.go\<close>, \<open>group.go\<close>, \<open>clnts.go\<close> and \<open>config.go\<close> of \<open>src/tester1\<close>: a new group
    is fully connected, a partition separates exactly its parts, a group that exits is unreachable.
  \<^item> \<open>Annot\<close>: \<open>src/tester1/annotation.go\<close>; the fault annotation follows the faults.
  \<^item> \<open>KvTest\<close>: \<open>src/kvtest1/kvtest.go\<close>; the concurrent \<open>Put\<close> test passes on the single server.
  \<^item> \<open>KvDrive\<close>: the interface \<open>kv_clerk\<close> (a locale) that the tests of one goroutine rely on, with the clerks of the single
    server and of the replicated service as instances.
  \<^item> \<open>KvAppend\<close>: the append test, with an exact description of what \<open>CheckAppends\<close> accepts, and the partitioner.
  \<^item> \<open>KvCheck\<close>: \<open>checkPorcupine\<close>, with the checker of the porcupine package as a parameter.

  \<^bold>\<open>Bounds and fuel.\<close>  Versions are 64-bit words: theorems that count \<open>Put\<close>s assume fewer than \<open>2 ^ 64\<close> of them.
  \<open>Rebalance\<close> is a while loop whose termination is proved.  The depth in \<open>checkType\<close> is a fuel that a
  theorem bounds by the size of the type table.  \<open>PutAtLeastOnce\<close> needs as much fuel as the version is behind, plus one.

  \<^bold>\<open>Where the code departs from its comments\<close> or from what it means to do, a theorem or lemma shows it: an
  \<open>AppendEntries\<close> that arrives late removes acknowledged entries, so that a committed command may be replaced; the applying goroutine may skip a command or
  panic after an \<open>InstallSnapshot\<close>, and hands an old snapshot to the service, which loses what came after it; a \<open>Put\<close> that passes the test for a frozen shard before the shard is frozen is lost; two
  \<open>Submit\<close>s may share a channel; the replicated clerk may deny a performed \<open>Put\<close>; the specification rejects
  \<open>ErrNoKey\<close>; and others in the test framework.

  \<^bold>\<open>Not modelled.\<close>
  \<^item> The aliasing of \<open>Entries\<close> in a request with the log of the leader until it is encoded: a request holds a copy.
    (The aliasing is a data race of the code.)
  \<^item> Leader completeness and state machine safety of Raft do not hold, as \<open>RaftRun\<close> shows: a delayed \<open>AppendEntries\<close>
    makes a follower forget entries it has acknowledged, on which they rest.
  \<^item> Sleeping, timeouts and real time, except as nondeterministic choices.
  \<^item> Two workers that write the same temporary file of a map task at once (\<open>src/mr/worker.go\<close> names it by the
    task only); files are names with contents, without inodes.
  \<^item> JSON texts with escapes outside ASCII, nulls and field names in other case; texts that are not ASCII in the
    MapReduce applications.
  \<^item> The standard library's gob encoder: what Raft encodes is kept as a list of values.
  \<^item> The drivers that start goroutines in \<open>kvtest.go\<close> and in \<open>*_test.go\<close>; printing of stack
    traces; the handler of the interrupt signal; the command lines in \<open>src/main\<close>, some of which are for packages that are not in
    the repository.
\<close>

end
